(* ===== verification/Prelude.thy ===== *)
theory Prelude
  imports Main "HOL-Library.AList" "HOL-Library.Multiset"
begin

text \<open>
  Shared base of the development: the collections of rewrite rules the component
  theories use, SQL tables as association lists keyed by their primary key, and the
  interfaces (locales) that several components share.
\<close>

section \<open>Collections\<close>

named_theorems check_defs \<open>definitions of the checks an operation makes before it acts\<close>
named_theorems const_defs \<open>definitions of the string and number constants of the source\<close>

section \<open>Tables keyed by a primary key\<close>

text \<open>
  A table is the list of its rows, each under its primary key. The order of the list is
  the unspecified order in which a query without ORDER BY returns rows. \<open>table_ok\<close> is the
  PRIMARY KEY constraint.
\<close>

type_synonym ('k, 'r) table = "('k \<times> 'r) list"

definition table_ok :: "('k, 'r) table \<Rightarrow> bool" where
  "table_ok t \<longleftrightarrow> distinct (map fst t)"

definition row :: "('k, 'r) table \<Rightarrow> 'k \<Rightarrow> 'r option" where
  "row t k = map_of t k"

definition put :: "'k \<Rightarrow> 'r \<Rightarrow> ('k, 'r) table \<Rightarrow> ('k, 'r) table" where
  "put k r t = AList.update k r t"

definition del :: "('k \<Rightarrow> bool) \<Rightarrow> ('k, 'r) table \<Rightarrow> ('k, 'r) table" where
  "del p t = filter (\<lambda>kr. \<not> p (fst kr)) t"

text \<open>\<open>UPDATE\<close> of the row under one primary key: nothing happens when there is none.\<close>

definition modify :: "'k \<Rightarrow> ('r \<Rightarrow> 'r) \<Rightarrow> ('k, 'r) table \<Rightarrow> ('k, 'r) table" where
  "modify k f t = (case row t k of None \<Rightarrow> t | Some r \<Rightarrow> put k (f r) t)"

lemma row_Nil [simp]: "row [] k = None"
  by (simp add: row_def)

lemma row_put [simp]: "row (put k r t) k' = (if k' = k then Some r else row t k')"
  by (simp add: row_def put_def update_conv')

lemma row_del [simp]: "row (del p t) k = (if p k then None else row t k)"
  by (induction t) (auto simp: row_def del_def)

lemma row_modify [simp]:
  "row (modify k f t) k' = (if k' = k then map_option f (row t k) else row t k')"
  by (auto simp: modify_def split: option.splits)

lemma table_ok_Nil [simp]: "table_ok []"
  by (simp add: table_ok_def)

lemma table_ok_put [simp]: "table_ok t \<Longrightarrow> table_ok (put k r t)"
  by (simp add: table_ok_def put_def distinct_update)

lemma table_ok_del [simp]: "table_ok t \<Longrightarrow> table_ok (del p t)"
  by (induction t) (auto simp: table_ok_def del_def)

lemma table_ok_modify [simp]: "table_ok t \<Longrightarrow> table_ok (modify k f t)"
  by (simp add: modify_def split: option.splits)

lemma row_in: "row t k = Some r \<Longrightarrow> (k, r) \<in> set t"
  by (simp add: row_def map_of_SomeD)

lemma in_row: "table_ok t \<Longrightarrow> (k, r) \<in> set t \<Longrightarrow> row t k = Some r"
  by (simp add: row_def table_ok_def)

lemma row_None_iff: "row t k = None \<longleftrightarrow> k \<notin> fst ` set t"
  by (simp add: row_def map_of_eq_None_iff)

lemma row_map_rows: "row (map (\<lambda>(i, r). (i, f i r)) t) k = map_option (f k) (row t k)"
  by (induction t) (auto simp: row_def)

lemma set_put: "set (put k v m) \<subseteq> insert (k, v) (set m)"
  by (induction m) (auto simp: put_def)

lemma put_twice [simp]: "put k r (put k r' t) = put k r t"
  by (simp add: put_def)

lemma keys_put: "fst ` set (put k r t) = insert k (fst ` set t)"
  by (induction t) (auto simp: put_def)

text \<open>How the database treats a call: it works, or fails at the start, in a statement, or at the commit.\<close>

datatype db_fate = DbWorks | DbNoBegin | DbNoExec | DbNoCommit

section \<open>Interfaces\<close>

subsection \<open>Keyed stores\<close>

text \<open>
  What the store code relies on of a table: reading after writing or deleting, and that the
  primary key stays unique.
\<close>

locale keyed_store =
  fixes lookup :: "'t \<Rightarrow> 'k \<Rightarrow> 'r option"
    and store :: "'k \<Rightarrow> 'r \<Rightarrow> 't \<Rightarrow> 't"
    and erase :: "('k \<Rightarrow> bool) \<Rightarrow> 't \<Rightarrow> 't"
    and ok :: "'t \<Rightarrow> bool"
  assumes lookup_store: "lookup (store k r t) k' = (if k' = k then Some r else lookup t k')"
    and lookup_erase: "lookup (erase p t) k = (if p k then None else lookup t k)"
    and ok_store: "ok t \<Longrightarrow> ok (store k r t)"
    and ok_erase: "ok t \<Longrightarrow> ok (erase p t)"
begin

lemma ok_writes: "ok t \<Longrightarrow> ok (fold (\<lambda>x. store (f x) (g x)) xs t)"
  by (induction xs arbitrary: t) (auto simp: ok_store)

lemma lookup_writes_other:
  "k \<notin> f ` set xs \<Longrightarrow> lookup (fold (\<lambda>x. store (f x) (g x)) xs t) k = lookup t k"
  by (induction xs arbitrary: t) (auto simp: lookup_store)

lemma lookup_writes_mem:
  "distinct (map f xs) \<Longrightarrow> x \<in> set xs \<Longrightarrow>
   lookup (fold (\<lambda>x. store (f x) (g x)) xs t) (f x) = Some (g x)"
  by (induction xs arbitrary: t) (auto simp: lookup_store lookup_writes_other)

end

interpretation tbl: keyed_store row put del table_ok
  by unfold_locales auto

subsection \<open>Row-wise loops\<close>

text \<open>
  Many operations are a loop over a Go map or a list of edits whose body reads one row,
  decides, and writes at most that row. \<open>rowwise\<close> is the contract of such a body:
  the step for \<open>x\<close> turns the row under \<open>key x\<close> by \<open>eff x\<close> and touches no other row. Then
  the loop has a pointwise meaning and does not depend on the order of iteration, which Go
  leaves unspecified for maps.
\<close>

locale rowwise =
  fixes lookup :: "'s \<Rightarrow> 'k \<Rightarrow> 'r option"
    and step :: "'x \<Rightarrow> 's \<Rightarrow> 's"
    and key :: "'x \<Rightarrow> 'k"
    and eff :: "'x \<Rightarrow> 'r option \<Rightarrow> 'r option"
  assumes step_same: "lookup (step x s) (key x) = eff x (lookup s (key x))"
    and step_other: "k \<noteq> key x \<Longrightarrow> lookup (step x s) k = lookup s k"
begin

lemma loop_other: "k \<notin> key ` set xs \<Longrightarrow> lookup (fold step xs s) k = lookup s k"
  by (induction xs arbitrary: s) (auto simp: step_other)

lemma loop_mem:
  "distinct (map key xs) \<Longrightarrow> x \<in> set xs \<Longrightarrow>
   lookup (fold step xs s) (key x) = eff x (lookup s (key x))"
proof (induction xs arbitrary: s)
  case (Cons y ys)
  show ?case
  proof (cases "x = y")
    case True
    with Cons.prems have "key x \<notin> key ` set ys" by auto
    then show ?thesis using True by (simp add: loop_other step_same)
  next
    case False
    with Cons.prems have x: "x \<in> set ys" by simp
    then have "key x \<in> key ` set ys" by simp
    with Cons.prems have "key x \<noteq> key y" by auto
    with Cons x show ?thesis by (simp add: step_other)
  qed
qed simp

lemma loop_order:
  assumes "distinct (map key xs)" "mset xs = mset ys"
  shows "lookup (fold step xs s) k = lookup (fold step ys s) k"
proof (cases "k \<in> key ` set xs")
  case True
  then obtain x where x: "x \<in> set xs" "k = key x" by auto
  have "distinct (map key ys)"
    using assms by (metis mset_eq_imp_distinct_iff mset_map)
  moreover have "x \<in> set ys" using x assms(2) by (metis set_mset_mset)
  ultimately show ?thesis using assms(1) x by (simp add: loop_mem)
next
  case False
  then have "k \<notin> key ` set ys" using assms(2) by (metis set_mset_mset)
  with False show ?thesis by (simp add: loop_other)
qed

end

text \<open>The same loops with a counter of the rows they changed.\<close>

locale rowwise_counted = rowwise lookup step key eff
  for lookup :: "'s \<Rightarrow> 'k \<Rightarrow> 'r option" and step key eff +
  fixes count :: "'s \<Rightarrow> nat"
    and hit :: "'x \<Rightarrow> 'r option \<Rightarrow> bool"
  assumes count_step: "count (step x s) = count s + (if hit x (lookup s (key x)) then 1 else 0)"
begin

lemma loop_count:
  "distinct (map key xs) \<Longrightarrow>
   count (fold step xs s) = count s + length (filter (\<lambda>x. hit x (lookup s (key x))) xs)"
proof (induction xs arbitrary: s)
  case (Cons y ys)
  have same: "filter (\<lambda>x. hit x (lookup (step y s) (key x))) ys =
      filter (\<lambda>x. hit x (lookup s (key x))) ys"
    using Cons.prems by (intro filter_cong) (auto simp: step_other image_iff)
  have "count (fold step (y # ys) s) =
      count (step y s) + length (filter (\<lambda>x. hit x (lookup (step y s) (key x))) ys)"
    using Cons by simp
  then show ?case by (simp add: same count_step)
qed simp

lemma loop_count_order:
  assumes "distinct (map key xs)" "mset xs = mset ys"
  shows "count (fold step xs s) = count (fold step ys s)"
proof -
  have d: "distinct (map key ys)"
    using assms by (metis mset_eq_imp_distinct_iff mset_map)
  have "mset (filter (\<lambda>x. hit x (lookup s (key x))) xs) =
      mset (filter (\<lambda>x. hit x (lookup s (key x))) ys)"
    using assms(2) by simp
  then have "length (filter (\<lambda>x. hit x (lookup s (key x))) xs) =
      length (filter (\<lambda>x. hit x (lookup s (key x))) ys)"
    by (rule mset_eq_length)
  then show ?thesis using loop_count [OF assms(1)] loop_count [OF d] by simp
qed

end

end
