(* ===== verification/GoText.thy ===== *)
theory GoText
  imports Prelude
begin

text \<open>
  The string operations of the Go standard library the modelled code calls. A Go string is
  its bytes: \<open>string\<close> here is a list of \<open>char\<close>, and a \<open>char\<close> is one byte. Runes are code
  points as \<open>nat\<close>. The decoder follows \<open>utf8.DecodeRune\<close>: an invalid byte is one rune
  U+FFFD of width 1.
\<close>

section \<open>Bytes\<close>

abbreviation byte :: "char \<Rightarrow> nat" where
  "byte c \<equiv> of_char c"

definition has_prefix :: "string \<Rightarrow> string \<Rightarrow> bool" where
  "has_prefix s p \<longleftrightarrow> take (length p) s = p"

lemma has_prefix_append [simp]: "has_prefix (p @ s) p"
  by (simp add: has_prefix_def)

lemma has_prefix_iff: "has_prefix s p \<longleftrightarrow> (\<exists>r. s = p @ r)"
  unfolding has_prefix_def by (metis append_eq_conv_conj append_take_drop_id)

section \<open>strings.Split and strings.Join\<close>

text \<open>Splitting at every non-overlapping occurrence of a non-empty separator.\<close>

function split_acc :: "string \<Rightarrow> string \<Rightarrow> string \<Rightarrow> string list" where
  "split_acc sep acc [] = [rev acc]"
| "split_acc sep acc (c # s) =
     (if sep \<noteq> [] \<and> has_prefix (c # s) sep
      then rev acc # split_acc sep [] (drop (length sep) (c # s))
      else split_acc sep (c # acc) s)"
  by pat_completeness auto
termination
  by (relation "measure (\<lambda>(sep, acc, s). length s)") auto

declare split_acc.simps(2) [simp del]

definition split_on :: "string \<Rightarrow> string \<Rightarrow> string list" where
  "split_on sep s = split_acc sep [] s"

fun join_with :: "string \<Rightarrow> string list \<Rightarrow> string" where
  "join_with sep [] = []"
| "join_with sep [x] = x"
| "join_with sep (x # y # xs) = x @ sep @ join_with sep (y # xs)"

lemma join_with_Cons: "xs \<noteq> [] \<Longrightarrow> join_with sep (x # xs) = x @ sep @ join_with sep xs"
  by (cases xs) auto

lemma split_acc_ne [simp]: "split_acc sep acc s \<noteq> []"
  by (induction sep acc s rule: split_acc.induct) (auto simp: split_acc.simps(2))

lemma split_on_ne [simp]: "split_on sep s \<noteq> []"
  by (simp add: split_on_def)

lemma join_split_acc: "join_with sep (split_acc sep acc s) = rev acc @ s"
proof (induction sep acc s rule: split_acc.induct)
  case (2 sep acc c s)
  show ?case
  proof (cases "sep \<noteq> [] \<and> has_prefix (c # s) sep")
    case True
    then have "sep @ drop (length sep) (c # s) = c # s"
      by (metis append_take_drop_id has_prefix_def)
    with True 2 show ?thesis by (simp add: split_acc.simps(2) join_with_Cons)
  next
    case False
    with 2 have "join_with sep (split_acc sep (c # acc) s) = rev (c # acc) @ s" by blast
    with False show ?thesis by (auto simp: split_acc.simps(2))
  qed
qed simp

lemma join_split [simp]: "join_with sep (split_on sep s) = s"
  by (simp add: split_on_def join_split_acc)

text \<open>A string with no occurrence of the separator is one piece.\<close>

fun occurs :: "string \<Rightarrow> string \<Rightarrow> bool" where
  "occurs sep [] = (sep = [])"
| "occurs sep (c # s) = (has_prefix (c # s) sep \<or> occurs sep s)"

lemma split_acc_single: "\<not> occurs sep s \<Longrightarrow> split_acc sep acc s = [rev acc @ s]"
  by (induction s arbitrary: acc) (auto simp: split_acc.simps(2))

lemma split_on_single: "\<not> occurs sep s \<Longrightarrow> split_on sep s = [s]"
  by (simp add: split_on_def split_acc_single)

lemma split_char_acc:
  "c \<notin> set x \<Longrightarrow> split_acc [c] acc (x @ c # s) = (rev acc @ x) # split_acc [c] [] s"
  by (induction x arbitrary: acc) (auto simp: split_acc.simps(2) has_prefix_def)

lemma split_char: "c \<notin> set x \<Longrightarrow> split_on [c] (x @ c # s) = x # split_on [c] s"
  by (simp add: split_on_def split_char_acc)

lemma occurs_char: "occurs [c] s \<longleftrightarrow> c \<in> set s"
  by (induction s) (auto simp: has_prefix_def)

lemma split_char_end: "c \<notin> set x \<Longrightarrow> split_on [c] x = [x]"
  by (simp add: split_on_single occurs_char)

section \<open>UTF-8\<close>

definition RuneError :: nat where
  "RuneError = 0xFFFD"

definition cont :: "nat \<Rightarrow> bool" where
  "cont b \<longleftrightarrow> 0x80 \<le> b \<and> b \<le> 0xBF"

text \<open>The accepted range of the second byte for a lead byte, and the width.\<close>

definition lead :: "nat \<Rightarrow> (nat \<times> nat \<times> nat) option" where
  "lead b =
     (if 0xC2 \<le> b \<and> b \<le> 0xDF then Some (2, 0x80, 0xBF)
      else if b = 0xE0 then Some (3, 0xA0, 0xBF)
      else if b = 0xED then Some (3, 0x80, 0x9F)
      else if 0xE1 \<le> b \<and> b \<le> 0xEF then Some (3, 0x80, 0xBF)
      else if b = 0xF0 then Some (4, 0x90, 0xBF)
      else if b = 0xF4 then Some (4, 0x80, 0x8F)
      else if 0xF1 \<le> b \<and> b \<le> 0xF3 then Some (4, 0x80, 0xBF)
      else None)"

text \<open>\<open>decode_rune\<close> returns the rune and how many bytes it takes.\<close>

definition decode_rune :: "nat list \<Rightarrow> nat \<times> nat" where
  "decode_rune bs =
     (case bs of [] \<Rightarrow> (RuneError, 0)
      | b0 # rest \<Rightarrow>
        if b0 < 0x80 then (b0, 1)
        else (case lead b0 of None \<Rightarrow> (RuneError, 1)
          | Some (w, lo, hi) \<Rightarrow>
            (case rest of [] \<Rightarrow> (RuneError, 1)
             | b1 # rest1 \<Rightarrow>
               if \<not> (lo \<le> b1 \<and> b1 \<le> hi) then (RuneError, 1)
               else if w = 2 then ((b0 - 0xC0) * 64 + (b1 - 0x80), 2)
               else (case rest1 of [] \<Rightarrow> (RuneError, 1)
                | b2 # rest2 \<Rightarrow>
                  if \<not> cont b2 then (RuneError, 1)
                  else if w = 3
                  then ((b0 - 0xE0) * 4096 + (b1 - 0x80) * 64 + (b2 - 0x80), 3)
                  else (case rest2 of [] \<Rightarrow> (RuneError, 1)
                   | b3 # _ \<Rightarrow>
                     if \<not> cont b3 then (RuneError, 1)
                     else ((b0 - 0xF0) * 262144 + (b1 - 0x80) * 4096
                            + (b2 - 0x80) * 64 + (b3 - 0x80), 4))))))"

lemma decode_rune_width:
  "bs \<noteq> [] \<Longrightarrow> 0 < snd (decode_rune bs) \<and> snd (decode_rune bs) \<le> length bs"
  by (auto simp: decode_rune_def split: list.splits option.splits prod.splits)

text \<open>The segments of a string: each rune with the bytes it was decoded from.\<close>

function segments :: "string \<Rightarrow> (nat \<times> string) list" where
  "segments s =
     (if s = [] then []
      else let (r, n) = decode_rune (map byte s) in (r, take n s) # segments (drop n s))"
  by pat_completeness auto
termination
proof (relation "measure length", goal_cases)
  case (2 s x r n)
  then have "0 < n" using decode_rune_width [of "map byte s"] by (metis list.map_disc_iff snd_conv)
  then show ?case using 2 by simp
qed simp

declare segments.simps [simp del]

lemma segments_Nil [simp]: "segments [] = []"
  by (subst segments.simps) simp

text \<open>The same recursion on the constructors, which is how it is evaluated.\<close>

lemma segments_code [code]:
  "segments [] = []"
  "segments (c # s) =
     (let (r, n) = decode_rune (map byte (c # s))
      in (r, take n (c # s)) # segments (drop n (c # s)))"
  by (simp, subst segments.simps, simp)

definition runes :: "string \<Rightarrow> nat list" where
  "runes s = map fst (segments s)"

definition valid_utf8 :: "string \<Rightarrow> bool" where
  "valid_utf8 s \<longleftrightarrow> list_all (\<lambda>(r, bs). \<not> (r = RuneError \<and> length bs = 1)) (segments s)"

lemma segments_concat: "concat (map snd (segments s)) = s"
proof (induction s rule: segments.induct)
  case (1 s)
  show ?case
  proof (cases "s = []")
    case False
    obtain r n where rn: "decode_rune (map byte s) = (r, n)" by fastforce
    with 1 [OF False] False show ?thesis
      by (subst segments.simps) simp
  qed simp
qed

lemma segments_ascii:
  "byte c < 0x80 \<Longrightarrow> segments (c # s) = (byte c, [c]) # segments s"
  by (subst segments.simps) (simp add: decode_rune_def)

lemma runes_ascii: "list_all (\<lambda>c. byte c < 0x80) s \<Longrightarrow> runes s = map byte s"
  by (induction s) (auto simp: runes_def segments_ascii)

lemma valid_utf8_ascii: "list_all (\<lambda>c. byte c < 0x80) s \<Longrightarrow> valid_utf8 s"
  by (induction s) (auto simp: valid_utf8_def segments_ascii RuneError_def)

text \<open>Decoding looks no further than the rune: a prefix that holds it decodes alike.\<close>

lemma decode_rune_take:
  assumes "snd (decode_rune bs) \<le> m" "0 < m"
  shows "decode_rune (take m bs) = decode_rune bs"
proof (cases "4 \<le> m")
  case True
  then obtain k where m: "m = Suc (Suc (Suc (Suc k)))" by (metis add_2_eq_Suc add_Suc_shift le_Suc_ex numeral_Bit0 numeral_One one_add_one plus_1_eq_Suc)
  show ?thesis
  proof (cases bs)
    case (Cons b0 r0)
    show ?thesis unfolding Cons by (cases r0; cases "tl r0"; cases "tl (tl r0)") (auto simp: decode_rune_def m split: option.split)
  qed (simp add: m)
next
  case False
  then have "m = 1 \<or> m = 2 \<or> m = 3" using assms(2) by auto
  then show ?thesis using assms(1)
    by (elim disjE)
      (auto simp: decode_rune_def numeral_2_eq_2 numeral_3_eq_3 split: list.splits option.splits prod.splits if_splits)
qed

lemma segments_take: "segments (concat (map snd (take k (segments s)))) = take k (segments s)"
proof (induction s arbitrary: k rule: segments.induct)
  case (1 s)
  show ?case
  proof (cases "s = [] \<or> k = 0")
    case False
    then obtain k' where k: "k = Suc k'" by (cases k) auto
    obtain r n where rn: "decode_rune (map byte s) = (r, n)" by fastforce
    have n: "0 < n" "n \<le> length s" using decode_rune_width [of "map byte s"] False rn by auto
    have s: "segments s = (r, take n s) # segments (drop n s)" using False by (subst segments.simps) (simp add: rn)
    let ?c = "concat (map snd (take k' (segments (drop n s))))"
    have IH: "segments ?c = take k' (segments (drop n s))" using 1 [of "(r, n)" r n k'] False rn by simp
    have "?c @ concat (map snd (drop k' (segments (drop n s)))) = drop n s"
      by (metis append_take_drop_id concat_append map_append segments_concat)
    then have c: "take n s @ ?c = take (n + length ?c) s" by (metis append_eq_conv_conj take_add)
    have "decode_rune (map byte (take (n + length ?c) s)) = (r, n)"
      using decode_rune_take [of "map byte s" "n + length ?c"] n rn by (simp add: take_map)
    moreover have "take n (take n s @ ?c) = take n s" "drop n (take n s @ ?c) = ?c" using n by simp_all
    moreover have "take n s @ ?c \<noteq> []" using n by auto
    ultimately have "segments (take n s @ ?c) = (r, take n s) # segments ?c"
      by (subst segments.simps) (simp only: c [symmetric] if_False Let_def prod.case)
    then show ?thesis by (simp add: k s IH)
  qed auto
qed

lemma segments_drop: "segments (concat (map snd (drop k (segments s)))) = drop k (segments s)"
proof (induction s arbitrary: k rule: segments.induct)
  case (1 s)
  show ?case
  proof (cases "s = [] \<or> k = 0")
    case True
    then show ?thesis by (auto simp: segments_concat)
  next
    case False
    then obtain k' where k: "k = Suc k'" by (cases k) auto
    obtain r n where rn: "decode_rune (map byte s) = (r, n)" by fastforce
    have s: "segments s = (r, take n s) # segments (drop n s)" using False by (subst segments.simps) (simp add: rn)
    show ?thesis using 1 [of "(r, n)" r n k'] False rn by (simp add: k s)
  qed
qed

section \<open>strings.TrimSpace\<close>

definition is_space :: "nat \<Rightarrow> bool" where
  "is_space r \<longleftrightarrow> (9 \<le> r \<and> r \<le> 13) \<or> r = 0x20 \<or> r = 0x85 \<or> r = 0xA0 \<or> r = 0x1680 \<or>
     (0x2000 \<le> r \<and> r \<le> 0x200A) \<or> r = 0x2028 \<or> r = 0x2029 \<or> r = 0x202F \<or> r = 0x205F \<or>
     r = 0x3000"

text \<open>For evaluation, an ASCII rune is only compared with the ASCII spaces.\<close>

definition is_wide_space :: "nat \<Rightarrow> bool" where
  "is_wide_space r \<longleftrightarrow> r = 0x85 \<or> r = 0xA0 \<or> r = 0x1680 \<or> (0x2000 \<le> r \<and> r \<le> 0x200A) \<or>
     r = 0x2028 \<or> r = 0x2029 \<or> r = 0x202F \<or> r = 0x205F \<or> r = 0x3000"

lemma is_space_code [code]:
  "is_space r = (if r < 0x80 then r = 0x20 \<or> (r < 14 \<and> 9 \<le> r) else is_wide_space r)"
  by (auto simp: is_space_def is_wide_space_def)

definition trim_segments :: "(nat \<times> string) list \<Rightarrow> (nat \<times> string) list" where
  "trim_segments xs =
     rev (dropWhile (is_space \<circ> fst) (rev (dropWhile (is_space \<circ> fst) xs)))"

definition trim_space :: "string \<Rightarrow> string" where
  "trim_space s = concat (map snd (trim_segments (segments s)))"

lemma trim_space_Nil [simp]: "trim_space [] = []"
  by (simp add: trim_space_def trim_segments_def)

lemma trim_segments_idem: "trim_segments (trim_segments xs) = trim_segments xs"
proof -
  let ?p = "is_space \<circ> fst"
  define ys where "ys = dropWhile ?p xs"
  define zs where "zs = dropWhile ?p (rev ys)"
  have z: "zs = [] \<or> \<not> ?p (hd zs)" unfolding zs_def using hd_dropWhile by blast
  have y: "ys = [] \<or> \<not> ?p (hd ys)" unfolding ys_def using hd_dropWhile by blast
  have "rev zs = [] \<or> \<not> ?p (hd (rev zs))"
  proof (cases "zs = []")
    case False
    have "\<exists>us. rev ys = us @ zs" unfolding zs_def by (metis takeWhile_dropWhile_id)
    then obtain us where "ys = rev zs @ rev us" by (metis rev_append rev_rev_ident)
    then have "hd ys = hd (rev zs)" "ys \<noteq> []" using False by simp_all
    then show ?thesis using y by simp
  qed simp
  then have "dropWhile ?p (rev zs) = rev zs" by (cases "rev zs") auto
  moreover have "dropWhile ?p zs = zs" using z by (cases zs) auto
  ultimately show ?thesis by (simp add: trim_segments_def ys_def [symmetric] zs_def [symmetric])
qed

lemma trim_segments_slice: "\<exists>i j. trim_segments xs = take j (drop i xs)"
proof -
  have "\<exists>j. rev (dropWhile p (rev ys)) = take j ys" for p and ys :: "(nat \<times> string) list"
    by (metis append_eq_conv_conj rev_append rev_rev_ident takeWhile_dropWhile_id)
  then show ?thesis unfolding trim_segments_def by (metis dropWhile_eq_drop)
qed

lemma segments_trim: "segments (trim_space s) = trim_segments (segments s)"
proof -
  obtain i j where t: "trim_segments (segments s) = take j (drop i (segments s))" using trim_segments_slice by blast
  have "drop i (segments s) = segments (concat (map snd (drop i (segments s))))" by (rule segments_drop [symmetric])
  then have "segments (concat (map snd (take j (drop i (segments s))))) = take j (drop i (segments s))" by (metis segments_take)
  then show ?thesis by (simp add: trim_space_def t)
qed

lemma trim_space_idem [simp]: "trim_space (trim_space s) = trim_space s"
  unfolding trim_space_def [of "trim_space s"] segments_trim trim_segments_idem by (simp add: trim_space_def)

end
