(* ===== verification/GoConv.thy ===== *)
theory GoConv
  imports GoText
begin

text \<open>
  Number and base64 conversions of the Go standard library: \<open>strconv.ParseUint\<close> and
  \<open>strconv.FormatUint\<close> in base 10 with 64 bits, and \<open>base64.RawURLEncoding\<close>.
\<close>

section \<open>Decimal numbers\<close>

definition digit_char :: "nat \<Rightarrow> char" where
  "digit_char d = char_of (48 + d)"

definition is_digit :: "char \<Rightarrow> bool" where
  "is_digit c \<longleftrightarrow> 48 \<le> byte c \<and> byte c \<le> 57"

definition digit_val :: "char \<Rightarrow> nat" where
  "digit_val c = byte c - 48"

fun format_uint :: "nat \<Rightarrow> string" where
  "format_uint n =
     (if n < 10 then [digit_char n] else format_uint (n div 10) @ [digit_char (n mod 10)])"

declare format_uint.simps [simp del]

definition decimal_value :: "string \<Rightarrow> nat" where
  "decimal_value s = foldl (\<lambda>v c. v * 10 + digit_val c) 0 s"

definition parse_uint :: "string \<Rightarrow> nat option" where
  "parse_uint s =
     (if s = [] \<or> \<not> list_all is_digit s then None
      else if 2 ^ 64 \<le> decimal_value s then None
      else Some (decimal_value s))"

lemma digit_char_props [simp]:
  assumes "d < 10"
  shows "is_digit (digit_char d)" "digit_val (digit_char d) = d"
  using assms by (auto simp: is_digit_def digit_val_def digit_char_def)

lemma format_uint_digits: "list_all is_digit (format_uint n)"
proof (induction n rule: format_uint.induct)
  case (1 n)
  then show ?case by (subst format_uint.simps) auto
qed

lemma format_uint_ne [simp]: "format_uint n \<noteq> []"
  by (subst format_uint.simps) auto

lemma decimal_value_snoc: "decimal_value (s @ [c]) = decimal_value s * 10 + digit_val c"
  by (simp add: decimal_value_def)

lemma decimal_value_format [simp]: "decimal_value (format_uint n) = n"
proof (induction n rule: format_uint.induct)
  case (1 n)
  show ?case
  proof (cases "n < 10")
    case True
    then show ?thesis by (subst format_uint.simps) (simp add: decimal_value_def)
  next
    case False
    with 1 show ?thesis by (subst format_uint.simps) (simp add: decimal_value_snoc)
  qed
qed

lemma parse_format_uint: "n < 2 ^ 64 \<Longrightarrow> parse_uint (format_uint n) = Some n"
  by (simp add: parse_uint_def format_uint_digits)

lemma parse_uint_bound: "parse_uint s = Some n \<Longrightarrow> n < 2 ^ 64"
  by (auto simp: parse_uint_def split: if_splits)

lemma format_uint_inj: "format_uint m = format_uint n \<Longrightarrow> m = n"
  by (metis decimal_value_format)

lemma format_uint_no_char: "\<not> is_digit c \<Longrightarrow> c \<notin> set (format_uint n)"
  using format_uint_digits by (auto simp: list_all_iff)

text \<open>The verb d of \<open>fmt\<close>, and \<open>strconv.Itoa\<close>.\<close>

definition format_int :: "int \<Rightarrow> string" where
  "format_int i = (if i < 0 then CHR ''-'' # format_uint (nat (- i)) else format_uint (nat i))"

lemma format_int_inj: "format_int i = format_int j \<longleftrightarrow> i = j"
proof -
  have d: "CHR ''-'' \<notin> set (format_uint n)" for n by (rule format_uint_no_char) (simp add: is_digit_def)
  have n: "CHR ''-'' # s \<noteq> format_uint n" for s n using d [of n] by (metis list.set_intros(1))
  show ?thesis
    using n n [symmetric] by (auto simp: format_int_def dest!: format_uint_inj split: if_splits)
qed

section \<open>base64.RawURLEncoding\<close>

definition alphabet :: string where
  "alphabet = ''ABCDEFGHIJKLMNOPQRSTUVWXYZabcdefghijklmnopqrstuvwxyz0123456789-_''"

fun find_index :: "char \<Rightarrow> string \<Rightarrow> nat option" where
  "find_index c [] = None"
| "find_index c (x # xs) = (if x = c then Some 0 else map_option Suc (find_index c xs))"

definition sextet_char :: "nat \<Rightarrow> char" where
  "sextet_char n = alphabet ! n"

definition sextet_val :: "char \<Rightarrow> nat option" where
  "sextet_val c = find_index c alphabet"

fun b64_groups :: "nat list \<Rightarrow> nat list" where
  "b64_groups (a # b # c # r) =
     (a div 4) # ((a mod 4) * 16 + b div 16) # ((b mod 16) * 4 + c div 64) # (c mod 64) #
     b64_groups r"
| "b64_groups [a, b] = [a div 4, (a mod 4) * 16 + b div 16, (b mod 16) * 4]"
| "b64_groups [a] = [a div 4, (a mod 4) * 16]"
| "b64_groups [] = []"

fun b64_ungroup :: "nat list \<Rightarrow> nat list option" where
  "b64_ungroup (p # q # r # t # xs) =
     map_option (\<lambda>ys. (p * 4 + q div 16) # ((q mod 16) * 16 + r div 4) # ((r mod 4) * 64 + t) # ys)
       (b64_ungroup xs)"
| "b64_ungroup [p, q, r] = Some [p * 4 + q div 16, (q mod 16) * 16 + r div 4]"
| "b64_ungroup [p, q] = Some [p * 4 + q div 16]"
| "b64_ungroup [p] = None"
| "b64_ungroup [] = Some []"

definition b64_encode :: "nat list \<Rightarrow> string" where
  "b64_encode bs = map sextet_char (b64_groups bs)"

text \<open>The decoder skips CR and LF and does not check trailing bits (the encoding is not strict).\<close>

definition b64_decode :: "string \<Rightarrow> nat list option" where
  "b64_decode s =
     (let t = filter (\<lambda>c. byte c \<noteq> 10 \<and> byte c \<noteq> 13) s in
      if list_all (\<lambda>c. sextet_val c \<noteq> None) t
      then b64_ungroup (map (\<lambda>c. the (sextet_val c)) t) else None)"

lemma sextet_all: "list_all (\<lambda>n. sextet_val (sextet_char n) = Some n \<and>
    byte (sextet_char n) \<noteq> 10 \<and> byte (sextet_char n) \<noteq> 13 \<and> sextet_char n \<noteq> CHR '':'') [0..<64]"
  by code_simp

lemma sextet_props:
  assumes "n < 64"
  shows "sextet_val (sextet_char n) = Some n"
    and "byte (sextet_char n) \<noteq> 10" "byte (sextet_char n) \<noteq> 13"
    and "sextet_char n \<noteq> CHR '':''"
  using sextet_all assms by (auto simp: list_all_iff)

lemma b64_groups_lt: "\<forall>b \<in> set bs. b < 256 \<Longrightarrow> \<forall>n \<in> set (b64_groups bs). n < 64"
  by (induction bs rule: b64_groups.induct) auto

lemma b64_ungroup_groups: "\<forall>b \<in> set bs. b < 256 \<Longrightarrow> b64_ungroup (b64_groups bs) = Some bs"
  by (induction bs rule: b64_groups.induct) auto

lemma b64_decode_encode:
  assumes "\<forall>b \<in> set bs. b < 256"
  shows "b64_decode (b64_encode bs) = Some bs"
proof -
  have lt: "\<forall>n \<in> set (b64_groups bs). n < 64" using b64_groups_lt [OF assms] .
  then have "filter (\<lambda>c. byte c \<noteq> 10 \<and> byte c \<noteq> 13) (b64_encode bs) = b64_encode bs"
    by (auto simp: b64_encode_def sextet_props intro!: filter_True)
  moreover have "map (\<lambda>c. the (sextet_val c)) (b64_encode bs) = b64_groups bs"
    using lt by (auto simp: b64_encode_def sextet_props intro!: map_idI)
  moreover have "list_all (\<lambda>c. sextet_val c \<noteq> None) (b64_encode bs)"
    using lt by (auto simp: b64_encode_def list_all_iff sextet_props)
  ultimately show ?thesis
    by (simp add: b64_decode_def Let_def b64_ungroup_groups [OF assms])
qed

lemma b64_encode_no_colon:
  "\<forall>b \<in> set bs. b < 256 \<Longrightarrow> CHR '':'' \<notin> set (b64_encode bs)"
  using b64_groups_lt [of bs] sextet_props(4) by (fastforce simp: b64_encode_def)

lemma b64_encode_Nil_iff [simp]: "b64_encode bs = [] \<longleftrightarrow> bs = []"
  by (cases bs rule: b64_groups.cases) (auto simp: b64_encode_def)

end
