(* ===== verification/EditorGate.thy ===== *)
theory EditorGate
  imports GoConv "HOL-Library.Word"
begin

text \<open>
  \<open>internal/editorgate/gate.go\<close>: the writer-preferred gate between editor writes and
  producer jobs. First the critical sections of the code, one definition each, over the
  gate's state; then the threads that run them as a step relation in which any interleaving
  of critical sections is possible. Counters are \<open>uint64\<close>.
\<close>

section \<open>State\<close>

type_synonym u64 = "64 word"

definition MaxSafeCounter :: u64 where
  [const_defs]: "MaxSafeCounter = 9007199254740991"

datatype gate_error = ErrProducerRunning | ErrDraining | ErrCountersExhausted | ErrContext string

record gate_status =
  st_version :: nat
  st_instance :: string
  st_revision :: u64
  st_generation :: u64
  st_completed :: u64
  st_running :: bool
  st_last_run :: string

text \<open>
  \<open>hooks\<close> are the registered observers, by number; \<open>calls\<close> is the record of the calls made
  to them, in order.
\<close>

record gate =
  status :: gate_status
  editors :: nat
  draining :: bool
  hooks :: "nat list"
  calls :: "(nat \<times> gate_status) list"

definition new_gate :: "nat list \<Rightarrow> gate" where
  "new_gate random =
     \<lparr>status = \<lparr>st_version = 1, st_instance = b64_encode random, st_revision = 0,
        st_generation = 0, st_completed = 0, st_running = False, st_last_run = ''''\<rparr>,
      editors = 0, draining = False, hooks = [], calls = []\<rparr>"

section \<open>Critical sections\<close>

definition on_change :: "nat option \<Rightarrow> gate \<Rightarrow> gate" where
  "on_change h g = (case h of None \<Rightarrow> g | Some n \<Rightarrow> g\<lparr>hooks := hooks g @ [n]\<rparr>)"

definition notify :: "gate_status \<Rightarrow> gate \<Rightarrow> gate" where
  "notify st g = g\<lparr>calls := calls g @ map (\<lambda>h. (h, st)) (hooks g)\<rparr>"

definition drain :: "gate \<Rightarrow> gate" where
  "drain g = g\<lparr>draining := True\<rparr>"

text \<open>The context argument is what \<open>ctx.Err()\<close> answers at that point.\<close>

definition begin_editor_context :: "string option \<Rightarrow> gate \<Rightarrow> (gate_error + unit) \<times> gate" where
  "begin_editor_context ctx_err g =
     (case ctx_err of Some e \<Rightarrow> (Inl (ErrContext e), g)
      | None \<Rightarrow>
        if st_running (status g) then (Inl ErrProducerRunning, g)
        else (Inr (), g\<lparr>editors := editors g + 1\<rparr>))"

definition begin_strict_editor ::
  "string \<Rightarrow> u64 \<Rightarrow> u64 \<Rightarrow> gate \<Rightarrow> (gate_status \<times> bool) \<times> gate" where
  "begin_strict_editor inst rv completed g =
     (let st = status g in
      if st_running st \<or> inst \<noteq> st_instance st \<or> rv \<noteq> st_revision st \<or>
         completed \<noteq> st_completed st
      then ((st, False), g)
      else ((st, True), g\<lparr>editors := editors g + 1\<rparr>))"

text \<open>The body of the release closure; \<open>None\<close> is the panic.\<close>

definition editor_release :: "gate \<Rightarrow> gate option" where
  "editor_release g = (if editors g = 0 then None else Some (g\<lparr>editors := editors g - 1\<rparr>))"

definition producer_admit :: "gate \<Rightarrow> (gate_error + gate_status) \<times> gate" where
  "producer_admit g =
     (let st = status g in
      if draining g then (Inl ErrDraining, g)
      else if st_running st then (Inl ErrProducerRunning, g)
      else if MaxSafeCounter \<le> st_generation st \<or> MaxSafeCounter - 2 < st_revision st
      then (Inl ErrCountersExhausted, g)
      else (let st' = st\<lparr>st_generation := st_generation st + 1,
                         st_revision := st_revision st + 1, st_running := True\<rparr>
            in (Inr st', g\<lparr>status := st'\<rparr>)))"

definition finish_producer :: "string \<Rightarrow> gate \<Rightarrow> gate" where
  "finish_producer now g =
     (let st = status g in
      g\<lparr>status := st\<lparr>st_completed := st_generation st, st_revision := st_revision st + 1,
          st_running := False, st_last_run := now\<rparr>\<rparr>)"

text \<open>
  One turn of the wait for editors. \<open>woken\<close> is \<open>None\<close> on the first test of the loop and the
  answer of \<open>ctx.Err()\<close> after a wake-up; the result is the next thing the thread does.
\<close>

datatype wait_result = WaitMore | Acquired | Canceled string gate_status

definition producer_wait ::
  "string option option \<Rightarrow> string \<Rightarrow> gate \<Rightarrow> wait_result \<times> gate" where
  "producer_wait woken now g =
     (case woken of
        Some (Some e) \<Rightarrow> (let g' = finish_producer now g in (Canceled e (status g'), g'))
      | _ \<Rightarrow> (if editors g > 0 then WaitMore else Acquired, g))"

text \<open>
  \<open>BeginEditor\<close> uses the background context, whose error is never set; an error panics
  (\<open>None\<close>).
\<close>

definition begin_editor :: "gate \<Rightarrow> gate option" where
  "begin_editor g =
     (case begin_editor_context None g of (Inl e, g') \<Rightarrow> None | (Inr u, g') \<Rightarrow> Some g')"

section \<open>Threads\<close>

text \<open>
  An editor holds a release closure, numbered by a token; its \<open>sync.Once\<close> has not fired
  while the token is in \<open>open_tokens\<close>. A producer thread is in one of these phases between two
  critical sections:
  \<^item> \<open>Announcing st\<close>: admitted, about to call the hooks with \<open>st\<close>;
  \<^item> \<open>Entering\<close>: about to lock again and test for editors;
  \<^item> \<open>Sleeping\<close>, \<open>Woken\<close>: in \<open>cond.Wait\<close>, before and after a broadcast;
  \<^item> \<open>Held\<close>: has returned its release closure, not called yet;
  \<^item> \<open>Finishing st\<close>: generation completed, about to call the hooks with \<open>st\<close>;
  \<^item> \<open>Returned\<close>: done.
  \<open>cancelled\<close> holds the threads whose context is cancelled, \<open>fired\<close> those whose
  \<open>context.AfterFunc\<close> has broadcast.
\<close>

datatype phase = Announcing gate_status | Entering | Sleeping | Woken | Held
  | Finishing gate_status | Returned

record sys =
  the_gate :: gate
  open_tokens :: "nat list"
  fresh :: nat
  threads :: "(nat, phase) table"
  cancelled :: "nat list"
  fired :: "nat list"
  panicked :: bool

definition init_sys :: "nat list \<Rightarrow> sys" where
  "init_sys random = \<lparr>the_gate = new_gate random, open_tokens = [], fresh = 0, threads = [],
     cancelled = [], fired = [], panicked = False\<rparr>"

definition phase_of :: "sys \<Rightarrow> nat \<Rightarrow> phase option" where
  "phase_of s p = row (threads s) p"

definition set_phase :: "nat \<Rightarrow> phase \<Rightarrow> sys \<Rightarrow> sys" where
  "set_phase p ph s = s\<lparr>threads := put p ph (threads s)\<rparr>"

definition set_gate :: "gate \<Rightarrow> sys \<Rightarrow> sys" where
  "set_gate g s = s\<lparr>the_gate := g\<rparr>"

definition wake :: "phase \<Rightarrow> phase" where
  "wake ph = (if ph = Sleeping then Woken else ph)"

definition broadcast :: "sys \<Rightarrow> sys" where
  "broadcast s = s\<lparr>threads := map (\<lambda>(p, ph). (p, wake ph)) (threads s)\<rparr>"

definition open_token :: "sys \<Rightarrow> sys" where
  "open_token s = s\<lparr>open_tokens := fresh s # open_tokens s, fresh := fresh s + 1\<rparr>"

definition after_wait :: "wait_result \<Rightarrow> phase" where
  "after_wait r = (case r of WaitMore \<Rightarrow> Sleeping | Acquired \<Rightarrow> Held | Canceled e st \<Rightarrow> Finishing st)"

definition ctx_answer :: "sys \<Rightarrow> nat \<Rightarrow> string option" where
  "ctx_answer s p = (if p \<in> set (cancelled s) then Some ''context canceled'' else None)"

definition canceled_result :: "wait_result \<Rightarrow> bool" where
  "canceled_result r = (case r of Canceled e st \<Rightarrow> True | _ \<Rightarrow> False)"

text \<open>
  One rule per critical section, each with the broadcasts the section makes. A call that
  changes nothing (a rejected editor or producer, a release closure called again) is no step.
\<close>

inductive gate_step :: "sys \<Rightarrow> sys \<Rightarrow> bool" where
  lenient: "begin_editor_context ctx (the_gate s) = (Inr u, g) \<Longrightarrow>
     gate_step s (open_token (set_gate g s))"
| strict: "begin_strict_editor inst rv cg (the_gate s) = ((st, True), g) \<Longrightarrow>
     gate_step s (open_token (set_gate g s))"
| leave: "t \<in> set (open_tokens s) \<Longrightarrow> editor_release (the_gate s) = Some g \<Longrightarrow>
     s' = set_gate g (s\<lparr>open_tokens := remove1 t (open_tokens s)\<rparr>) \<Longrightarrow>
     gate_step s (if editors g = 0 then broadcast s' else s')"
| leave_panic: "t \<in> set (open_tokens s) \<Longrightarrow> editor_release (the_gate s) = None \<Longrightarrow>
     gate_step s (s\<lparr>panicked := True\<rparr>)"
| observe: "gate_step s (set_gate (on_change h (the_gate s)) s)"
| draining: "gate_step s (broadcast (set_gate (drain (the_gate s)) s))"
| admit: "phase_of s p = None \<Longrightarrow> producer_admit (the_gate s) = (Inr st, g) \<Longrightarrow>
     gate_step s (set_phase p (Announcing st) (broadcast (set_gate g s)))"
| announce: "phase_of s p = Some (Announcing st) \<Longrightarrow>
     gate_step s (set_phase p Entering (set_gate (notify st (the_gate s)) s))"
| enter_wait: "phase_of s p = Some Entering \<Longrightarrow> producer_wait None now (the_gate s) = (r, g) \<Longrightarrow>
     gate_step s (set_phase p (after_wait r) (set_gate g s))"
| woken: "phase_of s p = Some Woken \<Longrightarrow>
     producer_wait (Some (ctx_answer s p)) now (the_gate s) = (r, g) \<Longrightarrow>
     s' = set_gate g s \<Longrightarrow>
     gate_step s (set_phase p (after_wait r) (if canceled_result r then broadcast s' else s'))"
| finish: "phase_of s p = Some Held \<Longrightarrow> g = finish_producer now (the_gate s) \<Longrightarrow>
     gate_step s (set_phase p (Finishing (status g)) (broadcast (set_gate g s)))"
| finish_notify: "phase_of s p = Some (Finishing st) \<Longrightarrow>
     gate_step s (set_phase p Returned (set_gate (notify st (the_gate s)) s))"
| cancel: "gate_step s (s\<lparr>cancelled := p # cancelled s\<rparr>)"
| after_func: "phase_of s p = Some Sleeping \<or> phase_of s p = Some Woken \<Longrightarrow>
     p \<in> set (cancelled s) \<Longrightarrow> p \<notin> set (fired s) \<Longrightarrow>
     gate_step s (broadcast (s\<lparr>fired := p # fired s\<rparr>))"

inductive gate_steps :: "sys \<Rightarrow> sys \<Rightarrow> bool" where
  none: "gate_steps s s"
| more: "gate_steps s t \<Longrightarrow> gate_step t u \<Longrightarrow> gate_steps s u"

definition gate_reachable :: "sys \<Rightarrow> bool" where
  "gate_reachable s \<longleftrightarrow> (\<exists>random. gate_steps (init_sys random) s)"

section \<open>Invariant\<close>

definition active :: "phase \<Rightarrow> bool" where
  "active ph \<longleftrightarrow> (case ph of Finishing st \<Rightarrow> False | Returned \<Rightarrow> False | _ \<Rightarrow> True)"

definition active_in :: "sys \<Rightarrow> nat \<Rightarrow> bool" where
  "active_in s p \<longleftrightarrow> (\<exists>ph. phase_of s p = Some ph \<and> active ph)"

text \<open>The counters of one status: a producer run moves the revision twice and the generation once.\<close>

definition counters_ok :: "gate_status \<Rightarrow> bool" where
  "counters_ok st \<longleftrightarrow>
     unat (st_revision st) = unat (st_generation st) + unat (st_completed st) \<and>
     unat (st_generation st) \<le> unat MaxSafeCounter \<and>
     unat (st_revision st) \<le> unat MaxSafeCounter - (if st_running st then 1 else 0) \<and>
     unat (st_generation st) = unat (st_completed st) + (if st_running st then 1 else 0)"

definition tokens_ok :: "sys \<Rightarrow> bool" where
  "tokens_ok s \<longleftrightarrow> distinct (open_tokens s) \<and> (\<forall>t \<in> set (open_tokens s). t < fresh s) \<and>
     editors (the_gate s) = length (open_tokens s) \<and> \<not> panicked s"

definition exclusion_ok :: "sys \<Rightarrow> bool" where
  "exclusion_ok s \<longleftrightarrow>
     (st_running (status (the_gate s)) \<longleftrightarrow> (\<exists>p. active_in s p)) \<and>
     (\<forall>p q. active_in s p \<longrightarrow> active_in s q \<longrightarrow> p = q) \<and>
     (\<forall>p. phase_of s p = Some Held \<longrightarrow> editors (the_gate s) = 0)"

definition wakeups_ok :: "sys \<Rightarrow> bool" where
  "wakeups_ok s \<longleftrightarrow>
     (\<forall>p. phase_of s p = Some Sleeping \<longrightarrow> 0 < editors (the_gate s) \<and>
        (p \<in> set (cancelled s) \<longrightarrow> p \<notin> set (fired s))) \<and>
     (\<forall>p. p \<in> set (fired s) \<longrightarrow> phase_of s p \<noteq> None \<and> p \<in> set (cancelled s) \<and>
        (\<forall>st. phase_of s p \<noteq> Some (Announcing st)) \<and> phase_of s p \<noteq> Some Entering)"

definition gate_inv :: "sys \<Rightarrow> bool" where
  "gate_inv s \<longleftrightarrow> counters_ok (status (the_gate s)) \<and> tokens_ok s \<and> exclusion_ok s \<and> wakeups_ok s"

named_theorems gate_simps \<open>how the helpers of the step relation read and write the system\<close>

lemma phase_set_phase [gate_simps]:
  "phase_of (set_phase p ph s) q = (if q = p then Some ph else phase_of s q)"
  by (simp add: phase_of_def set_phase_def)

lemma phase_broadcast [gate_simps]: "phase_of (broadcast s) q = map_option wake (phase_of s q)"
  by (simp add: phase_of_def broadcast_def row_def map_of_map)

lemma phase_other [gate_simps]:
  "phase_of (set_gate g s) q = phase_of s q" "phase_of (open_token s) q = phase_of s q"
  "phase_of (s\<lparr>open_tokens := ts\<rparr>) q = phase_of s q" "phase_of (s\<lparr>panicked := b\<rparr>) q = phase_of s q"
  "phase_of (s\<lparr>cancelled := cs\<rparr>) q = phase_of s q" "phase_of (s\<lparr>fired := fs\<rparr>) q = phase_of s q"
  by (simp_all add: phase_of_def set_gate_def open_token_def)

lemma gate_fields [gate_simps]:
  "the_gate (set_phase p ph s) = the_gate s" "the_gate (broadcast s) = the_gate s"
  "the_gate (set_gate g s) = g" "the_gate (open_token s) = the_gate s"
  "open_tokens (set_phase p ph s) = open_tokens s" "open_tokens (broadcast s) = open_tokens s"
  "open_tokens (set_gate g s) = open_tokens s"
  "open_tokens (open_token s) = fresh s # open_tokens s"
  "fresh (set_phase p ph s) = fresh s" "fresh (broadcast s) = fresh s" "fresh (set_gate g s) = fresh s"
  "fresh (open_token s) = fresh s + 1"
  "panicked (set_phase p ph s) = panicked s" "panicked (broadcast s) = panicked s"
  "panicked (set_gate g s) = panicked s" "panicked (open_token s) = panicked s"
  "cancelled (set_phase p ph s) = cancelled s" "cancelled (broadcast s) = cancelled s"
  "cancelled (set_gate g s) = cancelled s" "cancelled (open_token s) = cancelled s"
  "fired (set_phase p ph s) = fired s" "fired (broadcast s) = fired s"
  "fired (set_gate g s) = fired s" "fired (open_token s) = fired s"
  by (simp_all add: set_phase_def broadcast_def set_gate_def open_token_def)

lemma wake_simps [simp]:
  "wake ph = Sleeping \<longleftrightarrow> False" "wake ph = Held \<longleftrightarrow> ph = Held" "wake ph = Entering \<longleftrightarrow> ph = Entering"
  "wake ph = Announcing st \<longleftrightarrow> ph = Announcing st" "active (wake ph) \<longleftrightarrow> active ph"
  by (auto simp: wake_def active_def)

lemma active_in_simps [gate_simps]:
  "active_in (broadcast s) p = active_in s p"
  "active_in (set_gate g s) p = active_in s p" "active_in (open_token s) p = active_in s p"
  "active_in (s\<lparr>open_tokens := ts\<rparr>) p = active_in s p" "active_in (s\<lparr>panicked := b\<rparr>) p = active_in s p"
  "active_in (s\<lparr>cancelled := cs\<rparr>) p = active_in s p" "active_in (s\<lparr>fired := fs\<rparr>) p = active_in s p"
  "active_in (set_phase q ph s) p = (if p = q then active ph else active_in s p)"
  by (auto simp: active_in_def gate_simps)

lemma active_simps [simp]:
  "active (Announcing st)" "active Entering" "active Sleeping" "active Woken" "active Held"
  "\<not> active (Finishing st)" "\<not> active Returned"
  by (simp_all add: active_def)

lemma active_inI: "phase_of s p = Some ph \<Longrightarrow> active ph \<Longrightarrow> active_in s p"
  by (auto simp: active_in_def)

lemma counters_admit:
  assumes "counters_ok st" "\<not> st_running st" "st_generation st < MaxSafeCounter"
    "st_revision st \<le> MaxSafeCounter - 2"
  shows "counters_ok (st\<lparr>st_generation := st_generation st + 1, st_revision := st_revision st + 1,
     st_running := True\<rparr>)"
proof -
  have "unat (st_generation st + 1) = unat (st_generation st) + 1"
    using assms(3) by (simp add: MaxSafeCounter_def word_less_nat_alt unat_word_ariths)
  moreover have "unat (st_revision st + 1) = unat (st_revision st) + 1"
    using assms(4) by (simp add: MaxSafeCounter_def word_le_nat_alt unat_word_ariths)
  ultimately show ?thesis
    using assms by (simp add: counters_ok_def MaxSafeCounter_def word_less_nat_alt word_le_nat_alt)
qed

lemma counters_finish:
  assumes "counters_ok st" "st_running st"
  shows "counters_ok (st\<lparr>st_completed := st_generation st, st_revision := st_revision st + 1,
     st_running := False, st_last_run := now\<rparr>)"
proof -
  have "unat (st_revision st + 1) = unat (st_revision st) + 1"
    using assms by (simp add: counters_ok_def MaxSafeCounter_def unat_word_ariths)
  then show ?thesis using assms by (simp add: counters_ok_def MaxSafeCounter_def)
qed

lemma gate_inv_init: "gate_inv (init_sys random)"
  by (simp add: gate_inv_def counters_ok_def tokens_ok_def exclusion_ok_def wakeups_ok_def
      init_sys_def new_gate_def active_in_def phase_of_def)

lemmas gate_ops = begin_editor_context_def begin_strict_editor_def editor_release_def
  on_change_def drain_def notify_def producer_wait_def finish_producer_def Let_def

lemma producer_admitD:
  assumes "producer_admit g = (Inr st, g')"
  shows "\<not> draining g" "\<not> st_running (status g)" "status g' = st" "editors g' = editors g"
    "st = (status g)\<lparr>st_generation := st_generation (status g) + 1,
       st_revision := st_revision (status g) + 1, st_running := True\<rparr>"
    "st_generation (status g) < MaxSafeCounter" "st_revision (status g) \<le> MaxSafeCounter - 2"
    "draining g' = draining g" "hooks g' = hooks g"
  using assms by (auto simp: producer_admit_def Let_def split: if_splits)

lemma producer_waitD:
  assumes "producer_wait w now g = (r, g')"
  shows "(r = WaitMore \<and> g' = g \<and> 0 < editors g) \<or> (r = Acquired \<and> g' = g \<and> editors g = 0) \<or>
    (\<exists>e. w = Some (Some e) \<and> r = Canceled e (status g') \<and> g' = finish_producer now g)"
  using assms by (auto simp: producer_wait_def Let_def split: option.splits if_splits)

lemma finish_fields:
  "editors (finish_producer now g) = editors g" "draining (finish_producer now g) = draining g"
  "hooks (finish_producer now g) = hooks g" "\<not> st_running (status (finish_producer now g))"
  "status (finish_producer now g) = (status g)\<lparr>st_completed := st_generation (status g),
     st_revision := st_revision (status g) + 1, st_running := False, st_last_run := now\<rparr>"
  by (simp_all add: finish_producer_def Let_def)

lemma status_notify [gate_simps]:
  "status (notify st g) = status g" "editors (notify st g) = editors g"
  "draining (notify st g) = draining g"
  "status (on_change h g) = status g" "editors (on_change h g) = editors g"
  "draining (on_change h g) = draining g"
  "status (drain g) = status g" "editors (drain g) = editors g" "draining (drain g)"
  by (simp_all add: notify_def on_change_def drain_def split: option.splits)

lemma active_running:
  "gate_inv s \<Longrightarrow> phase_of s p = Some ph \<Longrightarrow> active ph \<Longrightarrow> st_running (status (the_gate s))"
  unfolding gate_inv_def exclusion_ok_def active_in_def by blast

lemma active_unique:
  "gate_inv s \<Longrightarrow> phase_of s p = Some ph \<Longrightarrow> active ph \<Longrightarrow> active_in s q \<Longrightarrow> q = p"
  unfolding gate_inv_def exclusion_ok_def active_in_def by blast

lemma counters_step: "gate_step s t \<Longrightarrow> gate_inv s \<Longrightarrow> counters_ok (status (the_gate t))"
proof (induction rule: gate_step.induct)
  case (admit s p st g)
  note d = producer_admitD [OF admit.hyps(2)]
  with admit.prems show ?case
    using counters_admit [of "status (the_gate s)"] by (simp add: gate_simps gate_inv_def)
next
  case (enter_wait s p now r g)
  with producer_waitD [OF enter_wait.hyps(2)] show ?case by (auto simp: gate_simps gate_inv_def)
next
  case (woken s p now r g s')
  have "st_running (status (the_gate s))"
    using active_running [OF woken.prems woken.hyps(1)] by simp
  with woken producer_waitD [OF woken.hyps(2)] show ?case
    by (auto simp: gate_simps gate_inv_def finish_fields intro: counters_finish)
next
  case (finish s p g now)
  have "st_running (status (the_gate s))"
    using active_running [OF finish.prems finish.hyps(1)] by simp
  with finish show ?case
    by (auto simp: gate_simps gate_inv_def finish_fields intro: counters_finish)
qed (auto simp: gate_simps gate_inv_def gate_ops split: if_splits option.splits)

lemma tokens_step: "gate_step s t \<Longrightarrow> gate_inv s \<Longrightarrow> tokens_ok t"
proof (induction rule: gate_step.induct)
  case (leave t s g s')
  then have "editors (the_gate s) = length (open_tokens s)" "0 < length (open_tokens s)"
    by (auto simp: gate_inv_def tokens_ok_def length_pos_if_in_set)
  with leave show ?case
    by (auto simp: gate_simps gate_inv_def tokens_ok_def editor_release_def length_remove1
        dest: notin_set_remove1 split: if_splits)
next
  case (leave_panic t s)
  then show ?case by (auto simp: gate_inv_def tokens_ok_def editor_release_def split: if_splits)
next
  case (admit s p st g)
  with producer_admitD [OF admit.hyps(2)] show ?case
    by (simp add: gate_simps gate_inv_def tokens_ok_def)
next
  case (enter_wait s p now r g)
  with producer_waitD [OF enter_wait.hyps(2)] show ?case
    by (auto simp: gate_simps gate_inv_def tokens_ok_def finish_fields)
next
  case (woken s p now r g s')
  with producer_waitD [OF woken.hyps(2)] show ?case
    by (auto simp: gate_simps gate_inv_def tokens_ok_def finish_fields)
next
  case (finish s p g now)
  then show ?case by (auto simp: gate_simps gate_inv_def tokens_ok_def finish_fields)
qed (auto simp: gate_simps gate_inv_def tokens_ok_def begin_editor_context_def
    begin_strict_editor_def Let_def less_Suc_eq split: if_splits option.splits)

lemma exclusion_step: "gate_step s t \<Longrightarrow> gate_inv s \<Longrightarrow> exclusion_ok t"
proof (induction rule: gate_step.induct)
  case (lenient ctx s u g)
  then show ?case
    using active_running [OF lenient.prems, of _ Held]
    by (auto simp: gate_simps gate_inv_def exclusion_ok_def begin_editor_context_def
        split: option.splits if_splits)
next
  case (strict inst rv cg s st g)
  then show ?case
    using active_running [OF strict.prems, of _ Held]
    by (auto simp: gate_simps gate_inv_def exclusion_ok_def begin_strict_editor_def Let_def
        split: if_splits)
next
  case (leave t s g s')
  then show ?case
    by (auto simp: gate_simps gate_inv_def exclusion_ok_def editor_release_def split: if_splits)
next
  case (admit s p st g)
  note d = producer_admitD [OF admit.hyps(2)]
  have none: "\<not> active_in s q" for q
    using admit.prems d(2) by (auto simp: gate_inv_def exclusion_ok_def)
  have "phase_of s q \<noteq> Some Held" for q using none [of q] by (auto simp: active_in_def)
  with none d show ?case by (simp add: gate_simps exclusion_ok_def)
next
  case (announce s p st)
  then show ?case
    using active_unique [OF announce.prems announce.hyps(1)]
      active_running [OF announce.prems announce.hyps(1)]
    by (auto simp: gate_simps gate_inv_def exclusion_ok_def)
next
  case (enter_wait s p now r g)
  with producer_waitD [OF enter_wait.hyps(2)] show ?case
    using active_unique [OF enter_wait.prems enter_wait.hyps(1)]
      active_running [OF enter_wait.prems enter_wait.hyps(1)]
    by (auto simp: gate_simps gate_inv_def exclusion_ok_def after_wait_def)
next
  case (woken s p now r g s')
  note u = active_unique [OF woken.prems woken.hyps(1)]
  note r = active_running [OF woken.prems woken.hyps(1)]
  have "phase_of s q \<noteq> Some Held" for q using u [of q] woken.hyps(1) by (auto simp: active_in_def)
  with woken producer_waitD [OF woken.hyps(2)] u r show ?case
    by (auto simp: gate_simps gate_inv_def exclusion_ok_def after_wait_def finish_fields
        canceled_result_def)
next
  case (finish s p g now)
  note u = active_unique [OF finish.prems finish.hyps(1)]
  with finish show ?case
    by (auto simp: gate_simps gate_inv_def exclusion_ok_def finish_fields)
next
  case (finish_notify s p st)
  then have "\<not> active_in s p" by (simp add: active_in_def)
  with finish_notify show ?case by (auto simp: gate_simps gate_inv_def exclusion_ok_def)
qed (simp_all add: gate_simps gate_inv_def exclusion_ok_def)

lemma wakeups_step: "gate_step s t \<Longrightarrow> gate_inv s \<Longrightarrow> wakeups_ok t"
proof (induction rule: gate_step.induct)
  case (leave t s g s')
  then show ?case by (auto simp: gate_simps gate_inv_def wakeups_ok_def editor_release_def
        split: if_splits)
next
  case (admit s p st g)
  with producer_admitD [OF admit.hyps(2)] show ?case
    by (auto simp: gate_simps gate_inv_def wakeups_ok_def)
next
  case (announce s p st)
  then show ?case by (auto simp: gate_simps gate_inv_def wakeups_ok_def)
next
  case (enter_wait s p now r g)
  then have "p \<notin> set (fired s)" by (auto simp: gate_inv_def wakeups_ok_def)
  with enter_wait producer_waitD [OF enter_wait.hyps(2)] show ?case
    by (auto simp: gate_simps gate_inv_def wakeups_ok_def after_wait_def)
next
  case (woken s p now r g s')
  have w: "wakeups_ok s" using woken.prems by (simp add: gate_inv_def)
  have cases: "(r = WaitMore \<and> g = the_gate s \<and> 0 < editors g \<and> p \<notin> set (cancelled s)) \<or>
      (r = Acquired \<and> g = the_gate s) \<or> (canceled_result r \<and> editors g = editors (the_gate s))"
    using woken.hyps(2)
    by (auto simp: producer_wait_def ctx_answer_def canceled_result_def finish_producer_def Let_def
        split: if_splits)
  then have "after_wait r \<noteq> Entering \<and> (\<forall>st. after_wait r \<noteq> Announcing st) \<and>
      (after_wait r = Sleeping \<longrightarrow> r = WaitMore)"
    by (auto simp: after_wait_def split: wait_result.splits)
  with w cases woken.hyps(3) show ?case
    by (elim disjE conjE)
      (auto simp: gate_simps wakeups_ok_def canceled_result_def split: wait_result.splits)
next
  case (finish_notify s p st)
  then show ?case by (auto simp: gate_simps gate_inv_def wakeups_ok_def)
next
  case (finish s p g now)
  then show ?case by (auto simp: gate_simps gate_inv_def wakeups_ok_def finish_fields)
next
  case (lenient ctx s u g)
  then show ?case by (auto simp: gate_simps gate_inv_def wakeups_ok_def begin_editor_context_def
        split: option.splits if_splits)
next
  case (strict inst rv cg s st g)
  then show ?case by (auto simp: gate_simps gate_inv_def wakeups_ok_def begin_strict_editor_def
        Let_def split: if_splits)
next
  case (after_func s p)
  then have "wakeups_ok s" by (simp add: gate_inv_def)
  with after_func.hyps show ?case by (auto simp: gate_simps wakeups_ok_def)
next
  case (leave_panic t s)
  then have "wakeups_ok s" by (simp add: gate_inv_def)
  then show ?case by (simp add: wakeups_ok_def gate_simps)
next
  case (observe s h)
  then have "wakeups_ok s" by (simp add: gate_inv_def)
  then show ?case by (simp only: wakeups_ok_def gate_simps)
next
  case (draining s)
  then have "wakeups_ok s" by (simp add: gate_inv_def)
  then show ?case by (auto simp: gate_simps wakeups_ok_def)
next
  case (cancel s p)
  then have w: "wakeups_ok s" by (simp add: gate_inv_def)
  have f: "the_gate (s\<lparr>cancelled := p # cancelled s\<rparr>) = the_gate s"
    "fired (s\<lparr>cancelled := p # cancelled s\<rparr>) = fired s"
    "set (cancelled (s\<lparr>cancelled := p # cancelled s\<rparr>)) = insert p (set (cancelled s))"
    by simp_all
  show ?case using w unfolding wakeups_ok_def gate_simps f by blast
qed

lemma gate_step_inv: "gate_step s t \<Longrightarrow> gate_inv s \<Longrightarrow> gate_inv t"
  unfolding gate_inv_def [of t]
  by (blast intro: counters_step tokens_step exclusion_step wakeups_step)

lemma gate_reachable_inv: "gate_reachable s \<Longrightarrow> gate_inv s"
proof -
  have "gate_steps i t \<Longrightarrow> gate_inv i \<Longrightarrow> gate_inv t" for i t
    by (induction rule: gate_steps.induct) (auto intro: gate_step_inv)
  then show "gate_reachable s \<Longrightarrow> gate_inv s"
    by (auto simp: gate_reachable_def gate_inv_init)
qed

section \<open>Runs\<close>

lemma gate_steps_trans: "gate_steps t u \<Longrightarrow> gate_steps s t \<Longrightarrow> gate_steps s u"
  by (induction rule: gate_steps.induct) (auto intro: gate_steps.more)

lemma gate_step_steps: "gate_step s t \<Longrightarrow> gate_steps s t"
  by (rule gate_steps.more [OF gate_steps.none])

lemma gate_steps_inv: "gate_steps s t \<Longrightarrow> gate_inv s \<Longrightarrow> gate_inv t"
  by (induction rule: gate_steps.induct) (auto intro: gate_step_inv)

text \<open>Every step keeps the status or moves the revision up by one.\<close>

definition moved :: "gate_status \<Rightarrow> gate_status \<Rightarrow> bool" where
  "moved st st' \<longleftrightarrow> st' = st \<or> unat (st_revision st) < unat (st_revision st')"

lemma moved_finish:
  "counters_ok st \<Longrightarrow> st_running st \<Longrightarrow>
   unat (st_revision st) < unat (st_revision st + 1)"
  by (simp add: counters_ok_def MaxSafeCounter_def unat_word_ariths)

lemma moved_step: "gate_step s t \<Longrightarrow> gate_inv s \<Longrightarrow> moved (status (the_gate s)) (status (the_gate t))"
proof (induction rule: gate_step.induct)
  case (admit s p st g)
  note d = producer_admitD [OF admit.hyps(2)]
  have "unat (st_revision (status (the_gate s)) + 1) = unat (st_revision (status (the_gate s))) + 1"
    using d(7) by (simp add: MaxSafeCounter_def word_le_nat_alt unat_word_ariths)
  with d show ?case by (simp add: gate_simps moved_def)
next
  case (enter_wait s p now r g)
  with producer_waitD [OF enter_wait.hyps(2)] show ?case by (auto simp: gate_simps moved_def)
next
  case (woken s p now r g s')
  have "st_running (status (the_gate s))" "counters_ok (status (the_gate s))"
    using active_running [OF woken.prems woken.hyps(1)] woken.prems by (simp_all add: gate_inv_def)
  with producer_waitD [OF woken.hyps(2)] woken.hyps(3) moved_finish show ?case
    by (auto simp: gate_simps moved_def finish_fields)
next
  case (finish s p g now)
  have "st_running (status (the_gate s))" "counters_ok (status (the_gate s))"
    using active_running [OF finish.prems finish.hyps(1)] finish.prems by (simp_all add: gate_inv_def)
  with finish.hyps(2) moved_finish show ?case by (simp add: gate_simps moved_def finish_fields)
qed (auto simp: gate_simps moved_def begin_editor_context_def begin_strict_editor_def
    editor_release_def Let_def split: if_splits option.splits)

lemma moved_steps: "gate_steps s t \<Longrightarrow> gate_inv s \<Longrightarrow> moved (status (the_gate s)) (status (the_gate t))"
proof (induction rule: gate_steps.induct)
  case (more s t u)
  then have "moved (status (the_gate t)) (status (the_gate u))"
    by (blast intro: moved_step gate_steps_inv)
  with more show ?case by (auto simp: moved_def)
qed (simp add: moved_def)

lemma drained_step:
  "gate_step s t \<Longrightarrow> draining (the_gate s) \<Longrightarrow>
   draining (the_gate t) \<and> st_generation (status (the_gate t)) = st_generation (status (the_gate s))"
proof (induction rule: gate_step.induct)
  case (admit s p st g)
  with producer_admitD(1) [OF admit.hyps(2)] show ?case by simp
next
  case (enter_wait s p now r g)
  with producer_waitD [OF enter_wait.hyps(2)] show ?case by (auto simp: gate_simps)
next
  case (woken s p now r g s')
  with producer_waitD [OF woken.hyps(2)] show ?case by (auto simp: gate_simps finish_fields)
next
  case (finish s p g now)
  then show ?case by (simp add: gate_simps finish_fields)
qed (auto simp: gate_simps begin_editor_context_def begin_strict_editor_def editor_release_def
    Let_def split: if_splits option.splits)

lemma drained_steps:
  "gate_steps s t \<Longrightarrow> draining (the_gate s) \<Longrightarrow>
   draining (the_gate t) \<and> st_generation (status (the_gate t)) = st_generation (status (the_gate s))"
  by (induction rule: gate_steps.induct) (auto dest: drained_step)

text \<open>All editors can leave, and then the producer can run to its end.\<close>

lemma leave_one:
  assumes "gate_inv s" "t \<in> set (open_tokens s)"
  shows "\<exists>s'. gate_step s s' \<and> length (open_tokens s') < length (open_tokens s) \<and>
     (\<forall>p. active_in s' p = active_in s p)"
proof -
  have "editors (the_gate s) = length (open_tokens s)" "0 < length (open_tokens s)"
    using assms by (auto simp: gate_inv_def tokens_ok_def length_pos_if_in_set)
  then obtain g where g: "editor_release (the_gate s) = Some g" by (auto simp: editor_release_def)
  have len: "length (remove1 t (open_tokens s)) < length (open_tokens s)"
    using assms(2) by (metis One_nat_def Suc_pred length_pos_if_in_set length_remove1 lessI)
  show ?thesis
    by (intro exI conjI, rule gate_step.leave [OF assms(2) g refl])
      (use len in \<open>auto simp: gate_simps\<close>)
qed

lemma leave_all:
  "gate_inv s \<Longrightarrow> \<exists>t. gate_steps s t \<and> open_tokens t = [] \<and> (\<forall>p. active_in t p = active_in s p)"
proof (induction "length (open_tokens s)" arbitrary: s rule: less_induct)
  case less
  show ?case
  proof (cases "open_tokens s")
    case Nil
    then show ?thesis by (blast intro: gate_steps.none)
  next
    case (Cons t ts)
    then obtain s' where s': "gate_step s s'" "length (open_tokens s') < length (open_tokens s)"
      "\<forall>p. active_in s' p = active_in s p"
      using leave_one [OF less.prems, of t] by auto
    with less.hyps [of s'] gate_step_inv [OF s'(1) less.prems] show ?thesis
      by (metis gate_steps_trans gate_step_steps)
  qed
qed

lemma held_finishes:
  assumes "phase_of s p = Some Held"
  shows "\<exists>t. gate_steps s t \<and> \<not> st_running (status (the_gate t))"
  using gate_step_steps [OF gate_step.finish [OF assms refl, of "''''"]]
  by (intro exI conjI, assumption) (auto simp: gate_simps finish_fields)

lemma entering_finishes:
  assumes "gate_inv s" "phase_of s p = Some Entering" "open_tokens s = []"
  shows "\<exists>t. gate_steps s t \<and> \<not> st_running (status (the_gate t))"
proof -
  have "producer_wait None '''' (the_gate s) = (Acquired, the_gate s)"
    using assms by (simp add: producer_wait_def gate_inv_def tokens_ok_def)
  from gate_step.enter_wait [OF assms(2) this] obtain t where
    "gate_step s t" "phase_of t p = Some Held" by (auto simp: gate_simps after_wait_def)
  then show ?thesis using held_finishes by (blast intro: gate_steps_trans gate_step_steps)
qed

lemma woken_finishes:
  assumes "gate_inv s" "phase_of s p = Some Woken" "open_tokens s = []"
  shows "\<exists>t. gate_steps s t \<and> \<not> st_running (status (the_gate t))"
proof (cases "ctx_answer s p")
  case None
  then have "producer_wait (Some (ctx_answer s p)) '''' (the_gate s) = (Acquired, the_gate s)"
    using assms by (simp add: producer_wait_def gate_inv_def tokens_ok_def)
  from gate_step.woken [OF assms(2) this refl] obtain t where
    "gate_step s t" "phase_of t p = Some Held"
    by (auto simp: gate_simps after_wait_def canceled_result_def)
  then show ?thesis using held_finishes by (blast intro: gate_steps_trans gate_step_steps)
next
  case (Some e)
  then obtain r g where r: "producer_wait (Some (ctx_answer s p)) '''' (the_gate s) = (r, g)"
    "\<not> st_running (status g)"
    by (auto simp: producer_wait_def Let_def finish_fields)
  show ?thesis
    by (intro exI conjI, rule gate_step_steps [OF gate_step.woken [OF assms(2) r(1) refl]])
      (use r(2) in \<open>auto simp: gate_simps\<close>)
qed

lemma active_finishes:
  assumes "gate_inv s" "active_in s p"
  shows "\<exists>t. gate_steps s t \<and> \<not> st_running (status (the_gate t))"
proof -
  obtain t where t: "gate_steps s t" "open_tokens t = []" "active_in t p"
    using leave_all [OF assms(1)] assms(2) by blast
  then have inv: "gate_inv t" using assms(1) by (blast intro: gate_steps_inv)
  then have "editors (the_gate t) = 0" using t(2) by (simp add: gate_inv_def tokens_ok_def)
  with inv have ns: "phase_of t p \<noteq> Some Sleeping" by (auto simp: gate_inv_def wakeups_ok_def)
  obtain ph where ph: "phase_of t p = Some ph" "active ph" using t(3) by (auto simp: active_in_def)
  have "\<exists>u. gate_steps t u \<and> \<not> st_running (status (the_gate u))"
  proof (cases ph)
    case (Announcing st)
    from gate_step.announce [OF ph(1) [unfolded Announcing]] obtain u where
      u: "gate_step t u" "phase_of u p = Some Entering" "open_tokens u = []"
      using t(2) by (auto simp: gate_simps)
    then show ?thesis using entering_finishes [OF gate_step_inv [OF u(1) inv] u(2,3)]
      by (blast intro: gate_steps_trans gate_step_steps)
  qed (use ph ns inv t(2) in \<open>auto intro: entering_finishes woken_finishes held_finishes\<close>)
  then show ?thesis using t(1) by (blast intro: gate_steps_trans)
qed

section \<open>Properties\<close>

text \<open>
  A sample run for the witnesses: one producer is admitted while an editor holds the gate,
  sleeps, the editor leaves, and the producer acquires the gate.
\<close>

definition demo_status :: gate_status where
  "demo_status = \<lparr>st_version = 1, st_instance = b64_encode [7], st_revision = 1, st_generation = 1,
     st_completed = 0, st_running = True, st_last_run = ''''\<rparr>"

definition demo :: "nat \<Rightarrow> nat list \<Rightarrow> phase \<Rightarrow> sys" where
  "demo n ts ph = \<lparr>the_gate = \<lparr>status = demo_status, editors = n, draining = False, hooks = [],
     calls = []\<rparr>, open_tokens = ts, fresh = 1, threads = [(0, ph)], cancelled = [], fired = [],
     panicked = False\<rparr>"

lemma demo_steps:
  "gate_steps (init_sys [7]) (demo 1 [0] (Announcing demo_status))"
  "gate_steps (init_sys [7]) (demo 1 [0] Sleeping)"
  "gate_steps (init_sys [7]) (demo 0 [] Held)"
proof -
  let ?g = "(new_gate [7])\<lparr>editors := 1\<rparr>"
  let ?s = "open_token (set_gate ?g (init_sys [7]))"
  have 1: "gate_steps (init_sys [7]) ?s"
    by (rule gate_step_steps, rule gate_step.lenient [where ctx = None])
      (simp add: begin_editor_context_def init_sys_def new_gate_def)
  have 2: "gate_step ?s (demo 1 [0] (Announcing demo_status))"
    using gate_step.admit [of ?s 0 demo_status "the_gate (demo 1 [0] Held)"]
    by (simp add: demo_def demo_status_def init_sys_def new_gate_def open_token_def set_gate_def
        set_phase_def broadcast_def phase_of_def producer_admit_def MaxSafeCounter_def put_def Let_def)
  have 3: "gate_step (demo 1 [0] (Announcing demo_status)) (demo 1 [0] Entering)"
    using gate_step.announce [of "demo 1 [0] (Announcing demo_status)" 0 demo_status]
    by (simp add: demo_def phase_of_def row_def set_gate_def set_phase_def put_def notify_def)
  have 4: "gate_step (demo 1 [0] Entering) (demo 1 [0] Sleeping)"
    using gate_step.enter_wait [of "demo 1 [0] Entering" 0 "''''" WaitMore "the_gate (demo 1 [0] Held)"]
    by (simp add: demo_def phase_of_def row_def set_gate_def set_phase_def put_def
        producer_wait_def after_wait_def)
  have 5: "gate_step (demo 1 [0] Sleeping) (demo 0 [] Woken)"
    using gate_step.leave [of 0 "demo 1 [0] Sleeping" "the_gate (demo 0 [] Held)", OF _ _ refl]
    by (simp add: demo_def editor_release_def set_gate_def broadcast_def wake_def)
  have 6: "gate_step (demo 0 [] Woken) (demo 0 [] Held)"
    using gate_step.woken [of "demo 0 [] Woken" 0 "''''" Acquired "the_gate (demo 0 [] Held)", OF _ _ refl]
    by (simp add: demo_def phase_of_def row_def set_gate_def set_phase_def put_def ctx_answer_def
        producer_wait_def after_wait_def canceled_result_def)
  show a: "gate_steps (init_sys [7]) (demo 1 [0] (Announcing demo_status))"
    using 1 2 by (rule gate_steps.more)
  show b: "gate_steps (init_sys [7]) (demo 1 [0] Sleeping)"
    by (rule gate_steps.more [OF gate_steps.more [OF a 3] 4])
  show "gate_steps (init_sys [7]) (demo 0 [] Held)"
    by (rule gate_steps.more [OF gate_steps.more [OF b 5] 6])
qed



text \<open>
  C23: a strict editor is admitted only on the state it loaded. If a client read the status in
  a reachable state \<open>s\<close> and the strict check with those values succeeds later in \<open>t\<close>, then the
  status in \<open>t\<close> is the one it read: no producer was admitted or finished in between.
\<close>

theorem strict_admission_not_stale:
  assumes "gate_reachable s" "gate_steps s t"
    "begin_strict_editor (st_instance (status (the_gate s))) (st_revision (status (the_gate s)))
       (st_completed (status (the_gate s))) (the_gate t) = ((st, True), g)"
  shows "status (the_gate t) = status (the_gate s) \<and> \<not> st_running (status (the_gate s)) \<and>
     editors g = editors (the_gate t) + 1"
proof -
  have "moved (status (the_gate s)) (status (the_gate t))"
    using assms(1,2) by (blast intro: moved_steps gate_reachable_inv)
  with assms(3) show ?thesis by (auto simp: begin_strict_editor_def Let_def moved_def split: if_splits)
qed

text \<open>The sample run goes on: the producer completes generation 1, then another editor enters.\<close>

definition demo_done :: sys where
  "demo_done = (demo 0 [] (Finishing (status (finish_producer ''t'' (the_gate (demo 0 [] Held))))))
     \<lparr>the_gate := finish_producer ''t'' (the_gate (demo 0 [] Held))\<rparr>"

definition demo_edited :: sys where
  "demo_edited = open_token (set_gate ((the_gate demo_done)\<lparr>editors := 1\<rparr>) demo_done)"

lemma demo_done_steps: "gate_steps (init_sys [7]) demo_done" "gate_step demo_done demo_edited"
proof -
  have "gate_step (demo 0 [] Held) demo_done"
    using gate_step.finish [of "demo 0 [] Held" 0 _ "''t''", OF _ refl]
    by (simp add: demo_done_def demo_def phase_of_def row_def set_gate_def set_phase_def put_def broadcast_def wake_def finish_producer_def Let_def)
  with demo_steps(3) show "gate_steps (init_sys [7]) demo_done" by (rule gate_steps.more)
  show "gate_step demo_done demo_edited"
    unfolding demo_edited_def
    by (rule gate_step.lenient [where ctx = None])
      (simp add: begin_editor_context_def demo_done_def demo_def demo_status_def finish_producer_def Let_def)
qed

lemma strict_admission_not_stale_witness:
  "gate_steps (init_sys [7]) demo_done \<and> gate_step demo_done demo_edited \<and> st_completed (status (the_gate demo_done)) = 1 \<and>
   (\<exists>g. begin_strict_editor (st_instance (status (the_gate demo_done))) (st_revision (status (the_gate demo_done)))
       (st_completed (status (the_gate demo_done))) (the_gate demo_edited) = ((status (the_gate demo_edited), True), g) \<and>
     status (the_gate demo_edited) = status (the_gate demo_done) \<and> \<not> st_running (status (the_gate demo_done)) \<and> editors g = 2)"
proof -
  let ?st = "status (the_gate demo_done)" and ?g = "(the_gate demo_edited)\<lparr>editors := 2\<rparr>"
  have r: "gate_reachable demo_done" using demo_done_steps(1) by (auto simp: gate_reachable_def)
  have t: "gate_steps demo_done demo_edited" by (rule gate_step_steps [OF demo_done_steps(2)])
  have b: "begin_strict_editor (st_instance ?st) (st_revision ?st) (st_completed ?st) (the_gate demo_edited) =
      ((status (the_gate demo_edited), True), ?g)"
    by (simp add: begin_strict_editor_def demo_edited_def demo_done_def demo_def demo_status_def finish_producer_def open_token_def
        set_gate_def Let_def)
  have "st_completed ?st = 1" by (simp add: demo_done_def demo_def demo_status_def finish_producer_def Let_def)
  then show ?thesis using strict_admission_not_stale [OF r t b] demo_done_steps b by auto
qed

text \<open>
  C24: no lost wake-up. A producer asleep in the wait has an editor to wait for, and once its
  context is cancelled the broadcast that wakes it is still to come.
\<close>

theorem no_lost_wakeup:
  assumes "gate_reachable s" "phase_of s p = Some Sleeping"
  shows "0 < editors (the_gate s) \<and>
    (p \<in> set (cancelled s) \<longrightarrow> (\<exists>t. gate_step s t \<and> phase_of t p = Some Woken))"
proof -
  have w: "0 < editors (the_gate s)" "p \<in> set (cancelled s) \<longrightarrow> p \<notin> set (fired s)"
    using gate_reachable_inv [OF assms(1)] assms(2) by (auto simp: gate_inv_def wakeups_ok_def)
  have "phase_of (broadcast (s\<lparr>fired := p # fired s\<rparr>)) p = Some Woken"
    using assms(2) by (simp add: gate_simps wake_def)
  with w assms(2) show ?thesis by (blast intro: gate_step.after_func)
qed

lemma no_lost_wakeup_witness:
  "gate_reachable (demo 1 [0] Sleeping) \<and> phase_of (demo 1 [0] Sleeping) 0 = Some Sleeping \<and>
   0 < editors (the_gate (demo 1 [0] Sleeping))"
proof -
  have r: "gate_reachable (demo 1 [0] Sleeping)" using demo_steps(2) by (auto simp: gate_reachable_def)
  have h: "phase_of (demo 1 [0] Sleeping) 0 = Some Sleeping" by (simp add: demo_def phase_of_def row_def)
  from r h no_lost_wakeup [OF r h] show ?thesis by simp
qed

text \<open>
  The gate is never stuck running. From every reachable state some continuation completes
  the published generation.
\<close>

theorem gate_can_complete:
  assumes "gate_reachable s"
  shows "\<exists>t. gate_steps s t \<and> \<not> st_running (status (the_gate t)) \<and>
    st_completed (status (the_gate t)) = st_generation (status (the_gate t))"
proof -
  have inv: "gate_inv s" using assms by (rule gate_reachable_inv)
  have "\<exists>p. active_in s p" if "st_running (status (the_gate s))"
    using inv that unfolding gate_inv_def exclusion_ok_def by blast
  then obtain t where t: "gate_steps s t" "\<not> st_running (status (the_gate t))"
    using active_finishes [OF inv] gate_steps.none by blast
  then have "counters_ok (status (the_gate t))"
    using gate_steps_inv [OF t(1) inv] by (simp add: gate_inv_def)
  with t show ?thesis by (intro exI [of _ t]) (simp add: counters_ok_def word_unat_eq_iff)
qed

lemma gate_can_complete_witness:
  "\<exists>t. gate_steps (demo 1 [0] Sleeping) t \<and> \<not> st_running (status (the_gate t))"
  using gate_can_complete [of "demo 1 [0] Sleeping"] demo_steps(2) by (auto simp: gate_reachable_def)

text \<open>
  The counters. In every reachable state the release closures never panic, the revision is
  the sum of the two generations, at most one generation is open, and every counter stays
  within the integers a JSON client can represent.
\<close>

theorem gate_counters_exact:
  assumes "gate_reachable s"
  shows "let st = status (the_gate s) in \<not> panicked s \<and>
    unat (st_revision st) = unat (st_generation st) + unat (st_completed st) \<and>
    unat (st_generation st) = unat (st_completed st) + (if st_running st then 1 else 0) \<and>
    unat (st_revision st) \<le> 2 ^ 53 - 1 \<and> unat (st_generation st) \<le> 2 ^ 53 - 1"
  using gate_reachable_inv [OF assms]
  by (auto simp: gate_inv_def counters_ok_def tokens_ok_def MaxSafeCounter_def Let_def split: if_splits)

lemma gate_counters_exact_witness:
  "unat (st_revision (status (the_gate (demo 0 [] Held)))) \<le> 2 ^ 53 - 1"
proof -
  have "gate_reachable (demo 0 [] Held)" using demo_steps(3) by (auto simp: gate_reachable_def)
  from gate_counters_exact [OF this] show ?thesis by (simp add: Let_def)
qed

text \<open>
  Draining is permanent. After a drain no producer is ever admitted again, while a producer
  already admitted may still finish.
\<close>

theorem drain_is_permanent:
  assumes "gate_steps (broadcast (set_gate (drain (the_gate s)) s)) t"
  shows "producer_admit (the_gate t) = (Inl ErrDraining, the_gate t) \<and>
    st_generation (status (the_gate t)) = st_generation (status (the_gate s))"
  using drained_steps [OF assms] by (simp add: gate_simps producer_admit_def)

lemma drain_is_permanent_witness:
  "producer_admit (the_gate (broadcast (set_gate (drain (new_gate [7])) (init_sys [7])))) =
     (Inl ErrDraining, the_gate (broadcast (set_gate (drain (new_gate [7])) (init_sys [7]))))"
  using drain_is_permanent [OF gate_steps.none, of "init_sys [7]"] by (simp add: init_sys_def)

end
