(* ===== verification/EditorGateApi.thy ===== *)
theory EditorGateApi
  imports EditorGate
begin

text \<open>
  \<open>internal/api/editor_gate.go\<close> and the admission wrappers of \<open>internal/api/server.go\<close>: the
  header a strict client sends, and the handlers that admit a content write. A handler runs
  over the editor gate, the content lock and the rest of the world; the wrapped handler
  \<open>next\<close> changes the world only. The content lock is \<open>golang.org/x/sync/semaphore\<close>, code
  outside the repository: its shared acquire and release are the parameters \<open>lock\<close> and
  \<open>unlock\<close>.
\<close>

section \<open>The loaded producer state header\<close>

datatype body = ErrorBody string | StatusBody gate_status | OtherBody string

type_synonym response = "nat \<times> body"

definition parse_loaded_counter :: "string \<Rightarrow> u64 option" where
  "parse_loaded_counter value =
     (case parse_uint value of None \<Rightarrow> None
      | Some counter \<Rightarrow>
        if unat MaxSafeCounter < counter \<or> format_uint counter \<noteq> value then None
        else Some (of_nat counter))"

definition invalid_loaded :: response where
  "invalid_loaded = (400, ErrorBody ''invalid loaded producer state'')"

definition parse_loaded_state :: "string list \<Rightarrow> response + (string \<times> u64 \<times> u64)" where
  "parse_loaded_state values =
     (case values of
        [] \<Rightarrow> Inl (428, ErrorBody ''loaded producer state required'')
      | [v] \<Rightarrow>
        (case split_on '':'' v of
           [p0, p1, p2] \<Rightarrow>
             if p0 = [] \<or> p1 = [] \<or> p2 = [] then Inl invalid_loaded
             else (case b64_decode p0 of None \<Rightarrow> Inl invalid_loaded
               | Some decoded \<Rightarrow>
                 if decoded = [] \<or> b64_encode decoded \<noteq> p0 then Inl invalid_loaded
                 else (case parse_loaded_counter p1 of None \<Rightarrow> Inl invalid_loaded
                   | Some revision \<Rightarrow>
                     (case parse_loaded_counter p2 of None \<Rightarrow> Inl invalid_loaded
                      | Some completed \<Rightarrow> Inr (p0, revision, completed))))
         | _ \<Rightarrow> Inl invalid_loaded)
      | _ \<Rightarrow> Inl invalid_loaded)"

text \<open>What a client renders from a status it loaded.\<close>

definition loaded_header :: "gate_status \<Rightarrow> string" where
  "loaded_header st = st_instance st @ '':'' @ format_uint (unat (st_revision st)) @ '':'' @
     format_uint (unat (st_completed st))"

lemma parse_loaded_counter_iff:
  "parse_loaded_counter v = Some c \<longleftrightarrow> v = format_uint (unat c) \<and> unat c \<le> unat MaxSafeCounter"
proof
  assume "parse_loaded_counter v = Some c"
  then obtain n where n: "parse_uint v = Some n" "n \<le> unat MaxSafeCounter" "format_uint n = v" "c = of_nat n"
    by (auto simp: parse_loaded_counter_def split: option.splits if_splits)
  then have "unat c = n" using parse_uint_bound [OF n(1)] by (simp add: unat_of_nat take_bit_nat_eq_self)
  with n show "v = format_uint (unat c) \<and> unat c \<le> unat MaxSafeCounter" by simp
next
  assume v: "v = format_uint (unat c) \<and> unat c \<le> unat MaxSafeCounter"
  have "unat c < 2 ^ 64" using unsigned_less [of c] by simp
  with v show "parse_loaded_counter v = Some c"
    by (simp add: parse_loaded_counter_def parse_format_uint)
qed

lemma colon_not_digit: "CHR '':'' \<notin> set (format_uint n)"
  by (rule format_uint_no_char) (simp add: is_digit_def)

text \<open>The three pieces of a header, and the header from its pieces.\<close>

lemma split_three:
  assumes "CHR '':'' \<notin> set a" "CHR '':'' \<notin> set b" "CHR '':'' \<notin> set c"
  shows "split_on '':'' (a @ '':'' @ b @ '':'' @ c) = [a, b, c]"
  using assms by (simp add: split_char split_char_end)

lemma split_three_join: "split_on '':'' v = [a, b, c] \<Longrightarrow> v = a @ '':'' @ b @ '':'' @ c"
  using join_split [of "'':''" v] by simp

lemma parse_loaded_state_Inr:
  "parse_loaded_state vs = Inr (i, r, c) \<longleftrightarrow>
     (\<exists>v p1 p2 d. vs = [v] \<and> split_on '':'' v = [i, p1, p2] \<and> b64_decode i = Some d \<and> d \<noteq> [] \<and>
        b64_encode d = i \<and> parse_loaded_counter p1 = Some r \<and> parse_loaded_counter p2 = Some c)"
  (is "?l \<longleftrightarrow> ?r")
proof
  assume ?l
  then show ?r by (auto simp: parse_loaded_state_def split: list.splits if_splits option.splits)
next
  assume ?r
  then obtain v p1 p2 d where h: "vs = [v]" "split_on '':'' v = [i, p1, p2]" "b64_decode i = Some d"
    "d \<noteq> []" "b64_encode d = i" "parse_loaded_counter p1 = Some r" "parse_loaded_counter p2 = Some c"
    by blast
  then have "p1 \<noteq> []" "p2 \<noteq> []" by (auto simp: parse_loaded_counter_iff)
  moreover have "i \<noteq> []" using h(4,5) by auto
  ultimately show ?l using h by (simp add: parse_loaded_state_def)
qed

lemma find_index_lt: "find_index c xs = Some n \<Longrightarrow> n < length xs"
  by (induction xs arbitrary: n) (auto split: if_splits)

lemma sextet_val_lt: "sextet_val c = Some n \<Longrightarrow> n < 64"
  using find_index_lt [of c alphabet n] by (simp add: sextet_val_def alphabet_def)

lemma the_sextet_lt: "sextet_val c \<noteq> None \<Longrightarrow> the (sextet_val c) < 64"
  using sextet_val_lt by auto

lemma b64_ungroup_bytes:
  "\<forall>n \<in> set xs. n < 64 \<Longrightarrow> b64_ungroup xs = Some d \<Longrightarrow> \<forall>b \<in> set d. b < 256"
proof (induction xs arbitrary: d rule: b64_ungroup.induct)
  case (1 p q r t xs)
  then obtain ys where ys: "b64_ungroup xs = Some ys" by auto
  with 1 have "\<forall>b \<in> set ys. b < 256" by simp
  with 1(2,3) ys show ?case by (auto simp: less_mult_imp_div_less)
qed auto

lemma b64_decode_bytes: "b64_decode s = Some d \<Longrightarrow> \<forall>b \<in> set d. b < 256"
  by (auto simp: b64_decode_def Let_def list_all_iff split: if_splits
      elim!: b64_ungroup_bytes [rotated] intro!: the_sextet_lt)

section \<open>Handlers\<close>

text \<open>\<open>None\<close> is the panic of a release without acquisition.\<close>

type_synonym ('c, 'w) handler = "gate \<Rightarrow> 'c \<Rightarrow> 'w \<Rightarrow> (response \<times> gate \<times> 'c \<times> 'w) option"

definition write_editor_admission_error :: "gate_error \<Rightarrow> response" where
  "write_editor_admission_error e =
     (if e = ErrProducerRunning then (409, ErrorBody ''producer is running; reload before saving'')
      else (503, ErrorBody ''request canceled''))"

definition with_release ::
  "response \<times> gate \<times> 'c \<times> 'w \<Rightarrow> (response \<times> gate \<times> 'c \<times> 'w) option" where
  "with_release x = (case x of (r, g, c, w) \<Rightarrow> map_option (\<lambda>g'. (r, g', c, w)) (editor_release g))"

definition locked_next ::
  "('c \<Rightarrow> string + 'c) \<Rightarrow> ('c \<Rightarrow> 'c) \<Rightarrow> ('w \<Rightarrow> response \<times> 'w) \<Rightarrow> gate \<Rightarrow> 'c \<Rightarrow> 'w \<Rightarrow>
   response \<times> gate \<times> 'c \<times> 'w" where
  "locked_next lock unlock next_h g c w =
     (case lock c of
        Inl e \<Rightarrow> ((503, ErrorBody ''request canceled''), g, c, w)
      | Inr c' \<Rightarrow> (case next_h w of (r, w') \<Rightarrow> (r, g, unlock c', w')))"

definition content_mutation ::
  "('c \<Rightarrow> string + 'c) \<Rightarrow> ('c \<Rightarrow> 'c) \<Rightarrow> string option \<Rightarrow> ('w \<Rightarrow> response \<times> 'w) \<Rightarrow>
   ('c, 'w) handler" where
  "content_mutation lock unlock ctx_err next_h g c w =
     (case begin_editor_context ctx_err g of
        (Inl e, g') \<Rightarrow> Some (write_editor_admission_error e, g', c, w)
      | (Inr _, g') \<Rightarrow> with_release (locked_next lock unlock next_h g' c w))"

definition strict_editor_mutation ::
  "string list \<Rightarrow> (gate \<Rightarrow> 'c \<Rightarrow> 'w \<Rightarrow> gate_status \<Rightarrow> response \<times> gate \<times> 'c \<times> 'w) \<Rightarrow> ('c, 'w) handler" where
  "strict_editor_mutation values next_h g c w =
     (case parse_loaded_state values of
        Inl r \<Rightarrow> Some (r, g, c, w)
      | Inr (inst, rv, completed) \<Rightarrow>
        (case begin_strict_editor inst rv completed g of
           ((st, False), g') \<Rightarrow> Some ((409, StatusBody st), g', c, w)
         | ((st, True), g') \<Rightarrow> with_release (next_h g' c w st)))"

definition strict_content_mutation ::
  "('c \<Rightarrow> string + 'c) \<Rightarrow> ('c \<Rightarrow> 'c) \<Rightarrow> string option \<Rightarrow> string list \<Rightarrow> ('w \<Rightarrow> response \<times> 'w) \<Rightarrow>
   ('c, 'w) handler" where
  "strict_content_mutation lock unlock ctx_err values next_h g c w =
     (if values = [] then content_mutation lock unlock ctx_err next_h g c w
      else strict_editor_mutation values
             (\<lambda>g c w st. locked_next lock unlock next_h g c w) g c w)"

section \<open>Properties\<close>

text \<open>
  The strict header is parsed exactly. The parser accepts one header value and only the
  canonical rendering of a non-empty instance id and two safe counters, which is what a client
  renders from a status it loaded; so parsing and rendering are inverse to each other.
\<close>

theorem loaded_header_roundtrip:
  "parse_loaded_state vs = Inr (i, r, c) \<longleftrightarrow>
     (\<exists>d. (\<forall>b \<in> set d. b < 256) \<and> d \<noteq> [] \<and> i = b64_encode d \<and>
        unat r \<le> unat MaxSafeCounter \<and> unat c \<le> unat MaxSafeCounter \<and>
        vs = [i @ '':'' @ format_uint (unat r) @ '':'' @ format_uint (unat c)])"
proof
  assume l: "parse_loaded_state vs = Inr (i, r, c)"
  then obtain v p1 p2 d where h: "vs = [v]" "split_on '':'' v = [i, p1, p2]" "b64_decode i = Some d"
    "d \<noteq> []" "b64_encode d = i" "parse_loaded_counter p1 = Some r" "parse_loaded_counter p2 = Some c"
    by (auto simp: parse_loaded_state_Inr)
  have "\<forall>b \<in> set d. b < 256" using h(3) by (rule b64_decode_bytes)
  moreover have "v = i @ '':'' @ p1 @ '':'' @ p2" using h(2) by (rule split_three_join)
  ultimately show "\<exists>d. (\<forall>b \<in> set d. b < 256) \<and> d \<noteq> [] \<and> i = b64_encode d \<and>
      unat r \<le> unat MaxSafeCounter \<and> unat c \<le> unat MaxSafeCounter \<and>
      vs = [i @ '':'' @ format_uint (unat r) @ '':'' @ format_uint (unat c)]"
    using h by (auto simp: parse_loaded_counter_iff)
next
  assume "\<exists>d. (\<forall>b \<in> set d. b < 256) \<and> d \<noteq> [] \<and> i = b64_encode d \<and>
      unat r \<le> unat MaxSafeCounter \<and> unat c \<le> unat MaxSafeCounter \<and>
      vs = [i @ '':'' @ format_uint (unat r) @ '':'' @ format_uint (unat c)]"
  then show "parse_loaded_state vs = Inr (i, r, c)"
    using split_three [OF b64_encode_no_colon colon_not_digit colon_not_digit]
    by (auto simp: parse_loaded_state_Inr parse_loaded_counter_iff b64_decode_encode)
qed

lemma loaded_header_roundtrip_witness:
  "parse_loaded_state [b64_encode [7] @ '':'' @ format_uint 1 @ '':'' @ format_uint 0] =
     Inr (b64_encode [7], 1, 0)"
  by (subst loaded_header_roundtrip) (intro exI [of _ "[7]"], simp add: MaxSafeCounter_def)

text \<open>Who is admitted: by the lenient rule without the header, by the strict rule with it.\<close>

definition write_admitted :: "string option \<Rightarrow> string list \<Rightarrow> gate \<Rightarrow> bool" where
  "write_admitted ctx_err values g \<longleftrightarrow>
     (if values = [] then ctx_err = None \<and> \<not> st_running (status g)
      else \<not> st_running (status g) \<and>
        parse_loaded_state values =
          Inr (st_instance (status g), st_revision (status g), st_completed (status g)))"

lemma with_release_entered:
  "with_release (locked_next lock unlock h (g\<lparr>editors := editors g + 1\<rparr>) c w) =
     (case lock c of
        Inl e \<Rightarrow> Some ((503, ErrorBody ''request canceled''), g, c, w)
      | Inr c' \<Rightarrow> Some (fst (h w), g, unlock c', snd (h w)))"
  by (cases "h w"; cases "fst (h w)"; cases "lock c")
    (simp_all add: with_release_def locked_next_def editor_release_def)

lemma with_release_Suc:
  "with_release (locked_next lock unlock h (g\<lparr>editors := Suc (editors g)\<rparr>) c w) =
     (case lock c of
        Inl e \<Rightarrow> Some ((503, ErrorBody ''request canceled''), g, c, w)
      | Inr c' \<Rightarrow> Some (fst (h w), g, unlock c', snd (h w)))"
  using with_release_entered by simp

text \<open>
  A content write runs exactly when it is admitted. The wrapper never panics and leaves the
  gate as it found it; an admitted request whose content lock is free runs the handler once,
  with the lock released after it; every other request leaves the content lock and the world
  unchanged and answers 400, 409 or 503.
\<close>

theorem content_write_admission:
  "\<exists>r c' w'. strict_content_mutation lock unlock ctx_err values h g c w = Some (r, g, c', w') \<and>
     (case lock c of
        Inr c1 \<Rightarrow>
          if write_admitted ctx_err values g then c' = unlock c1 \<and> r = fst (h w) \<and> w' = snd (h w)
          else c' = c \<and> w' = w \<and> fst r \<in> {400, 409, 503}
      | Inl e \<Rightarrow> c' = c \<and> w' = w \<and> fst r \<in> {400, 409, 503})"
proof (cases "values = []")
  case True
  then show ?thesis
    by (auto simp: strict_content_mutation_def content_mutation_def begin_editor_context_def
        write_editor_admission_error_def write_admitted_def with_release_Suc
        simp del: split_paired_Ex split: option.splits sum.splits)
next
  case False
  have refused: "fst r = 400" if "parse_loaded_state values = Inl r" for r
    using that False by (auto simp: parse_loaded_state_def invalid_loaded_def
        split: list.splits if_splits option.splits)
  show ?thesis
  proof (cases "parse_loaded_state values")
    case (Inl r)
    with refused [OF Inl] False show ?thesis
      by (simp add: strict_content_mutation_def strict_editor_mutation_def write_admitted_def
          split: sum.splits)
  next
    case (Inr x)
    obtain i r n where x: "x = (i, r, n)" by (cases x)
    show ?thesis using Inr x False
      by (auto simp: strict_content_mutation_def strict_editor_mutation_def begin_strict_editor_def
          Let_def write_admitted_def with_release_Suc simp del: split_paired_Ex split: sum.splits)
  qed
qed

end
