(* ===== verification/Lifecycle.thy ===== *)
theory Lifecycle
  imports EditorGate
begin

text \<open>
  \<open>internal/lifecycle\<close>: the drain state of the process (\<open>state.go\<close>) and the shutdown sequence
  (\<open>shutdown.go\<close>), and the admission contract they share with the editor gate.
\<close>

section \<open>The drain state\<close>

record lifecycle =
  lc_draining :: bool
  lc_probes_closed :: bool
  lc_active :: nat

definition lc_init :: lifecycle where
  "lc_init = \<lparr>lc_draining = False, lc_probes_closed = False, lc_active = 0\<rparr>"

definition lc_drain :: "lifecycle \<Rightarrow> lifecycle" where
  "lc_drain s = s\<lparr>lc_draining := True\<rparr>"

definition is_draining :: "lifecycle \<Rightarrow> bool" where
  "is_draining s = lc_draining s"

definition begin_request :: "lifecycle \<Rightarrow> lifecycle option" where
  "begin_request s = (if lc_draining s then None else Some (s\<lparr>lc_active := lc_active s + 1\<rparr>))"

definition begin_probe :: "lifecycle \<Rightarrow> lifecycle option" where
  "begin_probe s = (if lc_probes_closed s then None else Some (s\<lparr>lc_active := lc_active s + 1\<rparr>))"

text \<open>\<open>WaitGroup.Done\<close>: a negative counter panics.\<close>

definition active_done :: "lifecycle \<Rightarrow> lifecycle option" where
  "active_done s = (if lc_active s = 0 then None else Some (s\<lparr>lc_active := lc_active s - 1\<rparr>))"

definition stop_probes :: "lifecycle \<Rightarrow> lifecycle" where
  "stop_probes s = s\<lparr>lc_probes_closed := True\<rparr>"

text \<open>\<open>Wait\<close> returns when no work is active.\<close>

definition wait_returns :: "lifecycle \<Rightarrow> bool" where
  "wait_returns s \<longleftrightarrow> lc_active s = 0"

section \<open>Admission\<close>

text \<open>
  The contract of a gate that counts the work it admits: \<open>enter\<close> admits while the gate is
  open and counts one more, \<open>leave\<close> counts one less, neither closes nor opens the gate. A
  closed gate runs dry: whatever callers do, the count never grows, and after as many leaves
  as there were active callers it is zero.
\<close>

datatype admission_op = EnterOp | LeaveOp

locale admission =
  fixes count :: "'s \<Rightarrow> nat"
    and closed :: "'s \<Rightarrow> bool"
    and enter :: "'s \<Rightarrow> 's option"
    and leave :: "'s \<Rightarrow> 's option"
  assumes enter_open: "\<not> closed s \<Longrightarrow> \<exists>t. enter s = Some t \<and> count t = count s + 1 \<and> \<not> closed t"
    and enter_closed: "closed s \<Longrightarrow> enter s = None"
    and leave_some: "0 < count s \<Longrightarrow> \<exists>t. leave s = Some t \<and> count t = count s - 1 \<and> closed t = closed s"
    and leave_none: "count s = 0 \<Longrightarrow> leave s = None"
begin

text \<open>A rejected call leaves the state as it is.\<close>

fun run :: "admission_op list \<Rightarrow> 's \<Rightarrow> 's" where
  "run [] s = s"
| "run (EnterOp # ops) s = run ops (case enter s of Some t \<Rightarrow> t | None \<Rightarrow> s)"
| "run (LeaveOp # ops) s = run ops (case leave s of Some t \<Rightarrow> t | None \<Rightarrow> s)"

lemma step_closed: "closed s \<Longrightarrow> closed (run [op] s) \<and>
    count (run [op] s) = count s - (if op = LeaveOp then 1 else 0)"
  using enter_closed [of s] leave_some [of s] leave_none [of s]
  by (cases op; cases "count s") auto

lemma run_Cons: "run (op # ops) s = run ops (run [op] s)"
  by (cases op) auto

lemma closed_run:
  "closed s \<Longrightarrow> closed (run ops s) \<and> count (run ops s) = count s - count_list ops LeaveOp"
proof (induction ops arbitrary: s)
  case (Cons op ops)
  note st = step_closed [OF Cons.prems, of op]
  then have "count (run ops (run [op] s)) = count (run [op] s) - count_list ops LeaveOp"
    and "closed (run ops (run [op] s))"
    using Cons.IH by blast+
  with st show ?case by (subst (1 2) run_Cons) (cases op, simp_all)
qed simp

lemma open_run:
  "\<not> closed s \<Longrightarrow> \<not> closed (run ops s)"
proof (induction ops arbitrary: s)
  case (Cons op ops)
  have "\<not> closed (run [op] s)"
    using Cons.prems enter_open [of s] leave_some [of s] leave_none [of s]
    by (cases op; cases "count s") auto
  with Cons.IH show ?case by (subst run_Cons) simp
qed simp

end

interpretation requests: admission lc_active lc_draining begin_request active_done
  by unfold_locales (auto simp: begin_request_def active_done_def)

interpretation probes: admission lc_active lc_probes_closed begin_probe active_done
  by unfold_locales (auto simp: begin_probe_def active_done_def)

interpretation editors_gate: admission editors "\<lambda>g. st_running (status g)"
  "\<lambda>g. begin_editor g" editor_release
  by unfold_locales
    (auto simp: begin_editor_def begin_editor_context_def editor_release_def)

section \<open>Process shutdown\<close>

text \<open>
  \<open>RunShutdown\<close> over what the environment answers: the error of the drain, the error of the
  wait, whether the watchdog could still be stopped, and the elapsed time at the end. Times are
  durations in nanoseconds. The result is the error returned (\<open>None\<close> for none) and the calls
  made, in order. An exit function is required; \<open>errors.Join\<close> keeps the errors that are set.
\<close>

datatype shutdown_call = StartWatchdog int | CallDrain int | CallCancel | CallWait | StopWatchdog

datatype shutdown_error = BudgetNotPositive | DrainNotShorter | ExitMissing | WatchdogFired
  | AfterBudget int | JoinedErrors "string list"

record shutdown_env =
  drain_error :: "string option"
  wait_error :: "string option"
  watchdog_stopped :: bool
  elapsed :: int

definition join_errors :: "string option list \<Rightarrow> shutdown_error option" where
  "join_errors es = (let set_es = map the (filter (\<lambda>e. e \<noteq> None) es) in
     if set_es = [] then None else Some (JoinedErrors set_es))"

definition run_shutdown ::
  "int \<Rightarrow> int \<Rightarrow> bool \<Rightarrow> shutdown_env \<Rightarrow> shutdown_error option \<times> shutdown_call list" where
  "run_shutdown budget drain_for has_exit env =
     (if budget \<le> 0 then (Some BudgetNotPositive, [])
      else if drain_for \<le> 0 \<or> budget \<le> drain_for then (Some DrainNotShorter, [])
      else if \<not> has_exit then (Some ExitMissing, [])
      else
        (let calls = [StartWatchdog budget, CallDrain drain_for, CallCancel, CallWait, StopWatchdog] in
         if \<not> watchdog_stopped env then (Some WatchdogFired, calls)
         else if budget < elapsed env then (Some (AfterBudget (elapsed env)), calls)
         else (join_errors [drain_error env, wait_error env], calls)))"

section \<open>Runs of the drain state\<close>

datatype lifecycle_op = Request | Probe | Done | DrainOp | StopProbesOp

definition or_same :: "'s option \<Rightarrow> 's \<Rightarrow> 's" where
  "or_same r s = (case r of Some t \<Rightarrow> t | None \<Rightarrow> s)"

fun lc_step :: "lifecycle_op \<Rightarrow> lifecycle \<Rightarrow> lifecycle" where
  "lc_step Request s = or_same (begin_request s) s"
| "lc_step Probe s = or_same (begin_probe s) s"
| "lc_step Done s = or_same (active_done s) s"
| "lc_step DrainOp s = lc_drain s"
| "lc_step StopProbesOp s = stop_probes s"

definition lc_run :: "lifecycle_op list \<Rightarrow> lifecycle \<Rightarrow> lifecycle" where
  "lc_run ops s = fold lc_step ops s"

lemma lc_step_draining:
  assumes "lc_draining s"
  shows "lc_draining (lc_step op s)"
    "lc_probes_closed s \<Longrightarrow> lc_probes_closed (lc_step op s) \<and>
       lc_active (lc_step op s) = lc_active s - (if op = Done then 1 else 0)"
    "lc_active (lc_step op s) \<le> lc_active s + (if op = Probe then 1 else 0)"
  using assms requests.enter_closed [of s] probes.enter_closed [of s]
  by (cases op; simp add: or_same_def active_done_def begin_probe_def lc_drain_def stop_probes_def)+

section \<open>Properties\<close>

text \<open>
  Shutdown drains. Once the process is draining and its probe gate is closed, no sequence
  of calls admits work: the number of active handlers only falls, by one for every handler that
  ends, so the wait returns after the last of them and stays returned.
\<close>

theorem shutdown_runs_dry:
  assumes "lc_draining s" "lc_probes_closed s"
  shows "lc_active (lc_run ops s) = lc_active s - count_list ops Done \<and>
    (lc_active s \<le> count_list ops Done \<longleftrightarrow> wait_returns (lc_run ops s))"
proof -
  have "lc_active (lc_run ops s) = lc_active s - count_list ops Done"
    using assms
  proof (induction ops arbitrary: s)
    case (Cons op ops)
    with lc_step_draining [OF Cons.prems(1), of op]
    have "lc_active (lc_run ops (lc_step op s)) = lc_active (lc_step op s) - count_list ops Done"
      by blast
    with lc_step_draining(2) [OF Cons.prems, of op] show ?case by (simp add: lc_run_def)
  qed (simp add: lc_run_def)
  then show ?thesis by (auto simp: wait_returns_def)
qed

lemma shutdown_runs_dry_witness:
  "wait_returns (lc_run [Request, Done, Probe, Done] (lc_init\<lparr>lc_draining := True,
     lc_probes_closed := True, lc_active := 2\<rparr>))"
  using shutdown_runs_dry [of "lc_init\<lparr>lc_draining := True, lc_probes_closed := True,
     lc_active := 2\<rparr>" "[Request, Done, Probe, Done]"] by (simp add: lc_init_def)

text \<open>
  Writer preference. While the gate says a producer is running, whatever editors call, the
  number of editors inside only falls, by one per release: no editor can enter ahead of the
  producer that waits.
\<close>

theorem writer_preference:
  assumes "st_running (status g)"
  shows "editors (admission.run begin_editor editor_release ops g) = editors g - count_list ops LeaveOp \<and>
    st_running (status (admission.run begin_editor editor_release ops g))"
  using editors_gate.closed_run [OF assms] by simp

lemma writer_preference_witness:
  "editors (admission.run begin_editor editor_release [EnterOp, LeaveOp, EnterOp]
     (the_gate (demo 2 [0, 1] Held))) = 1"
  using writer_preference [of "the_gate (demo 2 [0, 1] Held)" "[EnterOp, LeaveOp, EnterOp]"]
  by (simp add: demo_def demo_status_def)

text \<open>
  Shutdown phases and result. With a positive budget, a positive shorter drain and an exit
  function, the drain, the cancellation, the wait and the disarming of the watchdog all run in
  that order, whether or not the drain failed; otherwise nothing runs. The result is no error
  exactly when moreover the watchdog was still armed, the budget was met, and neither the drain
  nor the wait failed.
\<close>

theorem shutdown_phases:
  "snd (run_shutdown budget drain_for has_exit env) =
     (if 0 < drain_for \<and> drain_for < budget \<and> has_exit
      then [StartWatchdog budget, CallDrain drain_for, CallCancel, CallWait, StopWatchdog] else []) \<and>
   (fst (run_shutdown budget drain_for has_exit env) = None) =
     (0 < drain_for \<and> drain_for < budget \<and> has_exit \<and> watchdog_stopped env \<and>
      elapsed env \<le> budget \<and> drain_error env = None \<and> wait_error env = None)"
  by (auto simp: run_shutdown_def join_errors_def Let_def)

end
