(* ===== verification/GoHeap.thy ===== *)
theory GoHeap
  imports Prelude
begin

text \<open>
  The part of \<open>container/heap\<close> the code uses: \<open>Push\<close> and \<open>Pop\<close> with their sift loops \<open>up\<close> and
  \<open>down\<close>, on a slice ordered by an integer priority (\<open>Less(i, j)\<close> is \<open>f (xs ! i) < f (xs ! j)\<close>).
\<close>

section \<open>The sift loops\<close>

definition swap :: "nat \<Rightarrow> nat \<Rightarrow> 'a list \<Rightarrow> 'a list" where
  "swap i j xs = xs[i := xs ! j, j := xs ! i]"

abbreviation parent :: "nat \<Rightarrow> nat" where
  "parent j \<equiv> (j - 1) div 2"

lemma parent_less: "0 < j \<Longrightarrow> parent j < j"
  by arith

function heap_up :: "('a \<Rightarrow> int) \<Rightarrow> 'a list \<Rightarrow> nat \<Rightarrow> 'a list" where
  "heap_up f xs j =
     (if parent j = j \<or> \<not> f (xs ! j) < f (xs ! parent j) then xs
      else heap_up f (swap (parent j) j xs) (parent j))"
  by pat_completeness auto
termination
  by (relation "measure (\<lambda>(f, xs, j). j)") auto

function heap_down :: "('a \<Rightarrow> int) \<Rightarrow> 'a list \<Rightarrow> nat \<Rightarrow> nat \<Rightarrow> 'a list" where
  "heap_down f xs i n =
     (let j1 = 2 * i + 1 in
      if n \<le> j1 then xs
      else let j = (if j1 + 1 < n \<and> f (xs ! (j1 + 1)) < f (xs ! j1) then j1 + 1 else j1) in
        if \<not> f (xs ! j) < f (xs ! i) then xs else heap_down f (swap i j xs) j n)"
  by pat_completeness auto
termination
  by (relation "measure (\<lambda>(f, xs, i, n). n - i)") (auto simp: Let_def split: if_splits)

declare heap_up.simps [simp del] heap_down.simps [simp del]

definition heap_push :: "('a \<Rightarrow> int) \<Rightarrow> 'a \<Rightarrow> 'a list \<Rightarrow> 'a list" where
  "heap_push f x xs = heap_up f (xs @ [x]) (length xs)"

text \<open>\<open>Pop\<close> on a non-empty slice: the removed element and the slice.\<close>

definition heap_pop :: "('a \<Rightarrow> int) \<Rightarrow> 'a list \<Rightarrow> 'a \<times> 'a list" where
  "heap_pop f xs =
     (let n = length xs - 1; ys = heap_down f (swap 0 n xs) 0 n in (last ys, butlast ys))"

section \<open>Heap order\<close>

definition heap_ok :: "('a \<Rightarrow> int) \<Rightarrow> nat \<Rightarrow> 'a list \<Rightarrow> bool" where
  "heap_ok f n xs \<longleftrightarrow> (\<forall>k. 0 < k \<longrightarrow> k < n \<longrightarrow> f (xs ! parent k) \<le> f (xs ! k))"

lemma swap_simps [simp]: "length (swap i j xs) = length xs"
  by (simp add: swap_def)

lemma mset_swap [simp]: "i < length xs \<Longrightarrow> j < length xs \<Longrightarrow> mset (swap i j xs) = mset xs"
  by (simp add: swap_def mset_swap)

lemma nth_swap:
  "i < length xs \<Longrightarrow> j < length xs \<Longrightarrow> k < length xs \<Longrightarrow>
   swap i j xs ! k = (if k = j then xs ! i else if k = i then xs ! j else xs ! k)"
  by (simp add: swap_def nth_list_update)

lemma heap_ok_min:
  assumes "heap_ok f n xs" "k < n"
  shows "f (xs ! 0) \<le> f (xs ! k)"
  using assms(2)
proof (induction k rule: less_induct)
  case (less k)
  show ?case
  proof (cases "k = 0")
    case False
    then have "parent k < k" by simp
    with less have "f (xs ! 0) \<le> f (xs ! parent k)" by simp
    also have "\<dots> \<le> f (xs ! k)" using assms(1) less.prems False by (simp add: heap_ok_def)
    finally show ?thesis .
  qed simp
qed

text \<open>
  \<open>up\<close> repairs a heap that is in order except between \<open>j\<close> and its parent; the children of \<open>j\<close>
  are above its parent.
\<close>

definition heap_but :: "('a \<Rightarrow> int) \<Rightarrow> nat \<Rightarrow> 'a list \<Rightarrow> nat \<Rightarrow> bool" where
  "heap_but f n xs j \<longleftrightarrow>
     (\<forall>k. 0 < k \<longrightarrow> k < n \<longrightarrow> k \<noteq> j \<longrightarrow> f (xs ! parent k) \<le> f (xs ! k)) \<and>
     (\<forall>k. 0 < k \<longrightarrow> k < n \<longrightarrow> 0 < j \<longrightarrow> parent k = j \<longrightarrow> f (xs ! parent j) \<le> f (xs ! k))"

lemma heap_up_ok:
  "heap_but f (length xs) xs j \<Longrightarrow> j < length xs \<Longrightarrow>
   heap_ok f (length xs) (heap_up f xs j) \<and> mset (heap_up f xs j) = mset xs"
proof (induction f xs j rule: heap_up.induct)
  case (1 f xs j)
  show ?case
  proof (cases "parent j = j \<or> \<not> f (xs ! j) < f (xs ! parent j)")
    case True
    with "1.prems" show ?thesis
      by (subst (1 2) heap_up.simps) (auto simp: heap_ok_def heap_but_def not_less)
  next
    case False
    let ?p = "parent j" and ?ys = "swap (parent j) j xs"
    have j: "0 < j" "?p < j" "f (xs ! j) < f (xs ! ?p)" using False by auto
    then have p: "?p < length xs" using "1.prems"(2) by simp
    note sw = nth_swap [OF p "1.prems"(2)]
    have "heap_but f (length ?ys) ?ys ?p"
      unfolding heap_but_def
    proof (intro conjI allI impI)
      fix k assume k: "0 < k" "k < length ?ys" "k \<noteq> ?p"
      then have "parent k < length xs" by simp
      have kl: "k < length xs" using k by simp
      have up: "f (xs ! parent k) \<le> f (xs ! k)" if "k \<noteq> j"
        using "1.prems"(1) k(1) kl that unfolding heap_but_def by blast
      consider "k = j" | "k \<noteq> j" "parent k = j" | "k \<noteq> j" "parent k = ?p"
        | "k \<noteq> j" "parent k \<noteq> j" "parent k \<noteq> ?p" by blast
      then show "f (?ys ! parent k) \<le> f (?ys ! k)"
      proof cases
        case 1
        then show ?thesis using j sw [OF p] sw [OF "1.prems"(2)] by simp
      next
        case 2
        then have "f (xs ! ?p) \<le> f (xs ! k)"
          using "1.prems"(1) j k(1) kl unfolding heap_but_def by blast
        then show ?thesis using 2 k(3) sw [OF kl] sw [OF "1.prems"(2)] by simp
      next
        case 3
        then have "f (xs ! ?p) \<le> f (xs ! k)" using up by simp
        then show ?thesis using 3 j k(3) sw [OF kl] sw [OF p] by simp
      next
        case 4
        then show ?thesis using up k(3) sw [OF kl] sw [OF \<open>parent k < length xs\<close>] by simp
      qed
    next
      fix k assume k: "0 < k" "k < length ?ys" "0 < ?p" "parent k = ?p"
      then have pp_less: "parent ?p < ?p" by (intro parent_less)
      then have pl: "parent ?p < length xs" using p by simp
      have pp: "f (?ys ! parent ?p) = f (xs ! parent ?p)" using sw [OF pl] pp_less j by simp
      have kl: "k < length xs" using k by simp
      have le: "f (xs ! parent ?p) \<le> f (xs ! ?p)"
        using "1.prems"(1) k(3) j p unfolding heap_but_def by simp
      show "f (?ys ! parent ?p) \<le> f (?ys ! k)"
      proof (cases "k = j")
        case True
        then show ?thesis using pp le sw [OF "1.prems"(2)] by simp
      next
        case False
        have "f (xs ! parent k) \<le> f (xs ! k)"
          using "1.prems"(1) k(1) kl False unfolding heap_but_def by blast
        moreover have "k \<noteq> ?p" using k(4) parent_less [OF k(1)] by simp
        ultimately show ?thesis using pp le k(4) False sw [OF kl] by simp
      qed
    qed
    with "1.IH" [OF False] p have "heap_ok f (length xs) (heap_up f ?ys ?p)"
      "mset (heap_up f ?ys ?p) = mset xs"
      using "1.prems"(2) by auto
    moreover have "heap_up f xs j = heap_up f ?ys ?p" using False by (subst heap_up.simps) simp
    ultimately show ?thesis by simp
  qed
qed

text \<open>
  \<open>down\<close> repairs a heap that is in order except between \<open>i\<close> and its children; those children
  are above the parent of \<open>i\<close>.
\<close>

definition heap_below :: "('a \<Rightarrow> int) \<Rightarrow> nat \<Rightarrow> 'a list \<Rightarrow> nat \<Rightarrow> bool" where
  "heap_below f n xs i \<longleftrightarrow>
     (\<forall>k. 0 < k \<longrightarrow> k < n \<longrightarrow> parent k \<noteq> i \<longrightarrow> f (xs ! parent k) \<le> f (xs ! k)) \<and>
     (\<forall>k. 0 < k \<longrightarrow> k < n \<longrightarrow> 0 < i \<longrightarrow> parent k = i \<longrightarrow> f (xs ! parent i) \<le> f (xs ! k))"

lemma heap_below_done:
  assumes "heap_below f n xs i" "\<And>k. 0 < k \<Longrightarrow> k < n \<Longrightarrow> parent k = i \<Longrightarrow> f (xs ! i) \<le> f (xs ! k)"
  shows "heap_ok f n xs"
  using assms unfolding heap_below_def heap_ok_def by metis

lemma heap_below_swap:
  assumes h: "heap_below f n xs i" and n: "n \<le> length xs" and j: "0 < j" "j < n" "parent j = i"
    and less: "f (xs ! j) < f (xs ! i)"
    and least: "\<And>k. 0 < k \<Longrightarrow> k < n \<Longrightarrow> parent k = i \<Longrightarrow> f (xs ! j) \<le> f (xs ! k)"
  shows "heap_below f n (swap i j xs) j"
proof -
  have ij: "i < j" using parent_less [OF j(1)] j(3) by simp
  have il: "i < length xs" and jl: "j < length xs" using ij j n by auto
  note sw = nth_swap [OF il jl]
  show ?thesis
    unfolding heap_below_def
  proof (intro conjI allI impI)
    fix k assume k: "0 < k" "k < n" "parent k \<noteq> j"
    have kl: "k < length xs" using k n by simp
    have pk: "parent k < length xs" using parent_less [OF k(1)] kl by simp
    consider "k = j" | "k \<noteq> j" "parent k = i" | "k \<noteq> j" "parent k \<noteq> i" "k = i"
      | "k \<noteq> j" "parent k \<noteq> i" "k \<noteq> i" by blast
    then show "f (swap i j xs ! parent k) \<le> f (swap i j xs ! k)"
    proof cases
      case 1
      then show ?thesis using sw [OF il] sw [OF jl] less j(3) ij by simp
    next
      case 2
      then have "k \<noteq> i" using parent_less [OF k(1)] by simp
      then show ?thesis using 2 sw [OF kl] sw [OF il] least [OF k(1,2) 2(2)] ij by simp
    next
      case 3
      then have "f (xs ! parent i) \<le> f (xs ! j)"
        using h j k(1) unfolding heap_below_def by blast
      then show ?thesis using 3 k sw [OF kl] sw [OF pk] ij by simp
    next
      case 4
      then have "f (xs ! parent k) \<le> f (xs ! k)" using h k unfolding heap_below_def by blast
      then show ?thesis using 4 k(3) sw [OF kl] sw [OF pk] by simp
    qed
  next
    fix k assume k: "0 < k" "k < n" "0 < j" "parent k = j"
    have kl: "k < length xs" using k n by simp
    have "k \<noteq> j" "k \<noteq> i" using parent_less [OF k(1)] k(4) ij by auto
    moreover have "f (xs ! parent k) \<le> f (xs ! k)"
      using h k ij unfolding heap_below_def by (metis less_irrefl)
    ultimately show "f (swap i j xs ! parent j) \<le> f (swap i j xs ! k)"
      using k(4) sw [OF kl] sw [OF il] j(3) ij by simp
  qed
qed

lemma children: "0 < k \<Longrightarrow> parent k = i \<longleftrightarrow> k = 2 * i + 1 \<or> k = 2 * i + 2" for k i :: nat
  by arith

lemma heap_down_ok:
  "heap_below f n xs i \<Longrightarrow> n \<le> length xs \<Longrightarrow> i < n \<Longrightarrow>
   heap_ok f n (heap_down f xs i n) \<and> mset (heap_down f xs i n) = mset xs \<and>
   drop n (heap_down f xs i n) = drop n xs"
proof (induction f xs i n rule: heap_down.induct)
  case (1 f xs i n)
  let ?j1 = "2 * i + 1"
  let ?j = "if ?j1 + 1 < n \<and> f (xs ! (?j1 + 1)) < f (xs ! ?j1) then ?j1 + 1 else ?j1"
  have least: "f (xs ! ?j) \<le> f (xs ! k)" if "0 < k" "k < n" "parent k = i" for k
  proof -
    have "k = 2 * i + 1 \<or> k = 2 * i + 2" using that children by blast
    with that(2) show ?thesis by auto
  qed
  show ?case
  proof (cases "n \<le> ?j1")
    case True
    then have "\<And>k. 0 < k \<Longrightarrow> k < n \<Longrightarrow> parent k \<noteq> i" by arith
    with "1.prems" True show ?thesis
      by (subst (1 2 3) heap_down.simps) (auto intro!: heap_below_done simp: Let_def)
  next
    case False
    then have j: "0 < ?j" "?j < n" "parent ?j = i" by auto
    show ?thesis
    proof (cases "f (xs ! ?j) < f (xs ! i)")
      case True
      have step: "heap_down f xs i n = heap_down f (swap i ?j xs) ?j n"
        using False True by (subst heap_down.simps) (simp only: Let_def if_False if_True simp_thms)
      have "i < length xs" "?j < length xs" using "1.prems" j by auto
      moreover have "drop n (swap i ?j xs) = drop n xs"
        using "1.prems"(3) j(2) by (simp add: swap_def)
      ultimately show ?thesis
        unfolding step
        using "1.IH" [OF refl False refl] True
          heap_below_swap [OF "1.prems"(1,2) j True least] "1.prems"(2) j(2)
        by auto
    next
      case less: False
      then have "heap_down f xs i n = xs"
        using False by (subst heap_down.simps) (simp only: Let_def if_False if_True simp_thms)
      moreover have "heap_ok f n xs"
      proof (rule heap_below_done [OF "1.prems"(1)])
        fix k assume "0 < k" "k < n" "parent k = i"
        from least [OF this] less show "f (xs ! i) \<le> f (xs ! k)" by linarith
      qed
      ultimately show ?thesis by simp
    qed
  qed
qed

section \<open>Push and pop\<close>

lemma heap_push_ok:
  assumes "heap_ok f (length xs) xs"
  shows "heap_ok f (length (heap_push f x xs)) (heap_push f x xs)"
    and "mset (heap_push f x xs) = add_mset x (mset xs)"
proof -
  let ?ys = "xs @ [x]"
  have "heap_but f (length ?ys) ?ys (length xs)"
    unfolding heap_but_def
  proof (intro conjI allI impI)
    fix k assume k: "0 < k" "k < length ?ys" "k \<noteq> length xs"
    then have "k < length xs" "parent k < length xs" using parent_less [OF k(1)] by auto
    then show "f (?ys ! parent k) \<le> f (?ys ! k)"
      using assms k(1) by (simp add: nth_append heap_ok_def)
  next
    fix k assume k: "0 < k" "k < length ?ys" "parent k = length xs"
    then show "f (?ys ! parent (length xs)) \<le> f (?ys ! k)" using parent_less [OF k(1)] by simp
  qed
  from heap_up_ok [OF this] have "heap_ok f (length ?ys) (heap_up f ?ys (length xs))"
    and m: "mset (heap_up f ?ys (length xs)) = mset ?ys"
    by simp_all
  moreover have "length (heap_up f ?ys (length xs)) = length ?ys" using m by (rule mset_eq_length)
  ultimately show "heap_ok f (length (heap_push f x xs)) (heap_push f x xs)"
    and "mset (heap_push f x xs) = add_mset x (mset xs)"
    by (simp_all add: heap_push_def)
qed

lemma heap_ok_take: "heap_ok f n xs \<Longrightarrow> n \<le> length xs \<Longrightarrow> heap_ok f n (take n xs)"
  unfolding heap_ok_def by (metis less_trans nth_take parent_less)

lemma heap_ok_mono: "heap_ok f n xs \<Longrightarrow> m \<le> n \<Longrightarrow> heap_ok f m xs"
  by (simp add: heap_ok_def)

lemma heap_pop_ok:
  assumes h: "heap_ok f (length xs) xs" and ne: "xs \<noteq> []"
  shows "fst (heap_pop f xs) = xs ! 0"
    and "heap_ok f (length (snd (heap_pop f xs))) (snd (heap_pop f xs))"
    and "mset xs = add_mset (xs ! 0) (mset (snd (heap_pop f xs)))"
proof -
  let ?n = "length xs - 1"
  let ?ys = "swap 0 ?n xs" and ?zs = "heap_down f (swap 0 ?n xs) 0 ?n"
  have l: "0 < length xs" "?n < length xs" using ne by auto
  have lm: "mset ?ys = mset xs" using l by simp
  have lastn: "?ys ! ?n = xs ! 0" using nth_swap [OF l l(2)] by simp
  have zs: "heap_ok f ?n ?zs \<and> mset ?zs = mset ?ys \<and> drop ?n ?zs = drop ?n ?ys"
  proof (cases "?n = 0")
    case True
    then have "?zs = ?ys" by (subst heap_down.simps) simp
    with True show ?thesis by (simp add: heap_ok_def)
  next
    case False
    have "heap_below f ?n ?ys 0"
      unfolding heap_below_def
    proof (intro conjI allI impI)
      fix k assume k: "0 < k" "k < ?n" "parent k \<noteq> 0"
      then have "k < length xs" "parent k < length xs" "parent k \<noteq> ?n"
        using parent_less [OF k(1)] by auto
      then show "f (?ys ! parent k) \<le> f (?ys ! k)"
        using h k nth_swap [OF l] by (simp add: heap_ok_def)
    qed simp
    with False show ?thesis using heap_down_ok [of f ?n ?ys 0] by simp
  qed
  have len: "length ?zs = length xs" using zs lm by (metis mset_eq_length)
  then have "?zs \<noteq> []" using ne by auto
  have "drop ?n ?zs = [last ?zs]" using len ne
    by (metis One_nat_def append_butlast_last_id append_eq_conv_conj length_butlast
        length_0_conv)
  moreover have "drop ?n ?ys = [xs ! 0]"
    using lastn l by (metis Cons_nth_drop_Suc One_nat_def Suc_pred drop_all le_refl swap_simps)
  ultimately have last: "last ?zs = xs ! 0" using zs by simp
  show "fst (heap_pop f xs) = xs ! 0" using last by (simp add: heap_pop_def Let_def)
  have "butlast ?zs = take ?n ?zs" using len by (simp add: butlast_conv_take)
  then show "heap_ok f (length (snd (heap_pop f xs))) (snd (heap_pop f xs))"
    using zs len heap_ok_take [of f ?n ?zs] by (simp add: heap_pop_def Let_def)
  have "mset ?zs = add_mset (xs ! 0) (mset (butlast ?zs))"
    using \<open>?zs \<noteq> []\<close> last by (metis append_butlast_last_id mset_append mset_single_iff_right union_mset_add_mset_right add.right_neutral)
  then show "mset xs = add_mset (xs ! 0) (mset (snd (heap_pop f xs)))"
    using zs lm by (simp add: heap_pop_def Let_def)
qed

section \<open>Lengths and congruence\<close>

lemma length_heap_down [simp]: "length (heap_down f xs i n) = length xs"
proof (induction f xs i n rule: heap_down.induct)
  case (1 f xs i n)
  then show ?case by (subst heap_down.simps) (auto simp: Let_def)
qed

lemma length_heap_pop: "length (snd (heap_pop f xs)) = length xs - 1"
  by (simp add: heap_pop_def Let_def)

lemma heap_ok_cong:
  "heap_ok f (length xs) xs \<Longrightarrow> (\<And>x. x \<in> set xs \<Longrightarrow> g x = f x) \<Longrightarrow> heap_ok g (length xs) xs"
  unfolding heap_ok_def by (metis less_trans nth_mem parent_less)

end
