(* ===== verification/AuthLimiter.thy ===== *)
theory AuthLimiter
  imports GoHeap GoText
begin

text \<open>
  \<open>internal/api/auth_limiter.go\<close>: the limiter of public authentication attempts. An attempt
  window is an object shared by a map and a heap, so windows live in an explicit store and the
  map and the heap hold their addresses. Times are nanoseconds. The hash of a key is
  \<open>sha256.Sum256\<close>; the definitions take it as the parameter \<open>sha\<close>.
\<close>

section \<open>State\<close>

record attempt_window =
  w_key :: string
  w_expires :: int
  w_count :: int

record limiter =
  lim_limit :: int
  lim_window :: int
  lim_max_entries :: int
  windows :: "(nat, attempt_window) table"
  attempts :: "(string, nat) table"
  expirations :: "nat list"
  next_addr :: nat

definition new_limiter :: "int \<Rightarrow> int \<Rightarrow> int \<Rightarrow> limiter" where
  "new_limiter limit window max_entries =
     \<lparr>lim_limit = limit, lim_window = window,
      lim_max_entries = (if max_entries < 2 then 2 else max_entries),
      windows = [], attempts = [], expirations = [], next_addr = 0\<rparr>"

definition expires_of :: "(nat, attempt_window) table \<Rightarrow> nat \<Rightarrow> int" where
  "expires_of ws a = (case row ws a of Some w \<Rightarrow> w_expires w | None \<Rightarrow> 0)"

definition key_of :: "(nat, attempt_window) table \<Rightarrow> nat \<Rightarrow> string" where
  "key_of ws a = (case row ws a of Some w \<Rightarrow> w_key w | None \<Rightarrow> [])"

definition window_at :: "limiter \<Rightarrow> string \<Rightarrow> attempt_window option" where
  "window_at l k = Option.bind (row (attempts l) k) (row (windows l))"

section \<open>Remote addresses\<close>

definition last_index :: "char \<Rightarrow> string \<Rightarrow> nat option" where
  "last_index c s = (if c \<in> set s then Some (length s - 1 - length (takeWhile (\<lambda>x. x \<noteq> c) (rev s))) else None)"

definition first_index :: "char \<Rightarrow> string \<Rightarrow> nat option" where
  "first_index c s = (if c \<in> set s then Some (length (takeWhile (\<lambda>x. x \<noteq> c) s)) else None)"

text \<open>\<open>net.SplitHostPort\<close>: the host, or nothing when it reports an error.\<close>

definition split_host :: "string \<Rightarrow> string option" where
  "split_host s =
     (case last_index CHR '':'' s of None \<Rightarrow> None
      | Some i \<Rightarrow>
        if s ! 0 = CHR ''['' then
          (case first_index CHR '']'' s of None \<Rightarrow> None
           | Some e \<Rightarrow>
             if e + 1 \<noteq> i then None
             else if CHR ''['' \<in> set (drop 1 s) \<or> CHR '']'' \<in> set (drop (e + 1) s) then None
             else Some (take (e - 1) (drop 1 s)))
        else if CHR '':'' \<in> set (take i s) \<or> CHR ''['' \<in> set s \<or> CHR '']'' \<in> set s then None
        else Some (take i s))"

definition remote_ip :: "string \<Rightarrow> string" where
  "remote_ip addr =
     (case split_host (trim_space addr) of Some host \<Rightarrow> host | None \<Rightarrow> trim_space addr)"

definition hash_attempt_key :: "(string \<Rightarrow> string) \<Rightarrow> string \<Rightarrow> string \<Rightarrow> string \<Rightarrow> string" where
  "hash_attempt_key sha action kind val = sha (action @ [CHR 0x00] @ kind @ [CHR 0x00] @ val)"

definition attempt_keys :: "(string \<Rightarrow> string) \<Rightarrow> string \<Rightarrow> string \<Rightarrow> string \<Rightarrow> string list" where
  "attempt_keys sha action remote_addr account =
     [hash_attempt_key sha action ''ip'' (remote_ip remote_addr),
      hash_attempt_key sha action ''account'' (trim_space account)]"

section \<open>Operations\<close>

function prune_expired :: "int \<Rightarrow> limiter \<Rightarrow> limiter" where
  "prune_expired now l =
     (if expirations l = [] \<or> now < expires_of (windows l) (expirations l ! 0) then l
      else
        (let (a, q) = heap_pop (expires_of (windows l)) (expirations l);
             k = key_of (windows l) a
         in prune_expired now
              (l\<lparr>expirations := q,
                 attempts := (if row (attempts l) k = Some a then del (\<lambda>x. x = k) (attempts l)
                              else attempts l)\<rparr>)))"
  by pat_completeness auto
termination
proof (relation "measure (\<lambda>(now, l). length (expirations l))", goal_cases)
  case (2 now l x a q k)
  then have "length q = length (expirations l) - 1"
    using length_heap_pop [of "expires_of (windows l)" "expirations l"] by (metis snd_conv)
  with 2(1) show ?case by (cases "expirations l") auto
qed simp

declare prune_expired.simps [simp del]

definition bump :: "string \<Rightarrow> limiter \<Rightarrow> limiter" where
  "bump k l =
     (case row (attempts l) k of None \<Rightarrow> l
      | Some a \<Rightarrow>
        (case row (windows l) a of None \<Rightarrow> l
         | Some w \<Rightarrow> l\<lparr>windows := put a (w\<lparr>w_count := w_count w + 1\<rparr>) (windows l)\<rparr>))"

definition open_window :: "int \<Rightarrow> string \<Rightarrow> limiter \<Rightarrow> limiter" where
  "open_window now k l =
     (case row (attempts l) k of Some a \<Rightarrow> l
      | None \<Rightarrow>
        (let ws = put (next_addr l) \<lparr>w_key = k, w_expires = now + lim_window l, w_count = 0\<rparr> (windows l)
         in l\<lparr>windows := ws, attempts := put k (next_addr l) (attempts l),
              expirations := heap_push (expires_of ws) (next_addr l) (expirations l),
              next_addr := next_addr l + 1\<rparr>))"

definition allow_keys :: "string list \<Rightarrow> int \<Rightarrow> limiter \<Rightarrow> bool \<times> limiter" where
  "allow_keys keys now l0 =
     (let l = prune_expired now l0 in
      if list_ex (\<lambda>k. case window_at l k of Some w \<Rightarrow> lim_limit l \<le> w_count w | None \<Rightarrow> False) keys
      then (False, l)
      else
        (let missing = length (filter (\<lambda>k. row (attempts l) k = None) keys) in
         if lim_max_entries l < int (length (attempts l)) + int missing
         then (False, fold bump keys l)
         else (True, fold (\<lambda>k l. bump k (open_window now k l)) keys l)))"

definition allow ::
  "(string \<Rightarrow> string) \<Rightarrow> int \<Rightarrow> string \<Rightarrow> string \<Rightarrow> string \<Rightarrow> limiter \<Rightarrow> bool \<times> limiter" where
  "allow sha now action remote_addr account l =
     allow_keys (attempt_keys sha action remote_addr account) now l"

definition retry_after_seconds :: "limiter \<Rightarrow> int" where
  "retry_after_seconds l = (lim_window l + 1000000000 - 1) div 1000000000"

section \<open>The abstract limiter\<close>

text \<open>
  What the limiter promises: a map from keys to open windows, each with its expiry and its
  count, from which expired windows vanish.
\<close>

type_synonym windows_view = "string \<rightharpoonup> (int \<times> int)"

definition view :: "limiter \<Rightarrow> windows_view" where
  "view l k = map_option (\<lambda>w. (w_expires w, w_count w)) (window_at l k)"

definition spec_prune :: "int \<Rightarrow> windows_view \<Rightarrow> windows_view" where
  "spec_prune now m k = (case m k of Some (e, c) \<Rightarrow> if now < e then Some (e, c) else None | None \<Rightarrow> None)"

definition spec_bump :: "string \<Rightarrow> windows_view \<Rightarrow> windows_view" where
  "spec_bump k m = (case m k of Some (e, c) \<Rightarrow> m(k \<mapsto> (e, c + 1)) | None \<Rightarrow> m)"

definition spec_touch :: "int \<Rightarrow> string \<Rightarrow> windows_view \<Rightarrow> windows_view" where
  "spec_touch expiry k m = m(k \<mapsto> (case m k of Some (e, c) \<Rightarrow> (e, c + 1) | None \<Rightarrow> (expiry, 1)))"

definition spec_allow ::
  "int \<Rightarrow> int \<Rightarrow> int \<Rightarrow> string list \<Rightarrow> int \<Rightarrow> windows_view \<Rightarrow> bool \<times> windows_view" where
  "spec_allow limit window max_entries keys now m0 =
     (let m = spec_prune now m0 in
      if \<exists>k \<in> set keys. \<exists>e c. m k = Some (e, c) \<and> limit \<le> c then (False, m)
      else if max_entries < int (card (dom m)) + int (length (filter (\<lambda>k. m k = None) keys))
      then (False, fold spec_bump keys m)
      else (True, fold (spec_touch (now + window)) keys m))"

section \<open>Invariant\<close>

text \<open>
  The map and the heap hold the same addresses, each of an allocated window filed under its own
  key, and the heap is ordered by expiry.
\<close>

definition limiter_ok :: "limiter \<Rightarrow> bool" where
  "limiter_ok l \<longleftrightarrow> table_ok (attempts l) \<and> distinct (expirations l) \<and>
     (\<forall>a. a \<in> set (expirations l) \<longleftrightarrow> (\<exists>k. row (attempts l) k = Some a)) \<and>
     (\<forall>k a. row (attempts l) k = Some a \<longrightarrow>
        a < next_addr l \<and> (\<exists>w. row (windows l) a = Some w \<and> w_key w = k)) \<and>
     heap_ok (expires_of (windows l)) (length (expirations l)) (expirations l)"

lemma limiter_okI:
  assumes "table_ok (attempts l)" "distinct (expirations l)"
    and "\<And>a. a \<in> set (expirations l) \<longleftrightarrow> (\<exists>k. row (attempts l) k = Some a)"
    and "\<And>k a. row (attempts l) k = Some a \<Longrightarrow>
      a < next_addr l \<and> (\<exists>w. row (windows l) a = Some w \<and> w_key w = k)"
    and "heap_ok (expires_of (windows l)) (length (expirations l)) (expirations l)"
  shows "limiter_ok l"
  using assms unfolding limiter_ok_def by blast

lemma limiter_okD:
  assumes "limiter_ok l"
  shows "table_ok (attempts l)" "distinct (expirations l)"
    and "a \<in> set (expirations l) \<longleftrightarrow> (\<exists>k. row (attempts l) k = Some a)"
    and "heap_ok (expires_of (windows l)) (length (expirations l)) (expirations l)"
  using assms unfolding limiter_ok_def by blast+

lemma limiter_ok_new: "limiter_ok (new_limiter limit window max_entries)"
  by (simp add: limiter_ok_def new_limiter_def heap_ok_def)

lemma limiter_ok_inj:
  "limiter_ok l \<Longrightarrow> row (attempts l) k = Some a \<Longrightarrow> row (attempts l) k' = Some a \<Longrightarrow> k' = k"
  unfolding limiter_ok_def by (metis option.inject)

lemma limiter_ok_window:
  assumes "limiter_ok l" "row (attempts l) k = Some a"
  obtains w where "row (windows l) a = Some w" "w_key w = k" "a < next_addr l"
  using assms unfolding limiter_ok_def by blast

lemma limiter_ok_addr:
  "limiter_ok l \<Longrightarrow> row (attempts l) k = Some a \<Longrightarrow>
   a < next_addr l \<and> (\<exists>w. row (windows l) a = Some w \<and> w_key w = k)"
  unfolding limiter_ok_def by blast

lemma view_None_iff: "limiter_ok l \<Longrightarrow> view l k = None \<longleftrightarrow> row (attempts l) k = None"
  by (cases "row (attempts l) k") (auto simp: view_def window_at_def elim: limiter_ok_window)

lemma dom_view: "limiter_ok l \<Longrightarrow> dom (view l) = fst ` set (attempts l)"
  using view_None_iff [of l] row_None_iff [of "attempts l"] by (auto simp: dom_def)

lemma size_view: "limiter_ok l \<Longrightarrow> card (dom (view l)) = length (attempts l)"
  by (simp add: dom_view) (metis distinct_card length_map limiter_ok_def set_map table_ok_def)

section \<open>Pruning\<close>

text \<open>One turn of the prune loop on a heap whose root has expired.\<close>

definition prune_step :: "limiter \<Rightarrow> limiter" where
  "prune_step l =
     (let (a, q) = heap_pop (expires_of (windows l)) (expirations l); k = key_of (windows l) a
      in l\<lparr>expirations := q, attempts := (if row (attempts l) k = Some a
             then del (\<lambda>x. x = k) (attempts l) else attempts l)\<rparr>)"

lemma prune_unfold:
  "prune_expired now l =
     (if expirations l = [] \<or> now < expires_of (windows l) (expirations l ! 0) then l
      else prune_expired now (prune_step l))"
  by (subst prune_expired.simps) (simp add: prune_step_def Let_def split: prod.splits)

lemma prune_step_ok:
  assumes ok: "limiter_ok l" and ne: "expirations l \<noteq> []"
  shows "limiter_ok (prune_step l)"
    and "\<exists>k w. row (attempts l) k = Some (expirations l ! 0) \<and> w_key w = k \<and>
       row (windows l) (expirations l ! 0) = Some w \<and>
       prune_step l = l\<lparr>expirations := snd (heap_pop (expires_of (windows l)) (expirations l)),
         attempts := del (\<lambda>x. x = k) (attempts l)\<rparr>"
proof -
  let ?f = "expires_of (windows l)" and ?q = "expirations l"
  let ?a = "?q ! 0"
  have h: "heap_ok ?f (length ?q) ?q" using ok by (simp add: limiter_ok_def)
  note pop = heap_pop_ok [OF h ne]
  have "?a \<in> set ?q" using ne by (cases ?q) auto
  then obtain k where k: "row (attempts l) k = Some ?a" using ok unfolding limiter_ok_def by blast
  then obtain w where w: "row (windows l) ?a = Some w" "w_key w = k"
    using ok unfolding limiter_ok_def by blast
  have step: "prune_step l = l\<lparr>expirations := snd (heap_pop ?f ?q),
      attempts := del (\<lambda>x. x = k) (attempts l)\<rparr>"
    using pop(1) k w by (cases "heap_pop ?f ?q") (simp add: prune_step_def key_of_def)
  then show "\<exists>k w. row (attempts l) k = Some ?a \<and> w_key w = k \<and> row (windows l) ?a = Some w \<and>
      prune_step l = l\<lparr>expirations := snd (heap_pop ?f ?q), attempts := del (\<lambda>x. x = k) (attempts l)\<rparr>"
    using k w by blast
  have d: "distinct (snd (heap_pop ?f ?q))" "set (snd (heap_pop ?f ?q)) = set ?q - {?a}"
  proof -
    have "mset ?q = add_mset ?a (mset (snd (heap_pop ?f ?q)))" by (rule pop(3))
    then have "mset ?q = mset (?a # snd (heap_pop ?f ?q))" by simp
    then have "distinct (?a # snd (heap_pop ?f ?q)) \<and> set (?a # snd (heap_pop ?f ?q)) = set ?q"
      using ok by (metis limiter_ok_def mset_eq_imp_distinct_iff set_mset_mset)
    then show "distinct (snd (heap_pop ?f ?q))" "set (snd (heap_pop ?f ?q)) = set ?q - {?a}" by auto
  qed
  have "a \<in> set ?q - {?a} \<longleftrightarrow> (\<exists>k'. k' \<noteq> k \<and> row (attempts l) k' = Some a)" for a
    using ok k limiter_ok_inj [OF ok] unfolding limiter_ok_def by (metis DiffE DiffI option.inject singletonD singletonI)
  with ok pop(2) d show "limiter_ok (prune_step l)"
    unfolding step limiter_ok_def by auto
qed

lemma prune_fields [simp]:
  "windows (prune_step l) = windows l" "next_addr (prune_step l) = next_addr l"
  "lim_limit (prune_step l) = lim_limit l" "lim_window (prune_step l) = lim_window l"
  "lim_max_entries (prune_step l) = lim_max_entries l"
  by (simp_all add: prune_step_def Let_def split: prod.splits)

lemma prune_induct [case_names stop step]:
  assumes "\<And>l. expirations l = [] \<or> now < expires_of (windows l) (expirations l ! 0) \<Longrightarrow> P l"
    and "\<And>l. expirations l \<noteq> [] \<Longrightarrow> \<not> now < expires_of (windows l) (expirations l ! 0) \<Longrightarrow>
      P (prune_step l) \<Longrightarrow> P l"
  shows "P l"
proof (induction "length (expirations l)" arbitrary: l rule: less_induct)
  case less
  have "length (expirations (prune_step l)) = length (expirations l) - 1"
    using length_heap_pop [of "expires_of (windows l)" "expirations l"]
    by (cases "heap_pop (expires_of (windows l)) (expirations l)") (simp add: prune_step_def Let_def)
  then have "expirations l \<noteq> [] \<Longrightarrow> P (prune_step l)" by (intro less) (cases "expirations l"; simp)
  with assms show ?case by blast
qed

lemma prune_expired_fields [simp]:
  "lim_limit (prune_expired now l) = lim_limit l" "lim_window (prune_expired now l) = lim_window l"
  "lim_max_entries (prune_expired now l) = lim_max_entries l"
  by (induction l rule: prune_induct [where now = now]) (simp_all add: prune_unfold)

lemma prune_ok: "limiter_ok l \<Longrightarrow> limiter_ok (prune_expired now l)"
  by (induction l rule: prune_induct [where now = now])
    (simp_all add: prune_unfold prune_step_ok(1))

text \<open>Pruning is the removal of exactly the expired windows: it stops at the first live root.\<close>

lemma prune_view: "limiter_ok l \<Longrightarrow> view (prune_expired now l) = spec_prune now (view l)"
proof (induction l rule: prune_induct [where now = now])
  case (stop l)
  have live: "now < w_expires w" if k: "row (attempts l) k = Some a" "row (windows l) a = Some w" for k a w
  proof -
    have a: "a \<in> set (expirations l)" using stop.prems k(1) unfolding limiter_ok_def by blast
    then obtain i where "i < length (expirations l)" "expirations l ! i = a" by (auto simp: in_set_conv_nth)
    then have "expires_of (windows l) (expirations l ! 0) \<le> expires_of (windows l) a"
      using stop.prems heap_ok_min unfolding limiter_ok_def by blast
    with a k(2) stop.hyps show ?thesis by (auto simp: expires_of_def)
  qed
  then have "spec_prune now (view l) = view l"
    by (auto simp: fun_eq_iff spec_prune_def view_def window_at_def split: option.splits bind_splits)
  with stop.hyps show ?case by (simp add: prune_unfold)
next
  case (step l)
  obtain k w where kw: "row (attempts l) k = Some (expirations l ! 0)" "w_key w = k"
    "row (windows l) (expirations l ! 0) = Some w"
    "prune_step l = l\<lparr>expirations := snd (heap_pop (expires_of (windows l)) (expirations l)),
       attempts := del (\<lambda>x. x = k) (attempts l)\<rparr>"
    using prune_step_ok(2) [OF step.prems step.hyps(1)] by blast
  have e: "\<not> now < w_expires w" using step.hyps(2) kw(3) by (simp add: expires_of_def)
  have "spec_prune now (view (prune_step l)) x = spec_prune now (view l) x" for x
    using e kw by (cases "x = k") (simp_all add: spec_prune_def view_def window_at_def)
  then have "spec_prune now (view (prune_step l)) = spec_prune now (view l)" by blast
  with step show ?case by (simp add: prune_unfold [of now l] prune_step_ok(1))
qed

section \<open>Counting\<close>

lemma bump_fields [simp]:
  "lim_limit (bump k l) = lim_limit l" "lim_window (bump k l) = lim_window l"
  "lim_max_entries (bump k l) = lim_max_entries l" "attempts (bump k l) = attempts l"
  "expirations (bump k l) = expirations l" "next_addr (bump k l) = next_addr l"
  by (simp_all add: bump_def split: option.splits)

lemma expires_bump: "expires_of (windows (bump k l)) = expires_of (windows l)"
  by (auto simp: bump_def expires_of_def fun_eq_iff split: option.splits)

lemma bump_ok:
  assumes "limiter_ok l"
  shows "limiter_ok (bump k l)"
proof (rule limiter_okI)
  fix k' a assume "row (attempts (bump k l)) k' = Some a"
  then have "row (attempts l) k' = Some a" by simp
  from limiter_ok_addr [OF assms this]
  show "a < next_addr (bump k l) \<and> (\<exists>w. row (windows (bump k l)) a = Some w \<and> w_key w = k')"
    by (auto simp: bump_def split: option.splits)
qed (use limiter_okD [OF assms] in \<open>simp_all add: expires_bump\<close>)

lemma bump_view:
  assumes "limiter_ok l"
  shows "view (bump k l) = spec_bump k (view l)"
proof
  fix x
  show "view (bump k l) x = spec_bump k (view l) x"
  proof (cases "row (attempts l) k")
    case None
    then show ?thesis by (simp add: bump_def spec_bump_def view_def window_at_def)
  next
    case (Some a)
    then obtain w where w: "row (windows l) a = Some w" using assms by (blast elim: limiter_ok_window)
    have "row (attempts l) x = Some a \<Longrightarrow> x = k" using limiter_ok_inj [OF assms Some] by simp
    with Some w show ?thesis
      by (cases "row (attempts l) x")
        (auto simp: bump_def spec_bump_def view_def window_at_def)
  qed
qed

section \<open>Opening a window\<close>

lemma open_window_fields [simp]:
  "lim_limit (open_window now k l) = lim_limit l" "lim_window (open_window now k l) = lim_window l"
  "lim_max_entries (open_window now k l) = lim_max_entries l"
  by (simp_all add: open_window_def Let_def split: option.splits)

lemma open_window_ok:
  assumes ok: "limiter_ok l"
  shows "limiter_ok (open_window now k l)"
proof (cases "row (attempts l) k")
  case (Some a)
  with ok show ?thesis by (simp add: open_window_def)
next
  case None
  let ?a = "next_addr l" and ?w = "\<lparr>w_key = k, w_expires = now + lim_window l, w_count = 0\<rparr>"
  let ?ws = "put ?a ?w (windows l)"
  have q: "x < ?a" if "x \<in> set (expirations l)" for x
    using that limiter_okD(3) [OF ok, of x] limiter_ok_addr [OF ok] by blast
  have e: "expires_of ?ws x = expires_of (windows l) x" if "x \<in> set (expirations l)" for x
    using q [OF that] by (simp add: expires_of_def)
  note push = heap_push_ok [OF heap_ok_cong [OF limiter_okD(4) [OF ok], of "expires_of ?ws", OF e], of ?a]
  have m: "mset (heap_push (expires_of ?ws) ?a (expirations l)) = mset (?a # expirations l)"
    using push(2) by simp
  have s: "set (heap_push (expires_of ?ws) ?a (expirations l)) = insert ?a (set (expirations l))"
    using mset_eq_setD [OF m] by simp
  have t: "distinct (heap_push (expires_of ?ws) ?a (expirations l)) = distinct (?a # expirations l)"
    using mset_eq_imp_distinct_iff [OF m] .
  have d: "distinct (?a # expirations l)" using limiter_okD(2) [OF ok] q by auto
  have eq: "open_window now k l = l\<lparr>windows := ?ws, attempts := put k ?a (attempts l),
      expirations := heap_push (expires_of ?ws) ?a (expirations l), next_addr := ?a + 1\<rparr>"
    using None by (simp add: open_window_def Let_def)
  show ?thesis
    unfolding eq
  proof (rule limiter_okI, goal_cases)
    case (3 x)
    have "(\<exists>k'. row (attempts l) k' = Some x) \<longleftrightarrow> (\<exists>k'. k' \<noteq> k \<and> row (attempts l) k' = Some x)"
      using None by (metis option.distinct(1))
    then show ?case using limiter_okD(3) [OF ok, of x] by (auto simp: s)
  next
    case (4 k' b)
    then show ?case using limiter_ok_addr [OF ok, of k' b] by (auto split: if_splits)
  qed (use limiter_okD(1,2,4) [OF ok] push(1) t d in simp_all)
qed

lemma open_window_view:
  assumes ok: "limiter_ok l"
  shows "view (open_window now k l) =
    (case view l k of None \<Rightarrow> (view l)(k \<mapsto> (now + lim_window l, 0)) | Some _ \<Rightarrow> view l)"
proof (cases "row (attempts l) k")
  case (Some a)
  then show ?thesis using view_None_iff [OF ok, of k] by (auto simp: open_window_def split: option.splits)
next
  case None
  have "view (open_window now k l) x = ((view l)(k \<mapsto> (now + lim_window l, 0))) x" for x
  proof (cases "row (attempts l) x")
    case (Some b)
    then have "b \<noteq> next_addr l" using limiter_ok_addr [OF ok Some] by simp
    with None Some show ?thesis by (simp add: open_window_def view_def window_at_def Let_def)
  qed (use None in \<open>simp add: open_window_def view_def window_at_def Let_def\<close>)
  then show ?thesis using None view_None_iff [OF ok, of k] by auto
qed

lemma touch_view:
  "limiter_ok l \<Longrightarrow> view (bump k (open_window now k l)) = spec_touch (now + lim_window l) k (view l)"
  by (simp add: bump_view open_window_ok open_window_view)
    (auto simp: spec_bump_def spec_touch_def split: option.splits)

lemma touches_view:
  "limiter_ok l \<Longrightarrow>
   limiter_ok (fold (\<lambda>k l. bump k (open_window now k l)) ks l) \<and>
   view (fold (\<lambda>k l. bump k (open_window now k l)) ks l) =
     fold (spec_touch (now + lim_window l)) ks (view l)"
proof (induction ks arbitrary: l)
  case (Cons k ks)
  have "limiter_ok (bump k (open_window now k l))" using Cons.prems by (intro bump_ok open_window_ok)
  from Cons.IH [OF this] show ?case by (simp add: touch_view [OF Cons.prems])
qed simp

lemma bumps_view:
  "limiter_ok l \<Longrightarrow> limiter_ok (fold bump ks l) \<and> view (fold bump ks l) = fold spec_bump ks (view l)"
proof (induction ks arbitrary: l)
  case (Cons k ks)
  from Cons.IH [OF bump_ok [OF Cons.prems, of k]] show ?case by (simp add: bump_view [OF Cons.prems])
qed simp

section \<open>Properties\<close>

text \<open>
  C22: the limiter implements the map of open windows. Whatever the shared windows, the address
  map and the expiry heap hold, one call answers and changes what it promises as the abstract
  limiter does: expired windows vanish, an attempt is refused when one of its windows is full,
  refused but counted when there is no room for a new window, and otherwise counted in every
  window. The representation invariant is kept.
\<close>

theorem allow_refines_spec:
  assumes "limiter_ok l"
  shows "limiter_ok (snd (allow sha now action addr account l)) \<and>
    (fst (allow sha now action addr account l), view (snd (allow sha now action addr account l))) =
      spec_allow (lim_limit l) (lim_window l) (lim_max_entries l)
        (attempt_keys sha action addr account) now (view l)"
proof -
  let ?p = "prune_expired now l" and ?ks = "attempt_keys sha action addr account"
  have ok: "limiter_ok ?p" and v: "view ?p = spec_prune now (view l)"
    using assms by (auto intro: prune_ok prune_view)
  have full: "list_ex (\<lambda>k. case window_at ?p k of Some w \<Rightarrow> lim_limit l \<le> w_count w | None \<Rightarrow> False) ?ks
      \<longleftrightarrow> (\<exists>k \<in> set ?ks. \<exists>e c. view ?p k = Some (e, c) \<and> lim_limit l \<le> c)"
    by (auto simp: list_ex_iff view_def split: option.splits)
  show ?thesis
    using size_view [OF ok] view_None_iff [OF ok] touches_view [OF ok, of now ?ks] bumps_view [OF ok, of ?ks]
    unfolding allow_def allow_keys_def spec_allow_def Let_def prune_expired_fields full v [symmetric]
    by (auto simp: ok)
qed

lemma prune_empty: "spec_prune now Map.empty = Map.empty"
  by (simp add: spec_prune_def fun_eq_iff)

lemma allow_refines_spec_witness:
  "fst (allow (\<lambda>x. x) 5 ''login'' ''10.0.0.1:80'' ''bob'' (new_limiter 3 60 10)) \<and>
   limiter_ok (snd (allow (\<lambda>x. x) 5 ''login'' ''10.0.0.1:80'' ''bob'' (new_limiter 3 60 10)))"
proof -
  let ?l = "new_limiter 3 60 10"
  have v: "view ?l = Map.empty" by (simp add: view_def window_at_def new_limiter_def fun_eq_iff)
  have "spec_allow 3 60 10 (attempt_keys (\<lambda>x. x) ''login'' ''10.0.0.1:80'' ''bob'') 5 Map.empty =
      (True, fold (spec_touch 65) (attempt_keys (\<lambda>x. x) ''login'' ''10.0.0.1:80'' ''bob'') Map.empty)"
    by (simp add: spec_allow_def prune_empty attempt_keys_def Let_def)
  with allow_refines_spec [OF limiter_ok_new [of 3 60 10], of "\<lambda>x. x" 5 "''login''" "''10.0.0.1:80''" "''bob''"]
  show ?thesis by (simp add: v) (simp add: new_limiter_def)
qed

end
