(* ===== verification/ContentModel.thy ===== *)
theory ContentModel
  imports Prelude
begin

text \<open>
  The content model (\<open>model/model.go\<close>): the vocabularies of sources, locales and categories
  with their validators, and the records the store hands to the console.
\<close>

section \<open>Sources\<close>

definition SourceCN :: string where [const_defs]: "SourceCN = ''cn''"
definition SourceHuman :: string where [const_defs]: "SourceHuman = ''human''"
definition SourcePinned :: string where [const_defs]: "SourcePinned = ''pinned''"
definition SourceLLM :: string where [const_defs]: "SourceLLM = ''llm''"
definition SourceUnknown :: string where [const_defs]: "SourceUnknown = ''unknown''"

definition is_valid_source :: "string \<Rightarrow> bool" where
  "is_valid_source source \<longleftrightarrow>
     source = SourceCN \<or> source = SourceHuman \<or> source = SourcePinned \<or>
     source = SourceLLM \<or> source = SourceUnknown"

section \<open>Locales\<close>

definition LocaleJapanese :: string where [const_defs]: "LocaleJapanese = ''ja-JP''"
definition LocaleChinese :: string where [const_defs]: "LocaleChinese = ''zh-CN''"
definition LocaleEnglish :: string where [const_defs]: "LocaleEnglish = ''en-US''"

definition SupportedLocales :: "string list" where
  "SupportedLocales = [LocaleJapanese, LocaleChinese, LocaleEnglish]"

definition is_valid_locale :: "string \<Rightarrow> bool" where
  "is_valid_locale locale_name \<longleftrightarrow> list_ex (\<lambda>supported. locale_name = supported) SupportedLocales"

lemmas source_names = SourceCN_def SourceHuman_def SourcePinned_def SourceLLM_def SourceUnknown_def
lemmas locale_names = LocaleJapanese_def LocaleChinese_def LocaleEnglish_def

lemma sources_distinct [simp]:
  "SourceCN \<noteq> SourceHuman" "SourceCN \<noteq> SourcePinned" "SourceCN \<noteq> SourceLLM"
  "SourceCN \<noteq> SourceUnknown" "SourceHuman \<noteq> SourceCN" "SourceHuman \<noteq> SourcePinned"
  "SourceHuman \<noteq> SourceLLM" "SourceHuman \<noteq> SourceUnknown" "SourcePinned \<noteq> SourceCN"
  "SourcePinned \<noteq> SourceHuman" "SourcePinned \<noteq> SourceLLM" "SourcePinned \<noteq> SourceUnknown"
  "SourceLLM \<noteq> SourceCN" "SourceLLM \<noteq> SourceHuman" "SourceLLM \<noteq> SourcePinned"
  "SourceLLM \<noteq> SourceUnknown" "SourceUnknown \<noteq> SourceCN" "SourceUnknown \<noteq> SourceHuman"
  "SourceUnknown \<noteq> SourcePinned" "SourceUnknown \<noteq> SourceLLM"
  "SourceUnknown \<noteq> []"
  by (simp_all add: source_names)

lemma locales_distinct [simp]:
  "LocaleJapanese \<noteq> LocaleChinese" "LocaleChinese \<noteq> LocaleJapanese"
  "LocaleEnglish \<noteq> LocaleChinese" "LocaleChinese \<noteq> LocaleEnglish"
  "LocaleEnglish \<noteq> LocaleJapanese" "LocaleJapanese \<noteq> LocaleEnglish"
  by (simp_all add: locale_names)

section \<open>Categories\<close>

definition SupportedCategories :: "string list" where
  "SupportedCategories =
     [''cards'', ''skills'', ''events'', ''information'', ''music'', ''gacha'', ''gachaInfo'',
      ''virtualLive'', ''sticker'', ''comic'', ''mysekai'', ''costumes'', ''characters'', ''units'']"

definition is_valid_category :: "string \<Rightarrow> bool" where
  "is_valid_category category \<longleftrightarrow> list_ex (\<lambda>c. c = category) SupportedCategories"

definition is_restore_optional_category :: "string \<Rightarrow> bool" where
  "is_restore_optional_category category \<longleftrightarrow> category = ''gachaInfo''"

section \<open>Entries and listings\<close>

record entry =
  entry_text :: string
  entry_source :: string
  entry_ids :: "string list"

text \<open>
  A Go map is an association list with distinct keys; the order of the list stands for the
  order of one iteration, which Go leaves unspecified. \<open>category_map\<close> is \<open>Category\<close>: field,
  then Japanese key, then entry.
\<close>

type_synonym 'a gomap = "(string \<times> 'a) list"
type_synonym category_map = "entry gomap gomap"

record entry_with_key =
  ek_key :: string
  ek_text :: string
  ek_source :: string
  ek_ids :: "string list"
  ek_updated_at :: int

record category_entry_update =
  u_field :: string
  u_key :: string
  u_text :: string
  u_source :: string

record category_locale_snapshot =
  snap_category :: string
  snap_locale :: string
  snap_revision :: string
  snap_fields :: "entry_with_key list gomap"

record field_info =
  fi_name :: string
  fi_total :: nat
  fi_cn :: nat
  fi_human :: nat
  fi_pinned :: nat
  fi_llm :: nat
  fi_unknown :: nat

record category_info =
  ci_name :: string
  ci_fields :: "field_info list"

definition new_field_info :: "string \<Rightarrow> field_info" where
  "new_field_info name = \<lparr>fi_name = name, fi_total = 0, fi_cn = 0, fi_human = 0, fi_pinned = 0,
     fi_llm = 0, fi_unknown = 0\<rparr>"

text \<open>
  The counting step of \<open>GetCategories\<close> and \<open>GetCategoriesLocale\<close>: \<open>n\<close> rows of one source
  are added to the field's totals.
\<close>

definition add_count :: "string \<Rightarrow> nat \<Rightarrow> field_info \<Rightarrow> field_info" where
  "add_count source n fi =
     (let fi = fi\<lparr>fi_total := fi_total fi + n\<rparr> in
      if source = SourceCN then fi\<lparr>fi_cn := fi_cn fi + n\<rparr>
      else if source = SourceHuman then fi\<lparr>fi_human := fi_human fi + n\<rparr>
      else if source = SourcePinned then fi\<lparr>fi_pinned := fi_pinned fi + n\<rparr>
      else if source = SourceLLM then fi\<lparr>fi_llm := fi_llm fi + n\<rparr>
      else fi\<lparr>fi_unknown := fi_unknown fi + n\<rparr>)"

end
