(* ===== verification/GoJson.thy ===== *)
theory GoJson
  imports GoText
begin

text \<open>
  \<open>encoding/json.Marshal\<close> of strings and of string slices, as the store calls it: the
  escapes of a JSON string with HTML escaping on, which is Marshal's default.
\<close>

definition hex_char :: "nat \<Rightarrow> char" where
  "hex_char n = ''0123456789abcdef'' ! n"

definition quote :: char where
  "quote = CHR 0x22"

definition backslash :: char where
  "backslash = CHR 0x5C"

text \<open>The escape of one rune decoded from the bytes \<open>bs\<close>.\<close>

definition escape_rune :: "nat \<Rightarrow> string \<Rightarrow> string" where
  "escape_rune r bs =
     (if r = 0x22 \<or> r = 0x5C then backslash # bs
      else if r = 8 then backslash # ''b''
      else if r = 12 then backslash # ''f''
      else if r = 10 then backslash # ''n''
      else if r = 13 then backslash # ''r''
      else if r = 9 then backslash # ''t''
      else if r < 0x20 \<or> r = 0x3C \<or> r = 0x3E \<or> r = 0x26
      then backslash # ''u00'' @ [hex_char (r div 16), hex_char (r mod 16)]
      else if r = RuneError \<and> length bs = 1 then backslash # ''ufffd''
      else if r = 0x2028 \<or> r = 0x2029 then backslash # ''u202'' @ [hex_char (r mod 16)]
      else bs)"

definition marshal_string :: "string \<Rightarrow> string" where
  "marshal_string s = [quote] @ concat (map (\<lambda>(r, bs). escape_rune r bs) (segments s)) @ [quote]"

definition marshal_strings :: "string list \<Rightarrow> string" where
  "marshal_strings xs = ''['' @ join_with '','' (map marshal_string xs) @ '']''"

lemma marshal_strings_ne [simp]: "marshal_strings xs \<noteq> []"
  by (simp add: marshal_strings_def)

lemma escape_rune_plain:
  "0x20 \<le> r \<Longrightarrow> r < 0x80 \<Longrightarrow> r \<notin> {0x22, 0x5C, 0x3C, 0x3E, 0x26} \<Longrightarrow> escape_rune r bs = bs"
  by (auto simp: escape_rune_def RuneError_def)

end
