(* ===== verification/EntryStore.thy ===== *)
theory EntryStore
  imports ContentModel GoJson
begin

text \<open>
  The translation entries (\<open>store/store.go\<close>, \<open>store/cn_apply.go\<close>): the \<open>entries\<close> table, the
  console's reads and single edits, the import of a category, and the two writers that run
  without a human, the official CN synchronisation and the AI translations. A query is what
  it computes over the rows of the table; a transaction is the composition of its statements,
  and what it changed is kept when its commit succeeds.
\<close>

section \<open>The table\<close>

text \<open>
  The column \<open>ids_json\<close> is the empty string, the text \<open>json.Marshal\<close> wrote for a list of ids,
  or some other text, kept with what \<open>json.Unmarshal\<close> leaves in a \<open>[]string\<close> for it and
  whether that call succeeds. Ids are valid UTF-8, so Unmarshal gives back what Marshal wrote.
\<close>

datatype ids_col = NoIds | Ids "string list" | OtherText string "string list" bool

fun ids_text :: "ids_col \<Rightarrow> string" where
  "ids_text NoIds = []"
| "ids_text (Ids xs) = marshal_strings xs"
| "ids_text (OtherText s _ _) = s"

fun unmarshal_ids :: "ids_col \<Rightarrow> string list" where
  "unmarshal_ids NoIds = []"
| "unmarshal_ids (Ids xs) = xs"
| "unmarshal_ids (OtherText _ xs _) = xs"

fun unmarshal_fails :: "ids_col \<Rightarrow> bool" where
  "unmarshal_fails (OtherText _ _ ok) = (\<not> ok)"
| "unmarshal_fails _ = False"

definition ids_column :: "string list \<Rightarrow> ids_col" where
  "ids_column xs = (if 0 < length xs then Ids xs else NoIds)"

lemma unmarshal_ids_column [simp]: "unmarshal_ids (ids_column xs) = xs"
  by (simp add: ids_column_def)

record entry_row =
  cn_text :: string
  row_source :: string
  ids_json :: ids_col
  updated_at :: int
  updated_by :: string

type_synonym entry_id = "string \<times> string \<times> string"
type_synonym entries = "(entry_id, entry_row) table"

section \<open>Trace ids\<close>

definition merge_ids :: "string list \<Rightarrow> string list \<Rightarrow> string list" where
  "merge_ids existing add =
     (if length add = 0 then existing
      else snd (fold (\<lambda>id (seen, out). if id \<notin> seen then (insert id seen, out @ [id]) else (seen, out))
        add (set existing, existing)))"

definition ids_equal :: "string list \<Rightarrow> string list \<Rightarrow> bool" where
  "ids_equal a b \<longleftrightarrow>
     (if length a \<noteq> length b then False else list_all (\<lambda>i. a ! i = b ! i) [0..<length a])"

lemma ids_equal_iff [simp]: "ids_equal a b \<longleftrightarrow> a = b"
  by (auto simp: ids_equal_def list_all_iff intro: nth_equalityI)

fun new_ids :: "string set \<Rightarrow> string list \<Rightarrow> string list" where
  "new_ids seen [] = []"
| "new_ids seen (x # xs) = (if x \<in> seen then new_ids seen xs else x # new_ids (insert x seen) xs)"

lemma merge_fold:
  "snd (fold (\<lambda>id (seen, out). if id \<notin> seen then (insert id seen, out @ [id]) else (seen, out)) add (seen, out)) =
   out @ new_ids seen add"
  by (induction add arbitrary: seen out) auto

lemma merge_ids_eq: "merge_ids existing add = existing @ new_ids (set existing) add"
  by (simp add: merge_ids_def merge_fold)

lemma set_new_ids: "set (new_ids seen xs) = set xs - seen"
  by (induction xs arbitrary: seen) auto

lemma distinct_new_ids: "distinct (new_ids seen xs)"
  by (induction xs arbitrary: seen) (auto simp: set_new_ids)

lemma new_ids_Nil_iff: "new_ids seen xs = [] \<longleftrightarrow> set xs \<subseteq> seen"
  by (induction xs arbitrary: seen) auto

lemma merge_ids_same_iff: "merge_ids existing add = existing \<longleftrightarrow> set add \<subseteq> set existing"
  by (simp add: merge_ids_eq new_ids_Nil_iff)

lemma set_merge_ids [simp]: "set (merge_ids existing add) = set existing \<union> set add"
  by (auto simp: merge_ids_eq set_new_ids)

lemma merge_ids_twice [simp]: "merge_ids (merge_ids xs ys) ys = merge_ids xs ys"
  by (subst merge_ids_same_iff) auto

lemma merge_ids_Nil [simp]: "merge_ids xs [] = xs"
  by (simp add: merge_ids_def)


section \<open>Official CN synchronisation\<close>

record cn_apply_field =
  pairs :: "string gomap"
  trace :: "string list gomap"

text \<open>Indexing a Go map: the zero value (a nil slice) when the key is absent.\<close>

definition ids_at :: "string list gomap \<Rightarrow> string \<Rightarrow> string list" where
  "ids_at m jp = (case map_of m jp of None \<Rightarrow> [] | Some ids \<Rightarrow> ids)"

definition cur_columns :: "entry_row option \<Rightarrow> string \<times> string \<times> string list" where
  "cur_columns cur =
     (case cur of None \<Rightarrow> ([], [], [])
      | Some r \<Rightarrow> (cn_text r, row_source r, unmarshal_ids (ids_json r)))"

text \<open>The switch that decides the new text and source of a pair.\<close>

definition cn_decision :: "string \<Rightarrow> bool \<Rightarrow> string \<Rightarrow> string \<Rightarrow> string \<times> string" where
  "cn_decision cn exists cur_text cur_source =
     (if cn \<noteq> [] then
        (if exists \<and> cur_source = SourcePinned then (cur_text, cur_source) else (cn, SourceCN))
      else
        (if exists \<and> cur_text \<noteq> [] then (cur_text, cur_source) else ([], SourceUnknown)))"

definition apply_pair ::
  "int \<Rightarrow> string \<Rightarrow> string \<Rightarrow> string list gomap \<Rightarrow> string \<times> string \<Rightarrow> entries \<times> nat \<Rightarrow> entries \<times> nat" where
  "apply_pair now category field trc pair s =
     (let (jp, cn) = pair; (t, updated) = s;
          cur = row t (category, field, jp); exists = cur \<noteq> None;
          (cur_text, cur_source, ids) = cur_columns cur;
          (new_text, new_source) = cn_decision cn exists cur_text cur_source;
          merged = merge_ids ids (ids_at trc jp);
          ids_changed = (\<not> ids_equal ids merged);
          content_changed = (\<not> exists \<or> cur_text \<noteq> new_text \<or> cur_source \<noteq> new_source)
      in if \<not> content_changed \<and> \<not> ids_changed then (t, updated)
         else if exists
         then (modify (category, field, jp) (\<lambda>r. r\<lparr>cn_text := new_text, row_source := new_source,
                 ids_json := ids_column merged, updated_at := now, updated_by := ''cn-sync''\<rparr>) t, updated + 1)
         else (put (category, field, jp) \<lparr>cn_text = new_text, row_source = new_source,
                 ids_json = ids_column merged, updated_at = now, updated_by = ''cn-sync''\<rparr> t, updated + 1))"

definition apply_trace ::
  "string \<Rightarrow> string \<Rightarrow> string gomap \<Rightarrow> string \<times> string list \<Rightarrow> entries \<times> nat \<Rightarrow> entries \<times> nat" where
  "apply_trace category field prs tr s =
     (let (jp, ref_ids) = tr; (t, updated) = s in
      if map_of prs jp \<noteq> None then (t, updated)
      else if length ref_ids = 0 then (t, updated)
      else case row t (category, field, jp) of
        None \<Rightarrow> (t, updated)
      | Some r \<Rightarrow>
          (let ids = unmarshal_ids (ids_json r); merged = merge_ids ids ref_ids in
           if ids_equal ids merged then (t, updated)
           else (modify (category, field, jp) (\<lambda>r. r\<lparr>ids_json := Ids merged\<rparr>) t, updated + 1)))"

definition apply_field ::
  "int \<Rightarrow> string \<Rightarrow> string \<times> cn_apply_field \<Rightarrow> entries \<times> nat \<Rightarrow> entries \<times> nat" where
  "apply_field now category fd s =
     (let (field, data) = fd in
      fold (apply_trace category field (pairs data)) (trace data)
        (fold (apply_pair now category field (trace data)) (pairs data) s))"

text \<open>The join of \<open>syncMysekaiFlavorFromTagTx\<close>, then its updates.\<close>

definition flavor_due :: "entries \<Rightarrow> entry_id \<times> entry_row \<Rightarrow> bool" where
  "flavor_due t kr =
     (let ((c, f, jp), tr) = kr in
      c = ''mysekai'' \<and> f = ''tag'' \<and> \<not> (cn_text tr = [] \<and> row_source tr = SourceUnknown) \<and>
      (case row t (''mysekai'', ''flavorText'', jp) of None \<Rightarrow> False
       | Some fr \<Rightarrow> cn_text fr \<noteq> cn_text tr \<or> row_source fr \<noteq> row_source tr))"

definition flavor_updates :: "entries \<Rightarrow> (string \<times> string \<times> string) list" where
  "flavor_updates t =
     map (\<lambda>((c, f, jp), tr). (jp, cn_text tr, row_source tr)) (filter (flavor_due t) t)"

definition apply_flavor :: "string \<times> string \<times> string \<Rightarrow> entries \<Rightarrow> entries" where
  "apply_flavor u t =
     (let (jp, text, source) = u in
      modify (''mysekai'', ''flavorText'', jp) (\<lambda>r. r\<lparr>cn_text := text, row_source := source\<rparr>) t)"

definition sync_mysekai_flavor_from_tag :: "entries \<Rightarrow> entries \<times> nat" where
  "sync_mysekai_flavor_from_tag t =
     (let updates = flavor_updates t in (fold apply_flavor updates t, length updates))"

definition apply_cn_category_tx ::
  "int \<Rightarrow> string \<Rightarrow> cn_apply_field gomap \<Rightarrow> entries \<Rightarrow> entries \<times> nat" where
  "apply_cn_category_tx now category fds t =
     (let (t, updated) = fold (apply_field now category) fds (t, 0) in
      if category = ''mysekai''
      then (let (t, n) = sync_mysekai_flavor_from_tag t in (t, updated + n))
      else (t, updated))"

text \<open>
  \<open>ApplyCNCategory\<close>: the catalog lists are nil, so the two catalog upserts do nothing. The
  database refuses to begin (\<open>None\<close>), or the transaction runs and its commit decides.
  The result is the tables afterwards, whether the hooks run, and the count or the error.
\<close>

datatype tx_outcome = BeginFails | CommitFails | Commits

definition apply_cn_category ::
  "tx_outcome \<Rightarrow> int \<Rightarrow> string \<Rightarrow> cn_apply_field gomap \<Rightarrow> entries \<Rightarrow> entries \<times> bool \<times> nat \<times> bool" where
  "apply_cn_category outcome now category fds t =
     (if outcome = BeginFails then (t, False, 0, False)
      else let (t', updated) = apply_cn_category_tx now category fds t in
        if outcome = CommitFails then (t, False, updated, False)
        else (t', updated > 0, updated, True))"

subsection \<open>The loops as one loop over the rows they name\<close>

datatype cn_item = PairItem string string string "string list" | TraceItem string string "string list"

fun item_key :: "string \<Rightarrow> cn_item \<Rightarrow> entry_id" where
  "item_key category (PairItem field jp _ _) = (category, field, jp)"
| "item_key category (TraceItem field jp _) = (category, field, jp)"

text \<open>
  What the two loops should make of a row, stated apart from the code: which text and source
  win, and that the ids grow by those not yet there, in the order they come.
\<close>

fun precedence :: "string \<Rightarrow> entry_row option \<Rightarrow> string \<times> string" where
  "precedence [] None = ([], SourceUnknown)"
| "precedence (x # cn) None = (x # cn, SourceCN)"
| "precedence [] (Some r) = (if cn_text r = [] then ([], SourceUnknown) else (cn_text r, row_source r))"
| "precedence (x # cn) (Some r) = (if row_source r = SourcePinned then (cn_text r, SourcePinned) else (x # cn, SourceCN))"

definition row_ids :: "entry_row option \<Rightarrow> string list" where
  "row_ids cur = (case cur of None \<Rightarrow> [] | Some r \<Rightarrow> unmarshal_ids (ids_json r))"

definition pair_eff :: "int \<Rightarrow> string \<Rightarrow> string list \<Rightarrow> entry_row option \<Rightarrow> entry_row option" where
  "pair_eff now cn refs cur =
     (let result = precedence cn cur; ids = row_ids cur
      in if map_option (\<lambda>r. (cn_text r, row_source r)) cur = Some result \<and> set refs \<subseteq> set ids then cur
         else Some \<lparr>cn_text = fst result, row_source = snd result, ids_json = ids_column (ids @ new_ids (set ids) refs),
           updated_at = now, updated_by = ''cn-sync''\<rparr>)"

definition trace_eff :: "string list \<Rightarrow> entry_row option \<Rightarrow> entry_row option" where
  "trace_eff refs cur =
     (let ids = row_ids cur in
      if set refs \<subseteq> set ids then cur else map_option (\<lambda>r. r\<lparr>ids_json := Ids (ids @ new_ids (set ids) refs)\<rparr>) cur)"

lemma cn_decision_precedence:
  "cn_decision cn (cur \<noteq> None) (fst (cur_columns cur)) (fst (snd (cur_columns cur))) = precedence cn cur"
  by (cases "(cn, cur)" rule: precedence.cases) (simp_all add: cn_decision_def cur_columns_def)

lemma pair_eff_code:
  "pair_eff now cn refs cur =
     (let (cur_text, cur_source, ids) = cur_columns cur;
          (new_text, new_source) = cn_decision cn (cur \<noteq> None) cur_text cur_source;
          merged = merge_ids ids refs
      in if cur \<noteq> None \<and> cur_text = new_text \<and> cur_source = new_source \<and> set refs \<subseteq> set ids then cur
         else Some \<lparr>cn_text = new_text, row_source = new_source, ids_json = ids_column merged,
           updated_at = now, updated_by = ''cn-sync''\<rparr>)"
  using cn_decision_precedence [of cn cur, symmetric]
  by (cases cur) (auto simp: pair_eff_def cur_columns_def row_ids_def merge_ids_eq case_prod_unfold Let_def prod_eq_iff)

lemma trace_eff_code:
  "trace_eff refs cur =
     (case cur of None \<Rightarrow> None
      | Some r \<Rightarrow> if set refs \<subseteq> set (unmarshal_ids (ids_json r)) then cur
                  else Some (r\<lparr>ids_json := Ids (merge_ids (unmarshal_ids (ids_json r)) refs)\<rparr>))"
  by (cases cur) (simp_all add: trace_eff_def row_ids_def merge_ids_eq Let_def)

fun item_eff :: "int \<Rightarrow> cn_item \<Rightarrow> entry_row option \<Rightarrow> entry_row option" where
  "item_eff now (PairItem _ _ cn refs) cur = pair_eff now cn refs cur"
| "item_eff now (TraceItem _ _ refs) cur = trace_eff refs cur"

fun item_step :: "int \<Rightarrow> string \<Rightarrow> cn_item \<Rightarrow> entries \<times> nat \<Rightarrow> entries \<times> nat" where
  "item_step now category (PairItem field jp cn refs) s =
     apply_pair now category field [(jp, refs)] (jp, cn) s"
| "item_step now category (TraceItem field jp refs) s = apply_trace category field [] (jp, refs) s"

lemma apply_pair_row:
  "row (fst (apply_pair now category field trc (jp, cn) s)) k =
   (if k = (category, field, jp) then pair_eff now cn (ids_at trc jp) (row (fst s) k) else row (fst s) k)"
  by (cases s; cases "row (fst s) (category, field, jp)")
    (auto simp: apply_pair_def pair_eff_code cur_columns_def Let_def eq_commute [of _ "merge_ids _ _"]
       merge_ids_same_iff split: prod.splits)

lemma apply_pair_count:
  "snd (apply_pair now category field trc (jp, cn) s) = snd s +
   (if pair_eff now cn (ids_at trc jp) (row (fst s) (category, field, jp)) \<noteq>
       row (fst s) (category, field, jp) then 1 else 0)"
proof -
  obtain t n where s: "s = (t, n)" by fastforce
  show ?thesis
  proof (cases "row t (category, field, jp)")
    case None
    then show ?thesis
      by (auto simp: s apply_pair_def pair_eff_code cur_columns_def Let_def split: prod.splits)
  next
    case (Some r)
    obtain a b where d: "cn_decision cn True (cn_text r) (row_source r) = (a, b)" by fastforce
    let ?ids = "unmarshal_ids (ids_json r)" and ?refs = "ids_at trc jp"
    show ?thesis
    proof (cases "cn_text r = a \<and> row_source r = b \<and> set ?refs \<subseteq> set ?ids")
      case True
      then have "merge_ids ?ids ?refs = ?ids" by (simp add: merge_ids_same_iff)
      with True Some d show ?thesis
        by (simp add: s apply_pair_def pair_eff_code cur_columns_def)
    next
      case False
      have "Some r \<noteq> Some \<lparr>cn_text = a, row_source = b, ids_json = ids_column (merge_ids ?ids ?refs),
           updated_at = now, updated_by = ''cn-sync''\<rparr>"
        using False merge_ids_same_iff [of ?ids ?refs]
        by (metis entry_row.select_convs(1,2,3) option.inject unmarshal_ids_column)
      moreover have "\<not> (?ids = merge_ids ?ids ?refs) \<longleftrightarrow> \<not> set ?refs \<subseteq> set ?ids"
        using merge_ids_same_iff [of ?ids ?refs] by metis
      ultimately show ?thesis using False Some d
        by (simp add: s apply_pair_def pair_eff_code cur_columns_def Let_def)
    qed
  qed
qed


lemma apply_trace_row:
  "row (fst (apply_trace category field prs (jp, refs) s)) k =
   (if k = (category, field, jp) \<and> map_of prs jp = None then trace_eff refs (row (fst s) k)
    else row (fst s) k)"
  by (cases s; cases "row (fst s) (category, field, jp)")
    (auto simp: apply_trace_def trace_eff_code Let_def eq_commute [of _ "merge_ids _ _"] merge_ids_same_iff)

lemma apply_trace_count:
  "snd (apply_trace category field prs (jp, refs) s) = snd s +
   (if map_of prs jp = None \<and> trace_eff refs (row (fst s) (category, field, jp)) \<noteq>
       row (fst s) (category, field, jp) then 1 else 0)"
proof -
  obtain t n where s: "s = (t, n)" by fastforce
  have ne: "r\<lparr>ids_json := Ids (merge_ids (unmarshal_ids (ids_json r)) refs)\<rparr> \<noteq> (r :: entry_row)"
    if "\<not> set refs \<subseteq> set (unmarshal_ids (ids_json r))" for r
    using that merge_ids_same_iff [of "unmarshal_ids (ids_json r)" refs]
    by (metis entry_row.select_convs(3) entry_row.surjective entry_row.update_convs(3) unmarshal_ids.simps(2))
  show ?thesis
    using ne by (cases "row t (category, field, jp)")
      (auto simp: s apply_trace_def trace_eff_code Let_def eq_commute [of _ "merge_ids _ _"] merge_ids_same_iff)
qed

interpretation cn_loop: rowwise_counted "\<lambda>s. row (fst s)" "item_step now category" "item_key category"
  "item_eff now" snd "\<lambda>x r. item_eff now x r \<noteq> r" for now category
proof
  fix x and s :: "entries \<times> nat"
  show "row (fst (item_step now category x s)) (item_key category x) =
      item_eff now x (row (fst s) (item_key category x))"
    by (cases x) (simp_all add: apply_pair_row apply_trace_row ids_at_def)
next
  fix k x and s :: "entries \<times> nat"
  assume "k \<noteq> item_key category x"
  then show "row (fst (item_step now category x s)) k = row (fst s) k"
    by (cases x) (simp_all add: apply_pair_row apply_trace_row)
next
  fix x and s :: "entries \<times> nat"
  show "snd (item_step now category x s) = snd s +
      (if item_eff now x (row (fst s) (item_key category x)) \<noteq> row (fst s) (item_key category x)
       then 1 else 0)"
    by (cases x) (simp_all add: apply_pair_count apply_trace_count ids_at_def)
qed

definition field_items :: "string \<times> cn_apply_field \<Rightarrow> cn_item list" where
  "field_items fd =
     (let (field, data) = fd in
      map (\<lambda>(jp, cn). PairItem field jp cn (ids_at (trace data) jp)) (pairs data) @
      map (\<lambda>(jp, refs). TraceItem field jp refs)
        (filter (\<lambda>(jp, refs). map_of (pairs data) jp = None) (trace data)))"

definition cn_items :: "cn_apply_field gomap \<Rightarrow> cn_item list" where
  "cn_items fds = concat (map field_items fds)"

lemma apply_pair_item:
  "apply_pair now category field trc (jp, cn) s =
   item_step now category (PairItem field jp cn (ids_at trc jp)) s"
  by (simp add: apply_pair_def ids_at_def)

lemma apply_trace_item:
  "apply_trace category field prs (jp, refs) s =
   (if map_of prs jp = None then item_step now category (TraceItem field jp refs) s else s)"
  by (cases s) (simp add: apply_trace_def)

lemma pairs_loop:
  "fold (apply_pair now category field trc) ps s =
   fold (item_step now category) (map (\<lambda>(jp, cn). PairItem field jp cn (ids_at trc jp)) ps) s"
  by (induction ps arbitrary: s) (auto simp: apply_pair_item simp del: item_step.simps)

lemma trace_loop:
  "fold (apply_trace category field prs) ts s =
   fold (item_step now category) (map (\<lambda>(jp, refs). TraceItem field jp refs)
     (filter (\<lambda>(jp, refs). map_of prs jp = None) ts)) s"
  by (induction ts arbitrary: s) (auto simp: apply_trace_item [where now = now] simp del: item_step.simps)

lemma apply_fields_items:
  "fold (apply_field now category) fds s = fold (item_step now category) (cn_items fds) s"
proof (induction fds arbitrary: s)
  case (Cons fd fds)
  have "apply_field now category fd s = fold (item_step now category) (field_items fd) s"
    by (cases fd) (simp add: apply_field_def field_items_def pairs_loop trace_loop [where now = now])
  with Cons show ?case by (simp add: cn_items_def)
qed (simp add: cn_items_def)

text \<open>Go maps: the keys are distinct, at every level.\<close>

definition gomap_ok :: "'a gomap \<Rightarrow> bool" where
  "gomap_ok m \<longleftrightarrow> distinct (map fst m)"

definition cn_fields_ok :: "cn_apply_field gomap \<Rightarrow> bool" where
  "cn_fields_ok fds \<longleftrightarrow> gomap_ok fds \<and> list_all (\<lambda>(f, d). gomap_ok (pairs d) \<and> gomap_ok (trace d)) fds"


lemma pair_item_in:
  "PairItem f jp cn refs \<in> set (cn_items fds) \<longleftrightarrow>
   (\<exists>d. (f, d) \<in> set fds \<and> (jp, cn) \<in> set (pairs d) \<and> refs = ids_at (trace d) jp)"
  by (fastforce simp: cn_items_def field_items_def)

lemma trace_item_in:
  "TraceItem f jp refs \<in> set (cn_items fds) \<longleftrightarrow>
   (\<exists>d. (f, d) \<in> set fds \<and> (jp, refs) \<in> set (trace d) \<and> map_of (pairs d) jp = None)"
  by (fastforce simp: cn_items_def field_items_def)

lemma field_items_keys:
  "gomap_ok (pairs d) \<Longrightarrow> gomap_ok (trace d) \<Longrightarrow> distinct (map (item_key c) (field_items (f, d)))"
proof -
  assume ok: "gomap_ok (pairs d)" "gomap_ok (trace d)"
  have ks: "map (item_key c) (field_items (f, d)) =
      map (\<lambda>jp. (c, f, jp)) (map fst (pairs d) @
        map fst (filter (\<lambda>(jp, refs). map_of (pairs d) jp = None) (trace d)))"
    by (simp add: field_items_def comp_def case_prod_unfold)
  have "distinct (map fst (filter (\<lambda>(jp, refs). map_of (pairs d) jp = None) (trace d)))"
    using ok(2) by (simp add: gomap_ok_def distinct_map_filter)
  moreover have "set (map fst (pairs d)) \<inter>
      set (map fst (filter (\<lambda>(jp, refs). map_of (pairs d) jp = None) (trace d))) = {}"
    by (force simp: map_of_eq_None_iff)
  ultimately have "distinct (map fst (pairs d) @
        map fst (filter (\<lambda>(jp, refs). map_of (pairs d) jp = None) (trace d)))"
    using ok(1) by (simp add: gomap_ok_def)
  then show ?thesis unfolding ks by (rule iffD2 [OF distinct_map, OF conjI]) (simp add: inj_on_def)
qed

lemma field_items_fields: "k \<in> item_key c ` set (field_items (f, d)) \<Longrightarrow> fst k = c \<and> fst (snd k) = f"
  by (auto simp: field_items_def)

lemma cn_items_keys: "cn_fields_ok fds \<Longrightarrow> distinct (map (item_key c) (cn_items fds))"
proof (induction fds)
  case (Cons fd fds)
  obtain f d where fd: "fd = (f, d)" by fastforce
  have "k \<notin> item_key c ` set (cn_items fds)" if "k \<in> item_key c ` set (field_items (f, d))" for k
  proof
    assume "k \<in> item_key c ` set (cn_items fds)"
    then obtain f' d' where fd': "(f', d') \<in> set fds" "k \<in> item_key c ` set (field_items (f', d'))"
      by (force simp: cn_items_def)
    have "f' = f" using field_items_fields [OF that] field_items_fields [OF fd'(2)] by simp
    then show False using Cons.prems fd fd'(1) by (force simp: cn_fields_ok_def gomap_ok_def)
  qed
  then have "set (map (item_key c) (field_items (f, d))) \<inter> set (map (item_key c) (cn_items fds)) = {}"
    by (metis disjoint_iff list.set_map)
  moreover have "distinct (map (item_key c) (field_items (f, d)))"
    using Cons.prems fd by (intro field_items_keys) (simp_all add: cn_fields_ok_def)
  moreover have "distinct (map (item_key c) (cn_items fds))"
    using Cons by (simp add: cn_fields_ok_def gomap_ok_def)
  ultimately have "distinct (map (item_key c) (field_items (f, d)) @ map (item_key c) (cn_items fds))"
    by simp
  then show ?case by (simp add: fd cn_items_def)
qed (simp add: cn_items_def)

text \<open>What the loops do to one row, read off the maps.\<close>

definition cn_target ::
  "int \<Rightarrow> cn_apply_field gomap \<Rightarrow> string \<Rightarrow> string \<Rightarrow> entry_row option \<Rightarrow> entry_row option" where
  "cn_target now fds field jp cur =
     (case map_of fds field of None \<Rightarrow> cur
      | Some d \<Rightarrow> (case map_of (pairs d) jp of
            Some cn \<Rightarrow> pair_eff now cn (ids_at (trace d) jp) cur
          | None \<Rightarrow> trace_eff (ids_at (trace d) jp) cur))"

lemma trace_eff_Nil [simp]: "trace_eff [] cur = cur"
  by (simp add: trace_eff_code split: option.split)

lemma cn_target_item:
  assumes ok: "cn_fields_ok fds" and x: "x \<in> set (cn_items fds)" "item_key c x = (c', field, jp)"
  shows "c' = c \<and> item_eff now x cur = cn_target now fds field jp cur"
proof (cases x)
  case (PairItem f j cn refs)
  then obtain d where d: "(field, d) \<in> set fds" "(jp, cn) \<in> set (pairs d)" "refs = ids_at (trace d) jp"
    "f = field" "j = jp" "c' = c"
    using x pair_item_in by fastforce
  then have "map_of fds field = Some d" "map_of (pairs d) jp = Some cn"
    using ok by (auto simp: cn_fields_ok_def gomap_ok_def list_all_iff)
  with d PairItem show ?thesis by (simp add: cn_target_def)
next
  case (TraceItem f j refs)
  then obtain d where d: "(field, d) \<in> set fds" "(jp, refs) \<in> set (trace d)" "map_of (pairs d) jp = None"
    "f = field" "j = jp" "c' = c"
    using x trace_item_in by fastforce
  then have "map_of fds field = Some d" "map_of (trace d) jp = Some refs"
    using ok by (auto simp: cn_fields_ok_def gomap_ok_def list_all_iff)
  with d TraceItem show ?thesis by (simp add: cn_target_def ids_at_def)
qed

lemma cn_target_no_item:
  assumes "(c, field, jp) \<notin> item_key c ` set (cn_items fds)"
  shows "cn_target now fds field jp cur = cur"
proof (cases "map_of fds field")
  case (Some d)
  then have d: "(field, d) \<in> set fds" by (rule map_of_SomeD)
  have p: "map_of (pairs d) jp = None"
  proof (rule ccontr)
    assume "map_of (pairs d) jp \<noteq> None"
    then obtain cn where "(jp, cn) \<in> set (pairs d)" by (auto dest: map_of_SomeD)
    with d have "PairItem field jp cn (ids_at (trace d) jp) \<in> set (cn_items fds)"
      by (auto simp: pair_item_in)
    then show False using assms by (metis image_eqI item_key.simps(1))
  qed
  have "map_of (trace d) jp = None"
  proof (rule ccontr)
    assume "map_of (trace d) jp \<noteq> None"
    then obtain refs where "(jp, refs) \<in> set (trace d)" by (auto dest: map_of_SomeD)
    with d p have "TraceItem field jp refs \<in> set (cn_items fds)" by (auto simp: trace_item_in)
    then show False using assms by (metis image_eqI item_key.simps(2))
  qed
  with Some p show ?thesis by (simp add: cn_target_def ids_at_def)
qed (simp add: cn_target_def)

lemma cn_loop_row:
  assumes "cn_fields_ok fds"
  shows "row (fst (fold (apply_field now category) fds s)) (c, field, jp) =
    (if c = category then cn_target now fds field jp (row (fst s) (c, field, jp))
     else row (fst s) (c, field, jp))"
proof (cases "(c, field, jp) \<in> item_key category ` set (cn_items fds)")
  case True
  then obtain x where x: "x \<in> set (cn_items fds)" "item_key category x = (c, field, jp)" by force
  from cn_target_item [OF assms this]
  have "c = category" "item_eff now x cur = cn_target now fds field jp cur" for cur by auto
  moreover have "row (fst (fold (item_step now category) (cn_items fds) s)) (item_key category x) =
      item_eff now x (row (fst s) (item_key category x))"
    using cn_loop.loop_mem [OF cn_items_keys [OF assms] x(1)] .
  ultimately show ?thesis using x(2) by (simp add: apply_fields_items)
next
  case False
  then have "row (fst (fold (apply_field now category) fds s)) (c, field, jp) = row (fst s) (c, field, jp)"
    by (simp add: apply_fields_items cn_loop.loop_other)
  with False cn_target_no_item show ?thesis by auto
qed


text \<open>The rows the loops change, and how many they are.\<close>

lemma cn_loop_count:
  assumes ok: "cn_fields_ok fds"
  shows "snd (fold (apply_field now category) fds (t, 0)) =
    card {k. row (fst (fold (apply_field now category) fds (t, 0))) k \<noteq> row t k}"
proof -
  let ?ch = "filter (\<lambda>x. item_eff now x (row t (item_key category x)) \<noteq> row t (item_key category x)) (cn_items fds)"
  let ?t = "fst (fold (item_step now category) (cn_items fds) (t, 0))"
  have d: "distinct (map (item_key category) (cn_items fds))" by (rule cn_items_keys [OF ok])
  have "{k. row ?t k \<noteq> row t k} = item_key category ` set ?ch"
  proof (intro set_eqI iffI)
    fix k assume "k \<in> {k. row ?t k \<noteq> row t k}"
    then have k: "row ?t k \<noteq> row t k" by simp
    then have "k \<in> item_key category ` set (cn_items fds)"
      using cn_loop.loop_other [of k category "cn_items fds" now "(t, 0)"] by auto
    then obtain x where "x \<in> set (cn_items fds)" "k = item_key category x" by blast
    then show "k \<in> item_key category ` set ?ch"
      using k cn_loop.loop_mem [OF d, of x now "(t, 0)"] by auto
  next
    fix k assume "k \<in> item_key category ` set ?ch"
    then obtain x where "x \<in> set (cn_items fds)" "k = item_key category x"
      "item_eff now x (row t (item_key category x)) \<noteq> row t (item_key category x)" by auto
    then show "k \<in> {k. row ?t k \<noteq> row t k}"
      using cn_loop.loop_mem [OF d, of x now "(t, 0)"] by simp
  qed
  moreover have "card (item_key category ` set ?ch) = length ?ch"
    using distinct_card [OF distinct_map_filter [OF d]] by (simp only: set_map length_map)
  moreover have "snd (fold (item_step now category) (cn_items fds) (t, 0)) = length ?ch"
    using cn_loop.loop_count [OF d, of now "(t, 0)"] by simp
  ultimately show ?thesis by (simp add: apply_fields_items)
qed

subsection \<open>The flavour texts of mysekai\<close>

definition flavor_eff :: "entry_row option \<Rightarrow> entry_row option \<Rightarrow> entry_row option" where
  "flavor_eff tag cur =
     (case tag of None \<Rightarrow> cur
      | Some tr \<Rightarrow> if cn_text tr = [] \<and> row_source tr = SourceUnknown then cur
          else map_option (\<lambda>r. r\<lparr>cn_text := cn_text tr, row_source := row_source tr\<rparr>) cur)"

lemma flavor_update_in:
  assumes ok: "table_ok t"
  shows "(jp, tx, sr) \<in> set (flavor_updates t) \<longleftrightarrow>
   (\<exists>tr fr. row t (''mysekai'', ''tag'', jp) = Some tr \<and> tx = cn_text tr \<and> sr = row_source tr \<and>
      \<not> (cn_text tr = [] \<and> row_source tr = SourceUnknown) \<and>
      row t (''mysekai'', ''flavorText'', jp) = Some fr \<and>
      (cn_text fr \<noteq> cn_text tr \<or> row_source fr \<noteq> row_source tr))" (is "?l = ?r")
proof
  assume ?l
  then obtain c f tr where kr: "((c, f, jp), tr) \<in> set t" "flavor_due t ((c, f, jp), tr)"
    "tx = cn_text tr" "sr = row_source tr" by (auto simp: flavor_updates_def)
  then show ?r using in_row [OF ok kr(1)] by (auto simp: flavor_due_def split: option.splits)
next
  assume ?r
  then obtain tr where "row t (''mysekai'', ''tag'', jp) = Some tr" "tx = cn_text tr" "sr = row_source tr"
    "flavor_due t ((''mysekai'', ''tag'', jp), tr)" by (auto simp: flavor_due_def)
  then have "((''mysekai'', ''tag'', jp), tr) \<in> set (filter (flavor_due t) t)" by (simp add: row_in)
  then have "(\<lambda>((c, f, jp), tr). (jp, cn_text tr, row_source tr)) ((''mysekai'', ''tag'', jp), tr)
      \<in> set (flavor_updates t)"
    unfolding flavor_updates_def set_map by (rule imageI)
  then show ?l using \<open>tx = _\<close> \<open>sr = _\<close> by simp
qed

lemma flavor_updates_keys: "table_ok t \<Longrightarrow> distinct (map fst (flavor_updates t))"
proof -
  assume "table_ok t"
  then have d: "distinct t" and k: "inj_on fst (set t)" by (simp_all add: table_ok_def distinct_map)
  have "map fst (flavor_updates t) = map (\<lambda>kr. snd (snd (fst kr))) (filter (flavor_due t) t)"
    by (auto simp: flavor_updates_def)
  moreover have "inj_on (\<lambda>kr. snd (snd (fst kr))) (set (filter (flavor_due t) t))"
  proof (rule inj_onI)
    fix x y assume xy: "x \<in> set (filter (flavor_due t) t)" "y \<in> set (filter (flavor_due t) t)"
      "snd (snd (fst x)) = snd (snd (fst y))"
    then have "fst x = fst y" by (auto simp: flavor_due_def Let_def split: prod.splits)
    then show "x = y" using xy k by (auto dest: inj_onD)
  qed
  ultimately show ?thesis using d by (simp only: distinct_map distinct_filter)
qed

interpretation flavor_loop: rowwise row apply_flavor
  "\<lambda>(jp, _). (''mysekai'', ''flavorText'', jp)"
  "\<lambda>(_, tx, sr). map_option (\<lambda>r. r\<lparr>cn_text := tx, row_source := sr\<rparr>)"
  by unfold_locales (simp_all add: apply_flavor_def case_prod_unfold)

lemma apply_flavor_row:
  assumes ok: "table_ok t"
  shows "row (fst (sync_mysekai_flavor_from_tag t)) (c, f, jp) =
    (if c = ''mysekai'' \<and> f = ''flavorText''
     then flavor_eff (row t (''mysekai'', ''tag'', jp)) (row t (c, f, jp)) else row t (c, f, jp))"
proof (cases "c = ''mysekai'' \<and> f = ''flavorText'' \<and> jp \<in> fst ` set (flavor_updates t)")
  case True
  then obtain tx sr where u: "(jp, tx, sr) \<in> set (flavor_updates t)" by force
  have d: "distinct (map (\<lambda>(jp, _). (''mysekai'', ''flavorText'', jp)) (flavor_updates t))"
    using flavor_updates_keys [OF ok] by (simp add: distinct_map inj_on_def case_prod_unfold)
  show ?thesis
    using flavor_loop.loop_mem [OF d u, of t] u True
    by (auto simp: sync_mysekai_flavor_from_tag_def flavor_update_in [OF ok] flavor_eff_def Let_def)
next
  case False
  then have n: "(c, f, jp) \<notin> (\<lambda>(jp, _). (''mysekai'', ''flavorText'', jp)) ` set (flavor_updates t)"
    by force
  have "flavor_eff (row t (''mysekai'', ''tag'', jp)) (row t (''mysekai'', ''flavorText'', jp)) =
      row t (''mysekai'', ''flavorText'', jp)" if "jp \<notin> fst ` set (flavor_updates t)"
  proof -
    have no: "(jp, tx, sr) \<notin> set (flavor_updates t)" for tx sr using that by (force simp: image_iff)
    show ?thesis
      using no unfolding flavor_update_in [OF ok] flavor_eff_def
      by (cases "row t (''mysekai'', ''tag'', jp)"; cases "row t (''mysekai'', ''flavorText'', jp)") auto
  qed
  with False flavor_loop.loop_other [OF n, of t] show ?thesis
    by (auto simp: sync_mysekai_flavor_from_tag_def Let_def)
qed

lemma table_ok_step [simp]: "table_ok (fst s) \<Longrightarrow> table_ok (fst (item_step now category x s))"
  by (cases x; cases s) (auto simp: apply_pair_def apply_trace_def Let_def split: option.splits prod.splits)

lemma table_ok_loop: "table_ok (fst s) \<Longrightarrow> table_ok (fst (fold (apply_field now category) fds s))"
proof -
  have "table_ok (fst s) \<Longrightarrow> table_ok (fst (fold (item_step now category) xs s))" for xs
    by (induction xs arbitrary: s) (auto simp del: item_step.simps)
  then show "table_ok (fst s) \<Longrightarrow> ?thesis" by (simp add: apply_fields_items)
qed


subsection \<open>Properties of the synchronisation\<close>

lemma apply_cn_parts:
  "apply_cn_category_tx now category fds t =
   (let s = fold (apply_field now category) fds (t, 0) in
    if category = ''mysekai''
    then (fst (sync_mysekai_flavor_from_tag (fst s)), snd s + snd (sync_mysekai_flavor_from_tag (fst s)))
    else s)"
  by (simp add: apply_cn_category_tx_def Let_def case_prod_unfold)

lemma cn_target_pinned:
  "\<exists>r'. cn_target now fds field jp (Some r) = Some r' \<and> cn_text r' = cn_text r \<and>
     row_source r' = SourcePinned \<and> set (unmarshal_ids (ids_json r)) \<subseteq> set (unmarshal_ids (ids_json r'))"
  if "row_source r = SourcePinned" "cn_text r \<noteq> []"
  using that by (auto simp: cn_target_def pair_eff_code trace_eff_code cn_decision_def cur_columns_def Let_def
      split: option.splits)

lemma cn_sync_rows_base:
  assumes "table_ok t" "cn_fields_ok fds"
  shows "table_ok (fst (apply_cn_category_tx now category fds t)) \<and>
    row (fst (apply_cn_category_tx now category fds t)) (c, f, jp) =
      (if c \<noteq> category then row t (c, f, jp)
       else if c = ''mysekai'' \<and> f = ''flavorText''
       then flavor_eff (cn_target now fds ''tag'' jp (row t (c, ''tag'', jp)))
              (cn_target now fds f jp (row t (c, f, jp)))
       else cn_target now fds f jp (row t (c, f, jp)))"
proof -
  let ?t = "fst (fold (apply_field now category) fds (t, 0))"
  have ok: "table_ok ?t" using assms(1) by (simp add: table_ok_loop)
  moreover have "table_ok (fst (sync_mysekai_flavor_from_tag ?t))"
  proof -
    have "table_ok u \<Longrightarrow> table_ok (fold apply_flavor us u)" for us u
      by (induction us arbitrary: u) (auto simp: apply_flavor_def)
    then show ?thesis using ok by (simp add: sync_mysekai_flavor_from_tag_def Let_def)
  qed
  ultimately show ?thesis
    by (auto simp: apply_cn_parts Let_def apply_flavor_row cn_loop_row [OF assms(2)])
qed

text \<open>
  C3:
  The synchronisation of one category is a function of the maps it is given, not of the
  order in which Go iterates over them: every row afterwards is read off the map of the
  fields, the pairs and the traces by the rules of precedence, then, for mysekai, the flavour
  texts take the text and source of the tag of the same key. In particular a pinned row with a
  text keeps text and source (the flavour texts excepted), and no row loses an id or
  disappears. Rows of other categories are untouched and the primary key stays unique.
\<close>

theorem cn_sync_rows:
  assumes "table_ok t" "cn_fields_ok fds"
  shows "table_ok (fst (apply_cn_category_tx now category fds t)) \<and>
    row (fst (apply_cn_category_tx now category fds t)) (c, f, jp) =
      (if c \<noteq> category then row t (c, f, jp)
       else if c = ''mysekai'' \<and> f = ''flavorText''
       then flavor_eff (cn_target now fds ''tag'' jp (row t (c, ''tag'', jp)))
              (cn_target now fds f jp (row t (c, f, jp)))
       else cn_target now fds f jp (row t (c, f, jp))) \<and>
    (case row t (c, f, jp) of None \<Rightarrow> True
     | Some r \<Rightarrow> (case row (fst (apply_cn_category_tx now category fds t)) (c, f, jp) of None \<Rightarrow> False
       | Some r' \<Rightarrow> set (unmarshal_ids (ids_json r)) \<subseteq> set (unmarshal_ids (ids_json r')) \<and>
           (row_source r = SourcePinned \<and> cn_text r \<noteq> [] \<and> (c, f) \<noteq> (''mysekai'', ''flavorText'') \<longrightarrow>
              cn_text r' = cn_text r \<and> row_source r' = SourcePinned)))"
proof -
  note base = cn_sync_rows_base [OF assms, of now category c f jp]
  have grows: "\<exists>r'. cn_target now fds f jp (Some r) = Some r' \<and> set (unmarshal_ids (ids_json r)) \<subseteq> set (unmarshal_ids (ids_json r'))" for r
    by (auto simp: cn_target_def pair_eff_code trace_eff_code cur_columns_def Let_def split: option.splits prod.splits)
  have flavor: "\<exists>r''. flavor_eff tag (Some r') = Some r'' \<and> ids_json r'' = ids_json r'" for tag r'
    by (simp add: flavor_eff_def split: option.splits)
  show ?thesis
  proof (cases "row t (c, f, jp)")
    case None
    then show ?thesis using base by simp
  next
    case (Some r)
    obtain r' where r': "cn_target now fds f jp (Some r) = Some r'" "set (unmarshal_ids (ids_json r)) \<subseteq> set (unmarshal_ids (ids_json r'))"
      using grows [of r] by blast
    then show ?thesis
      using base Some flavor [of "cn_target now fds ''tag'' jp (row t (c, ''tag'', jp))" r'] cn_target_pinned [of r now fds f jp]
      by (auto split: if_splits)
  qed
qed

theorem cn_sync_rows_witness:
  "row (fst (apply_cn_category_tx 7 ''cards''
      [(''name'', \<lparr>pairs = [(''a'', ''A''), (''b'', [])], trace = [(''a'', [''1''])]\<rparr>)]
      [((''cards'', ''name'', ''a''), \<lparr>cn_text = ''P'', row_source = ''pinned'', ids_json = Ids [''2''], updated_at = 1, updated_by = ''u''\<rparr>)]))
     (''cards'', ''name'', ''a'') =
   Some \<lparr>cn_text = ''P'', row_source = ''pinned'', ids_json = Ids [''2'', ''1''], updated_at = 7, updated_by = ''cn-sync''\<rparr>"
proof -
  let ?fds = "[(''name'', \<lparr>pairs = [(''a'', ''A''), (''b'', [])], trace = [(''a'', [''1''])]\<rparr>)] :: cn_apply_field gomap"
  let ?t = "[((''cards'', ''name'', ''a''), \<lparr>cn_text = ''P'', row_source = ''pinned'', ids_json = Ids [''2''], updated_at = 1, updated_by = ''u''\<rparr>)] :: entries"
  have "cn_fields_ok ?fds" "table_ok ?t" by (simp_all add: cn_fields_ok_def gomap_ok_def table_ok_def)
  from cn_sync_rows [OF this(2,1), of 7 "''cards''" "''cards''" "''name''" "''a''"]
  show ?thesis
    by (simp add: cn_target_def pair_eff_def row_ids_def ids_at_def ids_column_def SourcePinned_def row_def)
qed

text \<open>
  A pinned translation keeps its text and its source through a synchronisation, and loses
  none of its trace ids, whatever official text arrives. The flavour texts of mysekai are the
  exception: they are not covered here.
\<close>

theorem cn_sync_keeps_pinned:
  assumes "table_ok t" "cn_fields_ok fds"
    and "row t (c, f, jp) = Some r" "row_source r = SourcePinned" "cn_text r \<noteq> []"
    and "\<not> (category = ''mysekai'' \<and> f = ''flavorText'')"
  shows "\<exists>r'. row (fst (apply_cn_category_tx now category fds t)) (c, f, jp) = Some r' \<and>
    cn_text r' = cn_text r \<and> row_source r' = SourcePinned \<and>
    set (unmarshal_ids (ids_json r)) \<subseteq> set (unmarshal_ids (ids_json r'))"
  using cn_target_pinned [OF assms(4,5), of now fds f jp] assms by (auto simp: cn_sync_rows_base)

theorem cn_sync_keeps_pinned_witness:
  "\<exists>r'. row (fst (apply_cn_category_tx 7 ''cards'' [(''name'', \<lparr>pairs = [(''a'', ''B'')], trace = []\<rparr>)]
       [((''cards'', ''name'', ''a''), \<lparr>cn_text = ''A'', row_source = ''pinned'', ids_json = Ids [''1''],
          updated_at = 1, updated_by = ''u''\<rparr>)])) (''cards'', ''name'', ''a'') = Some r' \<and>
     cn_text r' = ''A'' \<and> row_source r' = SourcePinned \<and> {''1''} \<subseteq> set (unmarshal_ids (ids_json r'))"
  using cn_sync_keeps_pinned [of "[((''cards'', ''name'', ''a''), \<lparr>cn_text = ''A'', row_source = ''pinned'',
      ids_json = Ids [''1''], updated_at = 1, updated_by = ''u''\<rparr>)]"
      "[(''name'', \<lparr>pairs = [(''a'', ''B'')], trace = []\<rparr>)]" "''cards''" "''name''" "''a''"
      "\<lparr>cn_text = ''A'', row_source = ''pinned'', ids_json = Ids [''1''], updated_at = 1, updated_by = ''u''\<rparr>"
      "''cards''" 7]
  by (simp add: table_ok_def cn_fields_ok_def gomap_ok_def row_def SourcePinned_def)


text \<open>
  The gaps in that protection. A pinned flavour text of mysekai takes the text and source
  of its tag at every synchronisation, even one that brings no text at all; and a pinned
  entry whose text is empty loses its pin when the official text is empty too.
\<close>

theorem cn_sync_pin_gaps:
  assumes "table_ok t"
  shows "(row t (''mysekai'', ''flavorText'', jp) = Some r \<and> row t (''mysekai'', ''tag'', jp) = Some tag \<and>
      cn_text tag \<noteq> [] \<longrightarrow>
      row (fst (apply_cn_category_tx now ''mysekai'' [] t)) (''mysekai'', ''flavorText'', jp) =
        Some (r\<lparr>cn_text := cn_text tag, row_source := row_source tag\<rparr>)) \<and>
    (row t (category, f, jp) = Some r \<and> row_source r = SourcePinned \<and> cn_text r = [] \<and>
      category \<noteq> ''mysekai'' \<longrightarrow>
      map_option row_source (row (fst (apply_cn_category_tx now category
        [(f, \<lparr>pairs = [(jp, [])], trace = []\<rparr>)] t)) (category, f, jp)) = Some SourceUnknown)"
  using assms
  by (simp add: cn_sync_rows_base cn_fields_ok_def gomap_ok_def cn_target_def flavor_eff_def pair_eff_code
      cn_decision_def cur_columns_def ids_at_def)

theorem cn_sync_pin_gaps_witness:
  "map_option row_source (row (fst (apply_cn_category_tx 7 ''cards'' [(''name'', \<lparr>pairs = [(''a'', [])], trace = []\<rparr>)]
     [((''cards'', ''name'', ''a''), \<lparr>cn_text = [], row_source = SourcePinned, ids_json = NoIds,
        updated_at = 1, updated_by = ''u''\<rparr>)])) (''cards'', ''name'', ''a'')) = Some SourceUnknown"
  using cn_sync_pin_gaps [of "[((''cards'', ''name'', ''a''), \<lparr>cn_text = [], row_source = SourcePinned,
      ids_json = NoIds, updated_at = 1, updated_by = ''u''\<rparr>)]" "''a''" "\<lparr>cn_text = [], row_source = SourcePinned,
      ids_json = NoIds, updated_at = 1, updated_by = ''u''\<rparr>" _ _ "''cards''" "''name''"]
  by (simp add: table_ok_def row_def)

lemma pair_eff_twice: "pair_eff now' cn refs (pair_eff now cn refs cur) = pair_eff now cn refs cur"
proof (cases cur)
  case None
  then show ?thesis
    by (cases "cn = []") (simp_all add: pair_eff_code cur_columns_def cn_decision_def merge_ids_eq set_new_ids)
next
  case (Some r)
  obtain a b where d: "cn_decision cn True (cn_text r) (row_source r) = (a, b)" by fastforce
  then have "cn_decision cn True a b = (a, b)"
    by (auto simp: cn_decision_def split: if_splits)
  with Some d show ?thesis by (auto simp: pair_eff_code cur_columns_def Let_def)
qed

lemma trace_eff_twice: "trace_eff refs (trace_eff refs cur) = trace_eff refs cur"
  by (simp add: trace_eff_code split: option.splits)

lemma cn_target_twice: "cn_target now' fds f jp (cn_target now fds f jp cur) = cn_target now fds f jp cur"
  by (simp add: cn_target_def pair_eff_twice trace_eff_twice split: option.splits)

text \<open>
  Outside mysekai the count a synchronisation returns is the number of rows it changed,
  and repeating it changes nothing: the second run returns 0 and leaves every row as it is,
  so the change hooks run only when content changed.
\<close>

theorem cn_sync_count:
  assumes "table_ok t" "cn_fields_ok fds" "category \<noteq> ''mysekai''"
  shows "snd (apply_cn_category_tx now category fds t) =
      card {k. row (fst (apply_cn_category_tx now category fds t)) k \<noteq> row t k} \<and>
    (let t1 = fst (apply_cn_category_tx now category fds t) in
      snd (apply_cn_category_tx now' category fds t1) = 0 \<and>
      row (fst (apply_cn_category_tx now' category fds t1)) = row t1)"
proof -
  have part: "apply_cn_category_tx w category fds u = fold (apply_field w category) fds (u, 0)" for w u
    using assms(3) by (simp add: apply_cn_parts Let_def)
  let ?t1 = "fst (apply_cn_category_tx now category fds t)"
  have ok: "table_ok ?t1" using cn_sync_rows_base [OF assms(1,2)] by blast
  have "row (fst (apply_cn_category_tx now' category fds ?t1)) (c, f, jp) = row ?t1 (c, f, jp)" for c f jp
    using cn_sync_rows_base [OF ok assms(2), of now' category c f jp]
      cn_sync_rows_base [OF assms(1,2), of now category c f jp] assms(3) by (auto simp: cn_target_twice)
  then have same: "row (fst (apply_cn_category_tx now' category fds ?t1)) = row ?t1" by (auto simp: fun_eq_iff)
  have "snd (apply_cn_category_tx w category fds u) =
      card {k. row (fst (apply_cn_category_tx w category fds u)) k \<noteq> row u k}" for w u
    unfolding part by (rule cn_loop_count [OF assms(2)])
  then show ?thesis using same by (simp add: Let_def)
qed

theorem cn_sync_count_witness:
  "snd (apply_cn_category_tx 9 ''cards'' [(''name'', \<lparr>pairs = [(''a'', ''A'')], trace = []\<rparr>)]
     (fst (apply_cn_category_tx 7 ''cards'' [(''name'', \<lparr>pairs = [(''a'', ''A'')], trace = []\<rparr>)] []))) = 0"
  using cn_sync_count [of "[]" "[(''name'', \<lparr>pairs = [(''a'', ''A'')], trace = []\<rparr>)]" "''cards''" 7 9]
  by (simp add: cn_fields_ok_def gomap_ok_def Let_def)

end
