(* ===== verification/EntryConsole.thy ===== *)
theory EntryConsole
  imports EntryStore "HOL-Library.Char_ord" "HOL-Library.List_Lexorder"
begin

text \<open>
  What the console and the importer do with the entries (\<open>store/store.go\<close>): replacing a
  category, reading it back in the full and the flat form, listing the categories with their
  counts, listing the entries of a field, and the edit of one entry.
\<close>

section \<open>Errors\<close>

datatype store_error =
    BeginError
  | CommitError
  | ContextCancelled
  | InsertError string string
  | InvalidSource string
  | NoRows
  | ReadOnlyLocale
  | UnsupportedLocale string
  | BadIds
  | CategoryRevisionConflict
  | EntryIdentityConflict

section \<open>Importing a category\<close>

definition category_items :: "category_map \<Rightarrow> (string \<times> string \<times> entry) list" where
  "category_items cat = concat (map (\<lambda>(field, es). map (\<lambda>(jp, e). (field, jp, e)) es) cat)"

text \<open>
  The insert loop. \<open>cancelled n\<close> tells whether the context is done when \<open>n\<close> rows have been
  inserted; an insert under an existing primary key fails.
\<close>

fun import_loop ::
  "(nat \<Rightarrow> bool) \<Rightarrow> int \<Rightarrow> string \<Rightarrow> (string \<times> string \<times> entry) list \<Rightarrow> entries \<Rightarrow> nat \<Rightarrow>
   store_error + (entries \<times> nat)" where
  "import_loop cancelled now category [] t imported = Inr (t, imported)"
| "import_loop cancelled now category ((field, jp_key, e) # items) t imported =
     (if cancelled imported then Inl ContextCancelled
      else if row t (category, field, jp_key) \<noteq> None then Inl (InsertError category field)
      else import_loop cancelled now category items
        (put (category, field, jp_key)
          \<lparr>cn_text = entry_text e,
           row_source = (if entry_source e = [] then SourceUnknown else entry_source e),
           ids_json = ids_column (entry_ids e), updated_at = now, updated_by = ''migrate''\<rparr> t)
        (imported + 1))"

definition import_category ::
  "tx_outcome \<Rightarrow> (nat \<Rightarrow> bool) \<Rightarrow> int \<Rightarrow> string \<Rightarrow> category_map \<Rightarrow> entries \<Rightarrow>
   entries \<times> (store_error + nat)" where
  "import_category outcome cancelled now category cat t =
     (if outcome = BeginFails then (t, Inl BeginError)
      else case import_loop cancelled now category (category_items cat)
                (del (\<lambda>(c, _, _). c = category) t) 0 of
        Inl err \<Rightarrow> (t, Inl err)
      | Inr (t', n) \<Rightarrow> if outcome = CommitFails then (t, Inl CommitError) else (t', Inr n))"

section \<open>Reading a category\<close>

definition row_entry :: "entry_row \<Rightarrow> entry" where
  "row_entry r = \<lparr>entry_text = cn_text r, entry_source = row_source r,
     entry_ids = (if ids_text (ids_json r) \<noteq> [] then unmarshal_ids (ids_json r) else [])\<rparr>"

definition field_map :: "'x list gomap \<Rightarrow> string \<Rightarrow> 'x list" where
  "field_map cat field = (case map_of cat field of None \<Rightarrow> [] | Some m \<Rightarrow> m)"

definition category_data :: "entries \<Rightarrow> string \<Rightarrow> category_map" where
  "category_data t category =
     fold (\<lambda>((c, field, jp_key), r) cat.
       if c = category then put field (put jp_key (row_entry r) (field_map cat field)) cat else cat) t []"

definition flat_data :: "entries \<Rightarrow> string \<Rightarrow> string gomap gomap" where
  "flat_data t category =
     map (\<lambda>(field, es). (field, map (\<lambda>(k, e). (k, entry_text e)) es)) (category_data t category)"

text \<open>The entry of a category map under a field and a key.\<close>

definition cat_at :: "'a gomap gomap \<Rightarrow> string \<Rightarrow> string \<Rightarrow> 'a option" where
  "cat_at cat field jp_key = map_of (field_map cat field) jp_key"

section \<open>Counting\<close>

text \<open>\<open>GROUP BY category, field, source\<close> with \<open>COUNT(*)\<close>.\<close>

fun bump_group :: "'k \<Rightarrow> ('k \<times> nat) list \<Rightarrow> ('k \<times> nat) list" where
  "bump_group k [] = [(k, 1)]"
| "bump_group k ((k', n) # g) = (if k' = k then (k', n + 1) # g else (k', n) # bump_group k g)"

definition group_count :: "'k list \<Rightarrow> ('k \<times> nat) list" where
  "group_count ks = fold bump_group ks []"

type_synonym located = "string \<times> string \<times> string"

text \<open>The loop over the grouped rows: the counts of a field accumulate in its \<open>FieldInfo\<close>.\<close>

definition accumulate :: "(located \<times> nat) list \<Rightarrow> field_info gomap gomap" where
  "accumulate rows =
     fold (\<lambda>((category, field, source), n) acc.
       let m = field_map acc category;
           fi = (case map_of m field of None \<Rightarrow> new_field_info field | Some fi \<Rightarrow> fi)
       in put category (put field (add_count source n fi) m) acc) rows []"

definition category_infos :: "field_info gomap gomap \<Rightarrow> category_info list" where
  "category_infos acc =
     concat (map (\<lambda>cat. case map_of acc cat of
         None \<Rightarrow> []
       | Some fields_map \<Rightarrow> [\<lparr>ci_name = cat, ci_fields = sort_key fi_name (map snd fields_map)\<rparr>])
       SupportedCategories)"

definition get_categories :: "entries \<Rightarrow> category_info list" where
  "get_categories t =
     category_infos (accumulate (group_count (map (\<lambda>((c, f, _), r). (c, f, row_source r)) t)))"

section \<open>Listing the entries of a field\<close>

definition get_entries :: "entries \<Rightarrow> string \<Rightarrow> string \<Rightarrow> string \<Rightarrow> entry_with_key list" where
  "get_entries t category field source =
     map (\<lambda>((_, _, key), r). \<lparr>ek_key = key, ek_text = cn_text r, ek_source = row_source r,
            ek_ids = (if ids_text (ids_json r) \<noteq> [] then unmarshal_ids (ids_json r) else []),
            ek_updated_at = updated_at r\<rparr>)
       (filter (\<lambda>((c, f, _), r). c = category \<and> f = field \<and> (source \<noteq> [] \<longrightarrow> row_source r = source)) t)"

section \<open>Editing one entry\<close>

datatype edit_result = Noop | Updated

text \<open>The tables afterwards, whether the change hooks run, and the result.\<close>

definition update_entry ::
  "int \<Rightarrow> string \<Rightarrow> string \<Rightarrow> string \<Rightarrow> string \<Rightarrow> string \<Rightarrow> string \<Rightarrow> entries \<Rightarrow>
   entries \<times> bool \<times> (store_error + edit_result)" where
  "update_entry now category field key text source user t =
     (if \<not> is_valid_source source then (t, False, Inl (InvalidSource source))
      else case row t (category, field, key) of
        None \<Rightarrow> (t, False, Inl NoRows)
      | Some cur \<Rightarrow>
          if cn_text cur = text \<and> row_source cur = source then (t, False, Inr Noop)
          else (modify (category, field, key) (\<lambda>r. r\<lparr>cn_text := text, row_source := source,
                  updated_at := now, updated_by := user\<rparr>) t, True, Inr Updated))"

section \<open>Lemmas on the reads\<close>

lemma field_map_put [simp]: "field_map (put f m cat) f' = (if f' = f then m else field_map cat f')"
  by (simp add: field_map_def put_def update_conv')

lemma cat_at_put [simp]:
  "cat_at (put f (put k e (field_map cat f)) cat) f' k' = (if f' = f \<and> k' = k then Some e else cat_at cat f' k')"
  by (auto simp: cat_at_def put_def update_conv' field_map_def)

lemma cat_at_Nil [simp]: "cat_at [] f k = None"
  by (simp add: cat_at_def field_map_def)

lemma category_data_acc:
  "table_ok t \<Longrightarrow> (\<And>f jp. row t (category, f, jp) \<noteq> None \<Longrightarrow> cat_at cat f jp = None) \<Longrightarrow>
   cat_at (fold (\<lambda>((c, field, jp_key), r) cat.
       if c = category then put field (put jp_key (row_entry r) (field_map cat field)) cat else cat) t cat) f jp =
   (case row t (category, f, jp) of None \<Rightarrow> cat_at cat f jp | Some r \<Rightarrow> Some (row_entry r))"
proof (induction t arbitrary: cat)
  case (Cons kr t)
  obtain c g j r where kr: "kr = ((c, g, j), r)" by (metis prod_cases3 surj_pair)
  have ok: "table_ok t" and new: "row t (c, g, j) = None"
    using Cons.prems(1) by (auto simp: table_ok_def kr row_None_iff)
  have pre: "cat_at cat f jp = None" if "row t (category, f, jp) \<noteq> None" for f jp
    using Cons.prems(2) [of f jp] that new by (auto simp: row_def kr split: if_splits)
  show ?case
  proof (cases "c = category")
    case True
    have "cat_at (put g (put j (row_entry r) (field_map cat g)) cat) f jp = None"
      if "row t (category, f, jp) \<noteq> None" for f jp
      using that pre new True by auto
    from Cons.IH [OF ok this] True show ?thesis
      using new by (auto simp: kr row_def split: option.splits)
  next
    case False
    with Cons.IH [OF ok pre] show ?thesis by (simp add: kr row_def)
  qed
qed simp

lemma category_data_at:
  "table_ok t \<Longrightarrow> cat_at (category_data t category) f jp = map_option row_entry (row t (category, f, jp))"
  by (simp add: category_data_def category_data_acc split: option.split)

section \<open>Lemmas on the counts\<close>

definition group_sum :: "('k \<Rightarrow> bool) \<Rightarrow> ('k \<times> nat) list \<Rightarrow> nat" where
  "group_sum p g = sum_list (map snd (filter (\<lambda>kn. p (fst kn)) g))"

lemma group_sum_simps [simp]:
  "group_sum p [] = 0"
  "group_sum p ((k, n) # g) = (if p k then n else 0) + group_sum p g"
  by (simp_all add: group_sum_def)

lemma group_sum_bump: "group_sum p (bump_group k g) = group_sum p g + (if p k then 1 else 0)"
  by (induction k g rule: bump_group.induct) auto

lemma group_sum_count: "group_sum p (group_count ks) = length (filter p ks)"
proof -
  have "group_sum p (fold bump_group ks g) = group_sum p g + length (filter p ks)" for g
    by (induction ks arbitrary: g) (auto simp: group_sum_bump)
  then show ?thesis by (simp add: group_count_def)
qed

lemma bump_keys: "fst ` set (bump_group k g) = insert k (fst ` set g)"
  by (induction k g rule: bump_group.induct) auto

lemma group_keys: "fst ` set (group_count ks) = set ks"
proof -
  have "fst ` set (fold bump_group ks g) = fst ` set g \<union> set ks" for g
    by (induction ks arbitrary: g) (auto simp: bump_keys)
  then show ?thesis by (simp add: group_count_def)
qed

definition at_field :: "string \<Rightarrow> string \<Rightarrow> located \<Rightarrow> bool" where
  "at_field c f l \<longleftrightarrow> fst l = c \<and> fst (snd l) = f"

definition of_source :: "string \<Rightarrow> string \<Rightarrow> string \<Rightarrow> located \<Rightarrow> bool" where
  "of_source c f s l \<longleftrightarrow> at_field c f l \<and> snd (snd l) = s"

definition named_source :: "string \<Rightarrow> bool" where
  "named_source s \<longleftrightarrow> s \<in> {SourceCN, SourceHuman, SourcePinned, SourceLLM}"

text \<open>The field information that groups add up to.\<close>

definition tally :: "(located \<times> nat) list \<Rightarrow> string \<Rightarrow> string \<Rightarrow> field_info" where
  "tally g c f = \<lparr>fi_name = f, fi_total = group_sum (at_field c f) g,
     fi_cn = group_sum (of_source c f SourceCN) g, fi_human = group_sum (of_source c f SourceHuman) g,
     fi_pinned = group_sum (of_source c f SourcePinned) g, fi_llm = group_sum (of_source c f SourceLLM) g,
     fi_unknown = group_sum (\<lambda>l. at_field c f l \<and> \<not> named_source (snd (snd l))) g\<rparr>"

lemma group_sum_append [simp]: "group_sum p (g @ h) = group_sum p g + group_sum p h"
  by (simp add: group_sum_def)

lemma tally_snoc:
  "tally (g @ [((c', f', s), n)]) c f =
   (if c' = c \<and> f' = f then add_count s n (tally g c f) else tally g c f)"
  by (auto simp: tally_def add_count_def at_field_def of_source_def named_source_def Let_def)

lemma tally_Nil: "tally [] c f = new_field_info f"
  by (simp add: tally_def new_field_info_def)

lemma accumulate_snoc:
  "accumulate (g @ [((c, f, s), n)]) =
   put c (put f (add_count s n (case cat_at (accumulate g) c f of None \<Rightarrow> new_field_info f | Some fi \<Rightarrow> fi))
     (field_map (accumulate g) c)) (accumulate g)"
  by (simp add: accumulate_def cat_at_def Let_def)

lemma accumulate_at:
  "cat_at (accumulate g) c f =
   (if \<exists>l \<in> fst ` set g. at_field c f l then Some (tally g c f) else None)"
proof (induction g rule: rev_induct)
  case Nil
  then show ?case by (simp add: accumulate_def)
next
  case (snoc x g)
  obtain c' f' s n where x: "x = ((c', f', s), n)" by (metis prod_cases3 surj_pair)
  have e: "(\<exists>l \<in> fst ` set (g @ [x]). at_field c f l) \<longleftrightarrow>
      (c' = c \<and> f' = f) \<or> (\<exists>l \<in> fst ` set g. at_field c f l)"
    by (auto simp: x at_field_def)
  show ?case
  proof (cases "c' = c \<and> f' = f")
    case True
    have "tally g c f = new_field_info f" if "\<not> (\<exists>l \<in> fst ` set g. at_field c f l)"
    proof -
      have "group_sum p g = 0" if "\<And>l. p l \<Longrightarrow> at_field c f l" for p
      proof -
        have "filter (\<lambda>kn. p (fst kn)) g = []"
          using \<open>\<not> (\<exists>l \<in> fst ` set g. at_field c f l)\<close> that by (auto simp: filter_empty_conv)
        then show ?thesis by (simp add: group_sum_def)
      qed
      from this [of "at_field c f"] this [of "of_source c f _"]
        this [of "\<lambda>l. at_field c f l \<and> \<not> named_source (snd (snd l))"]
      show ?thesis by (simp add: tally_def new_field_info_def of_source_def)
    qed
    with True snoc show ?thesis
      by (auto simp: x accumulate_snoc tally_snoc at_field_def split: option.splits)
  next
    case False
    with snoc show ?thesis
      unfolding e by (auto simp: x accumulate_snoc tally_snoc)
  qed
qed

text \<open>The keys of both levels stay unique, and a field is filed under its own name.\<close>

definition acc_ok :: "field_info gomap gomap \<Rightarrow> bool" where
  "acc_ok acc \<longleftrightarrow> gomap_ok acc \<and>
     (\<forall>(c, m) \<in> set acc. gomap_ok m \<and> (\<forall>(f, fi) \<in> set m. fi_name fi = f))"

lemma gomap_ok_put [simp]: "gomap_ok m \<Longrightarrow> gomap_ok (put k v m)"
  by (simp add: gomap_ok_def put_def distinct_update)

lemma add_count_name [simp]: "fi_name (add_count s n fi) = fi_name fi"
  by (simp add: add_count_def Let_def)

lemma acc_ok_accumulate: "acc_ok (accumulate g)"
proof (induction g rule: rev_induct)
  case Nil
  then show ?case by (simp add: accumulate_def acc_ok_def gomap_ok_def)
next
  case (snoc x g)
  obtain c f s n where x: "x = ((c, f, s), n)" by (metis prod_cases3 surj_pair)
  let ?m = "field_map (accumulate g) c"
  have m: "gomap_ok ?m" "\<forall>(f, fi) \<in> set ?m. fi_name fi = f"
    using snoc by (auto simp: acc_ok_def field_map_def gomap_ok_def dest!: map_of_SomeD split: option.splits)
  let ?fi = "case cat_at (accumulate g) c f of None \<Rightarrow> new_field_info f | Some fi \<Rightarrow> fi"
  have "fi_name ?fi = f"
    using m(2) by (auto simp: cat_at_def new_field_info_def dest!: map_of_SomeD split: option.splits)
  then have new: "gomap_ok (put f (add_count s n ?fi) ?m)"
    "\<forall>(f, fi) \<in> set (put f (add_count s n ?fi) ?m). fi_name fi = f"
    using m set_put [of f "add_count s n ?fi" ?m] by auto
  show ?case
    unfolding x accumulate_snoc acc_ok_def
  proof (intro conjI ballI, goal_cases)
    case (2 cm)
    then have "cm = (c, put f (add_count s n ?fi) ?m) \<or> cm \<in> set (accumulate g)"
      using set_put by fast
    then show ?case using new snoc unfolding acc_ok_def by blast
  qed (use snoc in \<open>simp add: acc_ok_def\<close>)
qed


text \<open>The information a listing of the categories gives for one field.\<close>

definition info_at :: "category_info list \<Rightarrow> string \<Rightarrow> string \<Rightarrow> field_info option" where
  "info_at infos c f =
     (case find (\<lambda>ci. ci_name ci = c) infos of None \<Rightarrow> None
      | Some ci \<Rightarrow> find (\<lambda>fi. fi_name fi = f) (ci_fields ci))"

lemma find_unique:
  "distinct (map g xs) \<Longrightarrow> x \<in> set xs \<Longrightarrow> g x = k \<Longrightarrow> find (\<lambda>x. g x = k) xs = Some x"
  by (induction xs) auto

lemma find_none: "k \<notin> g ` set xs \<Longrightarrow> find (\<lambda>x. g x = k) xs = None"
  by (induction xs) auto

lemma find_infos:
  "find (\<lambda>ci. ci_name ci = c) (concat (map (\<lambda>cat. case map_of acc cat of None \<Rightarrow> []
       | Some m \<Rightarrow> [\<lparr>ci_name = cat, ci_fields = srt m\<rparr>]) cats)) =
   (if c \<in> set cats then map_option (\<lambda>m. \<lparr>ci_name = c, ci_fields = srt m\<rparr>) (map_of acc c) else None)"
  by (induction cats) (auto split: option.splits)

lemma field_names: "acc_ok acc \<Longrightarrow> map_of acc c = Some m \<Longrightarrow> map fi_name (map snd m) = map fst m"
proof -
  assume "acc_ok acc" "map_of acc c = Some m"
  then have "\<forall>(f, fi) \<in> set m. fi_name fi = f" using map_of_SomeD unfolding acc_ok_def by fast
  then show ?thesis by auto
qed

lemma info_at_acc:
  assumes "acc_ok acc"
  shows "info_at (category_infos acc) c f = (if c \<in> set SupportedCategories then cat_at acc c f else None)"
proof (cases "map_of acc c")
  case (Some m)
  have ks: "map fi_name (map snd m) = map fst m" by (rule field_names [OF assms Some])
  have ok: "gomap_ok m" "\<forall>(f, fi) \<in> set m. fi_name fi = f"
    using assms map_of_SomeD [OF Some] unfolding acc_ok_def by auto
  have d: "distinct (map fi_name (sort_key fi_name (map snd m)))"
  proof -
    have "mset (map fi_name (sort_key fi_name (map snd m))) = mset (map fst m)"
      unfolding ks [symmetric] mset_map mset_sort ..
    then show ?thesis using ok(1) by (metis gomap_ok_def mset_eq_imp_distinct_iff)
  qed
  have "find (\<lambda>fi. fi_name fi = f) (sort_key fi_name (map snd m)) = map_of m f"
  proof (cases "map_of m f")
    case None
    then have "f \<notin> fi_name ` set (sort_key fi_name (map snd m))"
      using ok(2) by (force simp: map_of_eq_None_iff)
    then show ?thesis using None by (simp add: find_none)
  next
    case fi: (Some fi)
    then have "fi \<in> set (sort_key fi_name (map snd m))" "fi_name fi = f"
      using ok(2) by (force dest: map_of_SomeD)+
    then show ?thesis using fi find_unique [OF d] by simp
  qed
  then show ?thesis
    by (simp add: info_at_def category_infos_def find_infos Some cat_at_def field_map_def)
qed (simp add: info_at_def category_infos_def find_infos cat_at_def field_map_def)

definition counts_ok :: "category_info list \<Rightarrow> bool" where
  "counts_ok infos \<longleftrightarrow> distinct (map ci_name infos) \<and>
     list_all (\<lambda>ci. sorted (map fi_name (ci_fields ci))) infos"

lemma counts_ok_infos: "counts_ok (category_infos acc)"
proof -
  have "distinct (map ci_name (concat (map (\<lambda>cat. case map_of acc cat of None \<Rightarrow> []
       | Some m \<Rightarrow> [\<lparr>ci_name = cat, ci_fields = srt m\<rparr>]) cats)))" if "distinct cats" for cats srt
    using that by (induction cats) (auto split: option.splits)
  moreover have "distinct SupportedCategories" by (simp add: SupportedCategories_def)
  ultimately show ?thesis
    by (auto simp: counts_ok_def category_infos_def list_all_iff split: option.splits)
qed

lemma info_at_count:
  "info_at (category_infos (accumulate (group_count ls))) c f =
   (if c \<in> set SupportedCategories \<and> filter (at_field c f) ls \<noteq> [] then
      Some \<lparr>fi_name = f, fi_total = length (filter (at_field c f) ls),
        fi_cn = length (filter (of_source c f SourceCN) ls),
        fi_human = length (filter (of_source c f SourceHuman) ls),
        fi_pinned = length (filter (of_source c f SourcePinned) ls),
        fi_llm = length (filter (of_source c f SourceLLM) ls),
        fi_unknown = length (filter (\<lambda>l. at_field c f l \<and> \<not> named_source (snd (snd l))) ls)\<rparr>
    else None)"
  by (simp add: info_at_acc [OF acc_ok_accumulate] accumulate_at group_keys tally_def group_sum_count
      filter_empty_conv)

lemma get_entries_counts:
  "counts_ok (get_categories t) \<and>
   info_at (get_categories t) c f =
     (if c \<in> set SupportedCategories \<and> get_entries t c f [] \<noteq> [] then
        Some \<lparr>fi_name = f, fi_total = length (get_entries t c f []),
          fi_cn = length (get_entries t c f SourceCN),
          fi_human = length (get_entries t c f SourceHuman),
          fi_pinned = length (get_entries t c f SourcePinned),
          fi_llm = length (get_entries t c f SourceLLM),
          fi_unknown = length (filter (\<lambda>e. \<not> named_source (ek_source e)) (get_entries t c f []))\<rparr>
      else None)"
proof -
  let ?ls = "map (\<lambda>((c, f, _), r). (c, f, row_source r)) t"
  have all: "length (filter (at_field c f) ?ls) = length (get_entries t c f [])"
    by (simp add: get_entries_def filter_map comp_def case_prod_unfold at_field_def)
  have src: "length (filter (of_source c f s) ?ls) = length (get_entries t c f s)" if "s \<noteq> []" for s
    using that
    by (simp add: get_entries_def filter_map comp_def case_prod_unfold at_field_def of_source_def)
  have unk: "length (filter (\<lambda>l. at_field c f l \<and> \<not> named_source (snd (snd l))) ?ls) =
      length (filter (\<lambda>e. \<not> named_source (ek_source e)) (get_entries t c f []))"
    by (simp add: get_entries_def filter_map comp_def case_prod_unfold at_field_def)
  have ne: "filter (at_field c f) ?ls \<noteq> [] \<longleftrightarrow> get_entries t c f [] \<noteq> []"
    using all by (metis length_0_conv)
  have named: "SourceCN \<noteq> []" "SourceHuman \<noteq> []" "SourcePinned \<noteq> []" "SourceLLM \<noteq> []"
    by (simp_all add: source_names)
  show ?thesis
    unfolding get_categories_def info_at_count ne all unk src [OF named(1)] src [OF named(2)]
      src [OF named(3)] src [OF named(4)]
    using counts_ok_infos by simp
qed


section \<open>Properties\<close>

text \<open>
  The counts of \<open>GetCategories\<close> are those of the listings. A field of a supported
  category is listed exactly when it has entries, its total is the number of entries
  \<open>GetEntries\<close> returns, the count of each named source is the number it returns under that
  filter, the rest is counted as unknown; every category appears once and its fields are
  sorted by name.
\<close>

theorem categories_counts:
  "counts_ok (get_categories t) \<and>
   info_at (get_categories t) c f =
     (if c \<in> set SupportedCategories \<and> get_entries t c f [] \<noteq> [] then
        Some \<lparr>fi_name = f, fi_total = length (get_entries t c f []),
          fi_cn = length (get_entries t c f SourceCN),
          fi_human = length (get_entries t c f SourceHuman),
          fi_pinned = length (get_entries t c f SourcePinned),
          fi_llm = length (get_entries t c f SourceLLM),
          fi_unknown = length (filter (\<lambda>e. \<not> named_source (ek_source e)) (get_entries t c f []))\<rparr>
      else None)"
  by (rule get_entries_counts)

subsection \<open>Import and export\<close>

definition category_ok :: "category_map \<Rightarrow> bool" where
  "category_ok cat \<longleftrightarrow> gomap_ok cat \<and> list_all (\<lambda>(f, es). gomap_ok es) cat"

definition imported_row :: "int \<Rightarrow> entry \<Rightarrow> entry_row" where
  "imported_row now e = \<lparr>cn_text = entry_text e,
     row_source = (if entry_source e = [] then SourceUnknown else entry_source e),
     ids_json = ids_column (entry_ids e), updated_at = now, updated_by = ''migrate''\<rparr>"

lemma import_loop_writes:
  assumes "distinct (map (\<lambda>(f, j, e). (f, j)) items)"
    and "\<forall>(f, j, e) \<in> set items. row t (category, f, j) = None"
  shows "import_loop cancelled now category items t k =
    (if \<exists>n < length items. cancelled (k + n) then Inl ContextCancelled
     else Inr (fold (\<lambda>x. put ((\<lambda>(f, j, e). (category, f, j)) x) ((\<lambda>(f, j, e). imported_row now e) x)) items t,
               k + length items))"
  using assms
proof (induction items arbitrary: t k)
  case (Cons x items)
  obtain f j e where x: "x = (f, j, e)" by (metis prod_cases3)
  show ?case
  proof (cases "cancelled k")
    case True
    then show ?thesis by (auto simp: x intro!: exI [of _ 0])
  next
    case False
    have "\<forall>(f', j', e') \<in> set items. row (put (category, f, j) (imported_row now e) t) (category, f', j') = None"
      using Cons.prems x by (auto simp: image_iff split: prod.splits)
    moreover have "(\<exists>n < length (x # items). cancelled (k + n)) \<longleftrightarrow> (\<exists>n < length items. cancelled (Suc k + n))"
      using False by (auto simp: less_Suc_eq_0_disj)
    ultimately show ?thesis using Cons False
      by (simp add: x imported_row_def [symmetric])
  qed
qed simp

lemma category_item_in:
  assumes ok: "category_ok cat"
  shows "(f, j, e) \<in> set (category_items cat) \<longleftrightarrow> cat_at cat f j = Some e"
proof -
  have outer: "(f, es) \<in> set cat \<longleftrightarrow> map_of cat f = Some es" for es
    using ok by (simp add: category_ok_def gomap_ok_def)
  have inner: "(j, e) \<in> set es \<longleftrightarrow> map_of es j = Some e" if "map_of cat f = Some es" for es
    using ok map_of_SomeD [OF that] by (auto simp: category_ok_def gomap_ok_def list_all_iff)
  have "(f, j, e) \<in> set (category_items cat) \<longleftrightarrow> (\<exists>es. (f, es) \<in> set cat \<and> (j, e) \<in> set es)"
    by (force simp: category_items_def)
  then show ?thesis
    using inner by (cases "map_of cat f") (auto simp: outer cat_at_def field_map_def)
qed

lemma category_items_distinct:
  "category_ok cat \<Longrightarrow> distinct (map (\<lambda>(f, j, e). (f, j)) (category_items cat))"
proof (induction cat)
  case (Cons fe cat)
  obtain f es where fe: "fe = (f, es)" by fastforce
  have "distinct (map (\<lambda>(f, j, e). (f, j)) (map (\<lambda>(jp, e). (f, jp, e)) es))"
  proof -
    have "map (\<lambda>(f, j, e). (f, j)) (map (\<lambda>(jp, e). (f, jp, e)) es) = map (Pair f) (map fst es)"
      by (simp add: case_prod_unfold comp_def)
    moreover have "distinct (map fst es)" using Cons.prems by (simp add: fe category_ok_def gomap_ok_def)
    ultimately show ?thesis by (metis distinct_map inj_on_def prod.inject)
  qed
  moreover have "distinct (map (\<lambda>(f, j, e). (f, j)) (category_items cat))"
    using Cons by (simp add: category_ok_def gomap_ok_def)
  moreover have "set (map (\<lambda>(f, j, e). (f, j)) (map (\<lambda>(jp, e). (f, jp, e)) es)) \<inter>
      set (map (\<lambda>(f, j, e). (f, j)) (category_items cat)) = {}"
    using Cons.prems by (force simp: fe category_ok_def gomap_ok_def category_items_def)
  ultimately have "distinct (map (\<lambda>(f, j, e). (f, j)) (map (\<lambda>(jp, e). (f, jp, e)) es) @
      map (\<lambda>(f, j, e). (f, j)) (category_items cat))" by simp
  then show ?case by (simp add: fe category_items_def)
qed (simp add: category_items_def)


text \<open>
  C32: an import replaces exactly its category, or nothing. When it fails (at begin, on a
  cancelled context, at commit) the table is as before. When it succeeds it reports the number
  of entries, reading the category back gives every entry of the import and no other, with
  an empty source stored as unknown, and the rows of the other categories are untouched.
\<close>

theorem import_roundtrip:
  assumes "table_ok t" "category_ok cat"
    and "import_category outcome cancelled now category cat t = (t', res)"
  shows "(case res of
      Inl _ \<Rightarrow> t' = t
    | Inr n \<Rightarrow> n = length (category_items cat) \<and> table_ok t' \<and>
        cat_at (category_data t' category) f j =
          map_option (\<lambda>e. e\<lparr>entry_source := if entry_source e = [] then SourceUnknown else entry_source e\<rparr>)
            (cat_at cat f j) \<and>
        (c \<noteq> category \<longrightarrow> row t' (c, f, j) = row t (c, f, j))) \<and>
    (outcome = Commits \<and> (\<forall>k < length (category_items cat). \<not> cancelled k) \<longrightarrow> \<not> isl res)"
proof -
  let ?u = "del (\<lambda>(c, _, _). c = category) t" and ?items = "category_items cat"
  let ?k = "\<lambda>(f, j, e). (category, f, j)" and ?r = "\<lambda>(f, j, e). imported_row now e"
  let ?w = "fold (\<lambda>x. put (?k x) (?r x)) ?items ?u"
  have d: "distinct (map (\<lambda>(f, j, e). (f, j)) ?items)" by (rule category_items_distinct [OF assms(2)])
  have dk: "distinct (map ?k ?items)"
  proof -
    have "map ?k ?items = map (Pair category) (map (\<lambda>(f, j, e). (f, j)) ?items)"
      by (simp add: case_prod_unfold comp_def)
    then show ?thesis using d by (metis distinct_map inj_on_def prod.inject)
  qed
  have run: "import_loop cancelled now category ?items ?u 0 =
      (if \<exists>n < length ?items. cancelled n then Inl ContextCancelled else Inr (?w, length ?items))"
    by (subst import_loop_writes [OF d]) auto
  have rows: "row ?w (category, f, j) = map_option (imported_row now) (cat_at cat f j)" for f j
  proof (cases "cat_at cat f j")
    case None
    then have "(category, f, j) \<notin> ?k ` set ?items" using category_item_in [OF assms(2)] by fastforce
    with None show ?thesis by (simp add: tbl.lookup_writes_other)
  next
    case (Some e)
    then have "(f, j, e) \<in> set ?items" using category_item_in [OF assms(2)] by simp
    from tbl.lookup_writes_mem [OF dk this, of ?r ?u] Some show ?thesis by simp
  qed
  have other: "row ?w (c, f, j) = row t (c, f, j)" if "c \<noteq> category"
    using that by (subst tbl.lookup_writes_other) auto
  have ok: "table_ok ?w" using assms(1) by (intro tbl.ok_writes) simp
  have "row_entry (imported_row now e) =
      e\<lparr>entry_source := if entry_source e = [] then SourceUnknown else entry_source e\<rparr>" for e
    by (simp add: row_entry_def imported_row_def ids_column_def)
  then have readback: "cat_at (category_data ?w category) f j =
      map_option (\<lambda>e. e\<lparr>entry_source := if entry_source e = [] then SourceUnknown else entry_source e\<rparr>)
        (cat_at cat f j)"
    by (simp add: category_data_at [OF ok] rows option.map_comp comp_def)
  show ?thesis
    using assms(3) other ok readback
    by (auto simp: import_category_def run isl_def split: if_splits tx_outcome.splits)
qed

theorem import_roundtrip_witness:
  "fst (import_category Commits (\<lambda>k. False) 7 ''units''
      [(''name'', [(''a'', \<lparr>entry_text = ''A'', entry_source = [], entry_ids = [''1'']\<rparr>)])] []) =
   [((''units'', ''name'', ''a''), \<lparr>cn_text = ''A'', row_source = SourceUnknown, ids_json = Ids [''1''],
       updated_at = 7, updated_by = ''migrate''\<rparr>)] \<and>
   cat_at (category_data (fst (import_category Commits (\<lambda>k. False) 7 ''units''
      [(''name'', [(''a'', \<lparr>entry_text = ''A'', entry_source = [], entry_ids = [''1'']\<rparr>)])] []))
      ''units'') ''name'' ''a'' = Some \<lparr>entry_text = ''A'', entry_source = SourceUnknown, entry_ids = [''1'']\<rparr>"
proof -
  let ?cat = "[(''name'', [(''a'', \<lparr>entry_text = ''A'', entry_source = [], entry_ids = [''1'']\<rparr>)])] :: category_map"
  let ?t = "[((''units'', ''name'', ''a''), \<lparr>cn_text = ''A'', row_source = SourceUnknown, ids_json = Ids [''1''],
       updated_at = 7, updated_by = ''migrate''\<rparr>)] :: entries"
  have run: "import_category Commits (\<lambda>k. False) 7 ''units'' ?cat [] = (?t, Inr 1)"
    by (simp add: import_category_def category_items_def del_def put_def ids_column_def)
  have "category_ok ?cat" by (simp add: category_ok_def gomap_ok_def)
  from import_roundtrip [OF table_ok_Nil this run, of "''name''" "''a''" "''units''"]
  show ?thesis by (simp add: run cat_at_def field_map_def)
qed

text \<open>
  An edit of one entry. An unknown source and an unknown identity are refused, an edit to
  the current text and source changes nothing; only the edit that changes something writes,
  it writes only its row, keeps the trace ids, and is what the listing shows afterwards. The
  change hooks run exactly when a row changed.
\<close>

theorem update_entry_effect:
  assumes "update_entry now c f k text source user t = (t', hooks, res)"
  shows "(hooks \<longleftrightarrow> res = Inr Updated) \<and> (\<not> hooks \<longrightarrow> t' = t) \<and>
    (row t' i = (if hooks \<and> i = (c, f, k)
       then map_option (\<lambda>r. r\<lparr>cn_text := text, row_source := source, updated_at := now, updated_by := user\<rparr>)
              (row t i) else row t i)) \<and>
    (\<not> isl res \<longleftrightarrow> is_valid_source source \<and> row t (c, f, k) \<noteq> None) \<and>
    (\<not> isl res \<longrightarrow> map_option (\<lambda>r. (cn_text r, row_source r)) (row t' (c, f, k)) = Some (text, source)) \<and>
    (res = Inr Updated \<longrightarrow> map_option (\<lambda>r. (cn_text r, row_source r)) (row t (c, f, k)) \<noteq> Some (text, source))"
  using assms by (auto simp: update_entry_def split: if_splits option.splits)

theorem update_entry_effect_witness:
  "row (fst (update_entry 9 ''units'' ''name'' ''a'' ''B'' SourceHuman ''eva''
      [((''units'', ''name'', ''a''), \<lparr>cn_text = ''A'', row_source = SourceUnknown, ids_json = Ids [''1''],
        updated_at = 7, updated_by = ''migrate''\<rparr>)])) (''units'', ''name'', ''a'') =
   Some \<lparr>cn_text = ''B'', row_source = SourceHuman, ids_json = Ids [''1''], updated_at = 9, updated_by = ''eva''\<rparr>"
proof -
  let ?t = "\<lambda>tx sr w u. [((''units'', ''name'', ''a''), \<lparr>cn_text = tx, row_source = sr, ids_json = Ids [''1''],
        updated_at = w, updated_by = u\<rparr>)] :: entries"
  have run: "update_entry 9 ''units'' ''name'' ''a'' ''B'' SourceHuman ''eva'' (?t ''A'' SourceUnknown 7 ''migrate'') =
      (?t ''B'' SourceHuman 9 ''eva'', True, Inr Updated)"
    by (simp add: update_entry_def is_valid_source_def row_def modify_def put_def)
  from update_entry_effect [OF run, of "(''units'', ''name'', ''a'')"] show ?thesis
    by (simp add: run row_def)
qed

end
