(* ===== verification/EntryAI.thy ===== *)
theory EntryAI
  imports EntryConsole
begin

text \<open>
  The AI translations of the entries (\<open>store/cn_apply.go\<close>): which entries of a field are
  candidates, and how the texts the model returned are written.
\<close>

section \<open>Operations\<close>

definition ai_protected :: "entry_row \<Rightarrow> bool" where
  "ai_protected r \<longleftrightarrow>
     row_source r = SourcePinned \<or> row_source r = SourceHuman \<or> row_source r = SourceCN \<or>
     (cn_text r \<noteq> [] \<and> row_source r \<noteq> SourceUnknown \<and> row_source r \<noteq> SourceLLM)"

text \<open>One update: the entries, how many were translated, how many skipped.\<close>

definition apply_ai_update ::
  "int \<Rightarrow> string \<Rightarrow> string \<Rightarrow> string \<times> string \<Rightarrow> entries \<times> nat \<times> nat \<Rightarrow> entries \<times> nat \<times> nat" where
  "apply_ai_update now category field u s =
     (let (jp, cn) = u; (t, translated, skipped) = s in
      case row t (category, field, jp) of
        Some r \<Rightarrow>
          if row_source r = SourcePinned \<or> row_source r = SourceHuman \<or> row_source r = SourceCN
          then (t, translated, skipped + 1)
          else if cn_text r \<noteq> [] \<and> row_source r \<noteq> SourceUnknown \<and> row_source r \<noteq> SourceLLM
          then (t, translated, skipped + 1)
          else (modify (category, field, jp) (\<lambda>r. r\<lparr>cn_text := cn, row_source := SourceLLM,
                  updated_at := now, updated_by := ''ai''\<rparr>) t, translated + 1, skipped)
      | None \<Rightarrow>
          (put (category, field, jp) \<lparr>cn_text = cn, row_source = SourceLLM, ids_json = NoIds,
             updated_at = now, updated_by = ''ai''\<rparr> t, translated + 1, skipped))"

text \<open>The tables afterwards, whether the change hooks run, the two counts, and success.\<close>

definition apply_ai_translations ::
  "tx_outcome \<Rightarrow> int \<Rightarrow> string \<Rightarrow> string \<Rightarrow> string gomap \<Rightarrow> entries \<Rightarrow>
   entries \<times> bool \<times> nat \<times> nat \<times> bool" where
  "apply_ai_translations outcome now category field updates t =
     (if outcome = BeginFails then (t, False, 0, 0, False)
      else let (t', translated, skipped) = fold (apply_ai_update now category field) updates (t, 0, 0) in
        if outcome = CommitFails then (t, False, translated, skipped, False)
        else (t', translated > 0, translated, skipped, True))"

fun collect_candidates :: "(string \<times> entry_row) list \<Rightarrow> string list \<Rightarrow> nat \<Rightarrow> string list \<times> nat" where
  "collect_candidates [] candidates skipped = (candidates, skipped)"
| "collect_candidates ((jp, r) # rows) candidates skipped =
     (if row_source r = SourceHuman \<or> row_source r = SourcePinned \<or> row_source r = SourceCN \<or> cn_text r \<noteq> []
      then collect_candidates rows candidates (skipped + 1)
      else collect_candidates rows (candidates @ [jp]) skipped)"

definition field_rows :: "entries \<Rightarrow> string \<Rightarrow> string \<Rightarrow> (string \<times> entry_row) list" where
  "field_rows t category field =
     map (\<lambda>((_, _, jp), r). (jp, r)) (filter (\<lambda>((c, f, _), _). c = category \<and> f = field) t)"

definition ai_candidates :: "entries \<Rightarrow> string \<Rightarrow> string \<Rightarrow> int \<Rightarrow> string list \<times> nat" where
  "ai_candidates t category field limit =
     (let (candidates, skipped) = collect_candidates (field_rows t category field) [] 0 in
      (if 0 < limit \<and> limit < int (length candidates) then take (nat limit) candidates else candidates, skipped))"

section \<open>The loop row by row\<close>

definition ai_eff :: "int \<Rightarrow> string \<Rightarrow> entry_row option \<Rightarrow> entry_row option" where
  "ai_eff now cn cur =
     (case cur of
        None \<Rightarrow> Some \<lparr>cn_text = cn, row_source = SourceLLM, ids_json = NoIds, updated_at = now, updated_by = ''ai''\<rparr>
      | Some r \<Rightarrow> if ai_protected r then cur
          else Some (r\<lparr>cn_text := cn, row_source := SourceLLM, updated_at := now, updated_by := ''ai''\<rparr>))"

definition ai_open :: "entry_row option \<Rightarrow> bool" where
  "ai_open cur \<longleftrightarrow> (case cur of None \<Rightarrow> True | Some r \<Rightarrow> \<not> ai_protected r)"

interpretation ai_loop: rowwise_counted "\<lambda>s. row (fst s)" "apply_ai_update now category field"
  "\<lambda>(jp, _). (category, field, jp)" "\<lambda>(_, cn). ai_eff now cn" "\<lambda>s. fst (snd s)" "\<lambda>_. ai_open"
  for now category field
  by unfold_locales
    (auto simp: apply_ai_update_def ai_eff_def ai_open_def ai_protected_def Let_def
       split: option.splits prod.splits if_splits)

lemma ai_counts:
  "fst (snd (fold (apply_ai_update now c f) us s)) + snd (snd (fold (apply_ai_update now c f) us s)) =
   fst (snd s) + snd (snd s) + length us"
proof (induction us arbitrary: s)
  case (Cons u us)
  have "fst (snd (apply_ai_update now c f u s)) + snd (snd (apply_ai_update now c f u s)) =
      fst (snd s) + snd (snd s) + 1"
    by (cases u; cases s) (auto simp: apply_ai_update_def Let_def split: option.splits)
  with Cons show ?case by simp
qed simp

lemma ai_keys: "gomap_ok us \<Longrightarrow> distinct (map (\<lambda>(jp, _). (c, f, jp)) us)"
proof -
  assume "gomap_ok us"
  moreover have "map (\<lambda>(jp, _). (c, f, jp)) us = map (\<lambda>jp. (c, f, jp)) (map fst us)"
    by (simp add: case_prod_unfold comp_def)
  ultimately show ?thesis by (metis (mono_tags) distinct_map gomap_ok_def inj_on_def prod.inject)
qed

lemma ai_row:
  assumes "gomap_ok us"
  shows "row (fst (fold (apply_ai_update now c f) us s)) (c', f', jp) =
    (if c' = c \<and> f' = f then (case map_of us jp of None \<Rightarrow> row (fst s) (c', f', jp)
       | Some cn \<Rightarrow> ai_eff now cn (row (fst s) (c', f', jp)))
     else row (fst s) (c', f', jp))"
proof (cases "c' = c \<and> f' = f \<and> map_of us jp \<noteq> None")
  case True
  then obtain cn where cn: "map_of us jp = Some cn" by blast
  from ai_loop.loop_mem [OF ai_keys [OF assms] map_of_SomeD [OF cn], where now = now and s = s] True cn
  show ?thesis by simp
next
  case False
  have "(c', f', jp) \<notin> (\<lambda>(jp, _). (c, f, jp)) ` set us"
    using False by (auto simp: map_of_eq_None_iff image_iff)
  from ai_loop.loop_other [OF this, of now s] False show ?thesis by auto
qed

section \<open>Properties\<close>

text \<open>
  C31:
  AI translations never overwrite protected text. An entry under an update key that is
  pinned, human or official keeps its row; an unprotected or missing one takes the text with
  source llm (also one of source unknown that has a text: the condition of the code is
  narrower than its comment, \<open>non-empty non-llm text\<close>); no other row changes, whatever the order of the update map. The two counts add
  up to the number of updates and the first is the number of unprotected keys; a failed begin
  or commit leaves the table as it was.
\<close>

theorem ai_translations_effect:
  assumes "gomap_ok updates"
    and "apply_ai_translations outcome now c f updates t = (t', hooks, translated, skipped, done_ok)"
  shows "row t' (c', f', jp) =
      (if outcome = Commits \<and> c' = c \<and> f' = f then
         (case map_of updates jp of None \<Rightarrow> row t (c', f', jp)
          | Some cn \<Rightarrow> if ai_open (row t (c', f', jp)) then ai_eff now cn (row t (c', f', jp))
                        else row t (c', f', jp))
       else row t (c', f', jp)) \<and>
    (\<forall>cn r. outcome = Commits \<and> map_of updates jp = Some cn \<and> row t (c, f, jp) = Some r \<and> row_source r = SourceUnknown \<longrightarrow>
      row t' (c, f, jp) = Some (r\<lparr>cn_text := cn, row_source := SourceLLM, updated_at := now, updated_by := ''ai''\<rparr>)) \<and>
    (outcome \<noteq> BeginFails \<longrightarrow> translated + skipped = length updates \<and>
      translated = length (filter (\<lambda>(jp, _). ai_open (row t (c, f, jp))) updates)) \<and>
    (done_ok \<longleftrightarrow> outcome = Commits) \<and> (hooks \<longleftrightarrow> outcome = Commits \<and> 0 < translated)"
proof -
  let ?s = "fold (apply_ai_update now c f) updates (t, 0, 0)"
  have "ai_eff now cn cur = cur" if "\<not> ai_open cur" for cn cur
    using that by (auto simp: ai_open_def ai_eff_def split: option.splits)
  then have r: "row (fst ?s) (c', f', jp) =
    (if c' = c \<and> f' = f then (case map_of updates jp of None \<Rightarrow> row t (c', f', jp)
       | Some cn \<Rightarrow> if ai_open (row t (c', f', jp)) then ai_eff now cn (row t (c', f', jp))
                     else row t (c', f', jp))
     else row t (c', f', jp))"
    by (simp add: ai_row [OF assms(1)] split: option.split)
  have n: "fst (snd ?s) = length (filter (\<lambda>(jp, _). ai_open (row t (c, f, jp))) updates)"
    using ai_loop.loop_count [OF ai_keys [OF assms(1)], where now = now and s = "(t, 0, 0)"]
    by (simp add: case_prod_unfold)
  have sum: "fst (snd ?s) + snd (snd ?s) = length updates"
    using ai_counts [of now c f updates "(t, 0, 0)"] by simp
  obtain u k m where s: "?s = (u, k, m)" by (metis prod_cases3)
  have unknown: "ai_eff now cn (Some r) = Some (r\<lparr>cn_text := cn, row_source := SourceLLM, updated_at := now, updated_by := ''ai''\<rparr>) \<and> ai_open (Some r)"
    if "row_source r = SourceUnknown" for cn r
    using that by (simp add: ai_eff_def ai_open_def ai_protected_def const_defs)
  have r': "row (fst ?s) (c, f, jp) = (case map_of updates jp of None \<Rightarrow> row t (c, f, jp) | Some cn \<Rightarrow> ai_eff now cn (row t (c, f, jp)))"
    by (simp add: ai_row [OF assms(1)] split: option.split)
  show ?thesis
    using assms(2) r r' n sum unknown unfolding s
    by (cases outcome) (auto simp: apply_ai_translations_def s)
qed

theorem ai_translations_effect_witness:
  "row (fst (apply_ai_translations Commits 9 ''units'' ''name'' [(''a'', ''X''), (''b'', ''Y'')]
      [((''units'', ''name'', ''a''), \<lparr>cn_text = ''A'', row_source = SourceHuman, ids_json = NoIds,
        updated_at = 7, updated_by = ''eva''\<rparr>)])) (''units'', ''name'', ''b'') =
   Some \<lparr>cn_text = ''Y'', row_source = SourceLLM, ids_json = NoIds, updated_at = 9, updated_by = ''ai''\<rparr>"
proof -
  let ?a = "((''units'', ''name'', ''a''), \<lparr>cn_text = ''A'', row_source = SourceHuman, ids_json = NoIds,
        updated_at = 7, updated_by = ''eva''\<rparr>)"
  let ?b = "((''units'', ''name'', ''b''), \<lparr>cn_text = ''Y'', row_source = SourceLLM, ids_json = NoIds,
        updated_at = 9, updated_by = ''ai''\<rparr>)"
  have run: "apply_ai_translations Commits 9 ''units'' ''name'' [(''a'', ''X''), (''b'', ''Y'')] [?a] =
      ([?a, ?b], True, 1, 1, True)"
    by (simp add: apply_ai_translations_def apply_ai_update_def row_def put_def)
  from ai_translations_effect [OF _ run, of "''units''" "''name''" "''b''"] show ?thesis
    by (simp add: run gomap_ok_def ai_open_def ai_eff_def row_def)
qed

lemma collect_candidates_eq:
  "collect_candidates rows cs k =
   (cs @ map fst (filter (\<lambda>(_, r). cn_text r = [] \<and> row_source r \<notin> {SourceHuman, SourcePinned, SourceCN}) rows),
    k + length (filter (\<lambda>(_, r). \<not> (cn_text r = [] \<and> row_source r \<notin> {SourceHuman, SourcePinned, SourceCN})) rows))"
  by (induction rows cs k rule: collect_candidates.induct) auto

lemma field_row_in:
  "table_ok t \<Longrightarrow> (jp, r) \<in> set (field_rows t c f) \<longleftrightarrow> row t (c, f, jp) = Some r"
  using in_row [of t "(c, f, jp)" r] row_in [of t "(c, f, jp)" r]
  by (force simp: field_rows_def)

text \<open>
  The candidates are work the writer accepts. A key is a candidate exactly when its entry
  has no text and an unprotected source, candidates and skipped entries add up to the entries
  of the field, a positive limit cuts the list to its first keys; and when the model's answers
  are for candidates, the write skips none of them and hands them all the source llm.
\<close>

theorem ai_candidates_are_accepted:
  assumes ok: "table_ok t" and us: "gomap_ok updates" "set (map fst updates) \<subseteq> set (fst (ai_candidates t c f limit))"
  shows "(jp \<in> set (fst (ai_candidates t c f 0)) \<longleftrightarrow>
      (\<exists>r. row t (c, f, jp) = Some r \<and> cn_text r = [] \<and> \<not> ai_protected r)) \<and>
    length (fst (ai_candidates t c f 0)) + snd (ai_candidates t c f 0) = length (get_entries t c f []) \<and>
    fst (ai_candidates t c f limit) =
      (if 0 < limit then take (nat limit) (fst (ai_candidates t c f 0)) else fst (ai_candidates t c f 0)) \<and>
    (\<exists>t'. apply_ai_translations Commits now c f updates t = (t', updates \<noteq> [], length updates, 0, True) \<and>
      list_all (\<lambda>(jp, cn). map_option (\<lambda>r. (cn_text r, row_source r)) (row t' (c, f, jp)) = Some (cn, SourceLLM))
        updates)"
proof -
  have cand: "jp \<in> set (fst (ai_candidates t c f 0)) \<longleftrightarrow>
      (\<exists>r. row t (c, f, jp) = Some r \<and> cn_text r = [] \<and> \<not> ai_protected r)" for jp
    by (force simp: ai_candidates_def collect_candidates_eq Let_def ai_protected_def field_row_in [OF ok, symmetric])
  have len: "length (fst (ai_candidates t c f 0)) + snd (ai_candidates t c f 0) = length (get_entries t c f [])"
    using sum_length_filter_compl [of "\<lambda>(_, r). cn_text r = [] \<and> row_source r \<notin> {SourceHuman, SourcePinned, SourceCN}"
        "field_rows t c f"]
    by (simp add: ai_candidates_def collect_candidates_eq case_prod_unfold)
       (simp add: field_rows_def get_entries_def case_prod_unfold)
  have lim: "fst (ai_candidates t c f limit) =
      (if 0 < limit then take (nat limit) (fst (ai_candidates t c f 0)) else fst (ai_candidates t c f 0))"
    by (simp add: ai_candidates_def Let_def case_prod_unfold)
  have "jp \<in> set (fst (ai_candidates t c f 0))" if "(jp, cn) \<in> set updates" for jp cn
  proof -
    have "jp \<in> set (map fst updates)" using that by force
    then have "jp \<in> set (fst (ai_candidates t c f limit))" using us(2) by blast
    then show ?thesis unfolding lim by (auto split: if_splits dest: in_set_takeD)
  qed
  then have free: "ai_open (row t (c, f, jp))" if "(jp, cn) \<in> set updates" for jp cn
    using that cand by (fastforce simp: ai_open_def)
  let ?s = "fold (apply_ai_update now c f) updates (t, 0, 0)"
  have "filter (\<lambda>(jp, _). ai_open (row t (c, f, jp))) updates = updates"
    using free by (auto simp: filter_id_conv)
  then have n: "fst (snd ?s) = length updates"
    using ai_loop.loop_count [OF ai_keys [OF us(1)], where now = now and s = "(t, 0, 0)"]
    by (simp add: case_prod_unfold)
  then have "snd (snd ?s) = 0" using ai_counts [of now c f updates "(t, 0, 0)"] by simp
  with n have s: "?s = (fst ?s, length updates, 0)" by (metis prod.collapse)
  have "map_option (\<lambda>r. (cn_text r, row_source r)) (row (fst ?s) (c, f, jp)) = Some (cn, SourceLLM)"
    if "(jp, cn) \<in> set updates" for jp cn
  proof -
    have "map_of updates jp = Some cn" using that us(1) by (simp add: gomap_ok_def)
    then show ?thesis using free [OF that]
      by (auto simp: ai_row [OF us(1)] ai_eff_def ai_open_def split: option.split)
  qed
  moreover have "apply_ai_translations Commits now c f updates t = (fst ?s, updates \<noteq> [], length updates, 0, True)"
    unfolding apply_ai_translations_def by (subst s) simp
  ultimately show ?thesis using cand len lim by (auto simp: list_all_iff)
qed

theorem ai_candidates_are_accepted_witness:
  "\<exists>t'. apply_ai_translations Commits 9 ''units'' ''name'' [(''a'', ''X'')]
      [((''units'', ''name'', ''a''), \<lparr>cn_text = [], row_source = SourceUnknown, ids_json = NoIds,
        updated_at = 7, updated_by = ''cn-sync''\<rparr>)] = (t', True, 1, 0, True)"
  using ai_candidates_are_accepted [of "[((''units'', ''name'', ''a''), \<lparr>cn_text = [], row_source = SourceUnknown,
      ids_json = NoIds, updated_at = 7, updated_by = ''cn-sync''\<rparr>)]" "[(''a'', ''X'')]" "''units''" "''name''" 5 "''a''" 9]
  by (auto simp: table_ok_def gomap_ok_def ai_candidates_def field_rows_def)

end
