(* ===== verification/EntryLocale.thy ===== *)
theory EntryLocale
  imports EntryConsole
begin

text \<open>
  The localized entries (\<open>store/localization.go\<close>): zh-CN is the entries table itself, ja-JP is
  the key and read-only, any other locale lives in \<open>entry_localizations\<close>. An operation here
  runs with no other writer between its statements, which is what the content gate and the
  editor gate give the handlers that call it.
\<close>

section \<open>State\<close>

record loc_row =
  loc_text :: string
  loc_source :: string
  loc_updated_at :: int
  loc_updated_by :: string
  loc_revision :: nat

record audit_row =
  audit_ts :: int
  audit_user :: string
  audit_action :: string
  audit_detail :: string

type_synonym loc_id = "string \<times> string \<times> string \<times> string"

record content_db =
  entries :: entries
  locs :: "(loc_id, loc_row) table"
  audit_log :: "audit_row list"

definition content_ok :: "content_db \<Rightarrow> bool" where
  "content_ok d \<longleftrightarrow> table_ok (entries d) \<and> table_ok (locs d)"

section \<open>Reads\<close>

text \<open>The rows of the UNION ALL that \<open>GetCategoriesLocale\<close> groups.\<close>

definition localized_rows :: "content_db \<Rightarrow> string \<Rightarrow> located list" where
  "localized_rows d lc =
     map (\<lambda>((c, f, jp), _). (c, f,
         if lc = ''ja-JP'' then ''unknown''
         else case row (locs d) (c, f, jp, lc) of None \<Rightarrow> ''unknown'' | Some l \<Rightarrow> loc_source l)) (entries d) @
     map (\<lambda>((c, f, _, _), l). (c, f, loc_source l))
       (filter (\<lambda>((c, f, jp, lc'), _). lc' = lc \<and> row (entries d) (c, f, jp) = None \<and> lc \<noteq> ''ja-JP'') (locs d))"

definition get_categories_locale :: "content_db \<Rightarrow> string \<Rightarrow> category_info list" where
  "get_categories_locale d lc =
     (if lc = LocaleChinese then get_categories (entries d)
      else category_infos (accumulate (group_count (localized_rows d lc))))"

text \<open>The entry of a base row in a locale, before its trace ids are attached.\<close>

definition base_entry :: "content_db \<Rightarrow> string \<Rightarrow> entry_id \<Rightarrow> entry_row \<Rightarrow> entry_with_key" where
  "base_entry d lc k r =
     (let (c, f, key) = k; l = row (locs d) (c, f, key, lc);
          updated = (case l of None \<Rightarrow> updated_at r | Some l \<Rightarrow> loc_updated_at l);
          e = \<lparr>ek_key = key, ek_text = [], ek_source = SourceUnknown, ek_ids = [], ek_updated_at = updated\<rparr>
      in if lc = LocaleJapanese then e\<lparr>ek_text := key\<rparr>
         else case l of None \<Rightarrow> e | Some l \<Rightarrow> e\<lparr>ek_text := loc_text l, ek_source := loc_source l\<rparr>)"

text \<open>The loop over the base rows: the keys seen and the entries kept.\<close>

fun base_loop ::
  "content_db \<Rightarrow> string \<Rightarrow> string \<Rightarrow> (entry_id \<times> entry_row) list \<Rightarrow> string set \<Rightarrow> entry_with_key list \<Rightarrow>
   string set \<times> entry_with_key list" where
  "base_loop d lc source [] seen result = (seen, result)"
| "base_loop d lc source ((k, r) # rows) seen result =
     (let e = base_entry d lc k r in
      if source \<noteq> [] \<and> ek_source e \<noteq> source
      then base_loop d lc source rows (insert (ek_key e) seen) result
      else base_loop d lc source rows (insert (ek_key e) seen)
        (result @ [e\<lparr>ek_ids := if ids_text (ids_json r) \<noteq> [] then unmarshal_ids (ids_json r) else []\<rparr>]))"

definition loc_entry :: "loc_id \<times> loc_row \<Rightarrow> entry_with_key" where
  "loc_entry kl = (let ((_, _, key, _), l) = kl in
     \<lparr>ek_key = key, ek_text = loc_text l, ek_source = loc_source l, ek_ids = [], ek_updated_at = loc_updated_at l\<rparr>)"

definition get_entries_locale :: "content_db \<Rightarrow> string \<Rightarrow> string \<Rightarrow> string \<Rightarrow> string \<Rightarrow> entry_with_key list" where
  "get_entries_locale d category field source lc =
     (if lc = LocaleChinese then get_entries (entries d) category field source
      else let (seen, result) = base_loop d lc source
             (filter (\<lambda>((c, f, _), _). c = category \<and> f = field) (entries d)) {} [] in
        if lc = LocaleJapanese then result
        else result @ filter (\<lambda>e. \<not> (ek_key e \<in> seen \<or> (source \<noteq> [] \<and> ek_source e \<noteq> source)))
          (map loc_entry (filter (\<lambda>((c, f, _, lc'), _). c = category \<and> f = field \<and> lc' = lc) (locs d))))"

definition category_data_locale :: "content_db \<Rightarrow> string \<Rightarrow> string \<Rightarrow> category_map" where
  "category_data_locale d category lc =
     (if lc = LocaleChinese then category_data (entries d) category
      else let fields = sort (remdups
          (map (\<lambda>((_, f, _), _). f) (filter (\<lambda>((c, _, _), _). c = category) (entries d)) @
           map (\<lambda>((_, f, _, _), _). f) (filter (\<lambda>((c, _, _, lc'), _). c = category \<and> lc' = lc) (locs d)))) in
        fold (\<lambda>field cat. put field
            (fold (\<lambda>e m. put (ek_key e) \<lparr>entry_text = ek_text e, entry_source = ek_source e, entry_ids = ek_ids e\<rparr> m)
              (get_entries_locale d category field [] lc) []) cat)
          fields [])"

text \<open>
  \<open>SearchTranslationSnapshotContext\<close>: the rows of its UNION ALL, with 1 for a base row, and the
  loop that files each row under the Chinese and the English category.
\<close>

definition search_rows :: "content_db \<Rightarrow> string list \<Rightarrow> (bool \<times> entry_id \<times> entry \<times> entry) list" where
  "search_rows d categories =
     map (\<lambda>((c, f, jp), r). (True, (c, f, jp),
         \<lparr>entry_text = cn_text r, entry_source = row_source r, entry_ids = entry_ids (row_entry r)\<rparr>,
         (case row (locs d) (c, f, jp, LocaleEnglish) of
            None \<Rightarrow> \<lparr>entry_text = [], entry_source = ''unknown'', entry_ids = entry_ids (row_entry r)\<rparr>
          | Some l \<Rightarrow> \<lparr>entry_text = loc_text l, entry_source = loc_source l, entry_ids = entry_ids (row_entry r)\<rparr>)))
       (filter (\<lambda>((c, _, _), _). c \<in> set categories) (entries d)) @
     map (\<lambda>((c, f, jp, _), l). (False, (c, f, jp),
         \<lparr>entry_text = [], entry_source = ''unknown'', entry_ids = []\<rparr>,
         \<lparr>entry_text = loc_text l, entry_source = loc_source l, entry_ids = []\<rparr>))
       (filter (\<lambda>((c, f, jp, lc), _). lc = LocaleEnglish \<and> row (entries d) (c, f, jp) = None \<and> c \<in> set categories)
         (locs d))"

definition file_entry :: "entry_id \<Rightarrow> entry \<Rightarrow> category_map gomap \<Rightarrow> category_map gomap" where
  "file_entry k e m =
     (let (c, f, jp) = k; cat = field_map m c in put c (put f (put jp e (field_map cat f)) cat) m)"

definition search_translation_snapshot ::
  "content_db \<Rightarrow> string list \<Rightarrow> category_map gomap \<times> category_map gomap" where
  "search_translation_snapshot d categories =
     (if length categories = 0 then ([], [])
      else let empty = fold (\<lambda>c m. put c [] m) categories [] in
        fold (\<lambda>(base, k, zh, en) (chinese, english).
            (if base then file_entry k zh chinese else chinese, file_entry k en english))
          (search_rows d categories) (empty, empty))"

definition entry_text_locale ::
  "content_db \<Rightarrow> string \<Rightarrow> string \<Rightarrow> string \<Rightarrow> string \<Rightarrow> store_error + string" where
  "entry_text_locale d category field key lc =
     (if lc = LocaleChinese then
        (case row (entries d) (category, field, key) of None \<Rightarrow> Inl NoRows | Some r \<Rightarrow> Inr (cn_text r))
      else if lc = LocaleJapanese then Inr key
      else (case row (locs d) (category, field, key, lc) of None \<Rightarrow> Inr [] | Some l \<Rightarrow> Inr (loc_text l)))"

section \<open>Editing one entry in a locale\<close>

definition upsert_loc :: "int \<Rightarrow> string \<Rightarrow> string \<Rightarrow> string \<Rightarrow> loc_id \<Rightarrow> content_db \<Rightarrow> content_db" where
  "upsert_loc now user text source k d =
     d\<lparr>locs := put k \<lparr>loc_text = text, loc_source = source, loc_updated_at = now, loc_updated_by = user,
         loc_revision = (case row (locs d) k of None \<Rightarrow> 1 | Some l \<Rightarrow> loc_revision l + 1)\<rparr> (locs d)\<rparr>"

definition audit_insert :: "int \<Rightarrow> string \<Rightarrow> string \<Rightarrow> content_db \<Rightarrow> content_db" where
  "audit_insert now user detail d =
     d\<lparr>audit_log := audit_log d @ [\<lparr>audit_ts = now, audit_user = user,
         audit_action = ''entry.locale.update'', audit_detail = detail\<rparr>]\<rparr>"

definition locale_detail :: "string \<Rightarrow> string \<Rightarrow> string \<Rightarrow> string" where
  "locale_detail lc category field = ''locale='' @ lc @ '' category='' @ category @ '' field='' @ field"

definition update_entry_locale ::
  "tx_outcome \<Rightarrow> int \<Rightarrow> string \<Rightarrow> string \<Rightarrow> string \<Rightarrow> string \<Rightarrow> string \<Rightarrow> string \<Rightarrow> string \<Rightarrow> content_db \<Rightarrow>
   content_db \<times> bool \<times> (store_error + edit_result)" where
  "update_entry_locale outcome now category field key text source user lc d =
     (if \<not> is_valid_source source then (d, False, Inl (InvalidSource source))
      else if row (entries d) (category, field, key) = None then (d, False, Inl NoRows)
      else if lc = LocaleChinese then
        (if outcome = BeginFails then (d, False, Inl BeginError)
         else case row (entries d) (category, field, key) of
           Some r \<Rightarrow> if cn_text r = text \<and> row_source r = source then (d, False, Inr Noop)
             else (let d' = audit_insert now user (locale_detail lc category field)
                     (d\<lparr>entries := modify (category, field, key) (\<lambda>r. r\<lparr>cn_text := text, row_source := source,
                        updated_at := now, updated_by := user\<rparr>) (entries d)\<rparr>) in
                   if outcome = CommitFails then (d, False, Inl CommitError) else (d', True, Inr Updated))
         | None \<Rightarrow> (let d' = audit_insert now user (locale_detail lc category field) d in
                   if outcome = CommitFails then (d, False, Inl CommitError) else (d', True, Inr Updated)))
      else if lc = LocaleJapanese then (d, False, Inl ReadOnlyLocale)
      else if outcome = BeginFails then (d, False, Inl BeginError)
      else if (case row (locs d) (category, field, key, lc) of None \<Rightarrow> False
               | Some l \<Rightarrow> loc_text l = text \<and> loc_source l = source) then (d, False, Inr Noop)
      else (let d' = audit_insert now user (locale_detail lc category field)
                (upsert_loc now user text source (category, field, key, lc) d) in
            if outcome = CommitFails then (d, False, Inl CommitError) else (d', True, Inr Updated)))"

lemma upsert_loc_fields [simp]:
  "entries (upsert_loc now user tx sr k d) = entries d" "audit_log (upsert_loc now user tx sr k d) = audit_log d"
  "row (locs (upsert_loc now user tx sr k d)) k' =
     (if k' = k then Some \<lparr>loc_text = tx, loc_source = sr, loc_updated_at = now, loc_updated_by = user,
         loc_revision = (case row (locs d) k of None \<Rightarrow> 1 | Some l \<Rightarrow> loc_revision l + 1)\<rparr> else row (locs d) k')"
  "table_ok (locs d) \<Longrightarrow> table_ok (locs (upsert_loc now user tx sr k d))"
  by (simp_all add: upsert_loc_def)

lemma audit_insert_fields [simp]:
  "entries (audit_insert now user dt d) = entries d" "locs (audit_insert now user dt d) = locs d"
  "length (audit_log (audit_insert now user dt d)) = length (audit_log d) + 1"
  by (simp_all add: audit_insert_def)


section \<open>Lemmas on the reads\<close>

definition full_entry :: "content_db \<Rightarrow> string \<Rightarrow> entry_id \<times> entry_row \<Rightarrow> entry_with_key" where
  "full_entry d lc kr = (base_entry d lc (fst kr) (snd kr))
     \<lparr>ek_ids := if ids_text (ids_json (snd kr)) \<noteq> [] then unmarshal_ids (ids_json (snd kr)) else []\<rparr>"

lemma base_entry_key [simp]: "ek_key (base_entry d lc (c, f, key) r) = key"
  by (simp add: base_entry_def Let_def split: option.split)

lemma base_loop_eq:
  "base_loop d lc source rows seen result =
   (seen \<union> (\<lambda>((_, _, k), _). k) ` set rows,
    result @ map (full_entry d lc)
      (filter (\<lambda>(k, r). source = [] \<or> ek_source (base_entry d lc k r) = source) rows))"
proof (induction d lc source rows seen result rule: base_loop.induct)
  case (2 d lc source k r rows seen result)
  then show ?case by (cases k) (auto simp: Let_def full_entry_def)
qed simp

definition base_rows :: "content_db \<Rightarrow> string \<Rightarrow> string \<Rightarrow> (entry_id \<times> entry_row) list" where
  "base_rows d c f = filter (\<lambda>((c', f', _), _). c' = c \<and> f' = f) (entries d)"

definition orphan_rows :: "content_db \<Rightarrow> string \<Rightarrow> string \<Rightarrow> string \<Rightarrow> (loc_id \<times> loc_row) list" where
  "orphan_rows d lc c f = filter (\<lambda>((c', f', jp, lc'), _). c' = c \<and> f' = f \<and> lc' = lc \<and>
     row (entries d) (c, f, jp) = None) (locs d)"

lemma get_entries_locale_eq:
  assumes "lc \<noteq> LocaleChinese"
  shows "get_entries_locale d c f s lc =
    map (full_entry d lc) (filter (\<lambda>(k, r). s = [] \<or> ek_source (base_entry d lc k r) = s) (base_rows d c f)) @
    (if lc = LocaleJapanese then []
     else map loc_entry (filter (\<lambda>(_, l). s = [] \<or> loc_source l = s) (orphan_rows d lc c f)))"
proof -
  have seen: "key \<in> (\<lambda>((_, _, k), _). k) ` set (base_rows d c f) \<longleftrightarrow> row (entries d) (c, f, key) \<noteq> None" for key
    by (force simp: base_rows_def row_None_iff)
  have "filter (\<lambda>e. \<not> (ek_key e \<in> (\<lambda>((_, _, k), _). k) ` set (base_rows d c f) \<or> (s \<noteq> [] \<and> ek_source e \<noteq> s)))
      (map loc_entry (filter (\<lambda>((c', f', _, lc'), _). c' = c \<and> f' = f \<and> lc' = lc) (locs d))) =
    map loc_entry (filter (\<lambda>(_, l). s = [] \<or> loc_source l = s) (orphan_rows d lc c f))"
    unfolding seen orphan_rows_def filter_map filter_filter
    by (intro arg_cong [of _ _ "map loc_entry"] filter_cong refl) (auto simp: loc_entry_def)
  then show ?thesis
    using assms by (simp add: get_entries_locale_def base_loop_eq base_rows_def [symmetric])
qed

lemma base_entry_source:
  "ek_source (base_entry d lc (c, f, jp) r) =
   (if lc = LocaleJapanese then SourceUnknown
    else case row (locs d) (c, f, jp, lc) of None \<Rightarrow> SourceUnknown | Some l \<Rightarrow> loc_source l)"
  by (simp add: base_entry_def Let_def split: option.split)

lemma localized_rows_filter:
  assumes "lc \<noteq> LocaleChinese"
  shows "length (filter (\<lambda>l. at_field c f l \<and> p (snd (snd l))) (localized_rows d lc)) =
    length (filter (\<lambda>(k, r). p (ek_source (base_entry d lc k r))) (base_rows d c f)) +
    (if lc = LocaleJapanese then 0 else length (filter (\<lambda>(_, l). p (loc_source l)) (orphan_rows d lc c f)))"
proof -
  have "length (filter (\<lambda>l. at_field c f l \<and> p (snd (snd l))) (map (\<lambda>((c, f, jp), _). (c, f,
         if lc = ''ja-JP'' then ''unknown''
         else case row (locs d) (c, f, jp, lc) of None \<Rightarrow> ''unknown'' | Some l \<Rightarrow> loc_source l)) (entries d))) =
    length (filter (\<lambda>(k, r). p (ek_source (base_entry d lc k r))) (base_rows d c f))"
    unfolding base_rows_def filter_map filter_filter length_map
    by (intro arg_cong [of _ _ length] filter_cong refl)
      (auto simp: at_field_def base_entry_source SourceUnknown_def LocaleJapanese_def split: option.splits)
  moreover have "length (filter (\<lambda>l. at_field c f l \<and> p (snd (snd l))) (map (\<lambda>((c, f, _, _), l). (c, f, loc_source l))
       (filter (\<lambda>((c, f, jp, lc'), _). lc' = lc \<and> row (entries d) (c, f, jp) = None \<and> lc \<noteq> ''ja-JP'') (locs d)))) =
    (if lc = LocaleJapanese then 0 else length (filter (\<lambda>(_, l). p (loc_source l)) (orphan_rows d lc c f)))"
  proof (cases "lc = LocaleJapanese")
    case True
    then show ?thesis by (auto simp: LocaleJapanese_def filter_empty_conv)
  next
    case False
    then have "lc \<noteq> ''ja-JP''" by (simp add: LocaleJapanese_def)
    with False show ?thesis
      unfolding orphan_rows_def filter_map filter_filter length_map if_not_P [OF False]
      by (intro arg_cong [of _ _ length] filter_cong refl) (auto simp: at_field_def)
  qed
  ultimately show ?thesis by (simp add: localized_rows_def)
qed

lemma listing_length:
  assumes "lc \<noteq> LocaleChinese"
  shows "length (get_entries_locale d c f [] lc) = length (filter (at_field c f) (localized_rows d lc))"
    and "s \<noteq> [] \<Longrightarrow> length (get_entries_locale d c f s lc) = length (filter (of_source c f s) (localized_rows d lc))"
    and "length (filter (\<lambda>e. \<not> named_source (ek_source e)) (get_entries_locale d c f [] lc)) =
      length (filter (\<lambda>l. at_field c f l \<and> \<not> named_source (snd (snd l))) (localized_rows d lc))"
proof -
  show "length (get_entries_locale d c f [] lc) = length (filter (at_field c f) (localized_rows d lc))"
    using localized_rows_filter [OF assms, where p = "\<lambda>_. True" and d = d and c = c and f = f]
    by (simp add: get_entries_locale_eq [OF assms] case_prod_unfold)
  have "filter (of_source c f s) ls = filter (\<lambda>l. at_field c f l \<and> snd (snd l) = s) ls" for ls
    by (rule filter_cong) (simp_all add: of_source_def)
  then show "s \<noteq> [] \<Longrightarrow> length (get_entries_locale d c f s lc) =
      length (filter (of_source c f s) (localized_rows d lc))"
    using localized_rows_filter [OF assms, where p = "\<lambda>x. x = s" and d = d and c = c and f = f]
    by (simp add: get_entries_locale_eq [OF assms] case_prod_unfold)
  show "length (filter (\<lambda>e. \<not> named_source (ek_source e)) (get_entries_locale d c f [] lc)) =
      length (filter (\<lambda>l. at_field c f l \<and> \<not> named_source (snd (snd l))) (localized_rows d lc))"
    using localized_rows_filter [OF assms, where p = "\<lambda>x. \<not> named_source x" and d = d and c = c and f = f]
    by (simp add: get_entries_locale_eq [OF assms] filter_map comp_def full_entry_def loc_entry_def case_prod_unfold)
qed

section \<open>Lemmas on the edit\<close>

definition zh_written :: "int \<Rightarrow> entry_id \<Rightarrow> string \<Rightarrow> string \<Rightarrow> string \<Rightarrow> content_db \<Rightarrow> content_db" where
  "zh_written now k text source user d = audit_insert now user (locale_detail LocaleChinese (fst k) (fst (snd k)))
     (d\<lparr>entries := modify k (\<lambda>r. r\<lparr>cn_text := text, row_source := source, updated_at := now,
        updated_by := user\<rparr>) (entries d)\<rparr>)"

definition loc_written :: "int \<Rightarrow> loc_id \<Rightarrow> string \<Rightarrow> string \<Rightarrow> string \<Rightarrow> content_db \<Rightarrow> content_db" where
  "loc_written now k text source user d =
     (let (c, f, key, lc) = k in
      audit_insert now user (locale_detail lc c f) (upsert_loc now user text source k d))"

lemma update_entry_locale_cases:
  assumes "update_entry_locale outcome now c f k text source user lc d = (d', hooks, res)"
  obtains (refused) "d' = d" "\<not> hooks" "isl res"
    | (noop) "d' = d" "\<not> hooks" "res = Inr Noop" "lc \<noteq> LocaleJapanese" "entry_text_locale d c f k lc = Inr text"
    | (zh) "d' = zh_written now (c, f, k) text source user d" "hooks" "res = Inr Updated" "lc = LocaleChinese"
        "row (entries d) (c, f, k) \<noteq> None"
    | (localized) "d' = loc_written now (c, f, k, lc) text source user d" "hooks" "res = Inr Updated"
        "lc \<noteq> LocaleChinese" "lc \<noteq> LocaleJapanese"
proof (cases "is_valid_source source \<and> row (entries d) (c, f, k) \<noteq> None")
  case False
  then show ?thesis using assms refused by (auto simp: update_entry_locale_def split: if_splits)
next
  case True
  then obtain r where r: "row (entries d) (c, f, k) = Some r" and v: "is_valid_source source" by blast
  show ?thesis
  proof (cases "lc = LocaleChinese")
    case zh_lc: True
    show ?thesis
      using assms refused noop zh unfolding update_entry_locale_def zh_lc
      by (cases outcome) (auto simp: r v zh_written_def entry_text_locale_def Let_def split: if_splits)
  next
    case False
    show ?thesis
      using assms refused noop localized False unfolding update_entry_locale_def
      by (cases outcome; cases "row (locs d) (c, f, k, lc)")
        (auto simp: r v loc_written_def entry_text_locale_def Let_def split: if_splits)
  qed
qed

section \<open>Properties\<close>

text \<open>
  Editing one entry in a locale. After an edit that is accepted, the text read back in that
  locale is the one written; every other entry and every other locale reads as before. A
  localized row gets the next revision; a write leaves exactly one audit record and is the
  only case in which the change hooks run; a refused or failed edit changes nothing.
\<close>

theorem update_entry_locale_effect:
  assumes "content_ok d"
    and "update_entry_locale outcome now c f k text source user lc d = (d', hooks, res)"
  shows "content_ok d' \<and> (hooks \<longleftrightarrow> res = Inr Updated) \<and> (\<not> hooks \<longrightarrow> d' = d) \<and>
    (\<not> isl res \<longrightarrow> lc \<noteq> LocaleJapanese \<and> entry_text_locale d' c f k lc = Inr text) \<and>
    ((c', f', k', lc') \<noteq> (c, f, k, lc) \<longrightarrow>
      entry_text_locale d' c' f' k' lc' = entry_text_locale d c' f' k' lc') \<and>
    (hooks \<and> lc \<noteq> LocaleChinese \<longrightarrow> map_option loc_revision (row (locs d') (c, f, k, lc)) =
      Some (case row (locs d) (c, f, k, lc) of None \<Rightarrow> 1 | Some l \<Rightarrow> loc_revision l + 1)) \<and>
    length (audit_log d') = length (audit_log d) + (if hooks then 1 else 0)"
  using assms(2)
proof (cases rule: update_entry_locale_cases)
  case zh
  then show ?thesis using assms(1)
    by (auto simp: zh_written_def content_ok_def entry_text_locale_def)
next
  case localized
  then show ?thesis using assms(1)
    by (auto simp: loc_written_def content_ok_def entry_text_locale_def)
qed (use assms(1) in auto)

text \<open>
  In every locale the counts of \<open>GetCategoriesLocale\<close> are those of
  \<open>GetEntriesLocale\<close>: the SQL that groups base rows and localizations without a base row
  counts exactly what the two-query listing with its set of seen keys returns, per source.
\<close>

theorem locale_counts:
  "counts_ok (get_categories_locale d lc) \<and>
   info_at (get_categories_locale d lc) c f =
     (if c \<in> set SupportedCategories \<and> get_entries_locale d c f [] lc \<noteq> [] then
        Some \<lparr>fi_name = f, fi_total = length (get_entries_locale d c f [] lc),
          fi_cn = length (get_entries_locale d c f SourceCN lc),
          fi_human = length (get_entries_locale d c f SourceHuman lc),
          fi_pinned = length (get_entries_locale d c f SourcePinned lc),
          fi_llm = length (get_entries_locale d c f SourceLLM lc),
          fi_unknown = length (filter (\<lambda>e. \<not> named_source (ek_source e)) (get_entries_locale d c f [] lc))\<rparr>
      else None)"
proof (cases "lc = LocaleChinese")
  case True
  then show ?thesis
    using counts_ok_infos
    by (simp add: get_categories_locale_def get_entries_locale_def get_entries_counts)
next
  case False
  have named: "SourceCN \<noteq> []" "SourceHuman \<noteq> []" "SourcePinned \<noteq> []" "SourceLLM \<noteq> []"
    by (simp_all add: source_names)
  have ne: "get_entries_locale d c f [] lc \<noteq> [] \<longleftrightarrow> filter (at_field c f) (localized_rows d lc) \<noteq> []"
    using listing_length(1) [OF False] by (metis length_0_conv)
  show ?thesis
    unfolding get_categories_locale_def if_not_P [OF False] info_at_count ne listing_length(1,3) [OF False]
      listing_length(2) [OF False named(1)] listing_length(2) [OF False named(2)]
      listing_length(2) [OF False named(3)] listing_length(2) [OF False named(4)]
    using counts_ok_infos by simp
qed


theorem update_entry_locale_effect_witness:
  "entry_text_locale (fst (update_entry_locale Commits 9 ''units'' ''name'' ''a'' ''B'' SourceHuman ''eva'' ''en-US''
      \<lparr>entries = [((''units'', ''name'', ''a''), \<lparr>cn_text = ''A'', row_source = SourceCN, ids_json = NoIds,
        updated_at = 7, updated_by = ''cn-sync''\<rparr>)], locs = [], audit_log = []\<rparr>)) ''units'' ''name'' ''a'' ''en-US'' =
   Inr ''B''"
proof -
  let ?d = "\<lparr>entries = [((''units'', ''name'', ''a''), \<lparr>cn_text = ''A'', row_source = SourceCN, ids_json = NoIds,
        updated_at = 7, updated_by = ''cn-sync''\<rparr>)], locs = [], audit_log = []\<rparr>"
  let ?run = "update_entry_locale Commits 9 ''units'' ''name'' ''a'' ''B'' SourceHuman ''eva'' ''en-US'' ?d"
  have "content_ok ?d" by (simp add: content_ok_def table_ok_def)
  moreover have "?run = (fst ?run, True, Inr Updated)"
    by (simp add: update_entry_locale_def is_valid_source_def locale_names row_def)
  ultimately show ?thesis
    using update_entry_locale_effect [of ?d Commits 9 "''units''" "''name''" "''a''" "''B''" SourceHuman "''eva''"
        "''en-US''" "fst ?run" True "Inr Updated"]
    by simp
qed

section \<open>Projections of a whole category\<close>

text \<open>What a locale other than zh-CN shows for one key.\<close>

definition localized_entry :: "content_db \<Rightarrow> string \<Rightarrow> string \<Rightarrow> string \<Rightarrow> string \<Rightarrow> entry option" where
  "localized_entry d lc c f jp =
     (case row (entries d) (c, f, jp) of
        Some r \<Rightarrow> Some (let e = full_entry d lc ((c, f, jp), r) in
          \<lparr>entry_text = ek_text e, entry_source = ek_source e, entry_ids = ek_ids e\<rparr>)
      | None \<Rightarrow> if lc = LocaleJapanese then None
          else map_option (\<lambda>l. \<lparr>entry_text = loc_text l, entry_source = loc_source l, entry_ids = []\<rparr>)
                 (row (locs d) (c, f, jp, lc)))"

lemma full_entry_key [simp]: "ek_key (full_entry d lc ((c, f, jp), r)) = jp"
  by (simp add: full_entry_def)

lemma loc_entry_sel [simp]:
  "ek_key (loc_entry ((c, f, jp, lc), l)) = jp" "ek_text (loc_entry ((c, f, jp, lc), l)) = loc_text l"
  "ek_source (loc_entry ((c, f, jp, lc), l)) = loc_source l" "ek_ids (loc_entry ((c, f, jp, lc), l)) = []"
  by (simp_all add: loc_entry_def)

lemma distinct_under:
  assumes "distinct (map fst xs)"
    and "\<And>x y. x \<in> set xs \<Longrightarrow> y \<in> set xs \<Longrightarrow> g x = g y \<Longrightarrow> fst x = fst y"
  shows "distinct (map g xs)"
proof -
  have "distinct xs" "inj_on fst (set xs)" using assms(1) unfolding distinct_map by auto
  moreover have "inj_on g (set xs)"
    using assms(2) \<open>inj_on fst (set xs)\<close> by (meson inj_on_def)
  ultimately show ?thesis unfolding distinct_map by blast
qed

lemma listing_keys:
  assumes "content_ok d" "lc \<noteq> LocaleChinese"
  shows "distinct (map ek_key (get_entries_locale d c f [] lc))"
proof -
  have b: "distinct (map fst (base_rows d c f))" "distinct (map fst (orphan_rows d lc c f))"
    using assms(1) by (auto simp: content_ok_def table_ok_def base_rows_def orphan_rows_def distinct_map_filter)
  have "distinct (map ek_key (map (full_entry d lc) (base_rows d c f)))"
    unfolding map_map by (rule distinct_under [OF b(1)]) (auto simp: base_rows_def)
  moreover have "distinct (map ek_key (map loc_entry (orphan_rows d lc c f)))"
    unfolding map_map by (rule distinct_under [OF b(2)]) (auto simp: orphan_rows_def)
  moreover have "row (entries d) (c, f, jp) \<noteq> None" if "jp \<in> ek_key ` full_entry d lc ` set (base_rows d c f)" for jp
  proof -
    from that obtain r where "((c, f, jp), r) \<in> set (entries d)" by (auto simp: base_rows_def)
    then show ?thesis unfolding row_None_iff by force
  qed
  moreover have "row (entries d) (c, f, jp) = None" if "jp \<in> ek_key ` loc_entry ` set (orphan_rows d lc c f)" for jp
    using that by (auto simp: orphan_rows_def)
  ultimately have "distinct (map ek_key (map (full_entry d lc) (base_rows d c f)) @
      map ek_key (map loc_entry (orphan_rows d lc c f)))"
    unfolding distinct_append set_map by blast
  with \<open>distinct (map ek_key (map (full_entry d lc) _))\<close> show ?thesis
    by (simp add: get_entries_locale_eq [OF assms(2)] image_image)
qed

lemma listing_at:
  assumes "content_ok d" "lc \<noteq> LocaleChinese"
  shows "row (fold (\<lambda>e m. put (ek_key e) \<lparr>entry_text = ek_text e, entry_source = ek_source e,
      entry_ids = ek_ids e\<rparr> m) (get_entries_locale d c f [] lc) []) jp = localized_entry d lc c f jp" (is "row (fold ?p ?es []) jp = _")
proof -
  let ?v = "\<lambda>e. \<lparr>entry_text = ek_text e, entry_source = ek_source e, entry_ids = ek_ids e\<rparr>"
  have mem: "row (fold ?p ?es []) (ek_key e) = Some (?v e)" if "e \<in> set ?es" for e
    using tbl.lookup_writes_mem [OF listing_keys [OF assms] that, of ?v "[]"] .
  have base: "(\<exists>e \<in> set ?es. e = full_entry d lc ((c, f, jp), r))" if "row (entries d) (c, f, jp) = Some r" for r
    using row_in [OF that] by (auto simp: get_entries_locale_eq [OF assms(2)] base_rows_def intro!: disjI1)
  have orphan: "loc_entry ((c, f, jp, lc), l) \<in> set ?es"
    if "row (entries d) (c, f, jp) = None" "row (locs d) (c, f, jp, lc) = Some l" "lc \<noteq> LocaleJapanese" for l
    using row_in [OF that(2)] that by (auto simp: get_entries_locale_eq [OF assms(2)] orphan_rows_def intro!: disjI2)
  have none: "jp \<notin> ek_key ` set ?es" if "localized_entry d lc c f jp = None"
    using that
    by (auto simp: get_entries_locale_eq [OF assms(2)] localized_entry_def base_rows_def orphan_rows_def
        row_None_iff image_iff split: option.splits if_splits)
  show ?thesis
  proof (cases "row (entries d) (c, f, jp)")
    case (Some r)
    with base mem show ?thesis by (fastforce simp: localized_entry_def Let_def)
  next
    case None
    show ?thesis
    proof (cases "localized_entry d lc c f jp")
      case None
      then show ?thesis using tbl.lookup_writes_other [OF none, of ?v "[]"] by simp
    next
      case (Some e)
      then obtain l where "row (locs d) (c, f, jp, lc) = Some l" "lc \<noteq> LocaleJapanese"
        using None by (auto simp: localized_entry_def split: if_splits)
      with mem [OF orphan [OF None this]] None show ?thesis by (simp add: localized_entry_def)
    qed
  qed
qed


lemma field_of_entry:
  assumes "lc \<noteq> LocaleChinese" "localized_entry d lc c f jp \<noteq> None"
  shows "f \<in> set (map (\<lambda>((_, f, _), _). f) (filter (\<lambda>((c', _, _), _). c' = c) (entries d)) @
           map (\<lambda>((_, f, _, _), _). f) (filter (\<lambda>((c', _, _, lc'), _). c' = c \<and> lc' = lc) (locs d)))"
proof (cases "row (entries d) (c, f, jp)")
  case (Some r)
  from row_in [OF this] show ?thesis by force
next
  case None
  then obtain l where "row (locs d) (c, f, jp, lc) = Some l"
    using assms(2) by (auto simp: localized_entry_def split: if_splits)
  from row_in [OF this] show ?thesis by force
qed

lemma category_data_locale_at:
  assumes "content_ok d" "lc \<noteq> LocaleChinese"
  shows "cat_at (category_data_locale d c lc) f jp = localized_entry d lc c f jp"
proof -
  let ?fs = "map (\<lambda>((_, f, _), _). f) (filter (\<lambda>((c', _, _), _). c' = c) (entries d)) @
           map (\<lambda>((_, f, _, _), _). f) (filter (\<lambda>((c', _, _, lc'), _). c' = c \<and> lc' = lc) (locs d))"
  let ?in = "\<lambda>f. fold (\<lambda>e m. put (ek_key e) \<lparr>entry_text = ek_text e, entry_source = ek_source e,
      entry_ids = ek_ids e\<rparr> m) (get_entries_locale d c f [] lc) []"
  let ?cat = "fold (\<lambda>f. put ((\<lambda>f. f) f) (?in f)) (sort (remdups ?fs)) []"
  have cat: "category_data_locale d c lc = ?cat"
    using assms(2) by (simp add: category_data_locale_def)
  show ?thesis
  proof (cases "f \<in> set ?fs")
    case True
    then have "row ?cat f = Some (?in f)"
      by (intro tbl.lookup_writes_mem [where f = "\<lambda>f. f"]) simp_all
    then show ?thesis
      using listing_at [OF assms, of c f jp] unfolding cat by (simp add: cat_at_def field_map_def row_def)
  next
    case False
    then have "row ?cat f = None"
      by (subst tbl.lookup_writes_other [where f = "\<lambda>f. f"]) simp_all
    moreover have "localized_entry d lc c f jp = None" using field_of_entry [OF assms(2)] False by blast
    ultimately show ?thesis unfolding cat by (simp add: cat_at_def field_map_def row_def)
  qed
qed

definition filed_at :: "category_map gomap \<Rightarrow> entry_id \<Rightarrow> entry option" where
  "filed_at m k = (let (c, f, jp) = k in cat_at (field_map m c) f jp)"

lemma filed_at_file [simp]: "filed_at (file_entry k e m) k' = (if k' = k then Some e else filed_at m k')"
  by (cases k; cases k') (auto simp: filed_at_def file_entry_def Let_def)

interpretation filing: rowwise filed_at "\<lambda>(k, e). file_entry k e" fst "\<lambda>(_, e) _. Some e"
  by unfold_locales auto

lemma search_split:
  "fold (\<lambda>(base, k, zh, en) (chinese, english).
      (if base then file_entry k zh chinese else chinese, file_entry k en english)) rows (m, n) =
   (fold (\<lambda>(k, e). file_entry k e) (map (\<lambda>(_, k, zh, _). (k, zh)) (filter fst rows)) m,
    fold (\<lambda>(k, e). file_entry k e) (map (\<lambda>(_, k, _, en). (k, en)) rows) n)"
  by (induction rows arbitrary: m n) auto

lemma empty_maps: "filed_at (fold (\<lambda>c m. put c [] m) cs []) k = None"
proof -
  have "\<forall>k. filed_at m k = None \<Longrightarrow> filed_at (fold (\<lambda>c m. put c [] m) cs m) k = None" for m
  proof (induction cs arbitrary: m)
    case (Cons c cs)
    have "\<forall>k. filed_at (put c [] m) k = None"
      using Cons.prems by (auto simp: filed_at_def)
    with Cons.IH show ?case by simp
  next
    case Nil
    then have "filed_at m k = None" by blast
    then show ?case by simp
  qed
  moreover have "\<forall>k. filed_at [] k = None" by (simp add: filed_at_def cat_at_def field_map_def)
  ultimately show ?thesis by blast
qed

lemma search_row_in:
  assumes "content_ok d"
  shows "(b, (c, f, jp), zh, en) \<in> set (search_rows d cats) \<longleftrightarrow> c \<in> set cats \<and>
    localized_entry d LocaleEnglish c f jp = Some en \<and> b = (row (entries d) (c, f, jp) \<noteq> None) \<and>
    zh = (case row (entries d) (c, f, jp) of None \<Rightarrow> \<lparr>entry_text = [], entry_source = ''unknown'', entry_ids = []\<rparr>
      | Some r \<Rightarrow> row_entry r)" (is "?l \<longleftrightarrow> ?r")
proof -
  have e: "(k, r) \<in> set (entries d) \<longleftrightarrow> row (entries d) k = Some r" for k r
    using assms in_row row_in unfolding content_ok_def by metis
  have l: "(k, r) \<in> set (locs d) \<longleftrightarrow> row (locs d) k = Some r" for k r
    using assms in_row row_in unfolding content_ok_def by metis
  have re: "row_entry r = \<lparr>entry_text = cn_text r, entry_source = row_source r, entry_ids = entry_ids (row_entry r)\<rparr>" for r
    by (simp add: row_entry_def)
  have full: "localized_entry d LocaleEnglish c f jp =
      Some (case row (locs d) (c, f, jp, LocaleEnglish) of
            None \<Rightarrow> \<lparr>entry_text = [], entry_source = ''unknown'', entry_ids = entry_ids (row_entry r)\<rparr>
          | Some l \<Rightarrow> \<lparr>entry_text = loc_text l, entry_source = loc_source l, entry_ids = entry_ids (row_entry r)\<rparr>)"
    if "row (entries d) (c, f, jp) = Some r" for r
    using that by (auto simp: localized_entry_def full_entry_def base_entry_def row_entry_def Let_def
        SourceUnknown_def split: option.split)
  show ?thesis
  proof (cases "row (entries d) (c, f, jp)")
    case (Some r)
    have "?l \<longleftrightarrow> c \<in> set cats \<and> b \<and> zh = row_entry r \<and> Some en = localized_entry d LocaleEnglish c f jp"
      unfolding search_rows_def full [OF Some]
      using Some re [of r] by (auto simp: e l image_iff split: option.splits)
    then show ?thesis using Some by auto
  next
    case None
    have "?l \<longleftrightarrow> c \<in> set cats \<and> \<not> b \<and> zh = \<lparr>entry_text = [], entry_source = ''unknown'', entry_ids = []\<rparr> \<and>
        Some en = localized_entry d LocaleEnglish c f jp"
      unfolding search_rows_def localized_entry_def
      using None by (cases "row (locs d) (c, f, jp, LocaleEnglish)") (auto simp: e l image_iff)
    then show ?thesis using None by auto
  qed
qed


lemma search_keys:
  assumes "content_ok d"
  shows "distinct (map (\<lambda>(_, k, _, _). k) (search_rows d cats))"
proof -
  let ?b = "filter (\<lambda>((c, _, _), _). c \<in> set cats) (entries d)"
  let ?o = "filter (\<lambda>((c, f, jp, lc), _). lc = LocaleEnglish \<and> row (entries d) (c, f, jp) = None \<and> c \<in> set cats)
      (locs d)"
  have ks: "map (\<lambda>(_, k, _, _). k) (search_rows d cats) =
      map fst ?b @ map (\<lambda>((c, f, jp, _), _). (c, f, jp)) ?o"
    by (auto simp: search_rows_def)
  have d: "distinct (map fst ?b)" "distinct (map fst ?o)"
    using assms by (auto simp: content_ok_def table_ok_def distinct_map_filter)
  have "distinct (map (\<lambda>((c, f, jp, _), _). (c, f, jp)) ?o)"
    by (rule distinct_under [OF d(2)]) auto
  moreover have "set (map fst ?b) \<inter> set (map (\<lambda>((c, f, jp, _), _). (c, f, jp)) ?o) = {}"
    by (force simp: row_None_iff)
  ultimately show ?thesis unfolding ks distinct_append using d(1) by blast
qed

lemma no_key: "\<nexists>x. (k, x) \<in> set xs \<Longrightarrow> k \<notin> fst ` set xs"
  by force

text \<open>
  The search index sees what the console sees. For every requested category the one
  statement of \<open>SearchTranslationSnapshotContext\<close> gives the Chinese projection
  \<open>CategoryData\<close> gives and the English projection \<open>CategoryDataLocale\<close> gives, entry by entry
  with text, source and ids, whatever order the rows come in; categories not requested are
  empty.
\<close>

theorem search_snapshot_agrees:
  assumes "content_ok d" "search_translation_snapshot d cats = (zh, en)"
  shows "cat_at (field_map zh c) f jp =
      (if c \<in> set cats then cat_at (category_data (entries d) c) f jp else None) \<and>
    cat_at (field_map en c) f jp =
      (if c \<in> set cats then cat_at (category_data_locale d c LocaleEnglish) f jp else None)"
proof (cases "cats = []")
  case True
  then show ?thesis using assms(2) by (auto simp: search_translation_snapshot_def field_map_def)
next
  case False
  let ?rows = "search_rows d cats" and ?e = "fold (\<lambda>c m. put c [] m) cats ([] :: category_map gomap)"
  let ?zs = "map (\<lambda>(_, k, zh, _). (k, zh)) (filter fst ?rows)" and ?es = "map (\<lambda>(_, k, _, en). (k, en)) ?rows"
  have zh: "zh = fold (\<lambda>(k, e). file_entry k e) ?zs ?e" and en: "en = fold (\<lambda>(k, e). file_entry k e) ?es ?e"
    using assms(2) False by (simp_all add: search_translation_snapshot_def search_split Let_def)
  have dist: "distinct (map fst ?es)" "distinct (map fst ?zs)"
    using search_keys [OF assms(1), of cats] distinct_map_filter [OF search_keys [OF assms(1)], of fst cats]
    by (simp_all add: comp_def case_prod_unfold)
  have mem: "filed_at (fold (\<lambda>(k, e). file_entry k e) xs ?e) k = Some x"
    if "(k, x) \<in> set xs" "distinct (map fst xs)" for k x xs
    using filing.loop_mem [OF that(2,1), of ?e] by simp
  have out: "filed_at (fold (\<lambda>(k, e). file_entry k e) xs ?e) k = None" if "k \<notin> fst ` set xs" for k xs
    using filing.loop_other [OF that, of ?e] by (simp add: empty_maps)
  have zin: "((c, f, jp), x) \<in> set ?zs \<longleftrightarrow>
      c \<in> set cats \<and> map_option row_entry (row (entries d) (c, f, jp)) = Some x" for x
  proof -
    have "((c, f, jp), x) \<in> set ?zs \<longleftrightarrow> (\<exists>b y. (b, (c, f, jp), x, y) \<in> set ?rows \<and> b)" by force
    then show ?thesis unfolding search_row_in [OF assms(1)]
      by (cases "row (entries d) (c, f, jp)") (auto simp: localized_entry_def)
  qed
  have ein: "((c, f, jp), x) \<in> set ?es \<longleftrightarrow>
      c \<in> set cats \<and> localized_entry d LocaleEnglish c f jp = Some x" for x
  proof -
    have "((c, f, jp), x) \<in> set ?es \<longleftrightarrow> (\<exists>b y. (b, (c, f, jp), y, x) \<in> set ?rows)" by force
    then show ?thesis unfolding search_row_in [OF assms(1)] by blast
  qed
  have "filed_at zh (c, f, jp) = (if c \<in> set cats then map_option row_entry (row (entries d) (c, f, jp)) else None)"
  proof (cases "\<exists>x. ((c, f, jp), x) \<in> set ?zs")
    case True
    then show ?thesis using mem [OF _ dist(2)] zin unfolding zh by metis
  next
    case False
    then have "(c, f, jp) \<notin> fst ` set ?zs" by (rule no_key)
    moreover have "c \<in> set cats \<Longrightarrow> map_option row_entry (row (entries d) (c, f, jp)) = None"
      using False zin by (metis not_None_eq)
    ultimately show ?thesis using out unfolding zh by simp
  qed
  moreover have "filed_at en (c, f, jp) = (if c \<in> set cats then localized_entry d LocaleEnglish c f jp else None)"
  proof (cases "\<exists>x. ((c, f, jp), x) \<in> set ?es")
    case True
    then show ?thesis using mem [OF _ dist(1)] ein unfolding en by metis
  next
    case False
    then have "(c, f, jp) \<notin> fst ` set ?es" by (rule no_key)
    moreover have "c \<in> set cats \<Longrightarrow> localized_entry d LocaleEnglish c f jp = None"
      using False ein by (metis not_None_eq)
    ultimately show ?thesis using out unfolding en by simp
  qed
  ultimately show ?thesis
    using assms(1) by (simp add: filed_at_def category_data_at content_ok_def category_data_locale_at [OF assms(1)])
qed

theorem search_snapshot_agrees_witness:
  "cat_at (field_map (snd (search_translation_snapshot \<lparr>entries = [], locs =
      [((''units'', ''name'', ''a'', ''en-US''), \<lparr>loc_text = ''B'', loc_source = SourceHuman, loc_updated_at = 1,
         loc_updated_by = ''u'', loc_revision = 3\<rparr>)], audit_log = []\<rparr> [''units''])) ''units'') ''name'' ''a'' =
   Some \<lparr>entry_text = ''B'', entry_source = SourceHuman, entry_ids = []\<rparr>"
proof -
  let ?d = "\<lparr>entries = [], locs = [((''units'', ''name'', ''a'', ''en-US''), \<lparr>loc_text = ''B'', loc_source = SourceHuman,
      loc_updated_at = 1, loc_updated_by = ''u'', loc_revision = 3\<rparr>)], audit_log = []\<rparr>"
  have ok: "content_ok ?d" by (simp add: content_ok_def table_ok_def)
  have p: "cat_at (category_data_locale ?d ''units'' LocaleEnglish) ''name'' ''a'' =
      Some \<lparr>entry_text = ''B'', entry_source = SourceHuman, entry_ids = []\<rparr>"
    unfolding category_data_locale_at [OF ok locales_distinct(3)]
    by (simp add: localized_entry_def row_def locale_names)
  from search_snapshot_agrees [OF ok prod.collapse [symmetric], of "[''units'']" "''units''" "''name''" "''a''"]
  show ?thesis
    by (simp add: p)
qed

end
