(* ===== verification/CategoryBatch.thy ===== *)
theory CategoryBatch
  imports EntryLocale GoConv "HOL-Library.Product_Lexorder"
begin

text \<open>
  Batch edits of a category (\<open>store/category_batch.go\<close>): the snapshot of one locale with its
  opaque revision, and the compare-and-swap update of a set of entries against that
  revision. The digest of \<open>crypto/sha256\<close> is the argument \<open>sha256\<close>.
\<close>

section \<open>Snapshots\<close>

record snapshot_row =
  sr_field :: string
  sr_key :: string
  sr_text :: string
  sr_source :: string
  sr_ids :: ids_col

definition identity :: "string \<Rightarrow> string \<Rightarrow> string" where
  "identity field key = field @ [CHR 0x00] @ key"

text \<open>The rows of the query of one locale, ordered by field and key.\<close>

definition query_row :: "content_db \<Rightarrow> string \<Rightarrow> entry_id \<times> entry_row \<Rightarrow> snapshot_row" where
  "query_row d lc kr =
     (let ((c, f, jp), r) = kr in
      if lc = LocaleChinese then
        \<lparr>sr_field = f, sr_key = jp, sr_text = cn_text r, sr_source = row_source r, sr_ids = ids_json r\<rparr>
      else if lc = LocaleEnglish then
        (case row (locs d) (c, f, jp, lc) of
           None \<Rightarrow> \<lparr>sr_field = f, sr_key = jp, sr_text = [], sr_source = ''unknown'', sr_ids = ids_json r\<rparr>
         | Some l \<Rightarrow> \<lparr>sr_field = f, sr_key = jp, sr_text = loc_text l, sr_source = loc_source l, sr_ids = ids_json r\<rparr>)
      else \<lparr>sr_field = f, sr_key = jp, sr_text = jp, sr_source = ''unknown'', sr_ids = ids_json r\<rparr>)"

definition snapshot_rows :: "content_db \<Rightarrow> string \<Rightarrow> string \<Rightarrow> snapshot_row list" where
  "snapshot_rows d category lc =
     sort_key (\<lambda>r. (sr_field r, sr_key r))
       (map (query_row d lc) (filter (\<lambda>((c, _, _), _). c = category) (entries d)))"

definition be64 :: "nat \<Rightarrow> nat list" where
  "be64 n = map (\<lambda>i. n div 256 ^ i mod 256) [7, 6, 5, 4, 3, 2, 1, 0]"

definition write_revision_part :: "nat list \<Rightarrow> string \<Rightarrow> nat list" where
  "write_revision_part written value = written @ be64 (length value) @ map byte value"

definition write_row :: "nat list \<Rightarrow> snapshot_row \<Rightarrow> nat list" where
  "write_row written r =
     write_revision_part (write_revision_part (write_revision_part (write_revision_part
       (write_revision_part written (sr_field r)) (sr_key r)) (sr_text r)) (sr_source r)) (ids_text (sr_ids r))"

text \<open>The loop over the rows: snapshot fields, rows by identity, bytes written to the digest.\<close>

fun snapshot_loop ::
  "snapshot_row list \<Rightarrow> entry_with_key list gomap \<Rightarrow> (string, snapshot_row) table \<Rightarrow> nat list \<Rightarrow>
   store_error + (entry_with_key list gomap \<times> (string, snapshot_row) table \<times> nat list)" where
  "snapshot_loop [] fds by_identity written = Inr (fds, by_identity, written)"
| "snapshot_loop (r # rows) fds by_identity written =
     (if ids_text (sr_ids r) \<noteq> [] \<and> unmarshal_fails (sr_ids r) then Inl BadIds
      else let e = \<lparr>ek_key = sr_key r, ek_text = sr_text r, ek_source = sr_source r,
            ek_ids = (if ids_text (sr_ids r) \<noteq> [] then unmarshal_ids (sr_ids r) else []), ek_updated_at = 0\<rparr>
        in snapshot_loop rows (put (sr_field r) (field_map fds (sr_field r) @ [e]) fds)
             (put (identity (sr_field r) (sr_key r)) r by_identity) (write_row written r))"

definition category_snapshot_from ::
  "(nat list \<Rightarrow> nat list) \<Rightarrow> content_db \<Rightarrow> string \<Rightarrow> string \<Rightarrow>
   store_error + (category_locale_snapshot \<times> (string, snapshot_row) table)" where
  "category_snapshot_from sha256 d category lc =
     (if lc \<noteq> LocaleChinese \<and> lc \<noteq> LocaleEnglish \<and> lc \<noteq> LocaleJapanese then Inl (UnsupportedLocale lc)
      else case snapshot_loop (snapshot_rows d category lc) [] []
                (write_revision_part (write_revision_part [] category) lc) of
        Inl err \<Rightarrow> Inl err
      | Inr (fds, by_identity, written) \<Rightarrow>
          Inr (\<lparr>snap_category = category, snap_locale = lc, snap_revision = b64_encode (sha256 written),
                snap_fields = fds\<rparr>, by_identity))"

definition category_snapshot_locale ::
  "tx_outcome \<Rightarrow> (nat list \<Rightarrow> nat list) \<Rightarrow> content_db \<Rightarrow> string \<Rightarrow> string \<Rightarrow>
   store_error + category_locale_snapshot" where
  "category_snapshot_locale outcome sha256 d category lc =
     (if outcome = BeginFails then Inl BeginError
      else case category_snapshot_from sha256 d category lc of
        Inl err \<Rightarrow> Inl err
      | Inr (snap, _) \<Rightarrow> if outcome = CommitFails then Inl CommitError else Inr snap)"

section \<open>Batch updates\<close>

record category_batch_result =
  br_snapshot :: category_locale_snapshot
  br_changed :: "category_entry_update list"

fun check_updates ::
  "(string, snapshot_row) table \<Rightarrow> string set \<Rightarrow> category_entry_update list \<Rightarrow> bool" where
  "check_updates by_identity seen [] = True"
| "check_updates by_identity seen (u # us) =
     (let i = identity (u_field u) (u_key u) in
      if u_field u = [] \<or> u_key u = [] \<or> i \<in> seen \<or> \<not> is_valid_source (u_source u) then False
      else if row by_identity i = None then False
      else check_updates by_identity (insert i seen) us)"

definition batch_detail :: "string \<Rightarrow> string \<Rightarrow> string \<Rightarrow> string" where
  "batch_detail lc category field = locale_detail lc category field @ '' batch=true''"

fun apply_updates ::
  "int \<Rightarrow> string \<Rightarrow> string \<Rightarrow> string \<Rightarrow> (string, snapshot_row) table \<Rightarrow> category_entry_update list \<Rightarrow>
   content_db \<Rightarrow> category_entry_update list \<Rightarrow> store_error + (content_db \<times> category_entry_update list)" where
  "apply_updates now user category lc by_identity [] d changed = Inr (d, changed)"
| "apply_updates now user category lc by_identity (u # us) d changed =
     (case row by_identity (identity (u_field u) (u_key u)) of
        Some r \<Rightarrow>
          if sr_text r = u_text u \<and> sr_source r = u_source u
          then apply_updates now user category lc by_identity us d changed
          else if lc = LocaleChinese then
            (if row (entries d) (category, u_field u, u_key u) = None then Inl EntryIdentityConflict
             else apply_updates now user category lc by_identity us
               (audit_insert now user (batch_detail lc category (u_field u))
                 (d\<lparr>entries := modify (category, u_field u, u_key u) (\<lambda>r. r\<lparr>cn_text := u_text u,
                    row_source := u_source u, updated_at := now, updated_by := user\<rparr>) (entries d)\<rparr>))
               (changed @ [u]))
          else apply_updates now user category lc by_identity us
               (audit_insert now user (batch_detail lc category (u_field u))
                 (upsert_loc now user (u_text u) (u_source u) (category, u_field u, u_key u, lc) d))
               (changed @ [u])
      | None \<Rightarrow> Inl EntryIdentityConflict)"

text \<open>
  The tables afterwards, whether the change hooks run, and the result; a revision conflict
  carries the current snapshot.
\<close>

definition update_category_locale ::
  "tx_outcome \<Rightarrow> (nat list \<Rightarrow> nat list) \<Rightarrow> int \<Rightarrow> string \<Rightarrow> string \<Rightarrow> string \<Rightarrow> string \<Rightarrow>
   category_entry_update list \<Rightarrow> content_db \<Rightarrow>
   content_db \<times> bool \<times> (store_error \<times> category_locale_snapshot option + category_batch_result)" where
  "update_category_locale outcome sha256 now category lc base_revision user updates d =
     (if lc = LocaleJapanese then (d, False, Inl (ReadOnlyLocale, None))
      else if outcome = BeginFails then (d, False, Inl (BeginError, None))
      else case category_snapshot_from sha256 d category lc of
        Inl err \<Rightarrow> (d, False, Inl (err, None))
      | Inr (current, by_identity) \<Rightarrow>
          if base_revision = [] \<or> snap_revision current \<noteq> base_revision
          then (d, False, Inl (CategoryRevisionConflict, Some current))
          else if \<not> check_updates by_identity {} updates
          then (d, False, Inl (EntryIdentityConflict, None))
          else (case apply_updates now user category lc by_identity updates d [] of
            Inl err \<Rightarrow> (d, False, Inl (err, None))
          | Inr (d', changed) \<Rightarrow>
              (case (if changed \<noteq> [] then map_sum (\<lambda>e. e) fst (category_snapshot_from sha256 d' category lc)
                     else Inr current) of
                 Inl err \<Rightarrow> (d, False, Inl (err, None))
               | Inr updated \<Rightarrow>
                   if outcome = CommitFails then (d, False, Inl (CommitError, None))
                   else (d', changed \<noteq> [], Inr \<lparr>br_snapshot = updated, br_changed = changed\<rparr>))))"


section \<open>The revision\<close>

lemma digits_mod:
  "(\<And>i. i < k \<Longrightarrow> (m :: nat) div 256 ^ i mod 256 = n div 256 ^ i mod 256) \<Longrightarrow> m mod 256 ^ k = n mod 256 ^ k"
proof (induction k)
  case (Suc k)
  have "x mod 256 ^ Suc k = 256 ^ k * (x div 256 ^ k mod 256) + x mod 256 ^ k" for x :: nat
    by (simp add: mod_mult2_eq mult.commute [of 256])
  then show ?case using Suc by simp
qed simp

lemma be64_inj: "m < 2 ^ 64 \<Longrightarrow> n < 2 ^ 64 \<Longrightarrow> be64 m = be64 n \<Longrightarrow> m = n"
proof -
  assume mn: "m < 2 ^ 64" "n < 2 ^ 64" "be64 m = be64 n"
  have "m div 256 ^ i mod 256 = n div 256 ^ i mod 256" if "i < 8" for i
  proof -
    have "i \<in> set [7, 6, 5, 4, 3, 2, 1, 0]" using that by auto
    then show ?thesis using mn(3) unfolding be64_def map_eq_conv by blast
  qed
  then have "m mod 256 ^ 8 = n mod 256 ^ 8" by (rule digits_mod)
  then show ?thesis using mn(1,2) by simp
qed

lemma be64_length [simp]: "length (be64 n) = 8"
  by (simp add: be64_def)

lemma be64_ne [simp]: "be64 n \<noteq> []"
  by (simp add: be64_def)

definition small :: "string \<Rightarrow> bool" where
  "small s \<longleftrightarrow> length s < 2 ^ 64"

definition parts_bytes :: "string list \<Rightarrow> nat list" where
  "parts_bytes ps = concat (map (\<lambda>v. be64 (length v) @ map byte v) ps)"

lemma parts_bytes_simps [simp]:
  "parts_bytes [] = []" "parts_bytes (p # ps) = be64 (length p) @ map byte p @ parts_bytes ps"
  "parts_bytes (ps @ qs) = parts_bytes ps @ parts_bytes qs"
  by (simp_all add: parts_bytes_def)

lemma map_byte_inj: "map byte s = map byte t \<Longrightarrow> s = t"
  by (metis list.inj_map_strong of_char_eq_iff)

lemma parts_bytes_inj:
  "list_all small ps \<Longrightarrow> list_all small qs \<Longrightarrow> parts_bytes ps = parts_bytes qs \<Longrightarrow> ps = qs"
proof (induction ps arbitrary: qs)
  case Nil
  show ?case
  proof (cases qs)
    case (Cons q qs')
    then have "length (parts_bytes qs) \<ge> 8" by simp
    with Nil(3) show ?thesis by simp
  qed simp
next
  case (Cons p ps)
  show ?case
  proof (cases qs)
    case Nil
    then have "length (parts_bytes (p # ps)) = 0" using Cons.prems(3) by simp
    then show ?thesis by simp
  next
    case q: (Cons q qs')
    have eq: "be64 (length p) @ map byte p @ parts_bytes ps = be64 (length q) @ map byte q @ parts_bytes qs'"
      using Cons.prems(3) q by simp
    then have "be64 (length p) = be64 (length q)" by simp
    then have "length p = length q"
      using Cons.prems(1,2) q by (intro be64_inj) (simp_all add: small_def)
    with eq have "map byte p = map byte q" "parts_bytes ps = parts_bytes qs'" by simp_all
    then show ?thesis using Cons.IH [of qs'] Cons.prems(1,2) q map_byte_inj by simp
  qed
qed

definition row_parts :: "snapshot_row \<Rightarrow> string list" where
  "row_parts r = [sr_field r, sr_key r, sr_text r, sr_source r, ids_text (sr_ids r)]"

lemma write_part: "write_revision_part w v = w @ parts_bytes [v]"
  by (simp add: write_revision_part_def)

lemma write_row: "write_row w r = w @ parts_bytes (row_parts r)"
  by (simp add: write_row_def write_part row_parts_def)

lemma row_parts_concat_inj: "concat (map row_parts rs) = concat (map row_parts qs) \<Longrightarrow> map row_parts rs = map row_parts qs"
proof (induction rs arbitrary: qs)
  case Nil
  then show ?case by (cases qs) (simp_all add: row_parts_def)
next
  case (Cons r rs)
  then show ?case by (cases qs) (auto simp: row_parts_def)
qed

text \<open>The bytes hashed for a list of rows.\<close>

definition revision_preimage :: "string \<Rightarrow> string \<Rightarrow> snapshot_row list \<Rightarrow> nat list" where
  "revision_preimage category lc rows = parts_bytes (category # lc # concat (map row_parts rows))"

definition rows_small :: "snapshot_row list \<Rightarrow> bool" where
  "rows_small rows \<longleftrightarrow> list_all (\<lambda>r. list_all small (row_parts r)) rows"

lemma revision_preimage_inj:
  assumes "revision_preimage c lc rows = revision_preimage c' lc' rows'"
    and "small c" "small lc" "rows_small rows" "small c'" "small lc'" "rows_small rows'"
  shows "c = c' \<and> lc = lc' \<and> map row_parts rows = map row_parts rows'"
proof -
  have "list_all small (c # lc # concat (map row_parts rows))" "list_all small (c' # lc' # concat (map row_parts rows'))"
    using assms(2-) by (simp_all add: rows_small_def list_all_iff)
  from parts_bytes_inj [OF this] assms(1) have "c # lc # concat (map row_parts rows) = c' # lc' # concat (map row_parts rows')"
    by (simp only: revision_preimage_def)
  then show ?thesis using row_parts_concat_inj by simp
qed

lemma snapshot_loop_eq:
  "snapshot_loop rows fds by_id w =
   (if list_ex (\<lambda>r. ids_text (sr_ids r) \<noteq> [] \<and> unmarshal_fails (sr_ids r)) rows then Inl BadIds
    else Inr (fold (\<lambda>r fds. put (sr_field r) (field_map fds (sr_field r) @ [\<lparr>ek_key = sr_key r, ek_text = sr_text r,
        ek_source = sr_source r, ek_ids = (if ids_text (sr_ids r) \<noteq> [] then unmarshal_ids (sr_ids r) else []),
        ek_updated_at = 0\<rparr>]) fds) rows fds,
      fold (\<lambda>r. put (identity (sr_field r) (sr_key r)) r) rows by_id,
      w @ parts_bytes (concat (map row_parts rows))))"
  by (induction rows arbitrary: fds by_id w) (auto simp: write_row Let_def)

lemma snapshot_from_Inr:
  assumes "category_snapshot_from sha256 d c lc = Inr (snap, by_id)"
  shows "snap_revision snap = b64_encode (sha256 (revision_preimage c lc (snapshot_rows d c lc)))"
    and "by_id = fold (\<lambda>r. put (identity (sr_field r) (sr_key r)) r) (snapshot_rows d c lc) []"
    and "lc = LocaleChinese \<or> lc = LocaleEnglish \<or> lc = LocaleJapanese"
  using assms
  by (auto simp: category_snapshot_from_def snapshot_loop_eq write_part revision_preimage_def
      split: if_splits)


section \<open>The rows by identity\<close>

text \<open>No field of a category or of a list of updates holds a NUL, so identities are unambiguous.\<close>

definition nul_free :: "string \<Rightarrow> bool" where
  "nul_free s \<longleftrightarrow> CHR 0x00 \<notin> set s"

definition fields_nul_free :: "content_db \<Rightarrow> string \<Rightarrow> bool" where
  "fields_nul_free d category \<longleftrightarrow> list_all (\<lambda>((c, f, _), _). c = category \<longrightarrow> nul_free f) (entries d)"

lemma identity_inj: "nul_free f \<Longrightarrow> nul_free f' \<Longrightarrow> identity f k = identity f' k' \<longleftrightarrow> f = f' \<and> k = k'"
proof (induction f arbitrary: f')
  case Nil
  then show ?case by (cases f') (auto simp: identity_def nul_free_def)
next
  case (Cons x f)
  then show ?case by (cases f') (auto simp: identity_def nul_free_def)
qed

text \<open>The text and source a locale shows for one entry.\<close>

definition shown :: "content_db \<Rightarrow> string \<times> string \<times> string \<times> string \<Rightarrow> (string \<times> string) option" where
  "shown d k = (let (c, lc, f, jp) = k in
     map_option (\<lambda>r. let q = query_row d lc ((c, f, jp), r) in (sr_text q, sr_source q)) (row (entries d) (c, f, jp)))"

lemma query_row_key [simp]:
  "sr_field (query_row d lc ((c, f, jp), r)) = f" "sr_key (query_row d lc ((c, f, jp), r)) = jp"
  "sr_ids (query_row d lc ((c, f, jp), r)) = ids_json r"
  by (simp_all add: query_row_def split: option.split)

lemma snapshot_row_in:
  "content_ok d \<Longrightarrow> q \<in> set (snapshot_rows d c lc) \<longleftrightarrow>
   (\<exists>r. row (entries d) (c, sr_field q, sr_key q) = Some r \<and> q = query_row d lc ((c, sr_field q, sr_key q), r))"
  (is "?ok \<Longrightarrow> ?l \<longleftrightarrow> ?r")
proof -
  assume ok: ?ok
  have e: "(k, r) \<in> set (entries d) \<longleftrightarrow> row (entries d) k = Some r" for k r
    using ok in_row row_in unfolding content_ok_def by metis
  have "?l \<longleftrightarrow> (\<exists>f jp r. ((c, f, jp), r) \<in> set (entries d) \<and> q = query_row d lc ((c, f, jp), r))"
    by (force simp: snapshot_rows_def)
  then show ?thesis unfolding e by (metis query_row_key(1,2))
qed

lemma snapshot_keys:
  assumes "content_ok d"
  shows "distinct (map (\<lambda>q. (sr_field q, sr_key q)) (snapshot_rows d c lc))"
proof -
  let ?es = "filter (\<lambda>((c', _, _), _). c' = c) (entries d)"
  have "distinct (map fst ?es)" using assms by (simp add: content_ok_def table_ok_def distinct_map_filter)
  then have "distinct (map (\<lambda>q. (sr_field q, sr_key q)) (map (query_row d lc) ?es))"
    unfolding map_map by (rule distinct_under) auto
  moreover have "mset (map (\<lambda>q. (sr_field q, sr_key q)) (snapshot_rows d c lc)) =
      mset (map (\<lambda>q. (sr_field q, sr_key q)) (map (query_row d lc) ?es))"
    unfolding snapshot_rows_def mset_map mset_sort ..
  ultimately show ?thesis using mset_eq_imp_distinct_iff by blast
qed

lemma by_identity_row:
  assumes ok: "content_ok d" and nf: "fields_nul_free d c" "nul_free f"
    and by_id: "by_id = fold (\<lambda>r. put (identity (sr_field r) (sr_key r)) r) (snapshot_rows d c lc) []"
  shows "row by_id (identity f k) =
    map_option (\<lambda>r. query_row d lc ((c, f, k), r)) (row (entries d) (c, f, k))"
proof -
  let ?rows = "snapshot_rows d c lc" and ?i = "\<lambda>q. identity (sr_field q) (sr_key q)"
  have nfq: "nul_free (sr_field q)" if "q \<in> set ?rows" for q
  proof -
    from that obtain r where "row (entries d) (c, sr_field q, sr_key q) = Some r"
      using snapshot_row_in [OF ok] by blast
    from row_in [OF this] nf(1) show ?thesis by (auto simp: fields_nul_free_def list_all_iff)
  qed
  have d: "distinct (map ?i ?rows)"
  proof -
    have "inj_on ?i (set ?rows)"
    proof (rule inj_onI)
      fix x y assume xy: "x \<in> set ?rows" "y \<in> set ?rows" "?i x = ?i y"
      then have "(sr_field x, sr_key x) = (sr_field y, sr_key y)" using nfq identity_inj by simp
      then show "x = y" using xy snapshot_keys [OF ok, of c lc] unfolding distinct_map inj_on_def by blast
    qed
    moreover have "distinct ?rows" using snapshot_keys [OF ok, of c lc] unfolding distinct_map by blast
    ultimately show ?thesis unfolding distinct_map by blast
  qed
  show ?thesis
  proof (cases "row (entries d) (c, f, k)")
    case (Some r)
    then have "query_row d lc ((c, f, k), r) \<in> set ?rows" by (simp add: snapshot_row_in [OF ok])
    from tbl.lookup_writes_mem [OF d this, of "\<lambda>q. q" "[]"] Some show ?thesis by (simp add: by_id)
  next
    case None
    have "identity f k \<notin> ?i ` set ?rows"
    proof
      assume "identity f k \<in> ?i ` set ?rows"
      then obtain q where q: "q \<in> set ?rows" "identity f k = ?i q" by blast
      then have "f = sr_field q" "k = sr_key q" using nfq nf(2) identity_inj by auto
      with q(1) None snapshot_row_in [OF ok] show False by fastforce
    qed
    from tbl.lookup_writes_other [OF this, of "\<lambda>q. q" "[]"] None show ?thesis by (simp add: by_id)
  qed
qed

lemma check_updates_iff:
  "check_updates by_id seen us \<longleftrightarrow>
   distinct (map (\<lambda>u. identity (u_field u) (u_key u)) us) \<and>
   (\<forall>u \<in> set us. identity (u_field u) (u_key u) \<notin> seen \<and> u_field u \<noteq> [] \<and> u_key u \<noteq> [] \<and>
      is_valid_source (u_source u) \<and> row by_id (identity (u_field u) (u_key u)) \<noteq> None)"
proof (induction by_id seen us rule: check_updates.induct)
  case (2 by_id seen u us)
  let ?i = "\<lambda>u. identity (u_field u) (u_key u)"
  have "(\<forall>v \<in> set us. ?i v \<notin> insert (?i u) seen) \<longleftrightarrow>
      ?i u \<notin> ?i ` set us \<and> (\<forall>v \<in> set us. ?i v \<notin> seen)"
    by (metis (no_types, lifting) imageE image_eqI insert_iff)
  with 2 show ?case by (simp add: Let_def) blast
qed simp


section \<open>The loop over the updates\<close>

definition unchanged :: "content_db \<Rightarrow> string \<Rightarrow> string \<Rightarrow> category_entry_update \<Rightarrow> bool" where
  "unchanged d c lc u \<longleftrightarrow> shown d (c, lc, u_field u, u_key u) = Some (u_text u, u_source u)"

text \<open>The write of one update in zh-CN or en-US.\<close>

definition write_update ::
  "int \<Rightarrow> string \<Rightarrow> string \<Rightarrow> bool \<Rightarrow> category_entry_update \<Rightarrow> content_db \<Rightarrow> content_db" where
  "write_update now user c zh u d =
     audit_insert now user (batch_detail (if zh then LocaleChinese else LocaleEnglish) c (u_field u))
      (if zh then d\<lparr>entries := modify (c, u_field u, u_key u) (\<lambda>r. r\<lparr>cn_text := u_text u,
                    row_source := u_source u, updated_at := now, updated_by := user\<rparr>) (entries d)\<rparr>
       else upsert_loc now user (u_text u) (u_source u) (c, u_field u, u_key u, LocaleEnglish) d)"

definition update_step ::
  "content_db \<Rightarrow> int \<Rightarrow> string \<Rightarrow> string \<Rightarrow> bool \<Rightarrow> category_entry_update \<Rightarrow> content_db \<Rightarrow> content_db" where
  "update_step d0 now user c zh u d =
     (if unchanged d0 c (if zh then LocaleChinese else LocaleEnglish) u then d
      else write_update now user c zh u d)"

lemma shown_audit [simp]: "shown (audit_insert now user dt d) k = shown d k"
  unfolding shown_def query_row_def audit_insert_fields ..

lemma shown_zh:
  "shown (d\<lparr>entries := modify (c, f, jp) (\<lambda>r. r\<lparr>cn_text := tx, row_source := sr, updated_at := now,
      updated_by := user\<rparr>) (entries d)\<rparr>) k =
   (if k = (c, LocaleChinese, f, jp) then map_option (\<lambda>_. (tx, sr)) (shown d k) else shown d k)"
  by (cases k) (auto simp: shown_def query_row_def option.map_comp comp_def split: option.split intro!: map_option_cong)

lemma shown_en:
  "shown (upsert_loc now user tx sr (c, f, jp, LocaleEnglish) d) k =
   (if k = (c, LocaleEnglish, f, jp) then map_option (\<lambda>_. (tx, sr)) (shown d k) else shown d k)"
  by (cases k) (auto simp: shown_def query_row_def option.map_comp comp_def intro!: map_option_cong)

interpretation batch_loop: rowwise shown "update_step d0 now user c zh"
  "\<lambda>u. (c, if zh then LocaleChinese else LocaleEnglish, u_field u, u_key u)"
  "\<lambda>u cur. if unchanged d0 c (if zh then LocaleChinese else LocaleEnglish) u then cur
     else map_option (\<lambda>_. (u_text u, u_source u)) cur"
  for d0 now user c zh
  by unfold_locales (auto simp: update_step_def write_update_def shown_zh shown_en)

lemma update_step_keeps:
  "row (entries (update_step d0 now user c zh u d)) k = None \<longleftrightarrow> row (entries d) k = None"
  "content_ok d \<Longrightarrow> content_ok (update_step d0 now user c zh u d)"
  "map_option ids_json (row (entries (update_step d0 now user c zh u d)) k) = map_option ids_json (row (entries d) k)"
  "length (audit_log (update_step d0 now user c zh u d)) = length (audit_log d) +
     (if unchanged d0 c (if zh then LocaleChinese else LocaleEnglish) u then 0 else 1)"
  by (auto simp: update_step_def write_update_def content_ok_def option.map_comp comp_def)

lemma update_loop_keeps:
  "row (entries (fold (update_step d0 now user c zh) us d)) k = None \<longleftrightarrow> row (entries d) k = None"
  "content_ok d \<Longrightarrow> content_ok (fold (update_step d0 now user c zh) us d)"
  "map_option ids_json (row (entries (fold (update_step d0 now user c zh) us d)) k) =
     map_option ids_json (row (entries d) k)"
  "length (audit_log (fold (update_step d0 now user c zh) us d)) = length (audit_log d) +
     length (filter (\<lambda>u. \<not> unchanged d0 c (if zh then LocaleChinese else LocaleEnglish) u) us)"
  by (induction us arbitrary: d) (auto simp: update_step_keeps)

text \<open>The audit record of one update.\<close>

definition batch_record :: "int \<Rightarrow> string \<Rightarrow> string \<Rightarrow> string \<Rightarrow> category_entry_update \<Rightarrow> audit_row" where
  "batch_record now user lc c u = \<lparr>audit_ts = now, audit_user = user, audit_action = ''entry.locale.update'',
     audit_detail = ''locale='' @ lc @ '' category='' @ c @ '' field='' @ u_field u @ '' batch=true''\<rparr>"

lemma update_loop_audit:
  "audit_log (fold (update_step d0 now user c zh) us d) = audit_log d @
     map (batch_record now user (if zh then LocaleChinese else LocaleEnglish) c)
       (filter (\<lambda>u. \<not> unchanged d0 c (if zh then LocaleChinese else LocaleEnglish) u) us)"
  by (induction us arbitrary: d) (auto simp: update_step_def write_update_def audit_insert_def batch_record_def batch_detail_def locale_detail_def)

lemma apply_updates_eq:
  assumes "lc = (if zh then LocaleChinese else LocaleEnglish)"
    and "\<forall>u \<in> set us. row (entries d) (c, u_field u, u_key u) \<noteq> None \<and>
      map_option (\<lambda>q. (sr_text q, sr_source q)) (row by_id (identity (u_field u) (u_key u))) =
        shown d0 (c, lc, u_field u, u_key u) \<and> shown d0 (c, lc, u_field u, u_key u) \<noteq> None"
  shows "apply_updates now user c lc by_id us d ch =
    Inr (fold (update_step d0 now user c zh) us d, ch @ filter (\<lambda>u. \<not> unchanged d0 c lc u) us)"
  using assms(2)
proof (induction us arbitrary: d ch)
  case (Cons u us)
  then obtain q where q: "row by_id (identity (u_field u) (u_key u)) = Some q"
    "shown d0 (c, lc, u_field u, u_key u) = Some (sr_text q, sr_source q)" by fastforce
  have "\<forall>v \<in> set us. row (entries (update_step d0 now user c zh u d)) (c, u_field v, u_key v) \<noteq> None \<and>
      map_option (\<lambda>q. (sr_text q, sr_source q)) (row by_id (identity (u_field v) (u_key v))) =
        shown d0 (c, lc, u_field v, u_key v) \<and> shown d0 (c, lc, u_field v, u_key v) \<noteq> None"
    using Cons.prems by (simp add: update_step_keeps(1))
  from Cons.IH [OF this] show ?case
    using q Cons.prems assms(1)
    by (auto simp: unchanged_def update_step_def write_update_def)
qed simp


section \<open>Properties\<close>

definition bytes_of_digest :: "(nat list \<Rightarrow> nat list) \<Rightarrow> bool" where
  "bytes_of_digest sha256 \<longleftrightarrow> (\<forall>x. \<forall>b \<in> set (sha256 x). b < 256)"

lemma revision_eq_rows:
  assumes "bytes_of_digest sha256"
    and "inj_on sha256 {revision_preimage c lc rows, revision_preimage c' lc' rows'}"
    and "b64_encode (sha256 (revision_preimage c lc rows)) = b64_encode (sha256 (revision_preimage c' lc' rows'))"
    and "small c" "small lc" "rows_small rows" "small c'" "small lc'" "rows_small rows'"
  shows "c = c' \<and> lc = lc' \<and> map row_parts rows = map row_parts rows'"
proof -
  have "sha256 (revision_preimage c lc rows) = sha256 (revision_preimage c' lc' rows')"
    using assms(1,3) b64_decode_encode unfolding bytes_of_digest_def by (metis option.inject)
  then have "revision_preimage c lc rows = revision_preimage c' lc' rows'"
    using assms(2) by (auto dest: inj_onD)
  from revision_preimage_inj [OF this assms(4-)] show ?thesis .
qed

text \<open>
  C30: the opaque revision identifies the content. Two snapshots with the same revision are of
  the same category and locale and show the same rows: same fields, keys, texts, sources and
  id texts in the same order, provided SHA-256 does not collide on the two hashed strings. The
  eight byte length before every part makes the hashed string unambiguous.
\<close>

theorem revision_identifies_content:
  assumes "bytes_of_digest sha256"
    and "category_snapshot_from sha256 d c lc = Inr (snap, by_id)"
    and "category_snapshot_from sha256 d' c' lc' = Inr (snap', by_id')"
    and "snap_revision snap = snap_revision snap'"
    and "inj_on sha256 {revision_preimage c lc (snapshot_rows d c lc), revision_preimage c' lc' (snapshot_rows d' c' lc')}"
    and "small c" "small lc" "rows_small (snapshot_rows d c lc)"
    and "small c'" "small lc'" "rows_small (snapshot_rows d' c' lc')"
  shows "c = c' \<and> lc = lc' \<and>
    map row_parts (snapshot_rows d c lc) = map row_parts (snapshot_rows d' c' lc')"
  using assms(4) unfolding snapshot_from_Inr(1) [OF assms(2)] snapshot_from_Inr(1) [OF assms(3)]
  by (rule revision_eq_rows [OF assms(1,5) _ assms(6-)])

definition sample_db :: "string \<Rightarrow> content_db" where
  "sample_db tx = \<lparr>entries = [((''units'', ''name'', ''a''), \<lparr>cn_text = tx, row_source = SourceCN, ids_json = NoIds,
     updated_at = 7, updated_by = ''cn-sync''\<rparr>)], locs = [], audit_log = []\<rparr>"

lemma sample_rows:
  "snapshot_rows (sample_db tx) ''units'' LocaleChinese =
   [\<lparr>sr_field = ''name'', sr_key = ''a'', sr_text = tx, sr_source = SourceCN, sr_ids = NoIds\<rparr>]"
  by (simp add: snapshot_rows_def sample_db_def query_row_def)

text \<open>Another database: the unit was written later by someone else, and there is a card.\<close>

definition touched_db :: content_db where
  "touched_db = \<lparr>entries = [((''cards'', ''name'', ''k''), \<lparr>cn_text = ''K'', row_source = SourceCN, ids_json = NoIds,
     updated_at = 8, updated_by = ''cn-sync''\<rparr>), ((''units'', ''name'', ''a''), \<lparr>cn_text = ''A'', row_source = SourceCN, ids_json = NoIds,
     updated_at = 9, updated_by = ''ann''\<rparr>)], locs = [], audit_log = []\<rparr>"

lemma touched_rows:
  "snapshot_rows touched_db ''units'' LocaleChinese =
   [\<lparr>sr_field = ''name'', sr_key = ''a'', sr_text = ''A'', sr_source = SourceCN, sr_ids = NoIds\<rparr>]"
  by (simp add: snapshot_rows_def touched_db_def query_row_def)

theorem revision_identifies_content_witness:
  "touched_db \<noteq> sample_db ''A'' \<and>
   (\<exists>snap by_id snap' by_id'.
      category_snapshot_from (map (\<lambda>n. n mod 256)) (sample_db ''A'') ''units'' LocaleChinese = Inr (snap, by_id) \<and>
      category_snapshot_from (map (\<lambda>n. n mod 256)) touched_db ''units'' LocaleChinese = Inr (snap', by_id') \<and>
      snap_revision snap = snap_revision snap') \<and>
   map row_parts (snapshot_rows (sample_db ''A'') ''units'' LocaleChinese) =
     map row_parts (snapshot_rows touched_db ''units'' LocaleChinese)"
proof -
  let ?sha = "\<lambda>x. map (\<lambda>n. n mod 256) x"
  obtain snap by_id where s: "category_snapshot_from ?sha (sample_db ''A'') ''units'' LocaleChinese = Inr (snap, by_id)"
    by (cases "category_snapshot_from ?sha (sample_db ''A'') ''units'' LocaleChinese")
      (auto simp: category_snapshot_from_def snapshot_loop_eq sample_rows)
  obtain snap' by_id' where s': "category_snapshot_from ?sha touched_db ''units'' LocaleChinese = Inr (snap', by_id')"
    by (cases "category_snapshot_from ?sha touched_db ''units'' LocaleChinese")
      (auto simp: category_snapshot_from_def snapshot_loop_eq touched_rows)
  have e: "snap_revision snap = snap_revision snap'"
    unfolding snapshot_from_Inr(1) [OF s] snapshot_from_Inr(1) [OF s'] by (simp add: sample_rows touched_rows)
  have d: "touched_db \<noteq> sample_db ''A''" by (simp add: touched_db_def sample_db_def)
  have i: "inj_on ?sha {revision_preimage ''units'' LocaleChinese (snapshot_rows (sample_db ''A'') ''units'' LocaleChinese),
      revision_preimage ''units'' LocaleChinese (snapshot_rows touched_db ''units'' LocaleChinese)}"
    by (simp add: sample_rows touched_rows)
  have small: "bytes_of_digest ?sha" "small ''units''" "small LocaleChinese"
    "rows_small (snapshot_rows (sample_db ''A'') ''units'' LocaleChinese)" "rows_small (snapshot_rows touched_db ''units'' LocaleChinese)"
    unfolding sample_rows touched_rows by (simp_all add: bytes_of_digest_def small_def rows_small_def row_parts_def SourceCN_def locale_names)
  have r: "map row_parts (snapshot_rows (sample_db ''A'') ''units'' LocaleChinese) =
     map row_parts (snapshot_rows touched_db ''units'' LocaleChinese)"
    using revision_identifies_content [OF _ s s' e i] small by blast
  show ?thesis using d s s' e r by blast
qed

lemma updates_in_scope:
  assumes "content_ok d" "fields_nul_free d c" "list_all (\<lambda>u. nul_free (u_field u)) us"
    and "category_snapshot_from sha256 d c lc = Inr (snap, by_id)" "check_updates by_id {} us"
  shows "distinct (map (\<lambda>u. (c, lc, u_field u, u_key u)) us)"
    and "\<forall>u \<in> set us. row (entries d) (c, u_field u, u_key u) \<noteq> None \<and>
      map_option (\<lambda>q. (sr_text q, sr_source q)) (row by_id (identity (u_field u) (u_key u))) =
        shown d (c, lc, u_field u, u_key u) \<and> shown d (c, lc, u_field u, u_key u) \<noteq> None"
proof -
  have nf: "nul_free (u_field u)" if "u \<in> set us" for u using assms(3) that by (simp add: list_all_iff)
  have r: "row by_id (identity (u_field u) (u_key u)) =
      map_option (\<lambda>r. query_row d lc ((c, u_field u, u_key u), r)) (row (entries d) (c, u_field u, u_key u))"
    if "u \<in> set us" for u
    using by_identity_row [OF assms(1,2) nf [OF that] snapshot_from_Inr(2) [OF assms(4)]] .
  have "distinct (map (\<lambda>u. identity (u_field u) (u_key u)) us)"
    using assms(5) by (simp add: check_updates_iff)
  then show "distinct (map (\<lambda>u. (c, lc, u_field u, u_key u)) us)"
    by (auto simp: distinct_map inj_on_def)
  show "\<forall>u \<in> set us. row (entries d) (c, u_field u, u_key u) \<noteq> None \<and>
      map_option (\<lambda>q. (sr_text q, sr_source q)) (row by_id (identity (u_field u) (u_key u))) =
        shown d (c, lc, u_field u, u_key u) \<and> shown d (c, lc, u_field u, u_key u) \<noteq> None"
    using assms(5) by (auto simp: check_updates_iff r shown_def option.map_comp comp_def Let_def)
qed

lemma batch_cases:
  assumes ok: "content_ok d" "fields_nul_free d c" "list_all (\<lambda>u. nul_free (u_field u)) us"
    and run: "update_category_locale outcome sha256 now c lc base user us d = (d', hooks, res)"
  obtains (refused) "isl res" "d' = d" "\<not> hooks"
    | (applied) zh snap by_id by_id' r where "lc = (if zh then LocaleChinese else LocaleEnglish)"
      "category_snapshot_from sha256 d c lc = Inr (snap, by_id)" "base = snap_revision snap" "base \<noteq> []"
      "check_updates by_id {} us" "res = Inr r" "d' = fold (update_step d now user c zh) us d"
      "br_changed r = filter (\<lambda>u. \<not> unchanged d c lc u) us" "hooks \<longleftrightarrow> br_changed r \<noteq> []"
      "category_snapshot_from sha256 d' c lc = Inr (br_snapshot r, by_id')"
proof (cases "isl res")
  case True
  then show ?thesis using run refused
    by (auto simp: update_category_locale_def split: if_splits sum.splits prod.splits)
next
  case False
  then obtain r where res: "res = Inr r" by (cases res) auto
  obtain snap by_id where s: "category_snapshot_from sha256 d c lc = Inr (snap, by_id)"
    using run res by (auto simp: update_category_locale_def split: if_splits sum.splits prod.splits)
  have g: "lc \<noteq> LocaleJapanese" "base \<noteq> []" "snap_revision snap = base" "check_updates by_id {} us"
    using run res s by (auto simp: update_category_locale_def split: if_splits sum.splits prod.splits)
  obtain zh where zh: "lc = (if zh then LocaleChinese else LocaleEnglish)"
    using snapshot_from_Inr(3) [OF s] g(1) by (metis (full_types))
  let ?d = "fold (update_step d now user c zh) us d" and ?ch = "filter (\<lambda>u. \<not> unchanged d c lc u) us"
  have ap: "apply_updates now user c lc by_id us d [] = Inr (?d, ?ch)"
    using apply_updates_eq [OF zh updates_in_scope(2) [OF ok s g(4)], of now user "[]"] by simp
  have "?d = d" if "?ch = []"
    using that zh by (induction us) (auto simp: update_step_def split: if_splits)
  then obtain by_id' where *: "d' = ?d" "br_changed r = ?ch" "hooks \<longleftrightarrow> ?ch \<noteq> []"
      "category_snapshot_from sha256 d' c lc = Inr (br_snapshot r, by_id')"
    using run res s g ap
    by (cases "?ch = []"; cases outcome; cases "category_snapshot_from sha256 ?d c lc")
      (auto simp: update_category_locale_def)
  show ?thesis by (rule applied [OF zh s g(3) [symmetric] g(2) g(4) res *(1,2) _ *(4)]) (use * in simp)
qed


lemma batch_effect:
  assumes "content_ok d" "fields_nul_free d c" "list_all (\<lambda>u. nul_free (u_field u)) us"
    and "update_category_locale outcome sha256 now c lc base user us d = (d', hooks, res)"
  shows "case res of
      Inl _ \<Rightarrow> d' = d \<and> \<not> hooks
    | Inr r \<Rightarrow> content_ok d' \<and> base \<noteq> [] \<and>
        map_sum id (snap_revision \<circ> fst) (category_snapshot_from sha256 d c lc) = Inr base \<and>
        map_sum id fst (category_snapshot_from sha256 d' c lc) = Inr (br_snapshot r) \<and>
        (\<forall>u \<in> set us. shown d' (c, lc, u_field u, u_key u) = Some (u_text u, u_source u)) \<and>
        (\<forall>k. k \<notin> (\<lambda>u. (c, lc, u_field u, u_key u)) ` set us \<longrightarrow> shown d' k = shown d k) \<and>
        br_changed r = filter (\<lambda>u. shown d (c, lc, u_field u, u_key u) \<noteq> Some (u_text u, u_source u)) us \<and>
        audit_log d' = audit_log d @ map (batch_record now user lc c) (br_changed r) \<and>
        (hooks \<longleftrightarrow> br_changed r \<noteq> [])"
  using assms
proof (cases rule: batch_cases)
  case (applied zh snap by_id by_id' r)
  note scope = updates_in_scope [OF assms(1-3) applied(2,5)]
  have key: "(\<lambda>u. (c, lc, u_field u, u_key u)) = (\<lambda>u. (c, if zh then LocaleChinese else LocaleEnglish, u_field u, u_key u))"
    by (simp add: applied(1))
  have "shown d' (c, lc, u_field u, u_key u) = Some (u_text u, u_source u)" if u: "u \<in> set us" for u
    using batch_loop.loop_mem [OF scope(1) [unfolded key] u, of d now user d] scope(2) u applied(1,7)
    by (fastforce simp: unchanged_def)
  moreover have "shown d' k = shown d k" if "k \<notin> (\<lambda>u. (c, lc, u_field u, u_key u)) ` set us" for k
    using batch_loop.loop_other [OF that [unfolded key], of d now user d] applied(7) by simp
  ultimately show ?thesis
    using applied update_loop_keeps(2) update_loop_audit assms(1) by (simp add: unchanged_def)
next
  case refused
  then show ?thesis by (auto simp: isl_def)
qed

text \<open>
  C4:
  A batch is applied to the revision it names, entirely or not at all. A refused batch (read
  only locale, revision conflict, unknown or repeated identity, invalid source, failed begin or
  commit) leaves the content as it was. An accepted one saw exactly the revision it was based
  on; afterwards each of its entries shows the text and source of its update, every other
  entry and every other locale shows what it showed, the answer is the snapshot of the new
  state, the changed list is exactly the updates that differed, each leaving one audit record
  with the user, the locale, the category and the field, and the change hooks run only when there
  was one. The fields of the category and of the batch are free of zero bytes, which separate
  field and key in an identity.
\<close>

theorem batch_update_effect:
  assumes "content_ok d" "fields_nul_free d c" "list_all (\<lambda>u. nul_free (u_field u)) us"
    and "update_category_locale outcome sha256 now c lc base user us d = (d', hooks, res)"
  shows "case res of
      Inl _ \<Rightarrow> d' = d \<and> \<not> hooks
    | Inr r \<Rightarrow> content_ok d' \<and> base \<noteq> [] \<and>
        map_sum id (snap_revision \<circ> fst) (category_snapshot_from sha256 d c lc) = Inr base \<and>
        map_sum id fst (category_snapshot_from sha256 d' c lc) = Inr (br_snapshot r) \<and>
        (\<forall>u \<in> set us. shown d' (c, lc, u_field u, u_key u) = Some (u_text u, u_source u)) \<and>
        (\<forall>k. k \<notin> (\<lambda>u. (c, lc, u_field u, u_key u)) ` set us \<longrightarrow> shown d' k = shown d k) \<and>
        br_changed r = filter (\<lambda>u. shown d (c, lc, u_field u, u_key u) \<noteq> Some (u_text u, u_source u)) us \<and>
        audit_log d' = audit_log d @ map (batch_record now user lc c) (br_changed r) \<and>
        (hooks \<longleftrightarrow> br_changed r \<noteq> [])"
  using assms by (rule batch_effect)

definition sample_sha :: "nat list \<Rightarrow> nat list" where
  "sample_sha x = map (\<lambda>n. n mod 256) x"

definition sample_update :: category_entry_update where
  "sample_update = \<lparr>u_field = ''name'', u_key = ''a'', u_text = ''B'', u_source = SourceHuman\<rparr>"

definition sample_base :: string where
  "sample_base = b64_encode (sample_sha (revision_preimage ''units'' LocaleChinese
     (snapshot_rows (sample_db ''A'') ''units'' LocaleChinese)))"

definition sample_after :: content_db where
  "sample_after = \<lparr>entries = [((''units'', ''name'', ''a''), \<lparr>cn_text = ''B'', row_source = SourceHuman, ids_json = NoIds,
     updated_at = 9, updated_by = ''eva''\<rparr>)], locs = [], audit_log = [\<lparr>audit_ts = 9, audit_user = ''eva'',
     audit_action = ''entry.locale.update'', audit_detail = batch_detail LocaleChinese ''units'' ''name''\<rparr>]\<rparr>"

lemma sample_after_rows:
  "snapshot_rows sample_after ''units'' LocaleChinese =
   [\<lparr>sr_field = ''name'', sr_key = ''a'', sr_text = ''B'', sr_source = SourceHuman, sr_ids = NoIds\<rparr>]"
  by (simp add: snapshot_rows_def query_row_def sample_after_def)

lemma sample_accepted:
  "\<exists>r. update_category_locale Commits sample_sha 9 ''units'' LocaleChinese sample_base ''eva'' [sample_update]
     (sample_db ''A'') = (sample_after, True, Inr r)"
proof -
  have ne: "sample_base \<noteq> []"
    by (simp add: sample_base_def sample_sha_def revision_preimage_def)
  have s: "\<exists>fds. category_snapshot_from sample_sha (sample_db ''A'') ''units'' LocaleChinese =
      Inr (\<lparr>snap_category = ''units'', snap_locale = LocaleChinese, snap_revision = sample_base, snap_fields = fds\<rparr>,
        [(identity ''name'' ''a'', \<lparr>sr_field = ''name'', sr_key = ''a'', sr_text = ''A'', sr_source = SourceCN, sr_ids = NoIds\<rparr>)])"
    by (simp add: category_snapshot_from_def snapshot_loop_eq write_part sample_base_def revision_preimage_def
        sample_rows put_def)
  have s': "\<exists>x. category_snapshot_from sample_sha sample_after ''units'' LocaleChinese = Inr x"
    by (simp add: category_snapshot_from_def snapshot_loop_eq sample_after_rows)
  have c: "check_updates [(identity ''name'' ''a'', \<lparr>sr_field = ''name'', sr_key = ''a'', sr_text = ''A'',
      sr_source = SourceCN, sr_ids = NoIds\<rparr>)] {} [sample_update]"
    by (simp add: sample_update_def row_def is_valid_source_def)
  have a: "apply_updates 9 ''eva'' ''units'' LocaleChinese [(identity ''name'' ''a'', \<lparr>sr_field = ''name'',
      sr_key = ''a'', sr_text = ''A'', sr_source = SourceCN, sr_ids = NoIds\<rparr>)] [sample_update] (sample_db ''A'') [] =
      Inr (sample_after, [sample_update])"
    by (simp add: sample_after_def sample_update_def sample_db_def row_def modify_def put_def audit_insert_def)
  show ?thesis
    using s s' ne
    by (auto simp: update_category_locale_def c a simp del: apply_updates.simps check_updates.simps)
qed

lemma sample_scope:
  "content_ok (sample_db tx)" "fields_nul_free (sample_db tx) ''units''"
  "list_all (\<lambda>u. nul_free (u_field u)) [sample_update]"
  by (simp_all add: content_ok_def table_ok_def sample_db_def fields_nul_free_def nul_free_def sample_update_def)

theorem batch_update_effect_witness:
  "shown (fst (update_category_locale Commits sample_sha 9 ''units'' LocaleChinese sample_base ''eva'' [sample_update]
     (sample_db ''A''))) (''units'', LocaleChinese, ''name'', ''a'') = Some (''B'', SourceHuman)"
proof -
  obtain r where run: "update_category_locale Commits sample_sha 9 ''units'' LocaleChinese sample_base ''eva''
      [sample_update] (sample_db ''A'') = (sample_after, True, Inr r)" using sample_accepted by blast
  have "shown sample_after (''units'', LocaleChinese, u_field sample_update, u_key sample_update) =
      Some (u_text sample_update, u_source sample_update)"
    using batch_update_effect [OF sample_scope run] by simp
  then show ?thesis unfolding run by (simp add: sample_update_def)
qed

lemma shown_rows:
  "content_ok d \<Longrightarrow> shown d (c, lc, f, k) = Some (tx, sr) \<longleftrightarrow>
   (\<exists>ids. [f, k, tx, sr, ids] \<in> set (map row_parts (snapshot_rows d c lc)))"
proof -
  assume ok: "content_ok d"
  have "(\<exists>ids. [f, k, tx, sr, ids] \<in> set (map row_parts (snapshot_rows d c lc))) \<longleftrightarrow>
      (\<exists>q \<in> set (snapshot_rows d c lc). sr_field q = f \<and> sr_key q = k \<and> sr_text q = tx \<and> sr_source q = sr)"
    by (auto simp: row_parts_def image_iff)
  also have "\<dots> \<longleftrightarrow> shown d (c, lc, f, k) = Some (tx, sr)"
    unfolding Bex_def snapshot_row_in [OF ok]
    by (auto simp: shown_def Let_def) (metis query_row_key(1,2))
  finally show ?thesis by simp
qed

text \<open>
  No lost update. Two editors start from the same revision. When the batch of the first has
  changed anything, the batch of the second is refused with a revision conflict and the
  current snapshot, whatever it contains, and changes nothing, provided SHA-256 does not
  collide on the contents before and after the first batch.
\<close>

theorem stale_batch_is_refused:
  assumes "content_ok d" "fields_nul_free d c" "list_all (\<lambda>u. nul_free (u_field u)) us"
    and "update_category_locale outcome sha256 now c lc base user us d = (d1, True, res)"
    and "bytes_of_digest sha256"
    and "inj_on sha256 {revision_preimage c lc (snapshot_rows d c lc), revision_preimage c lc (snapshot_rows d1 c lc)}"
    and "small c" "small lc" "rows_small (snapshot_rows d c lc)" "rows_small (snapshot_rows d1 c lc)"
    and "outcome' \<noteq> BeginFails"
  shows "\<exists>current. update_category_locale outcome' sha256 now' c lc base user' us' d1 =
      (d1, False, Inl (CategoryRevisionConflict, Some current)) \<and>
    map_sum id fst (category_snapshot_from sha256 d1 c lc) = Inr current \<and> snap_revision current \<noteq> base"
  using assms(1-4)
proof (cases rule: batch_cases)
  case (applied zh snap by_id by_id' r)
  from applied(9) obtain u where u: "u \<in> set us" "\<not> unchanged d c lc u"
    unfolding applied(8) by (auto simp: filter_empty_conv)
  have eff: "content_ok d1" "shown d1 (c, lc, u_field u, u_key u) = Some (u_text u, u_source u)"
    using batch_effect [OF assms(1-4)] applied(6) u(1) by auto
  have "snap_revision (br_snapshot r) \<noteq> base"
  proof
    assume "snap_revision (br_snapshot r) = base"
    then have "b64_encode (sha256 (revision_preimage c lc (snapshot_rows d c lc))) =
        b64_encode (sha256 (revision_preimage c lc (snapshot_rows d1 c lc)))"
      using snapshot_from_Inr(1) [OF applied(2)] snapshot_from_Inr(1) [OF applied(10)] applied(3) by simp
    from revision_eq_rows [OF assms(5,6) this assms(7,8,9) assms(7,8,10)]
    have "map row_parts (snapshot_rows d c lc) = map row_parts (snapshot_rows d1 c lc)" by simp
    then have "shown d (c, lc, u_field u, u_key u) = Some (u_text u, u_source u)"
      using eff shown_rows [OF assms(1)] shown_rows [OF eff(1)] by metis
    then show False using u(2) by (simp add: unchanged_def)
  qed
  moreover have "lc \<noteq> LocaleJapanese" using applied(1) by simp
  ultimately show ?thesis
    using applied(10) assms(11) by (auto simp: update_category_locale_def)
qed simp


lemma sample_sha_preimage: "sample_sha (revision_preimage c lc rows) = revision_preimage c lc rows"
proof -
  have "sample_sha (parts_bytes ps) = parts_bytes ps" for ps
    by (induction ps) (auto simp: sample_sha_def be64_def intro!: map_idI)
  then show ?thesis by (simp only: revision_preimage_def)
qed

theorem stale_batch_is_refused_witness:
  "\<exists>current. update_category_locale Commits sample_sha 10 ''units'' LocaleChinese sample_base ''bob'' [] sample_after =
     (sample_after, False, Inl (CategoryRevisionConflict, Some current)) \<and> snap_revision current \<noteq> sample_base"
proof -
  obtain r where run: "update_category_locale Commits sample_sha 9 ''units'' LocaleChinese sample_base ''eva''
      [sample_update] (sample_db ''A'') = (sample_after, True, Inr r)" using sample_accepted by blast
  have "bytes_of_digest sample_sha" by (simp add: bytes_of_digest_def sample_sha_def)
  moreover have "inj_on sample_sha {revision_preimage ''units'' LocaleChinese (snapshot_rows (sample_db ''A'') ''units'' LocaleChinese),
      revision_preimage ''units'' LocaleChinese (snapshot_rows sample_after ''units'' LocaleChinese)}"
    by (rule inj_onI) (auto simp: sample_sha_preimage)
  moreover have "rows_small (snapshot_rows (sample_db ''A'') ''units'' LocaleChinese)"
    "rows_small (snapshot_rows sample_after ''units'' LocaleChinese)"
    by (simp_all add: rows_small_def sample_rows sample_after_rows row_parts_def small_def source_names)
  moreover have "small ''units''" "small LocaleChinese" by (simp_all add: small_def locale_names)
  ultimately show ?thesis
    using stale_batch_is_refused [OF sample_scope run, of Commits 10 "''bob''" "[]"] by blast
qed

text \<open>
  What the unseparated identity allows. Identities are compared as field, NUL, key: an update
  whose field ends with the first part of a key that holds a NUL passes the identity check
  of an existing row and writes a localization of an entry that does not exist.
\<close>

lemma identity_with_nul:
  "identity (''name'' @ [CHR 0x00] @ ''a'') ''b'' = identity ''name'' (''a'' @ [CHR 0x00] @ ''b'')"
  by (simp add: identity_def)

end
