(* ===== verification/SideStoryTypes.thy ===== *)
theory SideStoryTypes
  imports ContentModel GoText GoConv
begin

text \<open>
  Card stories and area talks (\<open>store/side_story_types.go\<close>, migration v39): the vocabulary and
  its validators, the tables with their cascades, and the shared rules: who may overwrite a
  line, when a failed fetch is retried, and what an episode's last error holds.
\<close>

section \<open>Vocabulary\<close>

definition SideStoryKindCard :: string where "SideStoryKindCard = ''card''"
definition SideStoryKindArea :: string where "SideStoryKindArea = ''area''"
definition SideStorySourceOfficial :: string where "SideStorySourceOfficial = ''official''"
definition SideStorySourceLLM :: string where "SideStorySourceLLM = ''llm''"
definition SideStorySourceHuman :: string where "SideStorySourceHuman = ''human''"
definition SideStoryRoleTitle :: string where "SideStoryRoleTitle = ''title''"
definition SideStoryRoleTalk :: string where "SideStoryRoleTalk = ''talk''"
definition SideStoryRoleSpeaker :: string where "SideStoryRoleSpeaker = ''speaker''"
definition SideStoryStatePending :: string where "SideStoryStatePending = ''pending''"
definition SideStoryStateImported :: string where "SideStoryStateImported = ''imported''"
definition SideStoryStateAbsent :: string where "SideStoryStateAbsent = ''absent''"
definition SideStoryStateMismatch :: string where "SideStoryStateMismatch = ''mismatch''"
definition SideStoryStateError :: string where "SideStoryStateError = ''error''"

lemmas side_sources = SideStorySourceOfficial_def SideStorySourceLLM_def SideStorySourceHuman_def
lemmas side_states = SideStoryStatePending_def SideStoryStateImported_def SideStoryStateAbsent_def
  SideStoryStateMismatch_def SideStoryStateError_def
lemmas side_roles = SideStoryRoleTitle_def SideStoryRoleTalk_def SideStoryRoleSpeaker_def

definition sideStoryMaxEdits :: nat where "sideStoryMaxEdits = 2000"
definition sideStoryMaxTextBytes :: nat where "sideStoryMaxTextBytes = 16384"
definition sideStoryMaxQueueLimit :: int where "sideStoryMaxQueueLimit = 500"

definition valid_side_story_kind :: "string \<Rightarrow> bool" where
  "valid_side_story_kind kind \<longleftrightarrow> kind = SideStoryKindCard \<or> kind = SideStoryKindArea"

definition ascii_alnum :: "char \<Rightarrow> bool" where
  "ascii_alnum c \<longleftrightarrow> (0x41 \<le> byte c \<and> byte c \<le> 0x5A) \<or> (0x61 \<le> byte c \<and> byte c \<le> 0x7A) \<or>
     (0x30 \<le> byte c \<and> byte c \<le> 0x39)"

text \<open>The regular expression of area ids and scenario ids.\<close>

definition area_id_pattern :: "string \<Rightarrow> bool" where
  "area_id_pattern s \<longleftrightarrow> (case s of [] \<Rightarrow> False
     | c # cs \<Rightarrow> ascii_alnum c \<and> length cs \<le> 127 \<and>
         list_all (\<lambda>c. ascii_alnum c \<or> c = CHR ''_'' \<or> c = CHR ''.'' \<or> c = CHR ''-'') cs)"

definition valid_side_story_id :: "string \<Rightarrow> string \<Rightarrow> bool" where
  "valid_side_story_id kind i \<longleftrightarrow>
     (if kind = SideStoryKindCard then
        (if length i = 0 \<or> 9 < length i \<or> i ! 0 = CHR ''0'' then False
         else list_all (\<lambda>c. \<not> (byte c < byte (CHR ''0'') \<or> byte (CHR ''9'') < byte c)) i)
      else if kind = SideStoryKindArea then area_id_pattern i
      else False)"

definition valid_side_story_episode_key :: "string \<Rightarrow> string \<Rightarrow> bool" where
  "valid_side_story_episode_key kind key \<longleftrightarrow>
     (if kind = SideStoryKindCard then key = ''1'' \<or> key = ''2''
      else if kind = SideStoryKindArea then key = ''1'' else False)"

definition valid_side_story_locale :: "string \<Rightarrow> bool" where
  "valid_side_story_locale lc \<longleftrightarrow> lc = LocaleChinese \<or> lc = LocaleEnglish"

definition public_source_label :: "string \<Rightarrow> string \<Rightarrow> string" where
  "public_source_label lc source =
     (if source \<noteq> SideStorySourceOfficial then source
      else if lc = LocaleEnglish then ''official_en'' else ''official_cn'')"

definition valid_side_story_text :: "string \<Rightarrow> bool" where
  "valid_side_story_text t \<longleftrightarrow> length t \<le> sideStoryMaxTextBytes \<and> valid_utf8 t \<and> 0 \<notin> set (runes t)"

definition has_kana :: "string \<Rightarrow> bool" where
  "has_kana t \<longleftrightarrow> list_ex (\<lambda>r. 0x3040 \<le> r \<and> r \<le> 0x30FF) (runes t)"

section \<open>Errors\<close>

record line_conflict =
  lcf_jp :: string
  lcf_expected :: int
  lcf_current :: int
  lcf_text :: string
  lcf_source :: string

text \<open>The first group are the requests that wrap \<open>ErrSideStoryInvalid\<close>, one per message.\<close>

datatype side_error =
    InvalidKind string | InvalidID string string | InvalidLocale string | InvalidEpisode string
  | InvalidEditCount nat | RepeatedLine nat string | InvalidText nat | InvalidEditSource nat string
  | TargetsMismatch nat nat | InvalidQueueLimit int | InvalidStory string string
  | InvalidStoryFields string | InvalidCatalogEpisode string string | InvalidEpisodeText string string
  | UnknownLines "string list" | RevisionConflict "line_conflict list"
  | NoSuchRows | BeginFailed | CommitFailed | Cancelled

text \<open>How the database ends a transaction: it does not begin, its commit fails, or it commits.\<close>

datatype tx_end = NoBegin | NoCommit | Committed

definition valid_side_story_request :: "string \<Rightarrow> string \<Rightarrow> string \<Rightarrow> side_error option" where
  "valid_side_story_request kind story_id lc =
     (if \<not> valid_side_story_kind kind then Some (InvalidKind kind)
      else if \<not> valid_side_story_id kind story_id then Some (InvalidID kind story_id)
      else if \<not> valid_side_story_locale lc then Some (InvalidLocale lc)
      else None)"

section \<open>Tables\<close>

type_synonym episode_id = "string \<times> string \<times> string"
type_synonym line_id = "episode_id \<times> string"
type_synonym line_loc_id = "line_id \<times> string"

record story_row =
  s_title :: string
  s_area_category :: string
  s_character_id :: int
  s_area_id :: int
  s_action_set_id :: int
  s_released_at :: int
  s_updated_at :: int

record episode_row =
  e_scenario_id :: string
  e_title_jp :: string
  e_position :: int
  e_jp_path :: string
  e_cn_path :: string
  e_en_path :: string
  e_script_sha256 :: string
  e_jp_fetched_at :: int
  e_jp_refetch :: bool
  e_cn_state :: string
  e_en_state :: string
  e_attempts :: int
  e_next_attempt_at :: int
  e_last_error :: string
  e_updated_at :: int

record line_row =
  l_role :: string
  l_speaker :: string
  l_position :: int

record line_loc =
  t_text :: string
  t_source :: string
  t_revision :: int
  t_updated_by :: string
  t_updated_at :: int

record side_db =
  stories :: "(string \<times> string, story_row) table"
  episodes :: "(episode_id, episode_row) table"
  lines :: "(line_id, line_row) table"
  line_locs :: "(line_loc_id, line_loc) table"

text \<open>\<open>DELETE\<close> of a line: its localizations go with it (\<open>ON DELETE CASCADE\<close>).\<close>

definition delete_line :: "line_id \<Rightarrow> side_db \<Rightarrow> side_db" where
  "delete_line k d = d\<lparr>lines := del (\<lambda>l. l = k) (lines d), line_locs := del (\<lambda>(l, _). l = k) (line_locs d)\<rparr>"

definition count_humans :: "line_id \<Rightarrow> side_db \<Rightarrow> nat" where
  "count_humans k d = length (filter (\<lambda>((l, _), r). l = k \<and> t_source r = ''human'') (line_locs d))"

text \<open>What the schema of migration v39 keeps: keys, foreign keys and the checks the code relies on.\<close>

definition line_ok :: "line_id \<times> line_row \<Rightarrow> bool" where
  "line_ok kl \<longleftrightarrow> snd (fst kl) \<noteq> [] \<and> l_role (snd kl) \<in> {SideStoryRoleTitle, SideStoryRoleTalk, SideStoryRoleSpeaker} \<and>
     (if l_role (snd kl) = SideStoryRoleTitle then l_position (snd kl) = -1 else 0 \<le> l_position (snd kl))"

definition line_loc_ok :: "line_loc \<Rightarrow> bool" where
  "line_loc_ok r \<longleftrightarrow> t_source r \<in> {SideStorySourceOfficial, SideStorySourceLLM, SideStorySourceHuman} \<and> 0 < t_revision r"

definition side_ok :: "side_db \<Rightarrow> bool" where
  "side_ok d \<longleftrightarrow> table_ok (stories d) \<and> table_ok (episodes d) \<and> table_ok (lines d) \<and> table_ok (line_locs d) \<and>
     (\<forall>kl \<in> set (lines d). line_ok kl \<and> row (episodes d) (fst (fst kl)) \<noteq> None) \<and>
     (\<forall>kr \<in> set (line_locs d). line_loc_ok (snd kr) \<and> row (lines d) (fst (fst kr)) \<noteq> None \<and>
        snd (fst kr) \<in> {LocaleChinese, LocaleEnglish})"

section \<open>The official-write rule\<close>

text \<open>
  \<open>writeSideStoryOfficialTx\<close>: insert when there is no row, replace an official row with another
  text and any llm row; a human row is never touched.
\<close>

definition write_official ::
  "int \<Rightarrow> line_id \<Rightarrow> string \<Rightarrow> string \<Rightarrow> side_db \<Rightarrow> side_db \<times> bool" where
  "write_official stamp k lc txt d =
     (case row (line_locs d) (k, lc) of
        None \<Rightarrow> (d\<lparr>line_locs := put (k, lc) \<lparr>t_text = txt, t_source = ''official'', t_revision = 1,
                  t_updated_by = ''sync'', t_updated_at = stamp\<rparr> (line_locs d)\<rparr>, True)
      | Some r \<Rightarrow>
          if t_source r = ''llm'' \<or> (t_source r = ''official'' \<and> t_text r \<noteq> txt)
          then (d\<lparr>line_locs := modify (k, lc) (\<lambda>r. r\<lparr>t_text := txt, t_source := ''official'',
                  t_revision := t_revision r + 1, t_updated_by := ''sync'', t_updated_at := stamp\<rparr>) (line_locs d)\<rparr>, True)
          else (d, False))"

section \<open>Retry delays\<close>

definition sideStoryBackoffBase :: int where "sideStoryBackoffBase = 600000000000"
definition sideStoryBackoffCap :: int where "sideStoryBackoffCap = 86400000000000"

function backoff_loop :: "int \<Rightarrow> int \<Rightarrow> int \<Rightarrow> int" where
  "backoff_loop step attempts delay =
     (if step < attempts \<and> delay < sideStoryBackoffCap then backoff_loop (step + 1) attempts (delay * 2) else delay)"
  by pat_completeness auto
termination by (relation "measure (\<lambda>(step, attempts, delay). nat (attempts - step))") auto

declare backoff_loop.simps [simp del]

definition side_story_backoff :: "int \<Rightarrow> int" where
  "side_story_backoff attempts = min (backoff_loop 1 attempts sideStoryBackoffBase) sideStoryBackoffCap"

definition second :: int where "second = 1000000000"

section \<open>Last errors\<close>

definition error_part_start :: "string \<Rightarrow> bool" where
  "error_part_start piece \<longleftrightarrow>
     list_ex (\<lambda>lc. has_prefix piece (lc @ '': '')) [LocaleJapanese, LocaleChinese, LocaleEnglish]"

text \<open>The loop that glues the pieces of one part back together; the parts in reverse.\<close>

fun gather_parts :: "string list \<Rightarrow> string list \<Rightarrow> string list" where
  "gather_parts [] parts = rev parts"
| "gather_parts (piece # pieces) parts =
     (case parts of
        p # ps \<Rightarrow> if \<not> error_part_start piece then gather_parts pieces ((p @ ''; '' @ piece) # ps)
                  else gather_parts pieces (piece # parts)
      | [] \<Rightarrow> gather_parts pieces (piece # parts))"

definition error_part :: "string \<Rightarrow> string \<Rightarrow> string" where
  "error_part last_error lc =
     (case find (\<lambda>part. has_prefix part (lc @ '': '')) (gather_parts (split_on ''; '' last_error) []) of
        None \<Rightarrow> [] | Some part \<Rightarrow> part)"

definition queued :: "episode_row \<Rightarrow> bool" where
  "queued e \<longleftrightarrow> e_script_sha256 e = [] \<or> e_jp_refetch e \<or>
     (e_cn_path e \<noteq> [] \<and> e_cn_state e = SideStoryStatePending) \<or>
     (e_en_path e \<noteq> [] \<and> e_en_state e = SideStoryStatePending)"

definition kept_error :: "episode_row \<Rightarrow> string \<Rightarrow> string \<Rightarrow> string" where
  "kept_error e lc state =
     (if state \<noteq> SideStoryStateMismatch \<and> state \<noteq> SideStoryStateError then []
      else error_part (e_last_error e) lc)"


section \<open>Lemmas on the tables\<close>

lemma side_okD:
  assumes "side_ok d"
  shows "table_ok (stories d)" "table_ok (episodes d)" "table_ok (lines d)" "table_ok (line_locs d)"
    and "row (lines d) k = Some l \<Longrightarrow> line_ok (k, l) \<and> row (episodes d) (fst k) \<noteq> None"
    and "row (line_locs d) (k, lc) = Some r \<Longrightarrow> line_loc_ok r \<and> row (lines d) k \<noteq> None \<and> lc \<in> {LocaleChinese, LocaleEnglish}"
  using assms unfolding side_ok_def by (blast | fastforce dest: row_in)+

lemma side_okI:
  assumes "table_ok (stories d)" "table_ok (episodes d)" "table_ok (lines d)" "table_ok (line_locs d)"
    and "\<And>k l. row (lines d) k = Some l \<Longrightarrow> line_ok (k, l) \<and> row (episodes d) (fst k) \<noteq> None"
    and "\<And>k lc r. row (line_locs d) (k, lc) = Some r \<Longrightarrow>
      line_loc_ok r \<and> row (lines d) k \<noteq> None \<and> lc \<in> {LocaleChinese, LocaleEnglish}"
  shows "side_ok d"
proof -
  have "line_ok kl \<and> row (episodes d) (fst (fst kl)) \<noteq> None" if "kl \<in> set (lines d)" for kl
    using in_row [OF assms(3), of "fst kl" "snd kl"] that assms(5) [of "fst kl" "snd kl"] by simp
  moreover have "line_loc_ok (snd kr) \<and> row (lines d) (fst (fst kr)) \<noteq> None \<and>
      snd (fst kr) \<in> {LocaleChinese, LocaleEnglish}" if "kr \<in> set (line_locs d)" for kr
    using in_row [OF assms(4), of "fst kr" "snd kr"] that assms(6) [of "fst (fst kr)" "snd (fst kr)" "snd kr"] by simp
  ultimately show ?thesis unfolding side_ok_def using assms(1-4) by blast
qed

lemma delete_line_rows [simp]:
  "stories (delete_line k d) = stories d" "episodes (delete_line k d) = episodes d"
  "row (lines (delete_line k d)) l = (if l = k then None else row (lines d) l)"
  "row (line_locs (delete_line k d)) (l, lc) = (if l = k then None else row (line_locs d) (l, lc))"
  by (simp_all add: delete_line_def)

lemma delete_line_ok: "side_ok d \<Longrightarrow> side_ok (delete_line k d)"
proof (rule side_okI)
  assume ok: "side_ok d"
  show "table_ok (stories (delete_line k d))" "table_ok (episodes (delete_line k d))"
    "table_ok (lines (delete_line k d))" "table_ok (line_locs (delete_line k d))"
    using side_okD(1-4) [OF ok] by (simp_all add: delete_line_def)
  show "row (lines (delete_line k d)) l = Some r \<Longrightarrow>
      line_ok (l, r) \<and> row (episodes (delete_line k d)) (fst l) \<noteq> None" for l r
    using side_okD(5) [OF ok, of l r] by (simp split: if_splits)
  show "row (line_locs (delete_line k d)) (l, lc) = Some r \<Longrightarrow> line_loc_ok r \<and>
      row (lines (delete_line k d)) l \<noteq> None \<and> lc \<in> {LocaleChinese, LocaleEnglish}" for l lc r
    using side_okD(6) [OF ok, of l lc r] by (simp split: if_splits)
qed

text \<open>A write of one localization of an existing line keeps the schema.\<close>

lemma put_loc_ok:
  assumes "side_ok d" "row (lines d) k \<noteq> None" "line_loc_ok r" "lc \<in> {LocaleChinese, LocaleEnglish}"
  shows "side_ok (d\<lparr>line_locs := put (k, lc) r (line_locs d)\<rparr>)"
  using side_okD [OF assms(1)] assms(2-) by (intro side_okI) (auto split: if_splits)

lemma modify_loc_ok:
  assumes "side_ok d" "\<And>r. line_loc_ok r \<Longrightarrow> line_loc_ok (f r)"
  shows "side_ok (d\<lparr>line_locs := modify (k, lc) f (line_locs d)\<rparr>)"
proof (rule side_okI)
  fix k' lc' r
  assume r: "row (line_locs (d\<lparr>line_locs := modify (k, lc) f (line_locs d)\<rparr>)) (k', lc') = Some r"
  then obtain r' where r': "row (line_locs d) (k', lc') = Some r'" "r = r' \<or> r = f r'" by (auto split: if_splits)
  from side_okD(6) [OF assms(1) r'(1)] r'(2) assms(2)
  show "line_loc_ok r \<and> row (lines (d\<lparr>line_locs := modify (k, lc) f (line_locs d)\<rparr>)) k' \<noteq> None \<and>
      lc' \<in> {LocaleChinese, LocaleEnglish}" by auto
qed (use side_okD(1-5) [OF assms(1)] in simp_all)

lemma modify_episode_ok: "side_ok d \<Longrightarrow> side_ok (d\<lparr>episodes := modify k f (episodes d)\<rparr>)"
  by (intro side_okI) (auto dest: side_okD split: if_splits)

lemma put_episode_ok: "side_ok d \<Longrightarrow> side_ok (d\<lparr>episodes := put k e (episodes d)\<rparr>)"
  by (intro side_okI) (auto dest: side_okD split: if_splits)

lemma put_line_ok:
  assumes "side_ok d" "line_ok (k, l)" "row (episodes d) (fst k) \<noteq> None"
  shows "side_ok (d\<lparr>lines := put k l (lines d)\<rparr>)"
  using side_okD [OF assms(1)] assms(2-) by (intro side_okI) (auto split: if_splits)

section \<open>The official-write rule as a function of the row\<close>

definition official_eff :: "int \<Rightarrow> string \<Rightarrow> line_loc option \<Rightarrow> line_loc option" where
  "official_eff stamp txt cur =
     (case cur of
        None \<Rightarrow> Some \<lparr>t_text = txt, t_source = ''official'', t_revision = 1, t_updated_by = ''sync'', t_updated_at = stamp\<rparr>
      | Some r \<Rightarrow>
          if t_source r = ''llm'' \<or> (t_source r = ''official'' \<and> t_text r \<noteq> txt)
          then Some (r\<lparr>t_text := txt, t_source := ''official'', t_revision := t_revision r + 1,
                  t_updated_by := ''sync'', t_updated_at := stamp\<rparr>)
          else Some r)"

lemma write_official_rows [simp]:
  "stories (fst (write_official stamp k lc txt d)) = stories d"
  "episodes (fst (write_official stamp k lc txt d)) = episodes d"
  "lines (fst (write_official stamp k lc txt d)) = lines d"
  "row (line_locs (fst (write_official stamp k lc txt d))) x =
     (if x = (k, lc) then official_eff stamp txt (row (line_locs d) x) else row (line_locs d) x)"
  by (auto simp: write_official_def official_eff_def split: option.splits)

lemma write_official_wrote:
  "snd (write_official stamp k lc txt d) \<longleftrightarrow>
   official_eff stamp txt (row (line_locs d) (k, lc)) \<noteq> row (line_locs d) (k, lc)"
proof -
  have "r\<lparr>t_text := a, t_source := b, t_revision := t_revision r + 1, t_updated_by := c, t_updated_at := e\<rparr> \<noteq> r"
    for r :: line_loc and a b c e
    by (metis add_cancel_right_right line_loc.select_convs(3) line_loc.surjective
        line_loc.update_convs(1-5) zero_neq_one)
  then show ?thesis by (auto simp: write_official_def official_eff_def split: option.splits)
qed

lemma official_eff_human: "official_eff stamp txt (Some r) = Some r" if "t_source r = SideStorySourceHuman"
  using that by (simp add: official_eff_def side_sources)

lemma write_official_ok:
  "side_ok d \<Longrightarrow> row (lines d) k \<noteq> None \<Longrightarrow> lc \<in> {LocaleChinese, LocaleEnglish} \<Longrightarrow>
   side_ok (fst (write_official stamp k lc txt d))"
  by (auto simp: write_official_def line_loc_ok_def side_sources split: option.splits
      intro!: put_loc_ok modify_loc_ok)

section \<open>Retry delays\<close>

lemma backoff_loop_eq:
  "0 < delay \<Longrightarrow> delay < 2 * sideStoryBackoffCap \<Longrightarrow>
   min (backoff_loop step attempts delay) sideStoryBackoffCap =
   min (delay * 2 ^ nat (attempts - step)) sideStoryBackoffCap"
proof (induction step attempts delay rule: backoff_loop.induct)
  case (1 step attempts delay)
  show ?case
  proof (cases "step < attempts \<and> delay < sideStoryBackoffCap")
    case True
    then have n: "nat (attempts - step) = Suc (nat (attempts - (step + 1)))" by linarith
    from True 1 show ?thesis
      by (subst backoff_loop.simps) (simp add: n mult.assoc)
  next
    case False
    have "sideStoryBackoffCap \<le> delay * 2 ^ k" if "sideStoryBackoffCap \<le> delay" for k
    proof -
      have "delay * 1 \<le> delay * 2 ^ k" using 1(2) by (intro mult_left_mono) auto
      with that show ?thesis by linarith
    qed
    with False show ?thesis by (subst backoff_loop.simps) auto
  qed
qed

lemma backoff_closed:
  "side_story_backoff attempts = min (sideStoryBackoffBase * 2 ^ nat (attempts - 1)) sideStoryBackoffCap"
  unfolding side_story_backoff_def
  by (rule backoff_loop_eq) (simp_all add: sideStoryBackoffBase_def sideStoryBackoffCap_def)


section \<open>Parts of a last error\<close>

text \<open>Splitting at the separator "; ", which does not overlap itself, distributes over joins.\<close>

lemma split_acc_append:
  "split_acc ''; '' acc (x @ ''; '' @ y) = split_acc ''; '' acc x @ split_acc ''; '' [] y"
proof (induction "''; ''" acc x rule: split_acc.induct)
  case (1 acc)
  then show ?case by (simp add: split_acc.simps(2) has_prefix_def)
next
  case (2 acc c s)
  show ?case
  proof (cases "has_prefix (c # s) ''; ''")
    case True
    then obtain s' where "c = CHR '';''" "s = CHR '' '' # s'"
      by (auto simp: has_prefix_iff)
    with True 2(1) show ?thesis by (simp add: split_acc.simps(2) has_prefix_def)
  next
    case False
    have "\<not> has_prefix ((c # s) @ ''; '' @ y) ''; ''"
      using False by (cases s) (auto simp: has_prefix_def)
    with False 2(2) show ?thesis by (simp add: split_acc.simps(2))
  qed
qed

lemma split_join: "xs \<noteq> [] \<Longrightarrow> split_on ''; '' (join_with ''; '' xs) = concat (map (split_on ''; '') xs)"
proof (induction xs)
  case (Cons x xs)
  show ?case
  proof (cases xs)
    case (Cons y ys)
    then have "join_with ''; '' (x # xs) = x @ ''; '' @ join_with ''; '' xs" by simp
    then have "split_on ''; '' (join_with ''; '' (x # xs)) = split_on ''; '' x @ split_on ''; '' (join_with ''; '' xs)"
      unfolding split_on_def by (simp only: split_acc_append)
    with Cons.IH Cons show ?thesis by simp
  qed simp
qed simp

lemma split_acc_hd: "split_acc sep acc s = (rev acc @ hd (split_acc sep [] s)) # tl (split_acc sep [] s)"
proof -
  have "split_acc sep (a @ b) s = (rev b @ hd (split_acc sep a s)) # tl (split_acc sep a s)" for a b
  proof (induction sep a s rule: split_acc.induct)
    case (2 sep acc c s)
    then show ?case by (cases "sep = []"; cases "has_prefix (c # s) sep") (simp_all add: split_acc.simps(2))
  qed simp
  from this [of "[]" acc] show ?thesis by simp
qed

lemma split_prefix:
  "CHR '';'' \<notin> set u \<Longrightarrow> split_on ''; '' (u @ s) = (u @ hd (split_on ''; '' s)) # tl (split_on ''; '' s)"
proof -
  assume u: "CHR '';'' \<notin> set u"
  have "split_acc ''; '' acc (u @ s) = split_acc ''; '' (rev u @ acc) s" for acc
    using u by (induction u arbitrary: acc) (auto simp: split_acc.simps(2) has_prefix_def)
  then have "split_on ''; '' (u @ s) = split_acc ''; '' (rev u) s" by (simp add: split_on_def)
  then show ?thesis by (subst (asm) split_acc_hd) (simp add: split_on_def)
qed

definition error_locales :: "string list" where
  "error_locales = [LocaleJapanese, LocaleChinese, LocaleEnglish]"

definition render_part :: "string \<times> string \<Rightarrow> string" where
  "render_part p = fst p @ '': '' @ snd p"

text \<open>No later piece of the message looks like the start of a part.\<close>

definition plain_message :: "string \<Rightarrow> bool" where
  "plain_message m \<longleftrightarrow> list_all (\<lambda>piece. \<not> error_part_start piece) (tl (split_on ''; '' m))"

lemma gather_rest:
  "list_all (\<lambda>piece. \<not> error_part_start piece) rest \<Longrightarrow>
   gather_parts (rest @ later) (p # ps) = gather_parts later (join_with ''; '' (p # rest) # ps)"
proof (induction rest arbitrary: p)
  case (Cons x rest)
  have "join_with ''; '' ((p @ ''; '' @ x) # rest) = join_with ''; '' (p # x # rest)"
    by (cases rest) simp_all
  with Cons show ?case by simp
qed simp

lemma locale_facts:
  "lc \<in> set error_locales \<Longrightarrow> CHR '';'' \<notin> set (lc @ '': '')"
  "lc \<in> set error_locales \<Longrightarrow> error_part_start ((lc @ '': '') @ m)"
  "lc \<in> set error_locales \<Longrightarrow> lc' \<in> set error_locales \<Longrightarrow> has_prefix (render_part (lc, m)) (lc' @ '': '') \<longleftrightarrow> lc = lc'"
  by (auto simp: error_locales_def locale_names error_part_start_def has_prefix_def render_part_def)

lemma gather_part:
  assumes "lc \<in> set error_locales" "plain_message m"
  shows "gather_parts (split_on ''; '' (render_part (lc, m)) @ later) ps = gather_parts later (render_part (lc, m) # ps)"
proof -
  let ?s = "split_on ''; '' m"
  have sp: "split_on ''; '' (render_part (lc, m)) = ((lc @ '': '') @ hd ?s) # tl ?s"
    using split_prefix [OF locale_facts(1) [OF assms(1)], of m] by (simp add: render_part_def)
  have "join_with ''; '' (((lc @ '': '') @ hd ?s) # tl ?s) = render_part (lc, m)"
    using join_split [of "''; ''" "render_part (lc, m)"] unfolding sp .
  then show ?thesis
    using gather_rest [of "tl ?s" later "(lc @ '': '') @ hd ?s" ps] assms locale_facts(2) [OF assms(1), of "hd ?s"]
    unfolding sp by (cases ps) (simp_all add: plain_message_def)
qed

lemma gather_join:
  assumes "list_all (\<lambda>(lc, m). lc \<in> set error_locales \<and> plain_message m) ps" "ps \<noteq> []"
  shows "gather_parts (split_on ''; '' (join_with ''; '' (map render_part ps))) [] = map render_part ps"
proof -
  have "gather_parts (concat (map (split_on ''; '') (map render_part ps))) acc = rev acc @ map render_part ps" for acc
    using assms(1)
  proof (induction ps arbitrary: acc)
    case (Cons p ps)
    obtain lc m where p: "p = (lc, m)" by fastforce
    from Cons.prems p gather_part [of lc m "concat (map (split_on ''; '') (map render_part ps))" acc] Cons.IH
    show ?case by simp
  qed simp
  then show ?thesis using assms(2) by (simp add: split_join)
qed

section \<open>Properties\<close>

text \<open>
  The parts of a last error are recovered from it. However the messages read, when no
  later piece of one starts like a part, asking the joined string for a locale gives back exactly
  the part recorded for that locale, or the empty string when there is none.
\<close>

theorem error_parts_roundtrip:
  assumes "list_all (\<lambda>(lc, m). lc \<in> set error_locales \<and> plain_message m) ps" "distinct (map fst ps)"
    and "lc \<in> set error_locales"
  shows "error_part (join_with ''; '' (map render_part ps)) lc =
    (case map_of ps lc of None \<Rightarrow> [] | Some m \<Rightarrow> render_part (lc, m))"
proof -
  have f: "find (\<lambda>part. has_prefix part (lc @ '': '')) (map render_part ps) =
      map_option (\<lambda>m. render_part (lc, m)) (map_of ps lc)"
    using assms(1,3) by (induction ps) (auto simp: locale_facts(3))
  show ?thesis
  proof (cases "ps = []")
    case True
    then show ?thesis by (simp add: error_part_def split_on_def has_prefix_def)
  next
    case False
    show ?thesis
      unfolding error_part_def gather_join [OF assms(1) False] f by (cases "map_of ps lc") simp_all
  qed
qed

theorem error_parts_roundtrip_witness:
  "error_part (join_with ''; '' (map render_part [(''ja-JP'', ''not found''), (''zh-CN'', ''a; b'')])) ''zh-CN'' =
   ''zh-CN: a; b''"
  using error_parts_roundtrip [of "[(''ja-JP'', ''not found''), (''zh-CN'', ''a; b'')]" "''zh-CN''"]
  by (simp add: error_locales_def locale_names plain_message_def split_on_def split_acc.simps(2) has_prefix_def
      error_part_start_def render_part_def)

text \<open>
  Retry delays. The delay before attempt n is ten minutes doubled n - 1 times and capped at
  a day, so it is between the two, never shrinks with more attempts, and the doubling stays far
  below the range of an int64 duration.
\<close>

theorem backoff_bounds:
  "side_story_backoff n = min (sideStoryBackoffBase * 2 ^ nat (n - 1)) sideStoryBackoffCap \<and>
   sideStoryBackoffBase \<le> side_story_backoff n \<and> side_story_backoff n \<le> sideStoryBackoffCap \<and>
   side_story_backoff n \<le> side_story_backoff (n + 1) \<and>
   backoff_loop 1 n sideStoryBackoffBase < 2 ^ 63"
proof -
  have mono: "sideStoryBackoffBase * 2 ^ nat (n - 1) \<le> sideStoryBackoffBase * 2 ^ nat (n + 1 - 1)"
    by (intro mult_left_mono power_increasing) (simp_all add: sideStoryBackoffBase_def)
  have low: "sideStoryBackoffBase * 1 \<le> sideStoryBackoffBase * 2 ^ nat (n - 1)"
    by (intro mult_left_mono) (simp_all add: sideStoryBackoffBase_def)
  have "backoff_loop step n delay < 2 * sideStoryBackoffCap" if "delay < 2 * sideStoryBackoffCap" for step delay
    using that
  proof (induction step n delay rule: backoff_loop.induct)
    case (1 step attempts delay)
    then show ?case by (subst backoff_loop.simps) auto
  qed
  from this [of sideStoryBackoffBase 1] have "backoff_loop 1 n sideStoryBackoffBase < 2 ^ 63"
    by (simp add: sideStoryBackoffBase_def sideStoryBackoffCap_def)
  moreover have "sideStoryBackoffBase \<le> sideStoryBackoffCap"
    by (simp add: sideStoryBackoffBase_def sideStoryBackoffCap_def)
  ultimately show ?thesis using mono low unfolding backoff_closed min_def by auto
qed

end
