(* ===== verification/SideStoryApply.thy ===== *)
theory SideStoryApply
  imports SideStoryTypes
begin

text \<open>
  Recording fetched scripts (\<open>store/side_story_apply.go\<close>): the Japanese script sets the lines of
  an episode, the official scripts fill in their translations, and what failed decides when
  the episode is fetched again. A script is what \<open>ParseSideStoryScript\<close> built: the index of a
  talk is its position. Times are unix seconds.
\<close>

section \<open>Fetched scripts\<close>

record talk =
  talk_index :: nat
  talk_body :: string
  talk_speaker :: string

record script =
  sc_sha256 :: string
  sc_talks :: "talk list"

definition script_ok :: "script \<Rightarrow> bool" where
  "script_ok s \<longleftrightarrow> map talk_index (sc_talks s) = [0..<length (sc_talks s)]"

record fetch_outcome =
  fo_attempted :: bool
  fo_script :: "script option"
  fo_missing :: bool
  fo_err :: string
  fo_transient :: bool

record episode_fetch =
  ef_episode :: episode_id
  ef_jp :: fetch_outcome
  ef_cn :: fetch_outcome
  ef_en :: fetch_outcome

record line_def =
  ld_key :: string
  ld_role :: string
  ld_speaker :: string
  ld_position :: int

section \<open>The lines of a script\<close>

definition talk_lines :: "talk \<Rightarrow> string set \<times> line_def list \<Rightarrow> string set \<times> line_def list" where
  "talk_lines t s =
     (let (seen, ls) = s;
          (seen, ls) =
            (if talk_body t \<noteq> [] \<and> talk_body t \<notin> seen
             then (insert (talk_body t) seen,
                   ls @ [\<lparr>ld_key = talk_body t, ld_role = SideStoryRoleTalk, ld_speaker = talk_speaker t,
                          ld_position = int (talk_index t) * 2\<rparr>])
             else (seen, ls))
      in if talk_speaker t \<noteq> [] \<and> talk_speaker t \<notin> seen
         then (insert (talk_speaker t) seen,
               ls @ [\<lparr>ld_key = talk_speaker t, ld_role = SideStoryRoleSpeaker, ld_speaker = [],
                      ld_position = int (talk_index t) * 2 + 1\<rparr>])
         else (seen, ls))"

definition script_lines :: "script \<Rightarrow> string \<Rightarrow> line_def list" where
  "script_lines s title_key =
     snd (fold talk_lines (sc_talks s) (if title_key \<noteq> [] then {title_key} else {}, []))"

text \<open>
  \<open>replaceSideStoryLinesTx\<close>: the lines of the episode that are neither its title nor in the
  script go, with a count of the human rows that go with them; then new and changed lines are
  written.
\<close>

definition episode_lines :: "episode_id \<Rightarrow> side_db \<Rightarrow> line_def list" where
  "episode_lines ep d =
     map (\<lambda>((_, key), l). \<lparr>ld_key = key, ld_role = l_role l, ld_speaker = l_speaker l, ld_position = l_position l\<rparr>)
       (filter (\<lambda>((e, _), _). e = ep) (lines d))"

text \<open>The title key is that of the last title row the query returns.\<close>

definition title_key_of :: "line_def list \<Rightarrow> string" where
  "title_key_of existing = fold (\<lambda>l t. if ld_role l = SideStoryRoleTitle then ld_key l else t) existing []"

definition drop_line :: "episode_id \<Rightarrow> line_def \<Rightarrow> side_db \<times> nat \<Rightarrow> side_db \<times> nat" where
  "drop_line ep l s = (let (d, dropped) = s in
     (delete_line (ep, ld_key l) d, dropped + count_humans (ep, ld_key l) d))"

definition upsert_line :: "episode_id \<Rightarrow> line_def \<Rightarrow> side_db \<Rightarrow> side_db" where
  "upsert_line ep l d = d\<lparr>lines := put (ep, ld_key l)
     \<lparr>l_role = ld_role l, l_speaker = ld_speaker l, l_position = ld_position l\<rparr> (lines d)\<rparr>"

definition replace_lines ::
  "episode_id \<Rightarrow> script \<Rightarrow> side_db \<Rightarrow> side_db \<times> line_def list \<times> bool \<times> nat" where
  "replace_lines ep s d =
     (let existing = episode_lines ep d;
          ls = script_lines s (title_key_of existing);
          gone = filter (\<lambda>l. \<not> (ld_role l = SideStoryRoleTitle \<or> ld_key l \<in> ld_key ` set ls)) existing;
          (d, dropped) = fold (drop_line ep) gone (d, 0);
          wanted = filter (\<lambda>l. l \<notin> set existing) ls
      in (fold (upsert_line ep) wanted d, ls, gone \<noteq> [] \<or> wanted \<noteq> [], dropped))"

section \<open>Official imports\<close>

definition sideStoryNoRetry :: nat where "sideStoryNoRetry = 0"
definition sideStoryRetryMissing :: nat where "sideStoryRetryMissing = 1"
definition sideStoryRetryNow :: nat where "sideStoryRetryNow = 2"
definition sideStoryRetryTransient :: nat where "sideStoryRetryTransient = 3"

lemmas retries = sideStoryNoRetry_def sideStoryRetryMissing_def sideStoryRetryNow_def sideStoryRetryTransient_def

definition kana_bodies :: "script \<Rightarrow> talk list \<Rightarrow> nat \<times> nat" where
  "kana_bodies jp official =
     fold (\<lambda>(i, t) (kana, mirrored).
         if has_kana (talk_body t)
         then (kana + 1, if talk_body (official ! i) = talk_body t then mirrored + 1 else mirrored)
         else (kana, mirrored))
       (enumerate 0 (sc_talks jp)) (0, 0)"

definition official_text :: "talk list \<Rightarrow> line_def \<Rightarrow> string" where
  "official_text official l =
     (let paired = official ! nat (ld_position l div 2) in
      if ld_role l = SideStoryRoleSpeaker then talk_speaker paired else talk_body paired)"

definition import_line ::
  "int \<Rightarrow> episode_id \<Rightarrow> string \<Rightarrow> talk list \<Rightarrow> line_def \<Rightarrow> side_db \<times> nat \<Rightarrow> side_db \<times> nat" where
  "import_line stamp ep lc official l s =
     (let (d, written) = s; txt = official_text official l in
      if txt = [] \<or> (txt = ld_key l \<and> has_kana (ld_key l)) then (d, written)
      else let (d', wrote) = write_official stamp (ep, ld_key l) lc txt d in
        (d', if wrote then written + 1 else written))"

text \<open>The result: new state, rows written, failure message, when to retry.\<close>

definition apply_official ::
  "int \<Rightarrow> episode_id \<Rightarrow> string \<Rightarrow> script \<Rightarrow> fetch_outcome \<Rightarrow> line_def list \<Rightarrow> string \<Rightarrow> string \<Rightarrow> bool \<Rightarrow>
   side_db \<Rightarrow> side_db \<times> string \<times> nat \<times> string \<times> nat" where
  "apply_official stamp ep lc jp outcome ls state path requeue d =
     (let keep_import = (state = SideStoryStateImported \<and> \<not> requeue) in
      if \<not> fo_attempted outcome then
        (if requeue \<and> path \<noteq> [] \<and> state \<noteq> SideStoryStateAbsent
         then (d, SideStoryStatePending, 0, [], sideStoryRetryNow)
         else (d, state, 0, [], sideStoryNoRetry))
      else if fo_missing outcome \<and> keep_import then (d, state, 0, [], sideStoryNoRetry)
      else if fo_missing outcome then (d, SideStoryStatePending, 0, ''not found'', sideStoryRetryMissing)
      else if fo_err outcome \<noteq> [] then
        (if fo_transient outcome then (d, SideStoryStatePending, 0, fo_err outcome, sideStoryRetryTransient)
         else (d, SideStoryStateError, 0, fo_err outcome, sideStoryNoRetry))
      else case fo_script outcome of
        None \<Rightarrow> (d, SideStoryStateError, 0, ''no fetch result'', sideStoryNoRetry)
      | Some sc \<Rightarrow>
          if length (sc_talks sc) \<noteq> length (sc_talks jp)
          then (d, SideStoryStateMismatch, 0,
                ''TalkData length mismatch ('' @ format_uint (length (sc_talks jp)) @ '' != '' @
                  format_uint (length (sc_talks sc)) @ '')'', sideStoryNoRetry)
          else let official = sc_talks sc; (kana, mirrored) = kana_bodies jp official in
            if mirrored * 2 > kana then
              (if keep_import then (d, state, 0, [], sideStoryNoRetry)
               else (d, SideStoryStatePending, 0, ''official script repeats the Japanese text'', sideStoryRetryMissing))
            else let (d', written) = fold (import_line stamp ep lc official) ls (d, 0) in
              (d', SideStoryStateImported, written, [], sideStoryNoRetry))"

section \<open>One fetched episode\<close>

record episode_apply =
  ea_episode :: episode_id
  ea_fetched :: bool
  ea_script_changed :: bool
  ea_cn_state :: string
  ea_en_state :: string
  ea_official_written :: nat
  ea_dropped :: nat
  ea_error :: string

definition empty_apply :: "episode_id \<Rightarrow> episode_apply" where
  "empty_apply ep = \<lparr>ea_episode = ep, ea_fetched = False, ea_script_changed = False, ea_cn_state = [],
     ea_en_state = [], ea_official_written = 0, ea_dropped = 0, ea_error = []\<rparr>"

definition in_seconds :: "int \<Rightarrow> int" where
  "in_seconds delay = delay div second"

text \<open>The delay and the message of a Japanese fetch without a script.\<close>

definition jp_failure :: "fetch_outcome \<Rightarrow> int \<Rightarrow> int \<times> string" where
  "jp_failure jp attempts =
     (if fo_missing jp then (sideStoryBackoffCap, ''not found'')
      else if fo_err jp \<noteq> [] then
        (if fo_transient jp then side_story_backoff attempts else sideStoryBackoffCap, fo_err jp)
      else (sideStoryBackoffCap, ''no fetch result''))"

definition non_empty :: "string list \<Rightarrow> string list" where
  "non_empty xs = filter (\<lambda>x. x \<noteq> []) xs"

text \<open>The parts of one locale: those the caller sees and those that are stored.\<close>

definition locale_parts :: "episode_row \<Rightarrow> string \<Rightarrow> fetch_outcome \<Rightarrow> string \<Rightarrow> string \<Rightarrow> string list" where
  "locale_parts e lc outcome state message =
     (if message \<noteq> [] then [lc @ '': '' @ message]
      else if \<not> fo_attempted outcome then non_empty [kept_error e lc state]
      else [])"

definition retry_times :: "nat \<Rightarrow> int \<Rightarrow> int \<Rightarrow> int \<times> int" where
  "retry_times retry stamp attempts =
     (if retry = sideStoryRetryTransient
      then (attempts + 1, stamp + in_seconds (side_story_backoff (attempts + 1)))
      else if retry = sideStoryRetryMissing then (0, stamp + in_seconds sideStoryBackoffCap)
      else (0, 0))"

text \<open>The Japanese script was not fetched.\<close>

definition record_jp_failure ::
  "int \<Rightarrow> episode_fetch \<Rightarrow> episode_row \<Rightarrow> episode_apply \<Rightarrow> side_db \<Rightarrow> side_db \<times> episode_apply \<times> bool" where
  "record_jp_failure stamp fetch e out d =
     (let attempts = e_attempts e + 1; (delay, message) = jp_failure (ef_jp fetch) attempts;
          messages = (LocaleJapanese @ '': '' @ message) #
            non_empty [kept_error e LocaleChinese (e_cn_state e), kept_error e LocaleEnglish (e_en_state e)];
          out = out\<lparr>ea_error := join_with ''; '' messages\<rparr>
      in if \<not> queued e then (d, out, False)
         else (d\<lparr>episodes := modify (ef_episode fetch) (\<lambda>e. e\<lparr>e_attempts := attempts,
                 e_next_attempt_at := stamp + in_seconds delay, e_last_error := ea_error out,
                 e_updated_at := stamp\<rparr>) (episodes d)\<rparr>, out, False))"

text \<open>The Japanese script was fetched; the parts shown to the caller are the parts stored.\<close>

definition record_script ::
  "int \<Rightarrow> episode_fetch \<Rightarrow> script \<Rightarrow> episode_row \<Rightarrow> episode_apply \<Rightarrow> side_db \<Rightarrow>
   side_db \<times> episode_apply \<times> bool" where
  "record_script stamp fetch sc e out d =
     (let ep = ef_episode fetch; changed = (e_script_sha256 e \<noteq> sc_sha256 sc);
          (d, ls, lines_changed, dropped) = replace_lines ep sc d;
          requeue = (changed \<and> e_script_sha256 e \<noteq> []);
          (d, cn_state, cn_written, cn_message, cn_retry) =
            apply_official stamp ep LocaleChinese sc (ef_cn fetch) ls (e_cn_state e) (e_cn_path e) requeue d;
          (d, en_state, en_written, en_message, en_retry) =
            apply_official stamp ep LocaleEnglish sc (ef_en fetch) ls (e_en_state e) (e_en_path e) requeue d;
          parts = locale_parts e LocaleChinese (ef_cn fetch) cn_state cn_message @
            locale_parts e LocaleEnglish (ef_en fetch) en_state en_message;
          (attempts, next_at) = retry_times (max (max sideStoryNoRetry cn_retry) en_retry) stamp (e_attempts e);
          written = cn_written + en_written
      in (d\<lparr>episodes := modify ep (\<lambda>e. e\<lparr>e_script_sha256 := sc_sha256 sc, e_jp_fetched_at := stamp,
              e_jp_refetch := False, e_attempts := attempts, e_next_attempt_at := next_at,
              e_last_error := join_with ''; '' parts, e_cn_state := cn_state, e_en_state := en_state,
              e_updated_at := stamp\<rparr>) (episodes d)\<rparr>,
          out\<lparr>ea_fetched := True, ea_script_changed := changed, ea_cn_state := cn_state,
              ea_en_state := en_state, ea_official_written := written, ea_dropped := dropped,
              ea_error := join_with ''; '' parts\<rparr>,
          lines_changed \<or> written > 0))"

definition apply_fetch :: "int \<Rightarrow> episode_fetch \<Rightarrow> side_db \<Rightarrow> side_db \<times> episode_apply \<times> bool" where
  "apply_fetch stamp fetch d =
     (let out = empty_apply (ef_episode fetch) in
      case row (episodes d) (ef_episode fetch) of
        None \<Rightarrow> (d, out\<lparr>ea_error := ''episode not found''\<rparr>, False)
      | Some e \<Rightarrow>
        (let out = out\<lparr>ea_cn_state := e_cn_state e, ea_en_state := e_en_state e\<rparr> in
         if \<not> fo_attempted (ef_jp fetch) then (d, out, False)
         else (case fo_script (ef_jp fetch) of
             None \<Rightarrow> record_jp_failure stamp fetch e out d
           | Some sc \<Rightarrow> record_script stamp fetch sc e out d)))"

section \<open>A round of fetches\<close>

fun apply_loop ::
  "(nat \<Rightarrow> bool) \<Rightarrow> int \<Rightarrow> episode_fetch list \<Rightarrow> side_db \<Rightarrow> episode_apply list \<Rightarrow> bool \<Rightarrow>
   side_error + (side_db \<times> episode_apply list \<times> bool)" where
  "apply_loop cancelled stamp [] d out changed = Inr (d, out, changed)"
| "apply_loop cancelled stamp (f # fs) d out changed =
     (if cancelled (length out) then Inl Cancelled
      else let (d', applied, ch) = apply_fetch stamp f d in
        apply_loop cancelled stamp fs d' (out @ [applied]) (changed \<or> ch))"

definition apply_fetches ::
  "tx_end \<Rightarrow> (nat \<Rightarrow> bool) \<Rightarrow> int \<Rightarrow> episode_fetch list \<Rightarrow> side_db \<Rightarrow>
   side_db \<times> (side_error + (episode_apply list \<times> bool))" where
  "apply_fetches tx cancelled stamp fetches d =
     (if tx = NoBegin then (d, Inl BeginFailed)
      else case apply_loop cancelled stamp fetches d [] False of
        Inl err \<Rightarrow> (d, Inl err)
      | Inr (d', out, changed) \<Rightarrow>
          if tx = NoCommit then (d, Inl CommitFailed) else (d', Inr (out, changed)))"


section \<open>Lemmas on the lines of a script\<close>

text \<open>What one line of a script stands for.\<close>

definition line_of :: "talk list \<Rightarrow> line_def \<Rightarrow> bool" where
  "line_of ts l \<longleftrightarrow> (\<exists>t \<in> set ts. ld_key l \<noteq> [] \<and>
     ((ld_role l = SideStoryRoleTalk \<and> ld_key l = talk_body t \<and> ld_speaker l = talk_speaker t \<and>
        ld_position l = int (talk_index t) * 2) \<or>
      (ld_role l = SideStoryRoleSpeaker \<and> ld_key l = talk_speaker t \<and> ld_speaker l = [] \<and>
        ld_position l = int (talk_index t) * 2 + 1)))"

lemma line_of_mono: "line_of ts l \<Longrightarrow> line_of (ts @ us) l"
  by (auto simp: line_of_def)

definition lines_inv :: "talk list \<Rightarrow> string set \<Rightarrow> string set \<times> line_def list \<Rightarrow> bool" where
  "lines_inv ts title s \<longleftrightarrow> fst s = title \<union> ld_key ` set (snd s) \<and> distinct (map ld_key (snd s)) \<and>
     title \<inter> ld_key ` set (snd s) = {} \<and> list_all (line_of ts) (snd s) \<and>
     (talk_body ` set ts \<union> talk_speaker ` set ts) - {[]} \<subseteq> fst s"

lemma talk_lines_inv: "lines_inv ts title s \<Longrightarrow> lines_inv (ts @ [t]) title (talk_lines t s)"
proof -
  assume inv: "lines_inv ts title s"
  obtain seen ls where s: "s = (seen, ls)" by fastforce
  have old: "list_all (line_of (ts @ [t])) ls"
    using inv line_of_mono by (auto simp: lines_inv_def s list_all_iff)
  have seen: "seen = title \<union> ld_key ` set ls" and dl: "distinct (map ld_key ls)"
    and ti: "title \<inter> ld_key ` set ls = {}"
    and cov: "(talk_body ` set ts \<union> talk_speaker ` set ts) - {[]} \<subseteq> seen"
    using inv by (auto simp: lines_inv_def s)
  show ?thesis
    using old dl ti cov
    by (auto simp: lines_inv_def s talk_lines_def Let_def seen line_of_def)
qed

lemma fold_talk_lines:
  "lines_inv us title s \<Longrightarrow> lines_inv (us @ ts) title (fold talk_lines ts s)"
proof (induction ts arbitrary: us s)
  case (Cons t ts)
  from Cons.IH [OF talk_lines_inv [OF Cons.prems, of t]] show ?case by simp
qed simp

lemma script_lines_facts:
  shows "distinct (map ld_key (script_lines s title))"
    and "title \<noteq> [] \<Longrightarrow> title \<notin> ld_key ` set (script_lines s title)"
    and "l \<in> set (script_lines s title) \<Longrightarrow> line_of (sc_talks s) l"
    and "x \<in> talk_body ` set (sc_talks s) \<union> talk_speaker ` set (sc_talks s) \<Longrightarrow> x \<noteq> [] \<Longrightarrow> x \<noteq> title \<Longrightarrow>
      x \<in> ld_key ` set (script_lines s title)"
proof -
  let ?t = "if title \<noteq> [] then {title} else {}"
  have "lines_inv [] ?t (?t, [])" by (simp add: lines_inv_def)
  from fold_talk_lines [OF this, of "sc_talks s"]
  have inv: "lines_inv (sc_talks s) ?t (fold talk_lines (sc_talks s) (?t, []))" by simp
  then show "distinct (map ld_key (script_lines s title))"
    "title \<noteq> [] \<Longrightarrow> title \<notin> ld_key ` set (script_lines s title)"
    "l \<in> set (script_lines s title) \<Longrightarrow> line_of (sc_talks s) l"
    by (auto simp: lines_inv_def script_lines_def list_all_iff)
  have cov: "(talk_body ` set (sc_talks s) \<union> talk_speaker ` set (sc_talks s)) - {[]} \<subseteq>
      ?t \<union> ld_key ` set (script_lines s title)"
    using inv unfolding lines_inv_def script_lines_def by blast
  assume x: "x \<in> talk_body ` set (sc_talks s) \<union> talk_speaker ` set (sc_talks s)" "x \<noteq> []" "x \<noteq> title"
  then have "x \<in> ?t \<union> ld_key ` set (script_lines s title)" using cov by blast
  then show "x \<in> ld_key ` set (script_lines s title)" using x(3) by (simp split: if_splits)
qed

lemma script_ok_talk:
  assumes "script_ok s" "t \<in> set (sc_talks s)"
  shows "talk_index t < length (sc_talks s)" "sc_talks s ! talk_index t = t"
proof -
  obtain i where i: "i < length (sc_talks s)" "t = sc_talks s ! i" using assms(2) by (metis in_set_conv_nth)
  have "talk_index (sc_talks s ! i) = i"
    using assms(1) i(1) unfolding script_ok_def by (metis add_0 nth_map nth_upt)
  then show "talk_index t < length (sc_talks s)" "sc_talks s ! talk_index t = t" using i by simp_all
qed

lemma line_position:
  assumes "script_ok s" "l \<in> set (script_lines s title)"
  shows "0 \<le> ld_position l" "nat (ld_position l div 2) < length (sc_talks s)"
    and "official_text (sc_talks s) l = ld_key l"
proof -
  obtain t where t: "t \<in> set (sc_talks s)"
    "(ld_role l = SideStoryRoleTalk \<and> ld_key l = talk_body t \<and> ld_position l = int (talk_index t) * 2) \<or>
     (ld_role l = SideStoryRoleSpeaker \<and> ld_key l = talk_speaker t \<and> ld_position l = int (talk_index t) * 2 + 1)"
    using script_lines_facts(3) [OF assms(2)] unfolding line_of_def by blast
  have "ld_position l div 2 = int (talk_index t)" "0 \<le> ld_position l" using t(2) by auto
  then show "0 \<le> ld_position l" "nat (ld_position l div 2) < length (sc_talks s)"
    "official_text (sc_talks s) l = ld_key l"
    using t(2) script_ok_talk [OF assms(1) t(1)] by (auto simp: official_text_def Let_def side_roles)
qed


section \<open>Lemmas on the replacement of the lines\<close>

definition humans :: "side_db \<Rightarrow> nat" where
  "humans d = length (filter (\<lambda>(_, r). t_source r = SideStorySourceHuman) (line_locs d))"

lemma humans_delete: "humans (delete_line k d) + count_humans k d = humans d"
proof -
  have "length (filter (\<lambda>(_, r). t_source r = SideStorySourceHuman) (del (\<lambda>(l, _). l = k) t)) +
      length (filter (\<lambda>((l, _), r). l = k \<and> t_source r = ''human'') t) =
      length (filter (\<lambda>(_, r). t_source r = SideStorySourceHuman) t)" for t :: "(line_loc_id, line_loc) table"
    by (induction t) (auto simp: del_def side_sources)
  then show ?thesis by (simp add: humans_def delete_line_def count_humans_def)
qed

lemma drop_step [simp]:
  "drop_line ep l (d, n) = (delete_line (ep, ld_key l) d, n + count_humans (ep, ld_key l) d)"
  by (simp add: drop_line_def)

lemma upsert_step [simp]:
  "stories (upsert_line ep l d) = stories d" "episodes (upsert_line ep l d) = episodes d"
  "line_locs (upsert_line ep l d) = line_locs d"
  "row (lines (upsert_line ep l d)) k = (if k = (ep, ld_key l)
     then Some \<lparr>l_role = ld_role l, l_speaker = ld_speaker l, l_position = ld_position l\<rparr> else row (lines d) k)"
  by (simp_all add: upsert_line_def)

lemma drop_fold:
  "stories (fst (fold (drop_line ep) ls (d, n))) = stories d"
  "episodes (fst (fold (drop_line ep) ls (d, n))) = episodes d"
  "row (lines (fst (fold (drop_line ep) ls (d, n)))) k =
     (if fst k = ep \<and> snd k \<in> ld_key ` set ls then None else row (lines d) k)"
  "row (line_locs (fst (fold (drop_line ep) ls (d, n)))) (k, lc) =
     (if fst k = ep \<and> snd k \<in> ld_key ` set ls then None else row (line_locs d) (k, lc))"
  "side_ok d \<Longrightarrow> side_ok (fst (fold (drop_line ep) ls (d, n)))"
  "humans (fst (fold (drop_line ep) ls (d, n))) + snd (fold (drop_line ep) ls (d, n)) = humans d + n"
proof (induction ls arbitrary: d n k lc)
  case (Cons l ls)
  { case 1 show ?case by (simp add: Cons) }
  { case 2 show ?case by (simp add: Cons) }
  { case 3 show ?case by (auto simp: Cons prod_eq_iff) }
  { case 4 show ?case by (auto simp: Cons prod_eq_iff) }
  { case 5 then show ?case by (simp add: Cons delete_line_ok) }
  { case 6 show ?case using humans_delete [of "(ep, ld_key l)" d] by (simp add: Cons) }
qed simp_all

lemma upsert_fold:
  "stories (fold (upsert_line ep) ls d) = stories d"
  "episodes (fold (upsert_line ep) ls d) = episodes d"
  "line_locs (fold (upsert_line ep) ls d) = line_locs d"
  "k \<notin> (\<lambda>l. (ep, ld_key l)) ` set ls \<Longrightarrow> row (lines (fold (upsert_line ep) ls d)) k = row (lines d) k"
  "row (lines d) k \<noteq> None \<or> k \<in> (\<lambda>l. (ep, ld_key l)) ` set ls \<Longrightarrow> row (lines (fold (upsert_line ep) ls d)) k \<noteq> None"
  "distinct (map ld_key ls) \<Longrightarrow> l \<in> set ls \<Longrightarrow> row (lines (fold (upsert_line ep) ls d)) (ep, ld_key l) =
     Some \<lparr>l_role = ld_role l, l_speaker = ld_speaker l, l_position = ld_position l\<rparr>"
proof (induction ls arbitrary: d k l)
  case (Cons x ls)
  { case 1 show ?case by (simp add: Cons) }
  { case 2 show ?case by (simp add: Cons) }
  { case 3 show ?case by (simp add: Cons) }
  { case 4 then show ?case by (simp add: Cons) }
  { case 5
    then have "row (lines (upsert_line ep x d)) k \<noteq> None \<or> k \<in> (\<lambda>l. (ep, ld_key l)) ` set ls" by auto
    from Cons(5) [OF this] show ?case by simp }
  { case 6
    show ?case
    proof (cases "l = x")
      case True
      then have "(ep, ld_key l) \<notin> (\<lambda>l. (ep, ld_key l)) ` set ls" using 6(1) by auto
      with True show ?thesis by (simp add: Cons(4))
    next
      case False
      with 6 show ?thesis by (simp add: Cons(6))
    qed }
qed simp_all

lemma line_of_ok: "line_of ts l \<Longrightarrow> line_ok ((ep, ld_key l), \<lparr>l_role = ld_role l, l_speaker = ld_speaker l, l_position = ld_position l\<rparr>)"
  by (auto simp: line_of_def line_ok_def side_roles)

lemma upsert_ok:
  "side_ok d \<Longrightarrow> row (episodes d) ep \<noteq> None \<Longrightarrow> list_all (line_of ts) ls \<Longrightarrow> side_ok (fold (upsert_line ep) ls d)"
proof (induction ls arbitrary: d)
  case (Cons l ls)
  have "side_ok (upsert_line ep l d)" unfolding upsert_line_def
    using Cons.prems by (intro put_line_ok [OF _ line_of_ok [where ts = ts]]) simp_all
  with Cons show ?case by simp
qed simp

lemma episode_line_in:
  assumes "side_ok d"
  shows "l \<in> set (episode_lines ep d) \<longleftrightarrow>
    row (lines d) (ep, ld_key l) = Some \<lparr>l_role = ld_role l, l_speaker = ld_speaker l, l_position = ld_position l\<rparr>"
proof -
  have e: "(k, r) \<in> set (lines d) \<longleftrightarrow> row (lines d) k = Some r" for k r
    using side_okD(3) [OF assms] in_row row_in by metis
  have "l \<in> set (episode_lines ep d) \<longleftrightarrow> (\<exists>key r. ((ep, key), r) \<in> set (lines d) \<and>
      l = \<lparr>ld_key = key, ld_role = l_role r, ld_speaker = l_speaker r, ld_position = l_position r\<rparr>)"
    by (force simp: episode_lines_def)
  moreover have "(\<exists>key r. row (lines d) (ep, key) = Some r \<and>
      l = \<lparr>ld_key = key, ld_role = l_role r, ld_speaker = l_speaker r, ld_position = l_position r\<rparr>) \<longleftrightarrow>
    row (lines d) (ep, ld_key l) = Some \<lparr>l_role = ld_role l, l_speaker = ld_speaker l, l_position = ld_position l\<rparr>"
    (is "?x \<longleftrightarrow> ?y")
  proof
    assume ?y
    moreover have "l = \<lparr>ld_key = ld_key l, ld_role = ld_role l, ld_speaker = ld_speaker l, ld_position = ld_position l\<rparr>"
      by simp
    ultimately show ?x by (metis line_row.select_convs)
  qed auto
  ultimately show ?thesis unfolding e by blast
qed

text \<open>The keys that go: lines of the episode that are no title and not in the script.\<close>

definition gone_keys :: "episode_id \<Rightarrow> script \<Rightarrow> side_db \<Rightarrow> string set" where
  "gone_keys ep s d = {k. \<exists>l. row (lines d) (ep, k) = Some l \<and> l_role l \<noteq> SideStoryRoleTitle} -
     ld_key ` set (script_lines s (title_key_of (episode_lines ep d)))"

lemma gone_eq:
  assumes "side_ok d"
  shows "ld_key ` set (filter (\<lambda>l. \<not> (ld_role l = SideStoryRoleTitle \<or>
      ld_key l \<in> ld_key ` set (script_lines s (title_key_of (episode_lines ep d))))) (episode_lines ep d)) =
    gone_keys ep s d"
proof (intro set_eqI iffI)
  fix k assume "k \<in> gone_keys ep s d"
  then obtain l where l: "row (lines d) (ep, k) = Some l" "l_role l \<noteq> SideStoryRoleTitle"
    "k \<notin> ld_key ` set (script_lines s (title_key_of (episode_lines ep d)))" by (auto simp: gone_keys_def)
  let ?l = "\<lparr>ld_key = k, ld_role = l_role l, ld_speaker = l_speaker l, ld_position = l_position l\<rparr>"
  have "?l \<in> set (episode_lines ep d)" using l(1) by (simp add: episode_line_in [OF assms])
  with l show "k \<in> ld_key ` set (filter (\<lambda>l. \<not> (ld_role l = SideStoryRoleTitle \<or>
      ld_key l \<in> ld_key ` set (script_lines s (title_key_of (episode_lines ep d))))) (episode_lines ep d))"
    by (intro image_eqI [of _ _ ?l]) auto
qed (auto simp: gone_keys_def episode_line_in [OF assms])

lemma replace_lines_facts:
  assumes ok: "side_ok d" and ep: "row (episodes d) ep \<noteq> None"
    and r: "replace_lines ep s d = (d', ls, changed, dropped)"
  shows "side_ok d'" "stories d' = stories d" "episodes d' = episodes d"
    and "ls = script_lines s (title_key_of (episode_lines ep d))"
    and "l \<in> set ls \<Longrightarrow> row (lines d') (ep, ld_key l) =
      Some \<lparr>l_role = ld_role l, l_speaker = ld_speaker l, l_position = ld_position l\<rparr>"
    and "k \<notin> (\<lambda>l. (ep, ld_key l)) ` set ls \<Longrightarrow>
      row (lines d') k = (if fst k = ep \<and> snd k \<in> gone_keys ep s d then None else row (lines d) k)"
    and "row (line_locs d') (k, lc) =
      (if fst k = ep \<and> snd k \<in> gone_keys ep s d then None else row (line_locs d) (k, lc))"
    and "humans d' + dropped = humans d"
proof -
  let ?ex = "episode_lines ep d"
  let ?ls = "script_lines s (title_key_of ?ex)"
  let ?gone = "filter (\<lambda>l. \<not> (ld_role l = SideStoryRoleTitle \<or> ld_key l \<in> ld_key ` set ?ls)) ?ex"
  let ?d1 = "fst (fold (drop_line ep) ?gone (d, 0))" and ?w = "filter (\<lambda>l. l \<notin> set ?ex) ?ls"
  have d': "d' = fold (upsert_line ep) ?w ?d1" and ls: "ls = ?ls"
    and dr: "dropped = snd (fold (drop_line ep) ?gone (d, 0))"
    using r by (auto simp: replace_lines_def Let_def case_prod_unfold)
  note gone = gone_eq [OF ok, of s ep]
  show "ls = ?ls" by (rule ls)
  show "stories d' = stories d" "episodes d' = episodes d" by (simp_all add: d' upsert_fold drop_fold)
  have "list_all (line_of (sc_talks s)) ?w" by (auto simp: list_all_iff script_lines_facts(3))
  then show "side_ok d'"
    unfolding d' by (intro upsert_ok drop_fold(5) [OF ok]) (simp_all add: drop_fold(2) ep)
  show "row (line_locs d') (k, lc) =
      (if fst k = ep \<and> snd k \<in> gone_keys ep s d then None else row (line_locs d) (k, lc))"
    unfolding d' upsert_fold drop_fold gone ..
  show "humans d' + dropped = humans d"
    unfolding d' dr using drop_fold(6) [of ep ?gone d 0] by (simp add: humans_def upsert_fold(3))
  show "row (lines d') (ep, ld_key l) = Some \<lparr>l_role = ld_role l, l_speaker = ld_speaker l, l_position = ld_position l\<rparr>"
    if l: "l \<in> set ls"
  proof (cases "l \<in> set ?w")
    case True
    then show ?thesis unfolding d'
      using upsert_fold(6) [OF distinct_map_filter [OF script_lines_facts(1)] True] by simp
  next
    case False
    then have ex: "l \<in> set ?ex" using l ls by simp
    have "ld_key x \<noteq> ld_key l" if "x \<in> set ?w" for x
      using that ex l ls script_lines_facts(1) [of s "title_key_of ?ex"] by (auto simp: distinct_map inj_on_def)
    then have n: "(ep, ld_key l) \<notin> (\<lambda>l. (ep, ld_key l)) ` set ?w" by force
    have "ld_key l \<notin> gone_keys ep s d" using l ls by (auto simp: gone_keys_def)
    then show ?thesis
      using ex unfolding d' upsert_fold(4) [OF n] drop_fold(3) gone by (simp add: episode_line_in [OF ok])
  qed
  show "row (lines d') k = (if fst k = ep \<and> snd k \<in> gone_keys ep s d then None else row (lines d) k)"
    if "k \<notin> (\<lambda>l. (ep, ld_key l)) ` set ls"
  proof -
    have "k \<notin> (\<lambda>l. (ep, ld_key l)) ` set ?w" using that ls by auto
    note same = upsert_fold(4) [OF this]
    show ?thesis unfolding d' same drop_fold(3) gone ..
  qed
qed


section \<open>Lemmas on official imports\<close>

lemma put_humans:
  "(case row t k of None \<Rightarrow> True | Some r0 \<Rightarrow> t_source r0 \<noteq> SideStorySourceHuman) \<Longrightarrow>
   t_source r \<noteq> SideStorySourceHuman \<Longrightarrow>
   length (filter (\<lambda>(_, r). t_source r = SideStorySourceHuman) (put k r t)) =
   length (filter (\<lambda>(_, r). t_source r = SideStorySourceHuman) t)"
  for t :: "(line_loc_id, line_loc) table"
  by (induction t) (auto simp: put_def row_def)

lemma write_official_humans [simp]: "humans (fst (write_official stamp k lc txt d)) = humans d"
proof -
  have "humans (d\<lparr>line_locs := put (k, lc) r (line_locs d)\<rparr>) = humans d"
    if "case row (line_locs d) (k, lc) of None \<Rightarrow> True | Some r0 \<Rightarrow> t_source r0 \<noteq> SideStorySourceHuman"
      "t_source r \<noteq> SideStorySourceHuman" for r
    using put_humans [OF that] by (simp add: humans_def)
  then show ?thesis by (auto simp: write_official_def modify_def side_sources split: option.splits)
qed

definition import_eff :: "int \<Rightarrow> talk list \<Rightarrow> line_def \<Rightarrow> line_loc option \<Rightarrow> line_loc option" where
  "import_eff stamp official l cur =
     (let txt = official_text official l in
      if txt = [] \<or> (txt = ld_key l \<and> has_kana (ld_key l)) then cur else official_eff stamp txt cur)"

lemma import_line_eq:
  "import_line stamp ep lc official l (d, n) =
   (let txt = official_text official l in
    if txt = [] \<or> (txt = ld_key l \<and> has_kana (ld_key l)) then (d, n)
    else (fst (write_official stamp (ep, ld_key l) lc txt d),
          if snd (write_official stamp (ep, ld_key l) lc txt d) then n + 1 else n))"
  by (simp add: import_line_def Let_def case_prod_unfold)

interpretation import_loop: rowwise_counted "\<lambda>s. row (line_locs (fst s))" "import_line stamp ep lc official"
  "\<lambda>l. ((ep, ld_key l), lc)" "import_eff stamp official" snd "\<lambda>l cur. import_eff stamp official l cur \<noteq> cur"
  for stamp ep lc official
proof (unfold_locales, goal_cases)
  case (1 l s)
  then show ?case by (cases s) (simp add: import_line_eq import_eff_def Let_def)
next
  case (2 k l s)
  then show ?case by (cases s) (simp add: import_line_eq Let_def)
next
  case (3 l s)
  then show ?case by (cases s) (simp add: import_line_eq import_eff_def Let_def write_official_wrote)
qed

lemma import_step_keeps [simp]:
  "stories (fst (import_line stamp ep lc official l s)) = stories (fst s)"
  "episodes (fst (import_line stamp ep lc official l s)) = episodes (fst s)"
  "lines (fst (import_line stamp ep lc official l s)) = lines (fst s)"
  "humans (fst (import_line stamp ep lc official l s)) = humans (fst s)"
  by (cases s; simp add: import_line_eq Let_def)+

lemma import_step_ok:
  "side_ok (fst s) \<Longrightarrow> lc \<in> {LocaleChinese, LocaleEnglish} \<Longrightarrow> row (lines (fst s)) (ep, ld_key l) \<noteq> None \<Longrightarrow>
   side_ok (fst (import_line stamp ep lc official l s))"
  by (cases s) (auto simp: import_line_eq Let_def intro: write_official_ok)

lemma import_fold_keeps:
  "stories (fst (fold (import_line stamp ep lc official) ls s)) = stories (fst s)"
  "episodes (fst (fold (import_line stamp ep lc official) ls s)) = episodes (fst s)"
  "lines (fst (fold (import_line stamp ep lc official) ls s)) = lines (fst s)"
  "humans (fst (fold (import_line stamp ep lc official) ls s)) = humans (fst s)"
  "side_ok (fst s) \<Longrightarrow> lc \<in> {LocaleChinese, LocaleEnglish} \<Longrightarrow>
     (\<And>l. l \<in> set ls \<Longrightarrow> row (lines (fst s)) (ep, ld_key l) \<noteq> None) \<Longrightarrow>
     side_ok (fst (fold (import_line stamp ep lc official) ls s))"
proof (induction ls arbitrary: s)
  case (Cons l ls)
  { case 5
    then show ?case using Cons.IH(5) [of "import_line stamp ep lc official l s"] import_step_ok [of s lc ep l]
      by simp }
qed simp_all

lemma human_eff: "import_eff stamp official l (Some r) = Some r" if "t_source r = SideStorySourceHuman"
  using that by (simp add: import_eff_def Let_def official_eff_human)

lemma import_fold_human:
  "row (line_locs d) k = Some r \<Longrightarrow> t_source r = SideStorySourceHuman \<Longrightarrow>
   row (line_locs (fst (fold (import_line stamp ep lc official) ls (d, n)))) k = Some r"
proof (induction ls arbitrary: d n)
  case (Cons l ls)
  let ?s = "import_line stamp ep lc official l (d, n)"
  have "row (line_locs (fst ?s)) k = Some r"
    using import_loop.step_same [of stamp ep lc official l "(d, n)"]
      import_loop.step_other [of k ep l lc stamp official "(d, n)"] Cons.prems human_eff
    by (cases "k = ((ep, ld_key l), lc)") auto
  from Cons.IH [OF this Cons.prems(2), of "snd ?s"] show ?case by simp
qed simp

lemma import_fold_human_back:
  "row (line_locs (fst (fold (import_line stamp ep lc official) ls s))) k = Some r \<Longrightarrow>
   t_source r = SideStorySourceHuman \<Longrightarrow> row (line_locs (fst s)) k = Some r"
proof (induction ls arbitrary: s)
  case (Cons l ls)
  let ?s = "import_line stamp ep lc official l s"
  have r: "row (line_locs (fst ?s)) k = Some r" using Cons.IH [of ?s] Cons.prems by simp
  have e: "import_eff stamp official l x = Some r \<Longrightarrow> x = Some r" for x
    using Cons.prems(2) by (auto simp: import_eff_def official_eff_def Let_def side_sources split: option.splits if_splits)
  show ?case
  proof (cases "k = ((ep, ld_key l), lc)")
    case True
    then show ?thesis using r import_loop.step_same [of stamp ep lc official l s] e by metis
  next
    case False
    then show ?thesis using r import_loop.step_other [of k ep l lc stamp official s] by simp
  qed
qed simp

text \<open>What an official import does: either nothing to the tables, or the loop over the lines.\<close>

lemma apply_official_cases:
  assumes "apply_official stamp ep lc jp outcome ls state path requeue d = (d', s', n, msg, retry)"
  obtains (kept) "d' = d" "n = 0" "msg = []" "s' = state" "retry = sideStoryNoRetry"
      "\<not> fo_attempted outcome \<and> \<not> (requeue \<and> path \<noteq> [] \<and> state \<noteq> SideStoryStateAbsent) \<or>
       fo_attempted outcome \<and> state = SideStoryStateImported \<and> \<not> requeue"
    | (requeued) "d' = d" "n = 0" "msg = []" "s' = SideStoryStatePending" "retry = sideStoryRetryNow"
      "\<not> fo_attempted outcome" "requeue" "path \<noteq> []" "state \<noteq> SideStoryStateAbsent"
    | (failed) "d' = d" "n = 0" "msg \<noteq> []" "fo_attempted outcome"
      "s' = SideStoryStatePending \<and> retry \<in> {sideStoryRetryMissing, sideStoryRetryTransient} \<or>
       s' \<in> {SideStoryStateError, SideStoryStateMismatch} \<and> retry = sideStoryNoRetry"
    | (imported) sc where "fo_attempted outcome" "fo_script outcome = Some sc"
      "length (sc_talks sc) = length (sc_talks jp)" "s' = SideStoryStateImported" "msg = []" "retry = sideStoryNoRetry"
      "d' = fst (fold (import_line stamp ep lc (sc_talks sc)) ls (d, 0))"
      "n = snd (fold (import_line stamp ep lc (sc_talks sc)) ls (d, 0))"
proof -
  show ?thesis
  proof (cases "fo_attempted outcome")
    case False
    then show ?thesis using assms kept requeued
      by (auto simp: apply_official_def split: if_splits)
  next
    case att: True
    show ?thesis
    proof (cases "fo_missing outcome \<or> fo_err outcome \<noteq> [] \<or> fo_script outcome = None")
      case True
      then consider "fo_missing outcome" | "\<not> fo_missing outcome" "fo_err outcome \<noteq> []"
        | "\<not> fo_missing outcome" "fo_err outcome = []" "fo_script outcome = None" by auto
      then show ?thesis
      proof cases
        case 1
        with assms att show ?thesis
          unfolding apply_official_def Let_def
          by (cases "state = SideStoryStateImported \<and> \<not> requeue") (auto intro: kept failed)
      next
        case 2
        with assms att show ?thesis
          unfolding apply_official_def Let_def by (cases "fo_transient outcome") (auto intro: failed)
      next
        case 3
        with assms att show ?thesis unfolding apply_official_def Let_def by (auto intro: failed)
      qed
    next
      case False
      then obtain sc where sc: "\<not> fo_missing outcome" "fo_err outcome = []" "fo_script outcome = Some sc" by blast
      show ?thesis
        using assms att sc kept failed imported
        by (auto simp: apply_official_def Let_def case_prod_unfold split: if_splits)
    qed
  qed
qed

section \<open>Lemmas on one fetched episode\<close>

text \<open>The lines that survive a step keep their human rows; the rows that go are counted.\<close>

definition keeps_humans :: "side_db \<Rightarrow> nat \<Rightarrow> side_db \<Rightarrow> bool" where
  "keeps_humans d n d' \<longleftrightarrow> humans d' + n = humans d \<and>
     (\<forall>k lc r. row (line_locs d) (k, lc) = Some r \<and> t_source r = SideStorySourceHuman \<longrightarrow>
        row (line_locs d') (k, lc) = (if row (lines d') k = None then None else Some r)) \<and>
     (\<forall>x r. row (line_locs d') x = Some r \<and> t_source r = SideStorySourceHuman \<longrightarrow> row (line_locs d) x = Some r)"

lemma keeps_humansD:
  "keeps_humans d n d' \<Longrightarrow> humans d' + n = humans d"
  "keeps_humans d n d' \<Longrightarrow> row (line_locs d) (k, lc) = Some r \<Longrightarrow> t_source r = SideStorySourceHuman \<Longrightarrow>
     row (line_locs d') (k, lc) = (if row (lines d') k = None then None else Some r)"
  "keeps_humans d n d' \<Longrightarrow> row (line_locs d') x = Some r \<Longrightarrow> t_source r = SideStorySourceHuman \<Longrightarrow>
     row (line_locs d) x = Some r"
  unfolding keeps_humans_def by blast+

lemma keeps_humans_refl: "side_ok d \<Longrightarrow> keeps_humans d 0 d"
  unfolding keeps_humans_def using side_okD(6) by fastforce

lemma keeps_humans_episodes [simp]:
  "keeps_humans d n (d'\<lparr>episodes := x\<rparr>) = keeps_humans d n d'"
  by (simp add: keeps_humans_def humans_def)

text \<open>A later step may drop more lines, and brings none of the dropped human rows back.\<close>

lemma keeps_humans_same:
  assumes "keeps_humans d n d1" "humans d2 = humans d1" "\<And>k. row (lines d2) k = row (lines d1) k"
    and "\<And>k lc r. row (line_locs d1) (k, lc) = Some r \<Longrightarrow> t_source r = SideStorySourceHuman \<Longrightarrow>
      row (line_locs d2) (k, lc) = Some r"
    and "\<And>x r. row (line_locs d2) x = Some r \<Longrightarrow> t_source r = SideStorySourceHuman \<Longrightarrow> row (line_locs d1) x = Some r"
    and "side_ok d2"
  shows "keeps_humans d n d2"
  unfolding keeps_humans_def
proof (intro conjI allI impI)
  show "row (line_locs d) x = Some r" if "row (line_locs d2) x = Some r \<and> t_source r = SideStorySourceHuman" for x r
    using that keeps_humansD(3) [OF assms(1)] assms(5) by blast
  show "humans d2 + n = humans d" using keeps_humansD(1) [OF assms(1)] assms(2) by simp
  fix k lc r assume r: "row (line_locs d) (k, lc) = Some r \<and> t_source r = SideStorySourceHuman"
  show "row (line_locs d2) (k, lc) = (if row (lines d2) k = None then None else Some r)"
  proof (cases "row (lines d1) k = None")
    case True
    then have "row (line_locs d2) (k, lc) = None" using side_okD(6) [OF assms(6), of k lc] assms(3) by fastforce
    with True assms(3) show ?thesis by simp
  next
    case False
    then show ?thesis using keeps_humansD(2) [OF assms(1), of k lc r] r assms(3,4) by auto
  qed
qed

lemma replace_keeps_humans:
  assumes "side_ok d" "row (episodes d) ep \<noteq> None" "replace_lines ep s d = (d', ls, changed, dropped)"
  shows "keeps_humans d dropped d'"
  unfolding keeps_humans_def
proof (intro conjI allI impI)
  note f = replace_lines_facts [OF assms]
  show "humans d' + dropped = humans d" by (rule f(8))
  show "row (line_locs d) x = Some r" if "row (line_locs d') x = Some r \<and> t_source r = SideStorySourceHuman" for x r
    using that f(7) [of "fst x" "snd x"] unfolding prod.collapse by (metis option.distinct(1))
  fix k lc r assume "row (line_locs d) (k, lc) = Some r \<and> t_source r = SideStorySourceHuman"
  then have r: "row (line_locs d) (k, lc) = Some r" ..
  then have l: "row (lines d) k \<noteq> None" using side_okD(6) [OF assms(1)] by blast
  have g: "k \<notin> (\<lambda>l. (ep, ld_key l)) ` set ls" if "fst k = ep \<and> snd k \<in> gone_keys ep s d"
  proof
    assume "k \<in> (\<lambda>l. (ep, ld_key l)) ` set ls"
    then have "snd k \<in> ld_key ` set ls" by auto
    with that f(4) show False by (simp add: gone_keys_def)
  qed
  show "row (line_locs d') (k, lc) = (if row (lines d') k = None then None else Some r)"
  proof (cases "fst k = ep \<and> snd k \<in> gone_keys ep s d")
    case True
    then show ?thesis using f(6) [OF g [OF True]] f(7) by simp
  next
    case False
    have "row (lines d') k \<noteq> None"
    proof (cases "k \<in> (\<lambda>l. (ep, ld_key l)) ` set ls")
      case True
      then show ?thesis using f(5) by auto
    next
      case out: False
      then show ?thesis using f(6) [OF out] False l by simp
    qed
    with False f(7) r show ?thesis by simp
  qed
qed

lemma apply_official_facts:
  assumes a: "apply_official stamp ep lc jp outcome ls state path requeue d = (d', s', n, msg, retry)"
    and ok: "side_ok d" and lc: "lc \<in> {LocaleChinese, LocaleEnglish}"
    and ls: "\<And>l. l \<in> set ls \<Longrightarrow> row (lines d) (ep, ld_key l) \<noteq> None"
  shows "side_ok d'" "stories d' = stories d" "episodes d' = episodes d" "lines d' = lines d"
    "humans d' = humans d"
    "t_source r = SideStorySourceHuman \<Longrightarrow> row (line_locs d') x = Some r \<longleftrightarrow> row (line_locs d) x = Some r"
proof -
  consider "d' = d" | sc :: script where "d' = fst (fold (import_line stamp ep lc (sc_talks sc)) ls (d, 0))"
    using apply_official_cases [OF a] by metis
  then have "side_ok d' \<and> stories d' = stories d \<and> episodes d' = episodes d \<and> lines d' = lines d \<and>
      humans d' = humans d \<and>
      (t_source r = SideStorySourceHuman \<longrightarrow> (row (line_locs d') x = Some r \<longleftrightarrow> row (line_locs d) x = Some r))"
  proof cases
    case 1
    then show ?thesis using ok by simp
  next
    case 2
    have "side_ok d'" unfolding 2 by (rule import_fold_keeps(5)) (use ok lc ls in simp_all)
    moreover have "t_source r = SideStorySourceHuman \<longrightarrow> (row (line_locs d') x = Some r \<longleftrightarrow> row (line_locs d) x = Some r)"
      unfolding 2 using import_fold_human import_fold_human_back [where s = "(d, 0)"] unfolding fst_conv by blast
    ultimately show ?thesis unfolding 2 by (simp add: import_fold_keeps)
  qed
  then show "side_ok d'" "stories d' = stories d" "episodes d' = episodes d" "lines d' = lines d"
    "humans d' = humans d"
    "t_source r = SideStorySourceHuman \<Longrightarrow> row (line_locs d') x = Some r \<longleftrightarrow> row (line_locs d) x = Some r"
    by blast+
qed

text \<open>
  What holds of an episode row whatever was fetched: a locale is absent exactly when it has no
  asset path, and an episode with nothing left to fetch is not waiting for a retry.
\<close>

definition official_ok :: "string \<Rightarrow> string \<Rightarrow> bool" where
  "official_ok path state \<longleftrightarrow> (path = [] \<longleftrightarrow> state = SideStoryStateAbsent) \<and>
     state \<in> {SideStoryStatePending, SideStoryStateImported, SideStoryStateAbsent, SideStoryStateMismatch,
       SideStoryStateError}"

definition episode_ok :: "episode_row \<Rightarrow> bool" where
  "episode_ok e \<longleftrightarrow> official_ok (e_cn_path e) (e_cn_state e) \<and> official_ok (e_en_path e) (e_en_state e) \<and>
     (\<not> queued e \<longrightarrow> e_attempts e = 0 \<and> e_next_attempt_at e = 0)"

definition episodes_ok :: "side_db \<Rightarrow> bool" where
  "episodes_ok d \<longleftrightarrow> (\<forall>ep e. row (episodes d) ep = Some e \<longrightarrow> episode_ok e)"

text \<open>The official scripts are fetched from asset paths.\<close>

definition fetch_ok :: "side_db \<Rightarrow> episode_fetch \<Rightarrow> bool" where
  "fetch_ok d f \<longleftrightarrow> (case row (episodes d) (ef_episode f) of None \<Rightarrow> True | Some e \<Rightarrow>
     (fo_attempted (ef_cn f) \<longrightarrow> e_cn_path e \<noteq> []) \<and> (fo_attempted (ef_en f) \<longrightarrow> e_en_path e \<noteq> []))"

lemma apply_official_state:
  assumes "apply_official stamp ep lc jp outcome ls state path requeue d = (d', s', n, msg, retry)"
    and "official_ok path state" "fo_attempted outcome \<longrightarrow> path \<noteq> []"
  shows "official_ok path s'"
    and "retry \<in> {sideStoryNoRetry, sideStoryRetryMissing, sideStoryRetryNow, sideStoryRetryTransient}"
    and "retry \<noteq> sideStoryNoRetry \<Longrightarrow> path \<noteq> [] \<and> s' = SideStoryStatePending"
    and "msg \<noteq> [] \<Longrightarrow> s' \<noteq> SideStoryStateImported"
proof -
  have "official_ok path s' \<and> retry \<in> {sideStoryNoRetry, sideStoryRetryMissing, sideStoryRetryNow, sideStoryRetryTransient} \<and>
      (retry \<noteq> sideStoryNoRetry \<longrightarrow> path \<noteq> [] \<and> s' = SideStoryStatePending) \<and> (msg \<noteq> [] \<longrightarrow> s' \<noteq> SideStoryStateImported)"
    using assms(1)
  proof (cases rule: apply_official_cases)
    case kept
    with assms(2) show ?thesis by simp
  next
    case requeued
    then show ?thesis by (simp add: official_ok_def side_states)
  next
    case failed
    with assms(3) show ?thesis by (auto simp: official_ok_def side_states retries)
  next
    case (imported sc)
    with assms(3) show ?thesis by (simp add: official_ok_def side_states)
  qed
  then show "official_ok path s'"
    "retry \<in> {sideStoryNoRetry, sideStoryRetryMissing, sideStoryRetryNow, sideStoryRetryTransient}"
    "retry \<noteq> sideStoryNoRetry \<Longrightarrow> path \<noteq> [] \<and> s' = SideStoryStatePending"
    "msg \<noteq> [] \<Longrightarrow> s' \<noteq> SideStoryStateImported" by blast+
qed

lemma record_script_cases:
  assumes "record_script stamp fetch sc e out d = (d', out', ch)"
  obtains d1 ls lch dropped d2 cs cw cm cr d3 es ew em er where
    "replace_lines (ef_episode fetch) sc d = (d1, ls, lch, dropped)"
    "apply_official stamp (ef_episode fetch) LocaleChinese sc (ef_cn fetch) ls (e_cn_state e) (e_cn_path e)
       (e_script_sha256 e \<noteq> sc_sha256 sc \<and> e_script_sha256 e \<noteq> []) d1 = (d2, cs, cw, cm, cr)"
    "apply_official stamp (ef_episode fetch) LocaleEnglish sc (ef_en fetch) ls (e_en_state e) (e_en_path e)
       (e_script_sha256 e \<noteq> sc_sha256 sc \<and> e_script_sha256 e \<noteq> []) d2 = (d3, es, ew, em, er)"
    "d' = d3\<lparr>episodes := modify (ef_episode fetch) (\<lambda>e0. e0\<lparr>e_script_sha256 := sc_sha256 sc,
        e_jp_fetched_at := stamp, e_jp_refetch := False,
        e_attempts := fst (retry_times (max (max sideStoryNoRetry cr) er) stamp (e_attempts e)),
        e_next_attempt_at := snd (retry_times (max (max sideStoryNoRetry cr) er) stamp (e_attempts e)),
        e_last_error := ea_error out', e_cn_state := cs, e_en_state := es, e_updated_at := stamp\<rparr>) (episodes d3)\<rparr>"
    "ea_dropped out' = dropped" "ea_official_written out' = cw + ew" "ch = (lch \<or> 0 < cw + ew)"
    "ea_cn_state out' = cs" "ea_en_state out' = es" "ea_fetched out'"
    "ea_error out' = join_with ''; '' (locale_parts e LocaleChinese (ef_cn fetch) cs cm @
       locale_parts e LocaleEnglish (ef_en fetch) es em)"
proof -
  obtain d1 ls lch dropped where r: "replace_lines (ef_episode fetch) sc d = (d1, ls, lch, dropped)"
    by (metis prod.exhaust)
  obtain d2 cs cw cm cr where c: "apply_official stamp (ef_episode fetch) LocaleChinese sc (ef_cn fetch) ls
      (e_cn_state e) (e_cn_path e) (e_script_sha256 e \<noteq> sc_sha256 sc \<and> e_script_sha256 e \<noteq> []) d1 = (d2, cs, cw, cm, cr)"
    by (metis prod.exhaust)
  obtain d3 es ew em er where n: "apply_official stamp (ef_episode fetch) LocaleEnglish sc (ef_en fetch) ls
      (e_en_state e) (e_en_path e) (e_script_sha256 e \<noteq> sc_sha256 sc \<and> e_script_sha256 e \<noteq> []) d2 = (d3, es, ew, em, er)"
    by (metis prod.exhaust)
  show ?thesis
    by (rule that [OF r c n]) (use assms in \<open>auto simp: record_script_def Let_def r c n case_prod_unfold\<close>)
qed

lemma record_script_facts:
  assumes r: "record_script stamp fetch sc e out d = (d', out', ch)"
    and ok: "side_ok d" and e: "row (episodes d) (ef_episode fetch) = Some e"
  shows "side_ok d'" "keeps_humans d (ea_dropped out') d'" "x \<noteq> ef_episode fetch \<Longrightarrow> row (episodes d') x = row (episodes d) x"
    "row (episodes d') (ef_episode fetch) \<noteq> None"
proof -
  obtain d1 ls lch dropped d2 cs cw cm cr d3 es ew em er f where
    l: "replace_lines (ef_episode fetch) sc d = (d1, ls, lch, dropped)"
    and c: "apply_official stamp (ef_episode fetch) LocaleChinese sc (ef_cn fetch) ls (e_cn_state e) (e_cn_path e)
       (e_script_sha256 e \<noteq> sc_sha256 sc \<and> e_script_sha256 e \<noteq> []) d1 = (d2, cs, cw, cm, cr)"
    and n: "apply_official stamp (ef_episode fetch) LocaleEnglish sc (ef_en fetch) ls (e_en_state e) (e_en_path e)
       (e_script_sha256 e \<noteq> sc_sha256 sc \<and> e_script_sha256 e \<noteq> []) d2 = (d3, es, ew, em, er)"
    and d': "d' = d3\<lparr>episodes := modify (ef_episode fetch) f (episodes d3)\<rparr>" and dr: "ea_dropped out' = dropped"
    using record_script_cases [OF r] by metis
  have ep: "row (episodes d) (ef_episode fetch) \<noteq> None" using e by simp
  note lf = replace_lines_facts [OF ok ep l]
  have in1: "row (lines d1) (ef_episode fetch, ld_key l) \<noteq> None" if "l \<in> set ls" for l using lf(5) [OF that] by simp
  note cf = apply_official_facts [OF c lf(1) _ in1]
  have c': "LocaleChinese \<in> {LocaleChinese, LocaleEnglish}" "LocaleEnglish \<in> {LocaleChinese, LocaleEnglish}" by simp_all
  have in2: "row (lines d2) (ef_episode fetch, ld_key l) \<noteq> None" if "l \<in> set ls" for l
    using in1 [OF that] cf(4) [OF c'(1)] by simp
  note nf = apply_official_facts [OF n cf(1) [OF c'(1)] c'(2) in2]
  show "side_ok d'" unfolding d' by (rule modify_episode_ok [OF nf(1)])
  have "keeps_humans d dropped d3"
    by (rule keeps_humans_same [OF replace_keeps_humans [OF ok ep l] _ _ _ _ nf(1)])
       (simp_all add: nf(4-6) cf(4-6) [OF c'(1)] nf(5) cf(5) [OF c'(1)])
  then show "keeps_humans d (ea_dropped out') d'" unfolding d' dr by simp
  have "episodes d3 = episodes d" using nf(3) cf(3) [OF c'(1)] lf(3) by simp
  then show "x \<noteq> ef_episode fetch \<Longrightarrow> row (episodes d') x = row (episodes d) x"
    "row (episodes d') (ef_episode fetch) \<noteq> None" by (simp_all add: d' e)
qed

lemma episode_updates [simp]:
  "queued (e\<lparr>e_attempts := a, e_next_attempt_at := n, e_last_error := m, e_updated_at := u\<rparr>) = queued e"
  by (simp add: queued_def)

lemma backoff_seconds: "0 \<le> in_seconds (side_story_backoff n)" "in_seconds (side_story_backoff n) \<le> 86400"
    "in_seconds sideStoryBackoffCap = 86400"
proof -
  have "sideStoryBackoffBase \<le> side_story_backoff n" "side_story_backoff n \<le> sideStoryBackoffCap"
    unfolding backoff_closed by (auto simp: sideStoryBackoffBase_def sideStoryBackoffCap_def min_def)
  then have "sideStoryBackoffBase div second \<le> side_story_backoff n div second"
    "side_story_backoff n div second \<le> sideStoryBackoffCap div second"
    by (auto intro!: zdiv_mono1 simp: second_def)
  then show "0 \<le> in_seconds (side_story_backoff n)" "in_seconds (side_story_backoff n) \<le> 86400"
    "in_seconds sideStoryBackoffCap = 86400"
    by (auto simp: in_seconds_def sideStoryBackoffBase_def sideStoryBackoffCap_def second_def)
qed

text \<open>No episode waits longer than a day after the last round.\<close>

definition due_within :: "int \<Rightarrow> side_db \<Rightarrow> bool" where
  "due_within stamp d \<longleftrightarrow> (\<forall>ep e. row (episodes d) ep = Some e \<longrightarrow> e_next_attempt_at e \<le> stamp + 86400)"

text \<open>A step that changes one episode row, and not its asset paths.\<close>

definition same_paths :: "side_db \<Rightarrow> side_db \<Rightarrow> bool" where
  "same_paths d d' \<longleftrightarrow> (\<forall>ep. map_option (\<lambda>e. (e_cn_path e, e_en_path e)) (row (episodes d') ep) =
     map_option (\<lambda>e. (e_cn_path e, e_en_path e)) (row (episodes d) ep))"

lemma same_paths_fetch: "same_paths d d' \<Longrightarrow> fetch_ok d' f = fetch_ok d f"
proof -
  assume "same_paths d d'"
  then have "map_option (\<lambda>e. (e_cn_path e, e_en_path e)) (row (episodes d') (ef_episode f)) =
     map_option (\<lambda>e. (e_cn_path e, e_en_path e)) (row (episodes d) (ef_episode f))"
    unfolding same_paths_def by blast
  then show ?thesis by (auto simp: fetch_ok_def map_option_case split: option.splits)
qed

lemma one_row_changed:
  assumes "row (episodes d) ep = Some e" "\<And>x. x \<noteq> ep \<Longrightarrow> row (episodes d') x = row (episodes d) x"
    and "row (episodes d') ep = Some e'"
  shows "episodes_ok d \<Longrightarrow> episode_ok e' \<Longrightarrow> episodes_ok d'"
    "due_within stamp d \<Longrightarrow> e_next_attempt_at e' \<le> stamp + 86400 \<Longrightarrow> due_within stamp d'"
    "e_cn_path e' = e_cn_path e \<Longrightarrow> e_en_path e' = e_en_path e \<Longrightarrow> same_paths d d'"
proof -
  have r: "x = ep \<and> y = e' \<or> x \<noteq> ep \<and> row (episodes d) x = Some y" if "row (episodes d') x = Some y" for x y
    using that assms by (cases "x = ep") simp_all
  show "episodes_ok d \<Longrightarrow> episode_ok e' \<Longrightarrow> episodes_ok d'"
    unfolding episodes_ok_def using r by blast
  show "due_within stamp d \<Longrightarrow> e_next_attempt_at e' \<le> stamp + 86400 \<Longrightarrow> due_within stamp d'"
    unfolding due_within_def using r by blast
  show "e_cn_path e' = e_cn_path e \<Longrightarrow> e_en_path e' = e_en_path e \<Longrightarrow> same_paths d d'"
    unfolding same_paths_def
  proof
    fix x assume "e_cn_path e' = e_cn_path e" "e_en_path e' = e_en_path e"
    then show "map_option (\<lambda>e. (e_cn_path e, e_en_path e)) (row (episodes d') x) =
        map_option (\<lambda>e. (e_cn_path e, e_en_path e)) (row (episodes d) x)"
      using assms by (cases "x = ep") simp_all
  qed
qed

text \<open>The episode row after a Japanese script was recorded.\<close>

lemma record_script_state:
  assumes r: "record_script stamp fetch sc e out d = (d', out', ch)"
    and ok: "side_ok d" and e: "row (episodes d) (ef_episode fetch) = Some e"
    and eok: "episode_ok e" and f: "fetch_ok d fetch" and stamp: "0 \<le> stamp"
  obtains e' where "row (episodes d') (ef_episode fetch) = Some e'" "episode_ok e'"
    "e_cn_path e' = e_cn_path e" "e_en_path e' = e_en_path e" "e_next_attempt_at e' \<le> stamp + 86400"
    "e_script_sha256 e' = sc_sha256 sc" "\<not> e_jp_refetch e'" "e_cn_state e' = ea_cn_state out'"
    "e_en_state e' = ea_en_state out'" "e_last_error e' = ea_error out'"
proof -
  obtain d1 ls lch dropped d2 cs cw cm cr d3 es ew em er where
    l: "replace_lines (ef_episode fetch) sc d = (d1, ls, lch, dropped)"
    and c: "apply_official stamp (ef_episode fetch) LocaleChinese sc (ef_cn fetch) ls (e_cn_state e) (e_cn_path e)
       (e_script_sha256 e \<noteq> sc_sha256 sc \<and> e_script_sha256 e \<noteq> []) d1 = (d2, cs, cw, cm, cr)"
    and n: "apply_official stamp (ef_episode fetch) LocaleEnglish sc (ef_en fetch) ls (e_en_state e) (e_en_path e)
       (e_script_sha256 e \<noteq> sc_sha256 sc \<and> e_script_sha256 e \<noteq> []) d2 = (d3, es, ew, em, er)"
    and d': "d' = d3\<lparr>episodes := modify (ef_episode fetch) (\<lambda>e0. e0\<lparr>e_script_sha256 := sc_sha256 sc,
        e_jp_fetched_at := stamp, e_jp_refetch := False,
        e_attempts := fst (retry_times (max (max sideStoryNoRetry cr) er) stamp (e_attempts e)),
        e_next_attempt_at := snd (retry_times (max (max sideStoryNoRetry cr) er) stamp (e_attempts e)),
        e_last_error := ea_error out', e_cn_state := cs, e_en_state := es, e_updated_at := stamp\<rparr>) (episodes d3)\<rparr>"
    and o: "ea_cn_state out' = cs" "ea_en_state out' = es"
    by (rule record_script_cases [OF r]) (rule that)
  have ep: "row (episodes d) (ef_episode fetch) \<noteq> None" using e by simp
  note lf = replace_lines_facts [OF ok ep l]
  have in1: "row (lines d1) (ef_episode fetch, ld_key l) \<noteq> None" if "l \<in> set ls" for l using lf(5) [OF that] by simp
  have c': "LocaleChinese \<in> {LocaleChinese, LocaleEnglish}" "LocaleEnglish \<in> {LocaleChinese, LocaleEnglish}" by simp_all
  note cf = apply_official_facts [OF c lf(1) c'(1) in1]
  have in2: "row (lines d2) (ef_episode fetch, ld_key l) \<noteq> None" if "l \<in> set ls" for l
    using in1 [OF that] cf(4) by simp
  note nf = apply_official_facts [OF n cf(1) c'(2) in2]
  have eps: "episodes d3 = episodes d" using nf(3) cf(3) lf(3) by simp
  have pc: "official_ok (e_cn_path e) (e_cn_state e)" "official_ok (e_en_path e) (e_en_state e)"
    using eok by (simp_all add: episode_ok_def)
  have fa: "fo_attempted (ef_cn fetch) \<longrightarrow> e_cn_path e \<noteq> []" "fo_attempted (ef_en fetch) \<longrightarrow> e_en_path e \<noteq> []"
    using f e by (simp_all add: fetch_ok_def)
  note sc = apply_official_state [OF c pc(1) fa(1)] and sn = apply_official_state [OF n pc(2) fa(2)]
  define rt where "rt = max (max sideStoryNoRetry cr) er"
  define e' where "e' = e\<lparr>e_script_sha256 := sc_sha256 sc, e_jp_fetched_at := stamp, e_jp_refetch := False,
        e_attempts := fst (retry_times rt stamp (e_attempts e)),
        e_next_attempt_at := snd (retry_times rt stamp (e_attempts e)),
        e_last_error := ea_error out', e_cn_state := cs, e_en_state := es, e_updated_at := stamp\<rparr>"
  have row': "row (episodes d') (ef_episode fetch) = Some e'"
    by (simp add: d' eps e e'_def rt_def)
  have due: "snd (retry_times rt stamp (e_attempts e)) \<le> stamp + 86400"
    using backoff_seconds stamp by (simp add: retry_times_def)
  have "queued e'" if "rt \<noteq> sideStoryNoRetry"
  proof -
    have "cr \<noteq> sideStoryNoRetry \<or> er \<noteq> sideStoryNoRetry" using that unfolding rt_def by (auto simp: max_def)
    then show ?thesis using sc(3) sn(3) by (auto simp: queued_def e'_def)
  qed
  then have "\<not> queued e' \<longrightarrow> e_attempts e' = 0 \<and> e_next_attempt_at e' = 0"
    by (auto simp: e'_def retry_times_def retries)
  then have "episode_ok e'" using sc(1) sn(1) by (simp add: episode_ok_def e'_def)
  show thesis by (rule that [OF row' \<open>episode_ok e'\<close>]) (use due o in \<open>simp_all add: e'_def\<close>)
qed

section \<open>Lemmas on a round of fetches\<close>

lemma record_jp_failure_facts:
  assumes r: "record_jp_failure stamp fetch e out d = (d', out', ch)" and e: "row (episodes d) (ef_episode fetch) = Some e"
  obtains (idle) "d' = d" "ea_dropped out' = ea_dropped out" "ea_episode out' = ea_episode out" "\<not> ch"
    | (retried) e' where "d' = d\<lparr>episodes := modify (ef_episode fetch) (\<lambda>_. e') (episodes d)\<rparr>" "queued e"
      "e' = e\<lparr>e_attempts := e_attempts e + 1,
        e_next_attempt_at := stamp + in_seconds (fst (jp_failure (ef_jp fetch) (e_attempts e + 1))),
        e_last_error := ea_error out', e_updated_at := stamp\<rparr>"
      "ea_dropped out' = ea_dropped out" "ea_episode out' = ea_episode out" "\<not> ch"
proof (cases "queued e")
  case False
  then show ?thesis using r by (intro idle) (auto simp: record_jp_failure_def Let_def case_prod_unfold)
next
  case True
  let ?f = "\<lambda>e0. e0\<lparr>e_attempts := e_attempts e + 1,
      e_next_attempt_at := stamp + in_seconds (fst (jp_failure (ef_jp fetch) (e_attempts e + 1))),
      e_last_error := ea_error out', e_updated_at := stamp\<rparr>"
  have m: "modify (ef_episode fetch) ?f (episodes d) = modify (ef_episode fetch) (\<lambda>_. ?f e) (episodes d)"
    using e by (simp add: modify_def)
  from r True have "d' = d\<lparr>episodes := modify (ef_episode fetch) ?f (episodes d)\<rparr>"
    "ea_dropped out' = ea_dropped out" "ea_episode out' = ea_episode out" "\<not> ch"
    by (auto simp: record_jp_failure_def Let_def case_prod_unfold)
  then show ?thesis unfolding m by (intro retried [OF _ True refl])
qed

lemma apply_fetch_facts:
  assumes a: "apply_fetch stamp fetch d = (d', out, ch)" and ok: "side_ok d"
  shows "side_ok d'" "keeps_humans d (ea_dropped out) d'" "ea_episode out = ef_episode fetch"
    "x \<noteq> ef_episode fetch \<Longrightarrow> row (episodes d') x = row (episodes d) x"
proof -
  have "side_ok d' \<and> keeps_humans d (ea_dropped out) d' \<and> ea_episode out = ef_episode fetch \<and>
      (x \<noteq> ef_episode fetch \<longrightarrow> row (episodes d') x = row (episodes d) x)"
  proof (cases "row (episodes d) (ef_episode fetch)")
    case None
    then show ?thesis using a ok keeps_humans_refl by (auto simp: apply_fetch_def empty_apply_def)
  next
    case (Some e)
    let ?out = "(empty_apply (ef_episode fetch))\<lparr>ea_cn_state := e_cn_state e, ea_en_state := e_en_state e\<rparr>"
    consider "\<not> fo_attempted (ef_jp fetch)" | "fo_attempted (ef_jp fetch)" "fo_script (ef_jp fetch) = None"
      | sc where "fo_attempted (ef_jp fetch)" "fo_script (ef_jp fetch) = Some sc" by blast
    then show ?thesis
    proof cases
      case 1
      then show ?thesis using a Some ok keeps_humans_refl by (auto simp: apply_fetch_def empty_apply_def)
    next
      case 2
      then have "record_jp_failure stamp fetch e ?out d = (d', out, ch)" using a Some by (simp add: apply_fetch_def)
      then show ?thesis using Some
      proof (cases rule: record_jp_failure_facts)
        case idle
        then show ?thesis using ok keeps_humans_refl by (simp add: empty_apply_def)
      next
        case (retried e')
        then show ?thesis using ok keeps_humans_refl modify_episode_ok by (simp add: empty_apply_def)
      qed
    next
      case 3
      then have r: "record_script stamp fetch sc e ?out d = (d', out, ch)" using a Some by (simp add: apply_fetch_def)
      from r have "ea_episode out = ef_episode fetch"
        by (auto simp: record_script_def Let_def case_prod_unfold empty_apply_def)
      with record_script_facts [OF r ok Some] show ?thesis by blast
    qed
  qed
  then show "side_ok d'" "keeps_humans d (ea_dropped out) d'" "ea_episode out = ef_episode fetch"
    "x \<noteq> ef_episode fetch \<Longrightarrow> row (episodes d') x = row (episodes d) x" by blast+
qed

lemma apply_fetch_episodes:
  assumes a: "apply_fetch stamp fetch d = (d', out, ch)" and ok: "side_ok d" and eok: "episodes_ok d"
    and f: "fetch_ok d fetch" and stamp: "0 \<le> stamp"
  shows "episodes_ok d'" "due_within stamp d \<Longrightarrow> due_within stamp d'" "same_paths d d'"
proof -
  have "episodes_ok d' \<and> (due_within stamp d \<longrightarrow> due_within stamp d') \<and> same_paths d d'"
  proof (cases "row (episodes d) (ef_episode fetch)")
    case None
    then show ?thesis using a eok by (auto simp: apply_fetch_def same_paths_def)
  next
    case (Some e)
    note other = apply_fetch_facts(4) [OF a ok]
    have e: "episode_ok e" using eok Some unfolding episodes_ok_def by blast
    let ?out = "(empty_apply (ef_episode fetch))\<lparr>ea_cn_state := e_cn_state e, ea_en_state := e_en_state e\<rparr>"
    consider "\<not> fo_attempted (ef_jp fetch)" | "fo_attempted (ef_jp fetch)" "fo_script (ef_jp fetch) = None"
      | sc where "fo_attempted (ef_jp fetch)" "fo_script (ef_jp fetch) = Some sc" by blast
    then show ?thesis
    proof cases
      case 1
      then show ?thesis using a Some eok by (auto simp: apply_fetch_def same_paths_def)
    next
      case 2
      then have "record_jp_failure stamp fetch e ?out d = (d', out, ch)" using a Some by (simp add: apply_fetch_def)
      then show ?thesis using Some
      proof (cases rule: record_jp_failure_facts)
        case idle
        then show ?thesis using eok by (simp add: same_paths_def)
      next
        case (retried e')
        have e': "row (episodes d') (ef_episode fetch) = Some e'" using retried(1) Some by simp
        have "queued e'" using retried(2,3) by simp
        then have "episode_ok e'" using e retried(3) by (simp add: episode_ok_def)
        moreover have "e_next_attempt_at e' \<le> stamp + 86400"
          using backoff_seconds by (simp add: retried(3) jp_failure_def)
        ultimately show ?thesis using one_row_changed [OF Some other e'] eok retried(3) by simp
      qed
    next
      case 3
      then have r: "record_script stamp fetch sc e ?out d = (d', out, ch)" using a Some by (simp add: apply_fetch_def)
      obtain e' where e': "row (episodes d') (ef_episode fetch) = Some e'" "episode_ok e'"
        "e_cn_path e' = e_cn_path e" "e_en_path e' = e_en_path e" "e_next_attempt_at e' \<le> stamp + 86400"
        by (rule record_script_state [OF r ok Some e f stamp]) (rule that)
      from one_row_changed [OF Some other e'(1)] e' eok show ?thesis by simp
    qed
  qed
  then show "episodes_ok d'" "due_within stamp d \<Longrightarrow> due_within stamp d'" "same_paths d d'" by blast+
qed

lemma apply_loop_facts:
  assumes "apply_loop cancelled stamp fs d acc c = Inr (d', out, c')" "side_ok d"
  shows "side_ok d' \<and> (\<exists>new. out = acc @ new \<and> map ea_episode new = map ef_episode fs \<and>
      humans d' + sum_list (map ea_dropped new) = humans d) \<and>
    (\<forall>x r. row (line_locs d') x = Some r \<and> t_source r = SideStorySourceHuman \<longrightarrow> row (line_locs d) x = Some r)"
  using assms
proof (induction fs arbitrary: d acc c)
  case (Cons f fs)
  obtain d1 a ch where a: "apply_fetch stamp f d = (d1, a, ch)" by (metis prod.exhaust)
  note af = apply_fetch_facts [OF a Cons.prems(2)]
  have "apply_loop cancelled stamp fs d1 (acc @ [a]) (c \<or> ch) = Inr (d', out, c')"
    using Cons.prems(1) by (simp add: a split: if_splits)
  note ih = Cons.IH [OF this af(1)]
  then obtain new where new: "out = acc @ [a] @ new" "map ea_episode new = map ef_episode fs"
    "humans d' + sum_list (map ea_dropped new) = humans d1" by auto
  have "out = acc @ (a # new) \<and> map ea_episode (a # new) = map ef_episode (f # fs) \<and>
      humans d' + sum_list (map ea_dropped (a # new)) = humans d"
    using new af(3) keeps_humansD(1) [OF af(2)] by simp
  then show ?case using ih keeps_humansD(3) [OF af(2)] by blast
qed simp

lemma apply_loop_episodes:
  assumes "apply_loop cancelled stamp fs d acc c = Inr (d', out, c')" "side_ok d" "episodes_ok d"
    and "\<And>f. f \<in> set fs \<Longrightarrow> fetch_ok d f" "0 \<le> stamp"
  shows "episodes_ok d' \<and> (due_within stamp d \<longrightarrow> due_within stamp d')"
  using assms
proof (induction fs arbitrary: d acc c)
  case (Cons f fs)
  obtain d1 a ch where a: "apply_fetch stamp f d = (d1, a, ch)" by (metis prod.exhaust)
  note ok = apply_fetch_facts(1) [OF a Cons.prems(2)]
  note ae = apply_fetch_episodes [OF a Cons.prems(2,3) Cons.prems(4) [of f] Cons.prems(5)]
  have l: "apply_loop cancelled stamp fs d1 (acc @ [a]) (c \<or> ch) = Inr (d', out, c')"
    using Cons.prems(1) by (simp add: a split: if_splits)
  have "fetch_ok d1 g" if "g \<in> set fs" for g using Cons.prems(4) [of g] that same_paths_fetch [OF ae(3)] by simp
  from Cons.IH [OF l ok ae(1) this Cons.prems(5)] ae(2) show ?case by simp
qed simp

section \<open>Properties\<close>

text \<open>
  The lines of a script. Their keys are distinct, they are exactly the bodies and speakers
  of its talks other than the empty string and the title, each points at a talk of the script
  that has its text, so an official script of the same length is never read out of range.
\<close>

theorem script_lines_spec:
  assumes "script_ok s" "length official = length (sc_talks s)"
  shows "distinct (map ld_key (script_lines s title)) \<and>
    ld_key ` set (script_lines s title) =
      (talk_body ` set (sc_talks s) \<union> talk_speaker ` set (sc_talks s)) - {[], title} \<and>
    list_all (\<lambda>l. 0 \<le> ld_position l \<and> nat (ld_position l div 2) < length official \<and>
      official_text (sc_talks s) l = ld_key l) (script_lines s title)"
proof (intro conjI)
  show "distinct (map ld_key (script_lines s title))" by (rule script_lines_facts)
  show "list_all (\<lambda>l. 0 \<le> ld_position l \<and> nat (ld_position l div 2) < length official \<and>
      official_text (sc_talks s) l = ld_key l) (script_lines s title)"
    using line_position [OF assms(1)] assms(2) by (auto simp: list_all_iff)
  show "ld_key ` set (script_lines s title) =
      (talk_body ` set (sc_talks s) \<union> talk_speaker ` set (sc_talks s)) - {[], title}"
  proof
    show "ld_key ` set (script_lines s title) \<subseteq>
        (talk_body ` set (sc_talks s) \<union> talk_speaker ` set (sc_talks s)) - {[], title}"
    proof
      fix k assume "k \<in> ld_key ` set (script_lines s title)"
      then obtain l where l: "l \<in> set (script_lines s title)" "k = ld_key l" by blast
      from script_lines_facts(3) [OF l(1)] have "k \<noteq> []" "k \<in> talk_body ` set (sc_talks s) \<union> talk_speaker ` set (sc_talks s)"
        unfolding line_of_def l(2) by auto
      moreover have "k \<noteq> title" using script_lines_facts(2) [of title s] l \<open>k \<noteq> []\<close> by blast
      ultimately show "k \<in> (talk_body ` set (sc_talks s) \<union> talk_speaker ` set (sc_talks s)) - {[], title}" by simp
    qed
  qed (use script_lines_facts(4) in blast)
qed

theorem script_lines_spec_witness:
  "distinct (map ld_key (script_lines \<lparr>sc_sha256 = ''a'', sc_talks = [\<lparr>talk_index = 0, talk_body = ''x'', talk_speaker = ''y''\<rparr>,
      \<lparr>talk_index = 1, talk_body = ''x'', talk_speaker = ''t''\<rparr>]\<rparr> ''t''))"
  using script_lines_spec [of "\<lparr>sc_sha256 = ''a'', sc_talks = [\<lparr>talk_index = 0, talk_body = ''x'', talk_speaker = ''y''\<rparr>,
      \<lparr>talk_index = 1, talk_body = ''x'', talk_speaker = ''t''\<rparr>]\<rparr>"
    "[\<lparr>talk_index = 0, talk_body = ''x'', talk_speaker = ''y''\<rparr>, \<lparr>talk_index = 1, talk_body = ''x'', talk_speaker = ''t''\<rparr>]" "''t''"]
  by (simp add: script_ok_def)

text \<open>
  An official import. When the state of a locale becomes imported by a fetch, the official
  script has as many talks as the Japanese one, and every line with an official text that is not
  the Japanese one reads it back as official, with a new revision when it changed; human lines,
  lines without an official text and every row outside the episode and locale are unchanged; the
  count is the number of changed rows.
\<close>

theorem official_import_rows:
  assumes a: "apply_official stamp ep lc jp outcome (script_lines jp title) state path requeue d =
      (d', SideStoryStateImported, n, msg, retry)"
    and new: "fo_attempted outcome" "\<not> (state = SideStoryStateImported \<and> \<not> requeue)" and ok: "side_ok d"
  shows "\<exists>sc. fo_script outcome = Some sc \<and> length (sc_talks sc) = length (sc_talks jp) \<and> msg = [] \<and>
    (\<forall>l \<in> set (script_lines jp title). let txt = official_text (sc_talks sc) l; k = ((ep, ld_key l), lc) in
       if txt = [] \<or> (txt = ld_key l \<and> has_kana (ld_key l)) \<or>
          (\<exists>r. row (line_locs d) k = Some r \<and> t_source r = SideStorySourceHuman)
       then row (line_locs d') k = row (line_locs d) k
       else \<exists>r. row (line_locs d') k = Some r \<and> t_text r = txt \<and> t_source r = SideStorySourceOfficial \<and>
          (row (line_locs d') k = row (line_locs d) k \<or>
           t_revision r = (case row (line_locs d) k of None \<Rightarrow> 1 | Some r0 \<Rightarrow> t_revision r0 + 1))) \<and>
    (\<forall>x. x \<notin> (\<lambda>l. ((ep, ld_key l), lc)) ` set (script_lines jp title) \<longrightarrow> row (line_locs d') x = row (line_locs d) x) \<and>
    n = length (filter (\<lambda>l. row (line_locs d') ((ep, ld_key l), lc) \<noteq> row (line_locs d) ((ep, ld_key l), lc))
      (script_lines jp title))"
proof -
  let ?ls = "script_lines jp title"
  obtain sc :: script where sc: "fo_script outcome = Some sc" "length (sc_talks sc) = length (sc_talks jp)" "msg = []"
    "d' = fst (fold (import_line stamp ep lc (sc_talks sc)) ?ls (d, 0))"
    "n = snd (fold (import_line stamp ep lc (sc_talks sc)) ?ls (d, 0))"
    using a by (cases rule: apply_official_cases) (use new in \<open>auto simp: side_states\<close>)
  have di: "distinct (map (\<lambda>l. ((ep, ld_key l), lc)) ?ls)"
    using script_lines_facts(1) [of jp title] by (simp add: distinct_map inj_on_def)
  have eff: "row (line_locs d') ((ep, ld_key l), lc) = import_eff stamp (sc_talks sc) l (row (line_locs d) ((ep, ld_key l), lc))"
    if "l \<in> set ?ls" for l
    using import_loop.loop_mem [OF di that, of stamp "sc_talks sc" "(d, 0)"] by (simp add: sc(4))
  have oth: "row (line_locs d') x = row (line_locs d) x" if "x \<notin> (\<lambda>l. ((ep, ld_key l), lc)) ` set ?ls" for x
    using import_loop.loop_other [OF that, of stamp "sc_talks sc" "(d, 0)"] by (simp add: sc(4))
  have cnt: "n = length (filter (\<lambda>l. row (line_locs d') ((ep, ld_key l), lc) \<noteq> row (line_locs d) ((ep, ld_key l), lc)) ?ls)"
    using import_loop.loop_count [OF di, of stamp "sc_talks sc" "(d, 0)"] eff by (simp add: sc(5) cong: filter_cong)
  have one: "let txt = official_text (sc_talks sc) l; k = ((ep, ld_key l), lc) in
       if txt = [] \<or> (txt = ld_key l \<and> has_kana (ld_key l)) \<or>
          (\<exists>r. row (line_locs d) k = Some r \<and> t_source r = SideStorySourceHuman)
       then row (line_locs d') k = row (line_locs d) k
       else \<exists>r. row (line_locs d') k = Some r \<and> t_text r = txt \<and> t_source r = SideStorySourceOfficial \<and>
          (row (line_locs d') k = row (line_locs d) k \<or>
           t_revision r = (case row (line_locs d) k of None \<Rightarrow> 1 | Some r0 \<Rightarrow> t_revision r0 + 1))"
    if "l \<in> set ?ls" for l
  proof (cases "row (line_locs d) ((ep, ld_key l), lc)")
    case None
    with eff [OF that] show ?thesis
      by (auto simp: Let_def import_eff_def official_eff_def side_sources)
  next
    case (Some r)
    have "line_loc_ok r" using side_okD(6) [OF ok Some] ..
    with eff [OF that] Some show ?thesis
      by (auto simp: Let_def import_eff_def official_eff_def side_sources line_loc_ok_def)
  qed
  show ?thesis using sc(1-3) one oth cnt by blast
qed

theorem official_import_rows_witness:
  "let jp = \<lparr>sc_sha256 = ''a'', sc_talks = [\<lparr>talk_index = 0, talk_body = ''x'', talk_speaker = []\<rparr>]\<rparr>;
       cn = \<lparr>sc_sha256 = ''b'', sc_talks = [\<lparr>talk_index = 0, talk_body = ''y'', talk_speaker = []\<rparr>]\<rparr>;
       ep = (''card'', ''1'', ''1'');
       d = \<lparr>stories = [], episodes = [(ep, undefined)], lines = [((ep, ''x''), \<lparr>l_role = ''talk'', l_speaker = [], l_position = 0\<rparr>)],
         line_locs = []\<rparr>
   in \<exists>r. row (line_locs (fst (apply_official 5 ep LocaleChinese jp
         \<lparr>fo_attempted = True, fo_script = Some cn, fo_missing = False, fo_err = [], fo_transient = False\<rparr>
         (script_lines jp []) ''pending'' ''p'' False d))) ((ep, ''x''), LocaleChinese) = Some r \<and> t_text r = ''y''"
proof -
  let ?jp = "\<lparr>sc_sha256 = ''a'', sc_talks = [\<lparr>talk_index = 0, talk_body = ''x'', talk_speaker = []\<rparr>]\<rparr>"
  let ?cn = "\<lparr>sc_sha256 = ''b'', sc_talks = [\<lparr>talk_index = 0, talk_body = ''y'', talk_speaker = []\<rparr>]\<rparr>"
  let ?ep = "(''card'', ''1'', ''1'')"
  let ?d = "\<lparr>stories = [], episodes = [(?ep, undefined)], lines = [((?ep, ''x''), \<lparr>l_role = ''talk'', l_speaker = [], l_position = 0\<rparr>)],
         line_locs = []\<rparr> :: side_db"
  let ?o = "\<lparr>fo_attempted = True, fo_script = Some ?cn, fo_missing = False, fo_err = [], fo_transient = False\<rparr>"
  have ls: "script_lines ?jp [] = [\<lparr>ld_key = ''x'', ld_role = SideStoryRoleTalk, ld_speaker = [], ld_position = 0\<rparr>]"
    by (simp add: script_lines_def talk_lines_def)
  have kb: "kana_bodies ?jp [\<lparr>talk_index = 0, talk_body = ''y'', talk_speaker = []\<rparr>] = (0, 0)"
    by (simp add: kana_bodies_def has_kana_def runes_ascii)
  have ok: "side_ok ?d" by (simp add: side_ok_def table_ok_def line_ok_def side_roles row_def)
  obtain d' n where a: "apply_official 5 ?ep LocaleChinese ?jp ?o (script_lines ?jp []) ''pending'' ''p'' False ?d =
      (d', SideStoryStateImported, n, [], sideStoryNoRetry)"
    by (simp add: apply_official_def Let_def kb side_states case_prod_unfold)
  from official_import_rows [OF a _ _ ok]
  show ?thesis unfolding Let_def a by (auto simp add: ls official_text_def side_roles side_states row_def)
qed

text \<open>
  C35: a round of fetches loses no human translation unseen. When it commits, the human rows left
  are human rows of before, unchanged, and as many are missing as the results report dropped; a
  single fetch drops only those whose line left the episode; when the round fails, nothing
  changed at all. The results answer the fetches one by one.
\<close>

theorem apply_fetches_accounts:
  assumes ok: "side_ok d" and a: "apply_fetches tx cancelled stamp fetches d = (d', r)"
  shows "side_ok d' \<and> (case r of Inl _ \<Rightarrow> d' = d | Inr (out, _) \<Rightarrow>
      map ea_episode out = map ef_episode fetches \<and> humans d' + sum_list (map ea_dropped out) = humans d \<and>
      (\<forall>x r. row (line_locs d') x = Some r \<and> t_source r = SideStorySourceHuman \<longrightarrow> row (line_locs d) x = Some r)) \<and>
    (\<forall>f k lc r. row (line_locs d) (k, lc) = Some r \<and> t_source r = SideStorySourceHuman \<longrightarrow>
      (let d1 = fst (apply_fetch stamp f d) in
       row (line_locs d1) (k, lc) = (if row (lines d1) k = None then None else Some r)))"
proof -
  have single: "let d1 = fst (apply_fetch stamp f d) in
      row (line_locs d1) (k, lc) = (if row (lines d1) k = None then None else Some r)"
    if "row (line_locs d) (k, lc) = Some r" "t_source r = SideStorySourceHuman" for f k lc r
  proof -
    obtain d1 o1 c1 where f: "apply_fetch stamp f d = (d1, o1, c1)" by (metis prod.exhaust)
    show ?thesis using keeps_humansD(2) [OF apply_fetch_facts(2) [OF f ok] that] by (simp add: f)
  qed
  have "side_ok d' \<and> (case r of Inl _ \<Rightarrow> d' = d | Inr (out, _) \<Rightarrow>
      map ea_episode out = map ef_episode fetches \<and> humans d' + sum_list (map ea_dropped out) = humans d \<and>
      (\<forall>x r. row (line_locs d') x = Some r \<and> t_source r = SideStorySourceHuman \<longrightarrow> row (line_locs d) x = Some r))"
  proof (cases r)
    case (Inl e)
    then show ?thesis using a ok by (auto simp: apply_fetches_def split: if_splits sum.splits)
  next
    case (Inr p)
    obtain out c where p: "p = (out, c)" by fastforce
    have l: "apply_loop cancelled stamp fetches d [] False = Inr (d', out, c)"
      using a Inr p by (auto simp: apply_fetches_def split: if_splits sum.splits)
    show ?thesis using apply_loop_facts [OF l ok] Inr p by auto
  qed
  with single show ?thesis by blast
qed

definition demo_side :: side_db where
  "demo_side = \<lparr>stories = [], episodes = [((''card'', ''1'', ''1''), \<lparr>e_scenario_id = ''s'', e_title_jp = [], e_position = 0,
       e_jp_path = ''j'', e_cn_path = ''c'', e_en_path = [], e_script_sha256 = ''old'', e_jp_fetched_at = 1, e_jp_refetch = True,
       e_cn_state = ''imported'', e_en_state = ''absent'', e_attempts = 0, e_next_attempt_at = 0, e_last_error = [],
       e_updated_at = 0\<rparr>)],
     lines = [(((''card'', ''1'', ''1''), ''x''), \<lparr>l_role = ''talk'', l_speaker = [], l_position = 0\<rparr>)],
     line_locs = [((((''card'', ''1'', ''1''), ''x''), ''zh-CN''),
       \<lparr>t_text = ''h'', t_source = ''human'', t_revision = 3, t_updated_by = ''u'', t_updated_at = 4\<rparr>)]\<rparr>"

definition demo_fetch :: episode_fetch where
  "demo_fetch = (let none = \<lparr>fo_attempted = False, fo_script = None, fo_missing = False, fo_err = [], fo_transient = False\<rparr>
     in \<lparr>ef_episode = (''card'', ''1'', ''1''),
       ef_jp = none\<lparr>fo_attempted := True, fo_script := Some \<lparr>sc_sha256 = ''new'',
         sc_talks = [\<lparr>talk_index = 0, talk_body = ''z'', talk_speaker = []\<rparr>]\<rparr>\<rparr>,
       ef_cn = none\<lparr>fo_attempted := True, fo_missing := True\<rparr>, ef_en = none\<rparr>)"

lemma demo_side_ok: "side_ok demo_side" "episodes_ok demo_side" "fetch_ok demo_side demo_fetch" "due_within 7 demo_side"
  by (auto simp: demo_side_def side_ok_def table_ok_def line_ok_def line_loc_ok_def side_roles side_sources row_def
      locale_names episodes_ok_def episode_ok_def official_ok_def side_states queued_def fetch_ok_def demo_fetch_def
      due_within_def split: if_splits)

text \<open>A changed script whose official translation is missing: the human row is dropped and counted.\<close>

lemma demo_round:
  "apply_fetches Committed (\<lambda>_. False) 7 [demo_fetch] demo_side =
   (let r = apply_fetch 7 demo_fetch demo_side in (fst r, Inr ([fst (snd r)], snd (snd r))))"
  by (simp add: apply_fetches_def case_prod_unfold Let_def)

theorem apply_fetches_accounts_witness:
  "side_ok (fst (apply_fetch 7 demo_fetch demo_side)) \<and>
   humans (fst (apply_fetch 7 demo_fetch demo_side)) + ea_dropped (fst (snd (apply_fetch 7 demo_fetch demo_side))) = 1"
proof -
  have "humans demo_side = 1" by (simp add: humans_def demo_side_def side_sources)
  with apply_fetches_accounts [OF demo_side_ok(1) demo_round [unfolded Let_def]] show ?thesis by simp
qed

text \<open>
  What holds of every episode after a round of fetches. A locale is absent exactly when it
  has no asset path, an episode with nothing left to fetch has no attempts and no retry time, and
  no episode waits for more than a day.
\<close>

theorem apply_fetches_episodes:
  assumes "side_ok d" "episodes_ok d" "due_within stamp d" "0 \<le> stamp" "\<And>f. f \<in> set fetches \<Longrightarrow> fetch_ok d f"
    and "apply_fetches tx cancelled stamp fetches d = (d', r)"
  shows "episodes_ok d' \<and> due_within stamp d'"
proof (cases "apply_loop cancelled stamp fetches d [] False")
  case (Inl e)
  then show ?thesis using assms by (auto simp: apply_fetches_def split: if_splits)
next
  case (Inr p)
  obtain d1 out c where p: "p = (d1, out, c)" by (metis prod.exhaust)
  have "d' = d \<or> d' = d1" using assms(6) Inr p by (auto simp: apply_fetches_def split: if_splits)
  moreover have "episodes_ok d1 \<and> (due_within stamp d \<longrightarrow> due_within stamp d1)"
    by (rule apply_loop_episodes [OF Inr [unfolded p] assms(1,2) _ assms(4)]) (rule assms(5))
  ultimately show ?thesis using assms(2,3) by blast
qed

theorem apply_fetches_episodes_witness:
  "episodes_ok (fst (apply_fetch 7 demo_fetch demo_side)) \<and> due_within 7 (fst (apply_fetch 7 demo_fetch demo_side))"
  by (rule apply_fetches_episodes [OF demo_side_ok(1,2,4) _ _ demo_round [unfolded Let_def]]) (use demo_side_ok(3) in simp_all)

end
