(* ===== verification/SideStoryEdit.thy ===== *)
theory SideStoryEdit
  imports SideStoryApply "HOL-Library.Char_ord" "HOL-Library.List_Lexorder" "HOL-Library.Product_Lexorder"
begin

text \<open>
  Editing the lines of an episode (\<open>store/side_story_edit.go\<close>): an editor's edits of one episode
  and locale are checked against the revisions they name and written all or nothing; an AI
  round asks for the lines that miss a translation and fills only those that still do.
\<close>

section \<open>The lines of an episode in a locale\<close>

record line_state =
  ls_jp :: string
  ls_role :: string
  ls_speaker :: string
  ls_position :: int
  ls_text :: string
  ls_source :: string
  ls_revision :: int
  ls_updated_by :: string
  ls_updated_at :: int

text \<open>\<open>sideStoryLineRow\<close> embeds the state.\<close>

record line_view = line_state +
  has_row :: bool

definition view_line :: "string \<Rightarrow> line_row \<Rightarrow> line_loc option \<Rightarrow> line_view" where
  "view_line jp l loc =
     (case loc of
        None \<Rightarrow> \<lparr>ls_jp = jp, ls_role = l_role l, ls_speaker = l_speaker l, ls_position = l_position l,
          ls_text = [], ls_source = [], ls_revision = 0, ls_updated_by = [], ls_updated_at = 0, has_row = False\<rparr>
      | Some r \<Rightarrow> \<lparr>ls_jp = jp, ls_role = l_role l, ls_speaker = l_speaker l, ls_position = l_position l,
          ls_text = t_text r, ls_source = t_source r, ls_revision = t_revision r, ls_updated_by = t_updated_by r,
          ls_updated_at = t_updated_at r, has_row = True\<rparr>)"

definition load_episode_lines :: "episode_id \<Rightarrow> string \<Rightarrow> side_db \<Rightarrow> side_error + line_view list" where
  "load_episode_lines ep lc d =
     (if row (episodes d) ep = None then Inl NoSuchRows
      else Inr (sort_key (\<lambda>l. (ls_position l, ls_jp l))
        (map (\<lambda>((_, jp), l). view_line jp l (row (line_locs d) ((ep, jp), lc)))
          (filter (\<lambda>((e, _), _). e = ep) (lines d)))))"

section \<open>Edits\<close>

record line_edit =
  ed_jp :: string
  ed_text :: string
  ed_source :: string
  ed_expected :: "int option"

record update_result =
  ur_updated :: nat
  ur_unchanged :: nat
  ur_lines :: "line_state list"

fun check_edits :: "nat \<Rightarrow> string set \<Rightarrow> line_edit list \<Rightarrow> side_error option" where
  "check_edits index seen [] = None"
| "check_edits index seen (edit # edits) =
     (if ed_jp edit \<in> seen then Some (RepeatedLine index (ed_jp edit))
      else if \<not> valid_side_story_text (ed_text edit) then Some (InvalidText index)
      else if ed_source edit \<noteq> [] \<and> ed_source edit \<noteq> SideStorySourceHuman \<and> ed_source edit \<noteq> SideStorySourceLLM
      then Some (InvalidEditSource index (ed_source edit))
      else check_edits (index + 1) (insert (ed_jp edit) seen) edits)"

text \<open>The index of the lines by their key: the last line of a key wins.\<close>

definition by_key :: "line_view list \<Rightarrow> (string, line_view) table" where
  "by_key ls = fold (\<lambda>l. put (ls_jp l) l) ls []"

fun find_problems ::
  "(string, line_view) table \<Rightarrow> line_edit list \<Rightarrow> string list \<Rightarrow> line_conflict list \<Rightarrow> string list \<times> line_conflict list" where
  "find_problems index [] unknown conflicts = (unknown, conflicts)"
| "find_problems index (edit # edits) unknown conflicts =
     (case row index (ed_jp edit) of
        None \<Rightarrow> find_problems index edits (unknown @ [ed_jp edit]) conflicts
      | Some line \<Rightarrow>
          (case ed_expected edit of
             Some expected \<Rightarrow>
               if expected \<noteq> ls_revision line
               then find_problems index edits unknown (conflicts @ [\<lparr>lcf_jp = ed_jp edit, lcf_expected = expected,
                      lcf_current = ls_revision line, lcf_text = ls_text line, lcf_source = ls_source line\<rparr>])
               else find_problems index edits unknown conflicts
           | None \<Rightarrow> find_problems index edits unknown conflicts))"

definition upsert_line_loc :: "string \<Rightarrow> int \<Rightarrow> line_loc_id \<Rightarrow> string \<Rightarrow> string \<Rightarrow> side_db \<Rightarrow> side_db" where
  "upsert_line_loc actor stamp k txt source d =
     (case row (line_locs d) k of
        None \<Rightarrow> d\<lparr>line_locs := put k \<lparr>t_text = txt, t_source = source, t_revision = 1, t_updated_by = actor,
          t_updated_at = stamp\<rparr> (line_locs d)\<rparr>
      | Some _ \<Rightarrow> d\<lparr>line_locs := modify k (\<lambda>r. r\<lparr>t_text := txt, t_source := source,
          t_revision := t_revision r + 1, t_updated_by := actor, t_updated_at := stamp\<rparr>) (line_locs d)\<rparr>)"

definition edit_text :: "line_edit \<Rightarrow> string" where
  "edit_text edit = (if trim_space (ed_text edit) = [] then [] else ed_text edit)"

definition edit_source :: "line_edit \<Rightarrow> string" where
  "edit_source edit = (if ed_source edit = [] then SideStorySourceHuman else ed_source edit)"

text \<open>
  The write loop; the index holds pointers, so a written line is changed in it. Every key is in
  the index here (\<open>find_problems_known\<close>), so the first case of the lookup is never reached.
\<close>

fun write_edits ::
  "episode_id \<Rightarrow> string \<Rightarrow> string \<Rightarrow> int \<Rightarrow> line_edit list \<Rightarrow> side_db \<Rightarrow> (string, line_view) table \<Rightarrow> update_result \<Rightarrow>
   side_db \<times> update_result" where
  "write_edits ep lc actor stamp [] d index res = (d, res)"
| "write_edits ep lc actor stamp (edit # edits) d index res =
     (case row index (ed_jp edit) of
        None \<Rightarrow> (d, res)
      | Some line \<Rightarrow>
          let source = edit_source edit; txt = edit_text edit in
          if has_row line \<and> ls_text line = txt \<and> ls_source line = source
          then write_edits ep lc actor stamp edits d index
            (res\<lparr>ur_unchanged := ur_unchanged res + 1, ur_lines := ur_lines res @ [line_state.truncate line]\<rparr>)
          else
            let line = line\<lparr>has_row := True, ls_text := txt, ls_source := source,
                  ls_revision := ls_revision line + 1, ls_updated_by := actor, ls_updated_at := stamp\<rparr> in
            write_edits ep lc actor stamp edits (upsert_line_loc actor stamp ((ep, ed_jp edit), lc) txt source d)
              (put (ed_jp edit) line index)
              (res\<lparr>ur_updated := ur_updated res + 1, ur_lines := ur_lines res @ [line_state.truncate line]\<rparr>))"

definition update_side_story_lines ::
  "tx_end \<Rightarrow> string \<Rightarrow> string \<Rightarrow> string \<Rightarrow> string \<Rightarrow> string \<Rightarrow> line_edit list \<Rightarrow> int \<Rightarrow> side_db \<Rightarrow>
   side_db \<times> (side_error + update_result)" where
  "update_side_story_lines tx kind story_id episode_key lc actor edits stamp d =
     (case valid_side_story_request kind story_id lc of Some err \<Rightarrow> (d, Inl err) | None \<Rightarrow>
      if \<not> valid_side_story_episode_key kind episode_key then (d, Inl (InvalidEpisode episode_key))
      else if length edits = 0 \<or> sideStoryMaxEdits < length edits then (d, Inl (InvalidEditCount (length edits)))
      else case check_edits 0 {} edits of Some err \<Rightarrow> (d, Inl err) | None \<Rightarrow>
      if tx = NoBegin then (d, Inl BeginFailed)
      else case load_episode_lines (kind, story_id, episode_key) lc d of Inl err \<Rightarrow> (d, Inl err) | Inr ls \<Rightarrow>
      let index = by_key ls; (unknown, conflicts) = find_problems index edits [] [] in
      if unknown \<noteq> [] then (d, Inl (UnknownLines unknown))
      else if conflicts \<noteq> [] then (d, Inl (RevisionConflict conflicts))
      else let (d', res) = write_edits (kind, story_id, episode_key) lc actor stamp edits d index
              \<lparr>ur_updated = 0, ur_unchanged = 0, ur_lines = []\<rparr> in
        if tx = NoCommit then (d, Inl CommitFailed) else (d', Inr res))"

section \<open>AI translations\<close>

record ai_target =
  tg_episode :: string
  tg_jp :: string
  tg_revision :: int

text \<open>No row in the locale, or an empty one that no human wrote.\<close>

definition misses_translation :: "line_loc option \<Rightarrow> bool" where
  "misses_translation loc \<longleftrightarrow> (case loc of None \<Rightarrow> True | Some r \<Rightarrow> t_text r = [] \<and> t_source r \<noteq> ''human'')"

text \<open>One line of the query: its sort key and the target, when the line is selected.\<close>

fun target_row ::
  "string \<Rightarrow> string \<Rightarrow> string \<Rightarrow> string \<Rightarrow> side_db \<Rightarrow> line_id \<times> line_row \<Rightarrow> ((int \<times> string \<times> int \<times> string) \<times> ai_target) list" where
  "target_row kind story_id lc episode_key d (((k, s, ek), jp), l) =
     (if k = kind \<and> s = story_id \<and> (episode_key = [] \<or> ek = episode_key) \<and>
          misses_translation (row (line_locs d) (((k, s, ek), jp), lc))
      then (case row (episodes d) (k, s, ek) of None \<Rightarrow> [] | Some e \<Rightarrow>
         [((e_position e, ek, l_position l, jp), \<lparr>tg_episode = ek, tg_jp = jp,
           tg_revision = (case row (line_locs d) (((k, s, ek), jp), lc) of None \<Rightarrow> 0 | Some r \<Rightarrow> t_revision r)\<rparr>)])
      else [])"

definition target_rows ::
  "string \<Rightarrow> string \<Rightarrow> string \<Rightarrow> string \<Rightarrow> side_db \<Rightarrow> ((int \<times> string \<times> int \<times> string) \<times> ai_target) list" where
  "target_rows kind story_id lc episode_key d = concat (map (target_row kind story_id lc episode_key d) (lines d))"

definition side_story_ai_targets ::
  "bool \<Rightarrow> string \<Rightarrow> string \<Rightarrow> string \<Rightarrow> string \<Rightarrow> side_db \<Rightarrow> side_error + ai_target list" where
  "side_story_ai_targets begins kind story_id lc episode_key d =
     (case valid_side_story_request kind story_id lc of Some err \<Rightarrow> Inl err | None \<Rightarrow>
      if episode_key \<noteq> [] \<and> \<not> valid_side_story_episode_key kind episode_key then Inl (InvalidEpisode episode_key)
      else if \<not> begins then Inl BeginFailed
      else if \<not> list_ex (\<lambda>((k, s, ek), _). k = kind \<and> s = story_id \<and> (episode_key = [] \<or> ek = episode_key)) (episodes d)
      then Inl NoSuchRows
      else Inr (map snd (sort_key fst (target_rows kind story_id lc episode_key d))))"

definition write_ai ::
  "string \<Rightarrow> string \<Rightarrow> string \<Rightarrow> int \<Rightarrow> ai_target \<times> string \<Rightarrow> side_db \<times> nat \<Rightarrow> side_db \<times> nat" where
  "write_ai kind story_id lc stamp tt s =
     (let (target, txt) = tt; (d, written) = s; l = ((kind, story_id, tg_episode target), tg_jp target) in
      if txt = [] \<or> \<not> valid_side_story_text txt then (d, written)
      else if tg_revision target = 0 then
        (if row (lines d) l \<noteq> None \<and> row (line_locs d) (l, lc) = None
         then (d\<lparr>line_locs := put (l, lc) \<lparr>t_text = txt, t_source = ''llm'', t_revision = 1, t_updated_by = ''ai'',
                 t_updated_at = stamp\<rparr> (line_locs d)\<rparr>, written + 1)
         else (d, written))
      else (case row (line_locs d) (l, lc) of
          None \<Rightarrow> (d, written)
        | Some r \<Rightarrow>
            if t_revision r = tg_revision target \<and> t_text r = [] \<and> t_source r \<noteq> ''human''
            then (d\<lparr>line_locs := modify (l, lc) (\<lambda>r. r\<lparr>t_text := txt, t_source := ''llm'',
                    t_revision := t_revision r + 1, t_updated_by := ''ai'', t_updated_at := stamp\<rparr>) (line_locs d)\<rparr>,
                  written + 1)
            else (d, written)))"

definition apply_side_story_ai ::
  "tx_end \<Rightarrow> string \<Rightarrow> string \<Rightarrow> string \<Rightarrow> ai_target list \<Rightarrow> string list \<Rightarrow> int \<Rightarrow> side_db \<Rightarrow>
   side_db \<times> (side_error + nat)" where
  "apply_side_story_ai tx kind story_id lc targets texts stamp d =
     (case valid_side_story_request kind story_id lc of Some err \<Rightarrow> (d, Inl err) | None \<Rightarrow>
      if length targets \<noteq> length texts then (d, Inl (TargetsMismatch (length targets) (length texts)))
      else if tx = NoBegin then (d, Inl BeginFailed)
      else let (d', written) = fold (write_ai kind story_id lc stamp) (zip targets texts) (d, 0) in
        if tx = NoCommit then (d, Inl CommitFailed) else (d', Inr written))"

section \<open>Lemmas on the index of the lines\<close>

definition loc_of :: "episode_id \<Rightarrow> string \<Rightarrow> side_db \<Rightarrow> string \<Rightarrow> line_loc option" where
  "loc_of ep lc d jp = row (line_locs d) ((ep, jp), lc)"

definition view_of :: "episode_id \<Rightarrow> string \<Rightarrow> side_db \<Rightarrow> string \<Rightarrow> line_view option" where
  "view_of ep lc d jp = map_option (\<lambda>l. view_line jp l (loc_of ep lc d jp)) (row (lines d) (ep, jp))"

definition index_ok :: "episode_id \<Rightarrow> string \<Rightarrow> side_db \<Rightarrow> (string, line_view) table \<Rightarrow> bool" where
  "index_ok ep lc d index \<longleftrightarrow> (\<forall>jp. row index jp = view_of ep lc d jp)"

lemma view_jp [simp]: "ls_jp (view_line jp l loc) = jp"
  by (simp add: view_line_def split: option.splits)

lemma view_revision: "ls_revision (view_line jp l loc) = (case loc of None \<Rightarrow> 0 | Some r \<Rightarrow> t_revision r)"
  by (simp add: view_line_def split: option.splits)

lemma by_key_ok:
  assumes "table_ok (lines d)" "load_episode_lines ep lc d = Inr ls"
  shows "index_ok ep lc d (by_key ls)"
  unfolding index_ok_def
proof
  fix jp
  let ?rows = "filter (\<lambda>((e, _), _). e = ep) (lines d)"
  let ?v = "\<lambda>((_, jp), l). view_line jp l (row (line_locs d) ((ep, jp), lc))"
  have ls: "ls = sort_key (\<lambda>l. (ls_position l, ls_jp l)) (map ?v ?rows)"
    using assms(2) by (simp add: load_episode_lines_def split: if_splits)
  have keys: "map ls_jp (map ?v ?rows) = map (snd \<circ> fst) ?rows" by auto
  have "inj_on (snd \<circ> fst) (set ?rows)"
    using assms(1) by (auto simp: inj_on_def table_ok_def dest: eq_key_imp_eq_value)
  moreover have "distinct ?rows" using assms(1) by (simp add: table_ok_def distinct_map)
  ultimately have "distinct (map ls_jp (map ?v ?rows))" unfolding keys by (simp add: distinct_map)
  moreover have "mset (map ls_jp ls) = mset (map ls_jp (map ?v ?rows))" unfolding ls mset_map mset_sort ..
  ultimately have di: "distinct (map ls_jp ls)" using mset_eq_imp_distinct_iff by blast
  have in_ls: "v \<in> set ls \<longleftrightarrow> (\<exists>jp l. row (lines d) (ep, jp) = Some l \<and> v = view_line jp l (loc_of ep lc d jp))" for v
  proof -
    have "v \<in> set ls \<longleftrightarrow> (\<exists>jp l. ((ep, jp), l) \<in> set (lines d) \<and> v = view_line jp l (loc_of ep lc d jp))"
      unfolding ls loc_of_def by force
    moreover have "((ep, jp), l) \<in> set (lines d) \<longleftrightarrow> row (lines d) (ep, jp) = Some l" for jp l
      using in_row [OF assms(1)] row_in by metis
    ultimately show ?thesis by simp
  qed
  show "row (by_key ls) jp = view_of ep lc d jp"
  proof (cases "row (lines d) (ep, jp)")
    case None
    then have "jp \<notin> ls_jp ` set ls" using in_ls by force
    then show ?thesis unfolding by_key_def using tbl.lookup_writes_other [of jp ls_jp ls "\<lambda>l. l"] None
      by (simp add: view_of_def)
  next
    case (Some l)
    then have v: "view_line jp l (loc_of ep lc d jp) \<in> set ls" using in_ls by blast
    from tbl.lookup_writes_mem [OF di v, of "\<lambda>l. l"] show ?thesis by (simp add: by_key_def view_of_def Some)
  qed
qed

lemma find_problems_eq:
  "find_problems index edits us cs =
   (us @ map ed_jp (filter (\<lambda>e. row index (ed_jp e) = None) edits),
    cs @ concat (map (\<lambda>e. case (row index (ed_jp e), ed_expected e) of
        (Some line, Some x) \<Rightarrow> if x \<noteq> ls_revision line then [\<lparr>lcf_jp = ed_jp e, lcf_expected = x,
          lcf_current = ls_revision line, lcf_text = ls_text line, lcf_source = ls_source line\<rparr>] else []
      | _ \<Rightarrow> []) edits))"
  by (induction edits arbitrary: us cs) (auto split: option.splits)

lemma find_problems_known:
  assumes "find_problems index edits [] [] = ([], [])" "e \<in> set edits"
  shows "row index (ed_jp e) \<noteq> None"
    and "row index (ed_jp e) = Some line \<Longrightarrow> ed_expected e = Some x \<Longrightarrow> x = ls_revision line"
  using assms by (auto simp: find_problems_eq filter_empty_conv split: option.splits if_splits)

lemma check_edits_none:
  "check_edits n seen edits = None \<longleftrightarrow> distinct (map ed_jp edits) \<and> seen \<inter> ed_jp ` set edits = {} \<and>
   list_all (\<lambda>e. valid_side_story_text (ed_text e) \<and> ed_source e \<in> {[], SideStorySourceHuman, SideStorySourceLLM}) edits"
  by (induction n seen edits rule: check_edits.induct) auto

section \<open>Lemmas on the writes\<close>

definition edit_eff :: "string \<Rightarrow> int \<Rightarrow> line_edit \<Rightarrow> line_loc option \<Rightarrow> line_loc option" where
  "edit_eff actor stamp e cur =
     (case cur of
        None \<Rightarrow> Some \<lparr>t_text = edit_text e, t_source = edit_source e, t_revision = 1, t_updated_by = actor, t_updated_at = stamp\<rparr>
      | Some r \<Rightarrow> if t_text r = edit_text e \<and> t_source r = edit_source e then cur
          else Some \<lparr>t_text = edit_text e, t_source = edit_source e, t_revision = t_revision r + 1,
            t_updated_by = actor, t_updated_at = stamp\<rparr>)"

text \<open>One edit as a step on the tables and the number of writes.\<close>

definition edit_step :: "episode_id \<Rightarrow> string \<Rightarrow> string \<Rightarrow> int \<Rightarrow> line_edit \<Rightarrow> side_db \<times> nat \<Rightarrow> side_db \<times> nat" where
  "edit_step ep lc actor stamp e s =
     (if edit_eff actor stamp e (loc_of ep lc (fst s) (ed_jp e)) = loc_of ep lc (fst s) (ed_jp e) then s
      else (upsert_line_loc actor stamp ((ep, ed_jp e), lc) (edit_text e) (edit_source e) (fst s), snd s + 1))"

lemma upsert_line_loc_rows [simp]:
  "stories (upsert_line_loc actor stamp k txt source d) = stories d"
  "episodes (upsert_line_loc actor stamp k txt source d) = episodes d"
  "lines (upsert_line_loc actor stamp k txt source d) = lines d"
  "row (line_locs (upsert_line_loc actor stamp k txt source d)) x =
     (if x = k then Some \<lparr>t_text = txt, t_source = source,
        t_revision = (case row (line_locs d) k of None \<Rightarrow> 0 | Some r \<Rightarrow> t_revision r) + 1, t_updated_by = actor, t_updated_at = stamp\<rparr>
      else row (line_locs d) x)"
  by (auto simp: upsert_line_loc_def split: option.splits)

interpretation edit_loop: rowwise_counted "\<lambda>s. row (line_locs (fst s))" "edit_step ep lc actor stamp"
  "\<lambda>e. ((ep, ed_jp e), lc)" "edit_eff actor stamp" snd "\<lambda>e cur. edit_eff actor stamp e cur \<noteq> cur"
  for ep lc actor stamp
  by unfold_locales
    (auto simp: edit_step_def edit_eff_def loc_of_def split: option.splits if_splits)

lemma edit_step_keeps [simp]:
  "stories (fst (edit_step ep lc actor stamp e s)) = stories (fst s)"
  "episodes (fst (edit_step ep lc actor stamp e s)) = episodes (fst s)"
  "lines (fst (edit_step ep lc actor stamp e s)) = lines (fst s)"
  by (simp_all add: edit_step_def)

lemma edit_fold_keeps [simp]:
  "stories (fst (fold (edit_step ep lc actor stamp) es s)) = stories (fst s)"
  "episodes (fst (fold (edit_step ep lc actor stamp) es s)) = episodes (fst s)"
  "lines (fst (fold (edit_step ep lc actor stamp) es s)) = lines (fst s)"
  by (induction es arbitrary: s) simp_all

text \<open>The write loop is the fold of the steps: the index answers for the tables.\<close>

lemma view_edit:
  assumes "view_of ep lc d (ed_jp e) = Some line"
  shows "(has_row line \<and> ls_text line = edit_text e \<and> ls_source line = edit_source e) \<longleftrightarrow>
     edit_eff actor stamp e (loc_of ep lc d (ed_jp e)) = loc_of ep lc d (ed_jp e)"
    and "row (lines d) (ep, ed_jp e) = Some l \<Longrightarrow>
     \<not> (has_row line \<and> ls_text line = edit_text e \<and> ls_source line = edit_source e) \<Longrightarrow>
     line\<lparr>has_row := True, ls_text := edit_text e, ls_source := edit_source e,
        ls_revision := ls_revision line + 1, ls_updated_by := actor, ls_updated_at := stamp\<rparr> =
     view_line (ed_jp e) l (edit_eff actor stamp e (loc_of ep lc d (ed_jp e)))"
proof -
  have ne: "\<lparr>t_text = a, t_source = b, t_revision = t_revision r + 1, t_updated_by = c, t_updated_at = u\<rparr> \<noteq> r"
    for a b c u and r :: line_loc
    by (metis add_cancel_right_right line_loc.select_convs(3) zero_neq_one)
  show "(has_row line \<and> ls_text line = edit_text e \<and> ls_source line = edit_source e) \<longleftrightarrow>
     edit_eff actor stamp e (loc_of ep lc d (ed_jp e)) = loc_of ep lc d (ed_jp e)"
    using assms ne by (auto simp: view_of_def view_line_def edit_eff_def split: option.splits)
  show "row (lines d) (ep, ed_jp e) = Some l \<Longrightarrow>
     \<not> (has_row line \<and> ls_text line = edit_text e \<and> ls_source line = edit_source e) \<Longrightarrow>
     line\<lparr>has_row := True, ls_text := edit_text e, ls_source := edit_source e,
        ls_revision := ls_revision line + 1, ls_updated_by := actor, ls_updated_at := stamp\<rparr> =
     view_line (ed_jp e) l (edit_eff actor stamp e (loc_of ep lc d (ed_jp e)))"
    using assms by (auto simp: view_of_def view_line_def edit_eff_def split: option.splits)
qed

lemma view_of_step:
  "row (lines d') = row (lines d) \<Longrightarrow> view_of ep lc d' jp = map_option (\<lambda>l. view_line jp l (loc_of ep lc d' jp)) (row (lines d) (ep, jp))"
  by (simp add: view_of_def)

lemma write_edits_fold:
  assumes "index_ok ep lc d index" "\<And>e. e \<in> set edits \<Longrightarrow> row (lines d) (ep, ed_jp e) \<noteq> None"
    and "write_edits ep lc actor stamp edits d index res = (d', res')" "distinct (map ed_jp edits)"
  shows "fold (edit_step ep lc actor stamp) edits (d, ur_updated res) = (d', ur_updated res')"
    and "ur_updated res' + ur_unchanged res' = ur_updated res + ur_unchanged res + length edits"
    and "ur_lines res' = ur_lines res @ map (\<lambda>e. line_state.truncate (the (view_of ep lc d' (ed_jp e)))) edits"
proof -
  have "fold (edit_step ep lc actor stamp) edits (d, ur_updated res) = (d', ur_updated res') \<and>
      ur_updated res' + ur_unchanged res' = ur_updated res + ur_unchanged res + length edits \<and>
      ur_lines res' = ur_lines res @ map (\<lambda>e. line_state.truncate (the (view_of ep lc d' (ed_jp e)))) edits"
    using assms
  proof (induction edits arbitrary: d index res)
    case (Cons e edits)
    let ?k = "((ep, ed_jp e), lc)"
    obtain l where l: "row (lines d) (ep, ed_jp e) = Some l" using Cons.prems(2) [of e] by auto
    let ?line = "view_line (ed_jp e) l (loc_of ep lc d (ed_jp e))"
    have v: "view_of ep lc d (ed_jp e) = Some ?line" by (simp add: view_of_def l)
    have i: "row index (ed_jp e) = Some ?line" using Cons.prems(1) v by (simp add: index_ok_def)
    note ve = view_edit [OF v, where actor = actor and stamp = stamp]
    show ?case
    proof (cases "has_row ?line \<and> ls_text ?line = edit_text e \<and> ls_source ?line = edit_source e")
      case True
      let ?res = "res\<lparr>ur_unchanged := ur_unchanged res + 1, ur_lines := ur_lines res @ [line_state.truncate ?line]\<rparr>"
      have s: "edit_step ep lc actor stamp e (d, ur_updated res) = (d, ur_updated ?res)"
        using ve(1) True by (simp add: edit_step_def)
      have w: "write_edits ep lc actor stamp edits d index ?res = (d', res')"
        using Cons.prems(3) i True by simp
      have ih: "fold (edit_step ep lc actor stamp) edits (d, ur_updated ?res) = (d', ur_updated res') \<and>
          ur_updated res' + ur_unchanged res' = ur_updated ?res + ur_unchanged ?res + length edits \<and>
          ur_lines res' = ur_lines ?res @ map (\<lambda>e. line_state.truncate (the (view_of ep lc d' (ed_jp e)))) edits"
        by (rule Cons.IH [OF Cons.prems(1) _ w]) (use Cons.prems(2,4) in auto)
      have "fst (fold (edit_step ep lc actor stamp) edits (d, ur_updated res)) = d'" using ih by simp
      moreover have "?k \<notin> (\<lambda>e. ((ep, ed_jp e), lc)) ` set edits" using Cons.prems(4) by auto
      ultimately have "loc_of ep lc d' (ed_jp e) = loc_of ep lc d (ed_jp e)" "lines d' = lines d"
        using edit_loop.loop_other [of ?k ep lc edits actor stamp "(d, ur_updated res)"]
          edit_fold_keeps(3) [of ep lc actor stamp edits "(d, ur_updated res)"] by (auto simp: loc_of_def)
      then have "view_of ep lc d' (ed_jp e) = Some ?line" by (simp add: view_of_def l)
      with ih show ?thesis unfolding fold.simps comp_apply s by simp
    next
      case False
      let ?line' = "?line\<lparr>has_row := True, ls_text := edit_text e, ls_source := edit_source e,
        ls_revision := ls_revision ?line + 1, ls_updated_by := actor, ls_updated_at := stamp\<rparr>"
      let ?d = "upsert_line_loc actor stamp ?k (edit_text e) (edit_source e) d"
      let ?res = "res\<lparr>ur_updated := ur_updated res + 1, ur_lines := ur_lines res @ [line_state.truncate ?line']\<rparr>"
      have s: "edit_step ep lc actor stamp e (d, ur_updated res) = (?d, ur_updated ?res)"
        using ve(1) False by (simp add: edit_step_def)
      have new: "loc_of ep lc ?d (ed_jp e) = edit_eff actor stamp e (loc_of ep lc d (ed_jp e))"
        using edit_loop.step_same [of ep lc actor stamp e "(d, ur_updated res)"] unfolding s by (simp add: loc_of_def)
      have line': "?line' = view_line (ed_jp e) l (loc_of ep lc ?d (ed_jp e))"
        unfolding new by (rule ve(2) [OF l False])
      have w: "write_edits ep lc actor stamp edits ?d (put (ed_jp e) ?line' index) ?res = (d', res')"
        using Cons.prems(3) i False by (simp add: Let_def)
      have ix: "index_ok ep lc ?d (put (ed_jp e) ?line' index)"
        unfolding index_ok_def line'
        using Cons.prems(1) l by (auto simp: index_ok_def view_of_def loc_of_def)
      have ih: "fold (edit_step ep lc actor stamp) edits (?d, ur_updated ?res) = (d', ur_updated res') \<and>
          ur_updated res' + ur_unchanged res' = ur_updated ?res + ur_unchanged ?res + length edits \<and>
          ur_lines res' = ur_lines ?res @ map (\<lambda>e. line_state.truncate (the (view_of ep lc d' (ed_jp e)))) edits"
        by (rule Cons.IH [OF ix _ w]) (use Cons.prems(2,4) in auto)
      have "fst (fold (edit_step ep lc actor stamp) edits (?d, ur_updated ?res)) = d'" using ih by simp
      moreover have "?k \<notin> (\<lambda>e. ((ep, ed_jp e), lc)) ` set edits" using Cons.prems(4) by auto
      ultimately have "loc_of ep lc d' (ed_jp e) = loc_of ep lc ?d (ed_jp e)" "lines d' = lines d"
        using edit_loop.loop_other [of ?k ep lc edits actor stamp "(?d, ur_updated ?res)"]
          edit_fold_keeps(3) [of ep lc actor stamp edits "(?d, ur_updated ?res)"] by (auto simp: loc_of_def)
      then have "view_of ep lc d' (ed_jp e) = Some ?line'" by (simp add: view_of_def l line')
      with ih show ?thesis unfolding fold.simps comp_apply s by simp
    qed
  qed simp
  then show "fold (edit_step ep lc actor stamp) edits (d, ur_updated res) = (d', ur_updated res')"
    "ur_updated res' + ur_unchanged res' = ur_updated res + ur_unchanged res + length edits"
    "ur_lines res' = ur_lines res @ map (\<lambda>e. line_state.truncate (the (view_of ep lc d' (ed_jp e)))) edits"
    by blast+
qed

lemma edit_step_ok:
  assumes "side_ok (fst s)" "row (lines (fst s)) (ep, ed_jp e) \<noteq> None" "lc \<in> {LocaleChinese, LocaleEnglish}"
    and "ed_source e \<in> {[], SideStorySourceHuman, SideStorySourceLLM}"
  shows "side_ok (fst (edit_step ep lc actor stamp e s))"
proof -
  have "edit_source e \<in> {SideStorySourceOfficial, SideStorySourceLLM, SideStorySourceHuman}"
    using assms(4) by (auto simp: edit_source_def)
  then have "line_loc_ok \<lparr>t_text = edit_text e, t_source = edit_source e, t_revision = 1, t_updated_by = actor, t_updated_at = stamp\<rparr>"
    "\<And>r. line_loc_ok r \<Longrightarrow> line_loc_ok (r\<lparr>t_text := edit_text e, t_source := edit_source e, t_revision := t_revision r + 1,
      t_updated_by := actor, t_updated_at := stamp\<rparr>)"
    by (auto simp: line_loc_ok_def)
  then show ?thesis using assms
    by (auto simp: edit_step_def upsert_line_loc_def split: option.splits intro!: put_loc_ok modify_loc_ok)
qed

lemma edit_fold_ok:
  "side_ok (fst s) \<Longrightarrow> lc \<in> {LocaleChinese, LocaleEnglish} \<Longrightarrow>
   (\<And>e. e \<in> set es \<Longrightarrow> row (lines (fst s)) (ep, ed_jp e) \<noteq> None \<and> ed_source e \<in> {[], SideStorySourceHuman, SideStorySourceLLM}) \<Longrightarrow>
   side_ok (fst (fold (edit_step ep lc actor stamp) es s))"
proof (induction es arbitrary: s)
  case (Cons e es)
  have "side_ok (fst (edit_step ep lc actor stamp e s))"
    using Cons.prems by (intro edit_step_ok) auto
  then show ?case using Cons.prems by (simp, intro Cons.IH) auto
qed simp

text \<open>A request that succeeds has passed every check and was committed.\<close>

lemma update_lines_success:
  assumes "update_side_story_lines tx kind story_id ek lc actor edits stamp d = (d', Inr res)"
  obtains ls where "tx = Committed" "valid_side_story_request kind story_id lc = None" "check_edits 0 {} edits = None"
    "load_episode_lines (kind, story_id, ek) lc d = Inr ls" "find_problems (by_key ls) edits [] [] = ([], [])"
    "write_edits (kind, story_id, ek) lc actor stamp edits d (by_key ls)
       \<lparr>ur_updated = 0, ur_unchanged = 0, ur_lines = []\<rparr> = (d', res)"
proof -
  show ?thesis
    using assms unfolding update_side_story_lines_def Let_def
    by (cases tx) (auto split: option.splits if_splits sum.splits prod.splits intro: that)
qed

lemma request_locale: "valid_side_story_request kind story_id lc = None \<Longrightarrow> lc \<in> {LocaleChinese, LocaleEnglish}"
  by (auto simp: valid_side_story_request_def valid_side_story_locale_def split: if_splits)

text \<open>A failed request changes nothing.\<close>

lemma update_lines_error:
  "update_side_story_lines tx kind story_id ek lc actor edits stamp d = (d', Inl err) \<Longrightarrow> d' = d"
  unfolding update_side_story_lines_def Let_def
  by (auto split: option.splits if_splits sum.splits prod.splits)

section \<open>Properties of edits\<close>

text \<open>
  C36: the edits of one episode and locale are written all or nothing. A request that fails
  changes nothing. One that succeeds named current revisions, and every line it edits reads back
  the text (empty when it is only white space) and the source asked for: unchanged when they were
  the same, else with the next revision, the actor and the time. No other row changes, the
  numbers of updated and unchanged lines are exact, and the lines returned are those stored.
\<close>

theorem update_lines_effect:
  assumes ok: "side_ok d"
    and u: "update_side_story_lines tx kind story_id ek lc actor edits stamp d = (d', r)"
  shows "side_ok d' \<and> (case r of Inl _ \<Rightarrow> d' = d | Inr res \<Rightarrow>
    let ep = (kind, story_id, ek); cur = (\<lambda>e. row (line_locs d) ((ep, ed_jp e), lc)) in
    lines d' = lines d \<and> episodes d' = episodes d \<and>
    (\<forall>e \<in> set edits. row (lines d) (ep, ed_jp e) \<noteq> None \<and>
      (\<forall>x. ed_expected e = Some x \<longrightarrow> x = (case cur e of None \<Rightarrow> 0 | Some r \<Rightarrow> t_revision r)) \<and>
      row (line_locs d') ((ep, ed_jp e), lc) =
        (if \<exists>r. cur e = Some r \<and> t_text r = edit_text e \<and> t_source r = edit_source e then cur e
         else Some \<lparr>t_text = edit_text e, t_source = edit_source e,
           t_revision = (case cur e of None \<Rightarrow> 0 | Some r \<Rightarrow> t_revision r) + 1, t_updated_by = actor, t_updated_at = stamp\<rparr>)) \<and>
    (\<forall>x. x \<notin> (\<lambda>e. ((ep, ed_jp e), lc)) ` set edits \<longrightarrow> row (line_locs d') x = row (line_locs d) x) \<and>
    ur_updated res = length (filter (\<lambda>e. row (line_locs d') ((ep, ed_jp e), lc) \<noteq> cur e) edits) \<and>
    ur_updated res + ur_unchanged res = length edits \<and>
    ur_lines res = map (\<lambda>e. line_state.truncate (the (view_of ep lc d' (ed_jp e)))) edits)"
proof (cases r)
  case (Inl err)
  have "d' = d" by (rule update_lines_error) (use u Inl in simp)
  with Inl ok show ?thesis by simp
next
  case (Inr res)
  let ?ep = "(kind, story_id, ek)"
  let ?k = "\<lambda>e. ((?ep, ed_jp e), lc)"
  obtain ls where req: "valid_side_story_request kind story_id lc = None" and ch: "check_edits 0 {} edits = None"
    and lo: "load_episode_lines ?ep lc d = Inr ls" and pr: "find_problems (by_key ls) edits [] [] = ([], [])"
    and w: "write_edits ?ep lc actor stamp edits d (by_key ls) \<lparr>ur_updated = 0, ur_unchanged = 0, ur_lines = []\<rparr> = (d', res)"
    using u unfolding Inr by (rule update_lines_success) (rule that)
  have ix: "index_ok ?ep lc d (by_key ls)" by (rule by_key_ok [OF side_okD(3) [OF ok] lo])
  then have v: "row (by_key ls) jp = view_of ?ep lc d jp" for jp by (simp add: index_ok_def)
  have known: "row (lines d) (?ep, ed_jp e) \<noteq> None" if "e \<in> set edits" for e
    using find_problems_known(1) [OF pr that] by (auto simp: v view_of_def)
  have exp: "x = (case row (line_locs d) (?k e) of None \<Rightarrow> 0 | Some r \<Rightarrow> t_revision r)"
    if "e \<in> set edits" "ed_expected e = Some x" for e x
    using find_problems_known(2) [OF pr that(1) _ that(2)] known [OF that(1)]
    by (auto simp: v view_of_def view_revision loc_of_def)
  have di: "distinct (map ed_jp edits)" and src: "list_all (\<lambda>e. ed_source e \<in> {[], SideStorySourceHuman, SideStorySourceLLM}) edits"
    using ch by (auto simp: check_edits_none list_all_iff)
  note wf = write_edits_fold [OF ix known w di, simplified]
  have dk: "distinct (map ?k edits)" using di by (simp add: distinct_map inj_on_def)
  have eff: "row (line_locs d') (?k e) = edit_eff actor stamp e (row (line_locs d) (?k e))" if "e \<in> set edits" for e
    using edit_loop.loop_mem [OF dk that, of actor stamp "(d, 0)"] wf(1) by simp
  have oth: "row (line_locs d') x = row (line_locs d) x" if "x \<notin> ?k ` set edits" for x
    using edit_loop.loop_other [OF that, of actor stamp "(d, 0)"] wf(1) by simp
  have cnt: "ur_updated res = length (filter (\<lambda>e. row (line_locs d') (?k e) \<noteq> row (line_locs d) (?k e)) edits)"
    using edit_loop.loop_count [OF dk, of actor stamp "(d, 0)"] wf(1) eff by (simp cong: filter_cong)
  have "side_ok d'"
    using edit_fold_ok [of "(d, 0)" lc edits ?ep actor stamp] wf(1) ok request_locale [OF req] known src
    by (simp add: list_all_iff)
  moreover have "lines d' = lines d" "episodes d' = episodes d"
    using edit_fold_keeps [of ?ep lc actor stamp edits "(d, 0)"] wf(1) by simp_all
  moreover have "row (line_locs d') (?k e) =
        (if \<exists>r. row (line_locs d) (?k e) = Some r \<and> t_text r = edit_text e \<and> t_source r = edit_source e
         then row (line_locs d) (?k e)
         else Some \<lparr>t_text = edit_text e, t_source = edit_source e,
           t_revision = (case row (line_locs d) (?k e) of None \<Rightarrow> 0 | Some r \<Rightarrow> t_revision r) + 1,
           t_updated_by = actor, t_updated_at = stamp\<rparr>)" if "e \<in> set edits" for e
    unfolding eff [OF that] by (auto simp: edit_eff_def split: option.splits)
  ultimately show ?thesis
    using known exp oth cnt wf(2,3) unfolding Inr Let_def sum.case by blast
qed

theorem update_lines_effect_witness:
  "row (line_locs (fst (update_side_story_lines Committed ''card'' ''1'' ''1'' ''zh-CN'' ''me''
     [\<lparr>ed_jp = ''x'', ed_text = ''n'', ed_source = [], ed_expected = Some 3\<rparr>] 9 demo_side)))
     (((''card'', ''1'', ''1''), ''x''), ''zh-CN'') =
   Some \<lparr>t_text = ''n'', t_source = SideStorySourceHuman, t_revision = 4, t_updated_by = ''me'', t_updated_at = 9\<rparr>"
proof -
  let ?e = "\<lparr>ed_jp = ''x'', ed_text = ''n'', ed_source = [], ed_expected = Some 3\<rparr>"
  have seg: "segments ''n'' = [(0x6E, ''n'')]" by (simp add: segments_ascii)
  have t: "edit_text ?e = ''n''" by (simp add: edit_text_def trim_space_def trim_segments_def seg is_space_def)
  have v: "valid_side_story_text ''n''"
    by (simp add: valid_side_story_text_def sideStoryMaxTextBytes_def valid_utf8_ascii runes_ascii)
  obtain d' res where u: "update_side_story_lines Committed ''card'' ''1'' ''1'' ''zh-CN'' ''me'' [?e] 9 demo_side = (d', Inr res)"
    by (simp add: update_side_story_lines_def valid_side_story_request_def valid_side_story_kind_def SideStoryKindCard_def
        valid_side_story_id_def valid_side_story_locale_def locale_names valid_side_story_episode_key_def
        sideStoryMaxEdits_def v load_episode_lines_def demo_side_def row_def view_line_def by_key_def put_def
        case_prod_unfold Let_def t edit_source_def SideStorySourceHuman_def)
  note x = update_lines_effect [OF demo_side_ok(1) u, unfolded sum.case Let_def]
  show ?thesis
    unfolding u fst_conv using bspec [OF conjunct1 [OF conjunct2 [OF conjunct2 [OF conjunct2 [OF x]]]], of ?e]
    by (simp add: t edit_source_def demo_side_def row_def)
qed

text \<open>
  C37: an edit based on a revision that is no longer current is refused. When a valid request
  names only known lines, and some of them with a revision other than the current one, nothing is
  written and the answer lists exactly those lines, in order, each with the current revision,
  text and source.
\<close>

theorem stale_edits_refused:
  assumes "side_ok d" "valid_side_story_request kind story_id lc = None" "valid_side_story_episode_key kind ek"
    and "edits \<noteq> []" "length edits \<le> sideStoryMaxEdits" "check_edits 0 {} edits = None" "tx \<noteq> NoBegin"
    and "row (episodes d) (kind, story_id, ek) \<noteq> None"
    and known: "\<And>e. e \<in> set edits \<Longrightarrow> row (lines d) ((kind, story_id, ek), ed_jp e) \<noteq> None"
    and stale: "list_ex (\<lambda>e. \<exists>x. ed_expected e = Some x \<and>
      x \<noteq> (case loc_of (kind, story_id, ek) lc d (ed_jp e) of None \<Rightarrow> 0 | Some r \<Rightarrow> t_revision r)) edits"
  shows "update_side_story_lines tx kind story_id ek lc actor edits stamp d =
    (d, Inl (RevisionConflict (concat (map (\<lambda>e.
       let cur = loc_of (kind, story_id, ek) lc d (ed_jp e); rv = (case cur of None \<Rightarrow> 0 | Some r \<Rightarrow> t_revision r) in
       case ed_expected e of None \<Rightarrow> []
       | Some x \<Rightarrow> if x = rv then [] else [\<lparr>lcf_jp = ed_jp e, lcf_expected = x, lcf_current = rv,
           lcf_text = (case cur of None \<Rightarrow> [] | Some r \<Rightarrow> t_text r),
           lcf_source = (case cur of None \<Rightarrow> [] | Some r \<Rightarrow> t_source r)\<rparr>]) edits))))"
    (is "_ = (d, Inl (RevisionConflict (concat (map ?f edits))))")
proof -
  let ?ep = "(kind, story_id, ek)"
  obtain ls where lo: "load_episode_lines ?ep lc d = Inr ls" using assms(8) by (auto simp: load_episode_lines_def)
  have v: "row (by_key ls) jp = view_of ?ep lc d jp" for jp
    using by_key_ok [OF side_okD(3) [OF assms(1)] lo] by (simp add: index_ok_def)
  have one: "(case (row (by_key ls) (ed_jp e), ed_expected e) of
        (Some line, Some x) \<Rightarrow> if x \<noteq> ls_revision line then [\<lparr>lcf_jp = ed_jp e, lcf_expected = x,
          lcf_current = ls_revision line, lcf_text = ls_text line, lcf_source = ls_source line\<rparr>] else []
      | _ \<Rightarrow> []) = ?f e" if "e \<in> set edits" for e
    using known [OF that]
    by (auto simp: v view_of_def view_line_def Let_def split: option.splits)
  have "filter (\<lambda>e. row (by_key ls) (ed_jp e) = None) edits = []"
    using known by (auto simp: filter_empty_conv v view_of_def)
  moreover have "map (\<lambda>e. case (row (by_key ls) (ed_jp e), ed_expected e) of
        (Some line, Some x) \<Rightarrow> if x \<noteq> ls_revision line then [\<lparr>lcf_jp = ed_jp e, lcf_expected = x,
          lcf_current = ls_revision line, lcf_text = ls_text line, lcf_source = ls_source line\<rparr>] else []
      | _ \<Rightarrow> []) edits = map ?f edits"
    using one by (rule map_cong [OF refl])
  ultimately have p: "find_problems (by_key ls) edits [] [] = ([], concat (map ?f edits))"
    unfolding find_problems_eq by (simp only: list.map append_Nil)
  have "concat (map ?f edits) \<noteq> []"
  proof -
    obtain e x where "e \<in> set edits" "ed_expected e = Some x"
      "x \<noteq> (case loc_of ?ep lc d (ed_jp e) of None \<Rightarrow> 0 | Some r \<Rightarrow> t_revision r)"
      using stale by (auto simp: list_ex_iff)
    then have "?f e \<noteq> []" by (simp add: Let_def)
    with \<open>e \<in> set edits\<close> show ?thesis by auto
  qed
  then show ?thesis
    using assms(2-7) unfolding update_side_story_lines_def by (simp add: lo p Let_def del: concat_eq_Nil_conv)
qed

theorem stale_edits_refused_witness:
  "update_side_story_lines Committed ''card'' ''1'' ''1'' ''zh-CN'' ''me''
     [\<lparr>ed_jp = ''x'', ed_text = ''n'', ed_source = [], ed_expected = Some 2\<rparr>] 9 demo_side =
   (demo_side, Inl (RevisionConflict [\<lparr>lcf_jp = ''x'', lcf_expected = 2, lcf_current = 3, lcf_text = ''h'', lcf_source = ''human''\<rparr>]))"
proof -
  have v: "valid_side_story_text ''n''"
    by (simp add: valid_side_story_text_def sideStoryMaxTextBytes_def valid_utf8_ascii runes_ascii)
  have q: "valid_side_story_request ''card'' ''1'' ''zh-CN'' = None" "valid_side_story_episode_key ''card'' ''1''"
    by (simp_all add: valid_side_story_request_def valid_side_story_kind_def SideStoryKindCard_def
        valid_side_story_id_def valid_side_story_locale_def locale_names valid_side_story_episode_key_def)
  have l: "loc_of (''card'', ''1'', ''1'') ''zh-CN'' demo_side ''x'' =
      Some \<lparr>t_text = ''h'', t_source = ''human'', t_revision = 3, t_updated_by = ''u'', t_updated_at = 4\<rparr>"
    "row (lines demo_side) ((''card'', ''1'', ''1''), ''x'') \<noteq> None" "row (episodes demo_side) (''card'', ''1'', ''1'') \<noteq> None"
    by (simp_all add: loc_of_def demo_side_def row_def)
  show ?thesis
    by (subst stale_edits_refused [OF demo_side_ok(1) q]) (use l in \<open>simp_all add: v sideStoryMaxEdits_def Let_def\<close>)
qed

section \<open>Lemmas on AI translations\<close>

definition ai_eff ::
  "int \<Rightarrow> ai_target \<times> string \<Rightarrow> (bool \<times> line_loc option) option \<Rightarrow> (bool \<times> line_loc option) option" where
  "ai_eff stamp tt cell = map_option (\<lambda>(line, loc).
     (line, if snd tt = [] \<or> \<not> valid_side_story_text (snd tt) then loc
       else case loc of
         None \<Rightarrow> if tg_revision (fst tt) = 0 \<and> line
           then Some \<lparr>t_text = snd tt, t_source = ''llm'', t_revision = 1, t_updated_by = ''ai'', t_updated_at = stamp\<rparr> else None
       | Some r \<Rightarrow> if tg_revision (fst tt) \<noteq> 0 \<and> t_revision r = tg_revision (fst tt) \<and> t_text r = [] \<and> t_source r \<noteq> ''human''
           then Some \<lparr>t_text = snd tt, t_source = ''llm'', t_revision = t_revision r + 1, t_updated_by = ''ai'', t_updated_at = stamp\<rparr>
           else Some r)) cell"

text \<open>A cell: whether the line exists, and its localization.\<close>

definition cell_of :: "side_db \<times> nat \<Rightarrow> line_loc_id \<Rightarrow> (bool \<times> line_loc option) option" where
  "cell_of s k = Some (row (lines (fst s)) (fst k) \<noteq> None, row (line_locs (fst s)) k)"

interpretation ai_loop: rowwise_counted cell_of "write_ai kind story_id lc stamp"
  "\<lambda>tt. (((kind, story_id, tg_episode (fst tt)), tg_jp (fst tt)), lc)" "ai_eff stamp" snd
  "\<lambda>tt cell. ai_eff stamp tt cell \<noteq> cell"
  for kind story_id lc stamp
proof (unfold_locales, goal_cases)
  case (1 x s)
  show ?case
    by (cases x; cases s)
      (auto simp: write_ai_def Let_def cell_of_def ai_eff_def split: option.splits)
next
  case (2 k x s)
  then show ?case
    by (cases x; cases s) (auto simp: write_ai_def Let_def cell_of_def split: option.splits)
next
  case (3 x s)
  show ?case
    by (cases x; cases s)
      (auto simp: write_ai_def Let_def cell_of_def ai_eff_def split: option.splits)
qed

lemma write_ai_keeps [simp]:
  "stories (fst (write_ai kind story_id lc stamp tt s)) = stories (fst s)"
  "episodes (fst (write_ai kind story_id lc stamp tt s)) = episodes (fst s)"
  "lines (fst (write_ai kind story_id lc stamp tt s)) = lines (fst s)"
  by (cases tt; cases s; simp add: write_ai_def Let_def split: option.splits)+

lemma ai_fold_keeps [simp]:
  "stories (fst (fold (write_ai kind story_id lc stamp) tts s)) = stories (fst s)"
  "episodes (fst (fold (write_ai kind story_id lc stamp) tts s)) = episodes (fst s)"
  "lines (fst (fold (write_ai kind story_id lc stamp) tts s)) = lines (fst s)"
  by (induction tts arbitrary: s) simp_all

lemma write_ai_ok:
  assumes "side_ok (fst s)" "lc \<in> {LocaleChinese, LocaleEnglish}"
  shows "side_ok (fst (write_ai kind story_id lc stamp tt s))"
proof -
  have "line_loc_ok \<lparr>t_text = x, t_source = ''llm'', t_revision = 1, t_updated_by = ''ai'', t_updated_at = stamp\<rparr>"
    "\<And>r. line_loc_ok r \<Longrightarrow> line_loc_ok (r\<lparr>t_text := x, t_source := ''llm'', t_revision := t_revision r + 1,
      t_updated_by := ''ai'', t_updated_at := stamp\<rparr>)" for x
    by (auto simp: line_loc_ok_def side_sources)
  then show ?thesis using assms
    by (cases tt; cases s) (auto simp: write_ai_def Let_def split: option.splits intro!: put_loc_ok modify_loc_ok)
qed

lemma ai_fold_ok:
  "side_ok (fst s) \<Longrightarrow> lc \<in> {LocaleChinese, LocaleEnglish} \<Longrightarrow> side_ok (fst (fold (write_ai kind story_id lc stamp) tts s))"
  by (induction tts arbitrary: s) (simp_all add: write_ai_ok)

lemma ai_success:
  assumes "apply_side_story_ai tx kind story_id lc targets texts stamp d = (d', Inr n)"
  shows "tx = Committed" "valid_side_story_request kind story_id lc = None" "length targets = length texts"
    "fold (write_ai kind story_id lc stamp) (zip targets texts) (d, 0) = (d', n)"
  using assms unfolding apply_side_story_ai_def
  by (cases tx; simp split: option.splits if_splits prod.splits)+

lemma cell_eq: "cell_of s k = cell_of s' k \<longleftrightarrow>
    (row (lines (fst s)) (fst k) \<noteq> None) = (row (lines (fst s')) (fst k) \<noteq> None) \<and> row (line_locs (fst s)) k = row (line_locs (fst s')) k"
  by (simp add: cell_of_def)

text \<open>Rows that miss no translation are never touched, however often they are named.\<close>

lemma ai_fold_protected:
  "row (line_locs (fst s)) k = Some r \<Longrightarrow> \<not> misses_translation (Some r) \<Longrightarrow>
   row (line_locs (fst (fold (write_ai kind story_id lc stamp) tts s))) k = Some r"
proof (induction tts arbitrary: s)
  case (Cons tt tts)
  have "cell_of (write_ai kind story_id lc stamp tt s) k = cell_of s k"
  proof (cases "k = (((kind, story_id, tg_episode (fst tt)), tg_jp (fst tt)), lc)")
    case True
    then show ?thesis using ai_loop.step_same [of kind story_id lc stamp tt s] Cons.prems
      by (auto simp: cell_of_def ai_eff_def misses_translation_def)
  next
    case False
    then show ?thesis by (rule ai_loop.step_other)
  qed
  then have "row (line_locs (fst (write_ai kind story_id lc stamp tt s))) k = Some r"
    using Cons.prems(1) unfolding cell_eq by simp
  from Cons.IH [OF this Cons.prems(2)] show ?case by simp
qed simp

definition target_of :: "string \<Rightarrow> side_db \<Rightarrow> line_id \<Rightarrow> ai_target" where
  "target_of lc d k = \<lparr>tg_episode = snd (snd (fst k)), tg_jp = snd k,
     tg_revision = (case row (line_locs d) (k, lc) of None \<Rightarrow> 0 | Some r \<Rightarrow> t_revision r)\<rparr>"

text \<open>Which lines the query selects; the episode of a line always exists.\<close>

definition selected :: "string \<Rightarrow> string \<Rightarrow> string \<Rightarrow> string \<Rightarrow> side_db \<Rightarrow> line_id \<Rightarrow> bool" where
  "selected kind story_id lc ek d k \<longleftrightarrow> fst (fst k) = kind \<and> fst (snd (fst k)) = story_id \<and>
     (ek = [] \<or> snd (snd (fst k)) = ek) \<and> misses_translation (row (line_locs d) (k, lc))"

lemma target_row_eq:
  assumes "row (episodes d) (fst (fst x)) = Some e"
  shows "target_row kind story_id lc ek d x =
    (if selected kind story_id lc ek d (fst x)
     then [((e_position e, snd (snd (fst (fst x))), l_position (snd x), snd (fst x)), target_of lc d (fst x))] else [])"
proof -
  obtain k s e2 jp l where x: "x = (((k, s, e2), jp), l)" by (metis prod.exhaust)
  show ?thesis
  proof (cases "k = kind \<and> s = story_id")
    case True
    then show ?thesis using assms unfolding x by (simp add: selected_def target_of_def)
  next
    case False
    then show ?thesis unfolding x by (auto simp: selected_def)
  qed
qed

lemma target_row_targets:
  assumes "row (episodes d) (fst (fst x)) \<noteq> None"
  shows "map snd (target_row kind story_id lc ek d x) =
    (if selected kind story_id lc ek d (fst x) then [target_of lc d (fst x)] else [])"
proof -
  obtain e where "row (episodes d) (fst (fst x)) = Some e" using assms by blast
  from target_row_eq [OF this] show ?thesis by simp
qed

text \<open>The targets in the order of the table.\<close>

lemma target_rows_targets:
  assumes "side_ok d"
  shows "map snd (target_rows kind story_id lc ek d) =
    map (target_of lc d) (filter (selected kind story_id lc ek d) (map fst (lines d)))"
proof -
  have ep: "row (episodes d) (fst (fst x)) \<noteq> None" if "x \<in> set (lines d)" for x
    using assms that by (auto simp: side_ok_def)
  have "map snd (concat (map (target_row kind story_id lc ek d) ls)) =
    map (target_of lc d) (filter (selected kind story_id lc ek d) (map fst ls))" if "set ls \<subseteq> set (lines d)" for ls
    using that
  proof (induction ls)
    case (Cons x ls)
    then have "row (episodes d) (fst (fst x)) \<noteq> None" using ep by simp
    from target_row_targets [OF this] Cons show ?case by simp
  qed simp
  from this [of "lines d"] show ?thesis by (simp add: target_rows_def)
qed

lemma ai_targets_spec:
  assumes "side_ok d" "side_story_ai_targets begins kind story_id lc ek d = Inr ts"
  shows "mset ts = mset (map (target_of lc d) (filter (selected kind story_id lc ek d) (map fst (lines d))))"
    and "valid_side_story_request kind story_id lc = None"
proof -
  have ts: "ts = map snd (sort_key fst (target_rows kind story_id lc ek d))"
    and "valid_side_story_request kind story_id lc = None"
    using assms(2) unfolding side_story_ai_targets_def by (simp_all split: option.splits if_splits)
  then show "valid_side_story_request kind story_id lc = None" by blast
  have "mset ts = mset (map snd (target_rows kind story_id lc ek d))" unfolding ts mset_map mset_sort ..
  then show "mset ts = mset (map (target_of lc d) (filter (selected kind story_id lc ek d) (map fst (lines d))))"
    unfolding target_rows_targets [OF assms(1)] .
qed

text \<open>The row a target names, and the row its text becomes.\<close>

definition target_key :: "string \<Rightarrow> string \<Rightarrow> string \<Rightarrow> ai_target \<Rightarrow> line_loc_id" where
  "target_key kind story_id lc t = (((kind, story_id, tg_episode t), tg_jp t), lc)"

definition ai_row :: "int \<Rightarrow> ai_target \<Rightarrow> string \<Rightarrow> line_loc" where
  "ai_row stamp t x = \<lparr>t_text = x, t_source = ''llm'', t_revision = tg_revision t + 1, t_updated_by = ''ai'', t_updated_at = stamp\<rparr>"

lemma target_key_of: "selected kind story_id lc ek d k \<Longrightarrow> target_key kind story_id lc (target_of lc d k) = (k, lc)"
  by (cases k) (auto simp: selected_def target_of_def target_key_def)

lemma targets_keys:
  assumes "side_ok d" "mset ts = mset (map (target_of lc d) (filter (selected kind story_id lc ek d) (map fst (lines d))))"
  shows "distinct (map (target_key kind story_id lc) ts)"
    and "t \<in> set ts \<longleftrightarrow> (\<exists>k. row (lines d) k \<noteq> None \<and> selected kind story_id lc ek d k \<and> t = target_of lc d k)"
proof -
  let ?K = "filter (selected kind story_id lc ek d) (map fst (lines d))"
  have "mset (map (target_key kind story_id lc) ts) = mset (map (target_key kind story_id lc) (map (target_of lc d) ?K))"
    using assms(2) unfolding mset_map [of "target_key kind story_id lc"] by (rule arg_cong)
  also have "map (target_key kind story_id lc) (map (target_of lc d) ?K) = map (\<lambda>k. (k, lc)) ?K"
    unfolding map_map comp_def by (rule map_cong [OF refl], rule target_key_of [where ek = ek]) (simp only: set_filter mem_Collect_eq)
  finally have "mset (map (target_key kind story_id lc) ts) = mset (map (\<lambda>k. (k, lc)) ?K)" .
  moreover have "distinct (map (\<lambda>k. (k, lc)) ?K)"
    using side_okD(3) [OF assms(1)] by (simp add: distinct_map inj_on_def table_ok_def)
  ultimately show "distinct (map (target_key kind story_id lc) ts)" using mset_eq_imp_distinct_iff by blast
  have "k \<in> set (map fst (lines d)) \<longleftrightarrow> row (lines d) k \<noteq> None" for k
    by (simp add: row_def map_of_eq_None_iff)
  then have K: "set ?K = {k. row (lines d) k \<noteq> None \<and> selected kind story_id lc ek d k}"
    unfolding set_filter by (intro Collect_cong) (simp only:)
  have "set ts = target_of lc d ` set ?K" using mset_eq_setD [OF assms(2)] unfolding set_map .
  then show "t \<in> set ts \<longleftrightarrow> (\<exists>k. row (lines d) k \<noteq> None \<and> selected kind story_id lc ek d k \<and> t = target_of lc d k)"
    unfolding K image_def by blast
qed

text \<open>A valid text for a selected line is written.\<close>

lemma ai_eff_target:
  assumes ok: "side_ok d" and k: "row (lines d) k \<noteq> None" "selected kind story_id lc ek d k"
    and x: "x \<noteq> []" "valid_side_story_text x"
  shows "ai_eff stamp (target_of lc d k, x) (cell_of (d, 0) (k, lc)) = Some (True, Some (ai_row stamp (target_of lc d k) x))"
    and "cell_of (d, 0) (k, lc) \<noteq> Some (True, Some (ai_row stamp (target_of lc d k) x))"
proof -
  have m: "misses_translation (row (line_locs d) (k, lc))" using k(2) by (simp add: selected_def)
  have pos: "row (line_locs d) (k, lc) = Some r \<Longrightarrow> t_revision r \<noteq> 0" for r
    using side_okD(6) [OF ok, of k lc r] by (auto simp: line_loc_ok_def)
  show "ai_eff stamp (target_of lc d k, x) (cell_of (d, 0) (k, lc)) = Some (True, Some (ai_row stamp (target_of lc d k) x))"
  proof (cases "row (line_locs d) (k, lc)")
    case None
    then show ?thesis using k(1) x by (simp add: ai_eff_def cell_of_def target_of_def ai_row_def)
  next
    case (Some r)
    then show ?thesis
      using k(1) x pos [OF Some] m by (simp add: ai_eff_def cell_of_def target_of_def misses_translation_def ai_row_def)
  qed
  show "cell_of (d, 0) (k, lc) \<noteq> Some (True, Some (ai_row stamp (target_of lc d k) x))"
    using m x(1) by (auto simp: cell_of_def misses_translation_def ai_row_def)
qed

text \<open>The loop over all targets writes each of them.\<close>

lemma ai_fold_targets:
  assumes ok: "side_ok d" and ts: "mset ts = mset (map (target_of lc d) (filter (selected kind story_id lc ek d) (map fst (lines d))))"
    and len: "length texts = length ts" and good: "\<And>x. x \<in> set texts \<Longrightarrow> x \<noteq> [] \<and> valid_side_story_text x"
  shows "snd (fold (write_ai kind story_id lc stamp) (zip ts texts) (d, 0)) = length ts"
    and "i < length ts \<Longrightarrow> row (line_locs (fst (fold (write_ai kind story_id lc stamp) (zip ts texts) (d, 0))))
      (target_key kind story_id lc (ts ! i)) = Some (ai_row stamp (ts ! i) (texts ! i))"
proof -
  let ?s = "fold (write_ai kind story_id lc stamp) (zip ts texts) (d, 0)"
  let ?key = "\<lambda>tt. (((kind, story_id, tg_episode (fst tt)), tg_jp (fst tt)), lc)"
  note tk = targets_keys [OF ok ts]
  have "map ?key (zip ts texts) = map (target_key kind story_id lc) (map fst (zip ts texts))"
    by (simp add: target_key_def)
  then have di: "distinct (map ?key (zip ts texts))" using tk(1) len by simp
  have eff: "ai_eff stamp tt (cell_of (d, 0) (?key tt)) = Some (True, Some (ai_row stamp (fst tt) (snd tt))) \<and>
      cell_of (d, 0) (?key tt) \<noteq> Some (True, Some (ai_row stamp (fst tt) (snd tt)))"
    if tt: "tt \<in> set (zip ts texts)" for tt
  proof -
    obtain t x where p: "tt = (t, x)" by fastforce
    obtain k where k: "row (lines d) k \<noteq> None" "selected kind story_id lc ek d k" "t = target_of lc d k"
      using set_zip_leftD [OF tt [unfolded p]] tk(2) [of t] by blast
    have key: "?key tt = (k, lc)" using target_key_of [OF k(2)] by (simp add: p k(3) target_key_def)
    have x: "x \<noteq> []" "valid_side_story_text x" using good [OF set_zip_rightD [OF tt [unfolded p]]] by blast+
    show ?thesis unfolding key unfolding p fst_conv snd_conv k(3) using ai_eff_target [OF ok k(1,2) x] by blast
  qed
  have all: "filter (\<lambda>tt. ai_eff stamp tt (cell_of (d, 0) (?key tt)) \<noteq> cell_of (d, 0) (?key tt)) (zip ts texts) = zip ts texts"
    using eff by (intro filter_True ballI) metis
  show "snd ?s = length ts"
    using ai_loop.loop_count [OF di, of stamp "(d, 0)"] len unfolding all by simp
  show "row (line_locs (fst ?s)) (target_key kind story_id lc (ts ! i)) = Some (ai_row stamp (ts ! i) (texts ! i))" if i: "i < length ts"
  proof -
    have m: "(ts ! i, texts ! i) \<in> set (zip ts texts)" using i len by (auto simp: set_zip)
    show ?thesis
      using ai_loop.loop_mem [OF di m, of stamp "(d, 0)"] eff [OF m] by (simp add: cell_of_def target_key_def)
  qed
qed

section \<open>Properties of AI translations\<close>

text \<open>
  AI translations never touch a row that does not miss one. Whatever targets and texts are
  given, in whatever state the tables are, every human row and every row with a text survives
  unchanged, no line or episode changes, every other change is an llm row by the AI with the next
  revision, and a round that fails changes nothing.
\<close>

theorem side_ai_protects:
  assumes ok: "side_ok d" and a: "apply_side_story_ai tx kind story_id lc targets texts stamp d = (d', r)"
  shows "side_ok d' \<and> lines d' = lines d \<and> episodes d' = episodes d \<and> (\<forall>err. r = Inl err \<longrightarrow> d' = d) \<and>
    (\<forall>k r. row (line_locs d) k = Some r \<and> \<not> misses_translation (Some r) \<longrightarrow> row (line_locs d') k = Some r) \<and>
    (\<forall>k. fst (fst (fst k)) \<noteq> kind \<or> fst (snd (fst (fst k))) \<noteq> story_id \<or> snd k \<noteq> lc \<longrightarrow>
      row (line_locs d') k = row (line_locs d) k)"
proof (cases r)
  case (Inl err)
  then have "d' = d" using a unfolding apply_side_story_ai_def
    by (simp split: option.splits if_splits prod.splits)
  with ok show ?thesis by simp
next
  case (Inr n)
  note s = ai_success [OF a [unfolded Inr]]
  have f: "fst (fold (write_ai kind story_id lc stamp) (zip targets texts) (d, 0)) = d'" using s(4) by simp
  have "side_ok d'" using ai_fold_ok [of "(d, 0)" lc kind story_id stamp "zip targets texts"] ok request_locale [OF s(2)] f by simp
  moreover have "lines d' = lines d" "episodes d' = episodes d"
    using ai_fold_keeps [of kind story_id lc stamp "zip targets texts" "(d, 0)"] f by simp_all
  moreover have "row (line_locs d') k = Some r" if "row (line_locs d) k = Some r" "\<not> misses_translation (Some r)" for k r
    using ai_fold_protected [of "(d, 0)" k r kind story_id lc stamp "zip targets texts"] that f by simp
  moreover have "row (line_locs d') k = row (line_locs d) k"
    if "fst (fst (fst k)) \<noteq> kind \<or> fst (snd (fst (fst k))) \<noteq> story_id \<or> snd k \<noteq> lc" for k
  proof -
    have "k \<notin> (\<lambda>tt. (((kind, story_id, tg_episode (fst tt)), tg_jp (fst tt)), lc)) ` set (zip targets texts)"
      using that by auto
    from ai_loop.loop_other [OF this, of stamp "(d, 0)"] show ?thesis unfolding cell_eq by (simp add: f)
  qed
  ultimately show ?thesis using Inr by blast
qed

lemma demo_request:
  "valid_side_story_request ''card'' ''1'' ''en-US'' = None" "valid_side_story_episode_key ''card'' ''1''"
  "valid_side_story_text ''t''"
  by (simp_all add: valid_side_story_request_def valid_side_story_kind_def SideStoryKindCard_def valid_side_story_id_def
      valid_side_story_locale_def locale_names valid_side_story_episode_key_def valid_side_story_text_def
      sideStoryMaxTextBytes_def valid_utf8_ascii runes_ascii)

theorem side_ai_protects_witness:
  "row (line_locs (fst (apply_side_story_ai Committed ''card'' ''1'' ''zh-CN''
     [\<lparr>tg_episode = ''1'', tg_jp = ''x'', tg_revision = 3\<rparr>] [''t''] 9 demo_side))) (((''card'', ''1'', ''1''), ''x''), ''zh-CN'') =
   Some \<lparr>t_text = ''h'', t_source = ''human'', t_revision = 3, t_updated_by = ''u'', t_updated_at = 4\<rparr>"
proof -
  obtain d' r where a: "apply_side_story_ai Committed ''card'' ''1'' ''zh-CN''
     [\<lparr>tg_episode = ''1'', tg_jp = ''x'', tg_revision = 3\<rparr>] [''t''] 9 demo_side = (d', r)" by fastforce
  have "row (line_locs demo_side) (((''card'', ''1'', ''1''), ''x''), ''zh-CN'') =
      Some \<lparr>t_text = ''h'', t_source = ''human'', t_revision = 3, t_updated_by = ''u'', t_updated_at = 4\<rparr>"
    by (simp add: demo_side_def row_def)
  with side_ai_protects [OF demo_side_ok(1) a] show ?thesis unfolding a by (simp add: misses_translation_def)
qed

text \<open>
  The lines the AI is asked for are exactly those its writer accepts. Giving a valid text
  for every target writes every one of them as llm with the next revision, and asking again finds
  nothing left to translate.
\<close>

theorem side_ai_targets_accepted:
  assumes ok: "side_ok d" and t: "side_story_ai_targets begins kind story_id lc ek d = Inr ts"
    and len: "length texts = length ts" and good: "\<And>x. x \<in> set texts \<Longrightarrow> x \<noteq> [] \<and> valid_side_story_text x"
  shows "\<exists>d'. apply_side_story_ai Committed kind story_id lc ts texts stamp d = (d', Inr (length ts)) \<and>
    side_story_ai_targets begins kind story_id lc ek d' = Inr [] \<and>
    (\<forall>i < length ts. row (line_locs d') (target_key kind story_id lc (ts ! i)) = Some (ai_row stamp (ts ! i) (texts ! i)))"
proof -
  note ts = ai_targets_spec [OF ok t]
  have fold_facts: "snd (fold (write_ai kind story_id lc stamp) (zip ts texts) (d, 0)) = length ts"
    "\<And>i. i < length ts \<Longrightarrow> row (line_locs (fst (fold (write_ai kind story_id lc stamp) (zip ts texts) (d, 0))))
      (target_key kind story_id lc (ts ! i)) = Some (ai_row stamp (ts ! i) (texts ! i))"
    using ai_fold_targets [OF ok ts(1) len] good by blast+
  obtain d' where d': "fold (write_ai kind story_id lc stamp) (zip ts texts) (d, 0) = (d', length ts)"
    using fold_facts(1) by (metis prod.collapse)
  have ap: "apply_side_story_ai Committed kind story_id lc ts texts stamp d = (d', Inr (length ts))"
    using ts(2) len by (simp add: apply_side_story_ai_def d')
  have written: "row (line_locs d') (target_key kind story_id lc (ts ! i)) = Some (ai_row stamp (ts ! i) (texts ! i))"
    if "i < length ts" for i using fold_facts(2) [OF that] unfolding d' by simp
  have pr: "lines d' = lines d" "episodes d' = episodes d" "side_ok d'"
    "\<And>k r. row (line_locs d) k = Some r \<Longrightarrow> \<not> misses_translation (Some r) \<Longrightarrow> row (line_locs d') k = Some r"
    using ai_fold_keeps [of kind story_id lc stamp "zip ts texts" "(d, 0)"]
      ai_fold_ok [of "(d, 0)" lc kind story_id stamp "zip ts texts"] ok request_locale [OF ts(2)]
      ai_fold_protected [of "(d, 0)" _ _ kind story_id lc stamp "zip ts texts"] unfolding d' by simp_all
  have "\<not> selected kind story_id lc ek d' k" if k: "row (lines d) k \<noteq> None" for k
  proof (cases "selected kind story_id lc ek d k")
    case True
    then have "target_of lc d k \<in> set ts" using k targets_keys(2) [OF ok ts(1)] by blast
    then obtain i where i: "i < length ts" "ts ! i = target_of lc d k" by (metis in_set_conv_nth)
    have "texts ! i \<noteq> []" using good [of "texts ! i"] i(1) len by simp
    then show ?thesis using written [OF i(1)] target_key_of [OF True]
      by (simp add: i(2) selected_def misses_translation_def ai_row_def)
  next
    case False
    then show ?thesis using pr(4) [of "(k, lc)"]
      by (cases "row (line_locs d) (k, lc)") (auto simp: selected_def misses_translation_def)
  qed
  moreover have "k \<in> set (map fst (lines d)) \<Longrightarrow> row (lines d) k \<noteq> None" for k by (simp add: row_def map_of_eq_None_iff)
  ultimately have "filter (selected kind story_id lc ek d') (map fst (lines d')) = []"
    unfolding pr(1) filter_empty_conv by blast
  then have "map snd (target_rows kind story_id lc ek d') = []"
    using target_rows_targets [OF pr(3), of kind story_id lc ek] by simp
  then have none: "target_rows kind story_id lc ek d' = []" by simp
  have "side_story_ai_targets begins kind story_id lc ek d' = Inr []"
    using t unfolding side_story_ai_targets_def pr(2) none by (simp split: option.splits if_splits)
  then show ?thesis using ap written by blast
qed

theorem side_ai_targets_accepted_witness:
  "\<exists>d'. apply_side_story_ai Committed ''card'' ''1'' ''en-US'' [\<lparr>tg_episode = ''1'', tg_jp = ''x'', tg_revision = 0\<rparr>] [''t''] 9
     demo_side = (d', Inr 1) \<and> side_story_ai_targets True ''card'' ''1'' ''en-US'' ''1'' d' = Inr []"
proof -
  have t: "side_story_ai_targets True ''card'' ''1'' ''en-US'' ''1'' demo_side = Inr [\<lparr>tg_episode = ''1'', tg_jp = ''x'', tg_revision = 0\<rparr>]"
    by (simp add: side_story_ai_targets_def demo_request target_rows_def demo_side_def row_def misses_translation_def)
  from side_ai_targets_accepted [OF demo_side_ok(1) t, of "[''t'']" 9] show ?thesis
    by (simp add: demo_request) blast
qed

end
