(* ===== verification/SideStoryCatalog.thy ===== *)
theory SideStoryCatalog
  imports SideStoryApply "HOL-Library.Char_ord" "HOL-Library.List_Lexorder" "HOL-Library.Product_Lexorder"
begin

text \<open>
  The catalog of stories and their episodes (\<open>store/side_story_catalog.go\<close>): the masterdata of one
  kind is validated and synchronised in one transaction, an episode whose asset paths changed is
  queued again, a changed title replaces its title line, and the work queue lists what is due.
\<close>

section \<open>The catalog\<close>

record catalog_episode =
  ce_key :: string
  ce_scenario_id :: string
  ce_title_jp :: string
  ce_position :: int
  ce_jp_path :: string
  ce_cn_path :: string
  ce_en_path :: string
  ce_cn_title :: string
  ce_en_title :: string

record catalog_story =
  cs_kind :: string
  cs_story_id :: string
  cs_title :: string
  cs_character_id :: int
  cs_area_id :: int
  cs_action_set_id :: int
  cs_area_category :: string
  cs_released_at :: int
  cs_episodes :: "catalog_episode list"

record catalog_result =
  cr_stories :: nat
  cr_new_stories :: nat
  cr_new_episodes :: nat
  cr_requeued :: nat
  cr_official_titles :: nat
  cr_titles_replaced :: nat
  cr_dropped_titles :: nat

section \<open>Validation\<close>

fun validate_episodes :: "string \<Rightarrow> string \<Rightarrow> string set \<Rightarrow> catalog_episode list \<Rightarrow> side_error option" where
  "validate_episodes kind story_id seen [] = None"
| "validate_episodes kind story_id seen (e # es) =
     (if \<not> valid_side_story_episode_key kind (ce_key e) \<or> ce_key e \<in> seen \<or> \<not> area_id_pattern (ce_scenario_id e) \<or>
         (kind = SideStoryKindArea \<and> ce_scenario_id e \<noteq> story_id) \<or> ce_position e < 0 \<or> ce_jp_path e = []
      then Some (InvalidCatalogEpisode story_id (ce_key e))
      else if \<not> list_all valid_side_story_text
           [ce_title_jp e, ce_jp_path e, ce_cn_path e, ce_en_path e, ce_cn_title e, ce_en_title e]
      then Some (InvalidEpisodeText story_id (ce_key e))
      else validate_episodes kind story_id (insert (ce_key e) seen) es)"

fun validate_stories :: "string \<Rightarrow> string set \<Rightarrow> catalog_story list \<Rightarrow> side_error option" where
  "validate_stories kind seen [] = None"
| "validate_stories kind seen (s # ss) =
     (if cs_kind s \<noteq> kind \<or> \<not> valid_side_story_id kind (cs_story_id s) \<or> cs_story_id s \<in> seen
      then Some (InvalidStory (cs_kind s) (cs_story_id s))
      else if cs_character_id s < 0 \<or> cs_area_id s < 0 \<or> cs_released_at s < 0 \<or>
         (kind = SideStoryKindCard) \<noteq> (cs_action_set_id s = 0) \<or> cs_action_set_id s < 0 \<or>
         \<not> valid_side_story_text (cs_title s) \<or> \<not> valid_side_story_text (cs_area_category s) \<or> cs_episodes s = []
      then Some (InvalidStoryFields (cs_story_id s))
      else case validate_episodes kind (cs_story_id s) {} (cs_episodes s) of
        Some err \<Rightarrow> Some err
      | None \<Rightarrow> validate_stories kind (insert (cs_story_id s) seen) ss)"

definition validate_catalog :: "string \<Rightarrow> catalog_story list \<Rightarrow> side_error option" where
  "validate_catalog kind ss =
     (if \<not> valid_side_story_kind kind then Some (InvalidKind kind) else validate_stories kind {} ss)"

section \<open>Episodes\<close>

definition official_state :: "string \<Rightarrow> string" where
  "official_state path = (if path = [] then SideStoryStateAbsent else SideStoryStatePending)"

text \<open>The state of a locale after the catalog named its asset path, and whether it is queued again.\<close>

definition locale_state :: "string \<Rightarrow> string \<Rightarrow> string \<Rightarrow> string \<times> nat" where
  "locale_state path old_path state =
     (if path \<noteq> old_path
      then (official_state path, if official_state path = SideStoryStatePending then 1 else 0)
      else (state, 0))"

definition kept_parts :: "episode_row \<Rightarrow> string \<Rightarrow> string \<Rightarrow> string list" where
  "kept_parts e cn_state en_state = non_empty [kept_error e LocaleChinese cn_state, kept_error e LocaleEnglish en_state]"

text \<open>What is left of a last error when a locale vanished and others are still queued.\<close>

definition rest_parts :: "episode_row \<Rightarrow> string \<Rightarrow> string \<Rightarrow> string list" where
  "rest_parts e cn_state en_state =
     concat (map (\<lambda>(lc, state). let part = error_part (e_last_error e) lc in
         if part \<noteq> [] \<and> state \<noteq> SideStoryStateAbsent then [part] else [])
       [(LocaleJapanese, []), (LocaleChinese, cn_state), (LocaleEnglish, en_state)])"

text \<open>\<open>current\<close> is the row as it was when the synchronisation began.\<close>

definition sync_episode ::
  "int \<Rightarrow> string \<Rightarrow> string \<Rightarrow> catalog_episode \<Rightarrow> (episode_id, episode_row) table \<Rightarrow> side_db \<Rightarrow> side_db \<times> bool \<times> nat" where
  "sync_episode stamp kind story_id ce existing d =
     (let ep = (kind, story_id, ce_key ce) in
      case row existing ep of
        None \<Rightarrow> (d\<lparr>episodes := put ep \<lparr>e_scenario_id = ce_scenario_id ce, e_title_jp = ce_title_jp ce,
            e_position = ce_position ce, e_jp_path = ce_jp_path ce, e_cn_path = ce_cn_path ce, e_en_path = ce_en_path ce,
            e_script_sha256 = [], e_jp_fetched_at = 0, e_jp_refetch = False, e_cn_state = official_state (ce_cn_path ce),
            e_en_state = official_state (ce_en_path ce), e_attempts = 0, e_next_attempt_at = 0, e_last_error = [],
            e_updated_at = stamp\<rparr> (episodes d)\<rparr>, True, 0)
      | Some current \<Rightarrow>
        (let (cn_state, cn_requeued) = locale_state (ce_cn_path ce) (e_cn_path current) (e_cn_state current);
             (en_state, en_requeued) = locale_state (ce_en_path ce) (e_en_path current) (e_en_state current);
             requeued = cn_requeued + en_requeued;
             jp_changed = (ce_jp_path ce \<noteq> e_jp_path current \<or> ce_scenario_id ce \<noteq> e_scenario_id current)
         in if \<not> jp_changed \<and> cn_state = e_cn_state current \<and> en_state = e_en_state current \<and>
               ce_cn_path ce = e_cn_path current \<and> ce_en_path ce = e_en_path current \<and>
               ce_title_jp ce = e_title_jp current \<and> ce_position ce = e_position current
            then (d, False, 0)
            else let d = d\<lparr>episodes := modify ep (\<lambda>e. e\<lparr>e_scenario_id := ce_scenario_id ce, e_title_jp := ce_title_jp ce,
                       e_position := ce_position ce, e_jp_path := ce_jp_path ce, e_cn_path := ce_cn_path ce,
                       e_en_path := ce_en_path ce, e_cn_state := cn_state, e_en_state := en_state,
                       e_updated_at := stamp\<rparr>) (episodes d)\<rparr>;
                     synced = current\<lparr>e_cn_path := ce_cn_path ce, e_en_path := ce_en_path ce,
                       e_cn_state := cn_state, e_en_state := en_state\<rparr>;
                     kept = join_with ''; '' (kept_parts synced cn_state en_state);
                     vanished = (cn_state \<noteq> e_cn_state current \<or> en_state \<noteq> e_en_state current)
              in (if jp_changed
                  then d\<lparr>episodes := modify ep (\<lambda>e. e\<lparr>e_jp_refetch := (e_script_sha256 e \<noteq> []), e_attempts := 0,
                         e_next_attempt_at := 0, e_last_error := kept\<rparr>) (episodes d)\<rparr>
                  else if requeued > 0 \<or> (vanished \<and> \<not> queued synced)
                  then d\<lparr>episodes := modify ep (\<lambda>e. e\<lparr>e_attempts := 0, e_next_attempt_at := 0,
                         e_last_error := kept\<rparr>) (episodes d)\<rparr>
                  else if vanished
                  then d\<lparr>episodes := modify ep (\<lambda>e. e\<lparr>e_last_error :=
                         join_with ''; '' (rest_parts current cn_state en_state)\<rparr>) (episodes d)\<rparr>
                  else d, False, requeued)))"

section \<open>Titles\<close>

text \<open>The title of each episode before the synchronisation: the last title row of an episode wins.\<close>

definition load_title_keys :: "string \<Rightarrow> side_db \<Rightarrow> (episode_id, string) table" where
  "load_title_keys kind d =
     fold (\<lambda>((ep, jp), l). if fst ep = kind \<and> l_role l = ''title'' then put ep jp else (\<lambda>t. t)) (lines d) []"

definition title_line :: line_row where
  "title_line = \<lparr>l_role = ''title'', l_speaker = [], l_position = -1\<rparr>"

definition write_title :: "int \<Rightarrow> episode_id \<Rightarrow> string \<Rightarrow> string \<times> string \<Rightarrow> side_db \<times> nat \<Rightarrow> side_db \<times> nat" where
  "write_title stamp ep title lo s =
     (let (lc, official) = lo; (d, written) = s; t = trim_space official in
      if t = [] \<or> (t = title \<and> has_kana title) then (d, written)
      else let (d', wrote) = write_official stamp (ep, title) lc t d in (d', if wrote then written + 1 else written))"

text \<open>
  The official titles are written in the order in which Go iterates over the map of two locales,
  a parameter: \<open>english_first\<close>.
\<close>

definition sync_title_line ::
  "bool \<Rightarrow> int \<Rightarrow> episode_id \<Rightarrow> catalog_episode \<Rightarrow> string \<Rightarrow> side_db \<Rightarrow> side_db \<times> nat \<times> nat" where
  "sync_title_line english_first stamp ep ce current_key d =
     (let title = trim_space (ce_title_jp ce);
          (d, dropped) = (if current_key \<noteq> [] \<and> current_key \<noteq> title
            then (delete_line (ep, current_key) d, count_humans (ep, current_key) d) else (d, 0))
      in if title = [] then (d, dropped, 0)
         else let d = (if current_key \<noteq> title then d\<lparr>lines := put (ep, title) title_line (lines d)\<rparr> else d);
                  titles = [(''zh-CN'', ce_cn_title ce), (''en-US'', ce_en_title ce)];
                  (d, written) = fold (write_title stamp ep title) (if english_first then rev titles else titles) (d, 0)
              in (d, dropped, written))"

section \<open>Synchronisation\<close>

definition sync_story_row :: "int \<Rightarrow> string \<Rightarrow> catalog_story \<Rightarrow> (string \<times> string, story_row) table \<Rightarrow> side_db \<Rightarrow> side_db \<times> nat" where
  "sync_story_row stamp kind s existing d =
     (let k = (kind, cs_story_id s);
          wanted = \<lparr>s_title = cs_title s, s_area_category = cs_area_category s, s_character_id = cs_character_id s,
            s_area_id = cs_area_id s, s_action_set_id = cs_action_set_id s, s_released_at = cs_released_at s, s_updated_at = stamp\<rparr>
      in case row existing k of
           None \<Rightarrow> (d\<lparr>stories := put k wanted (stories d)\<rparr>, 1)
         | Some current \<Rightarrow>
             (if current\<lparr>s_updated_at := stamp\<rparr> \<noteq> wanted
              then d\<lparr>stories := modify k (\<lambda>_. wanted) (stories d)\<rparr> else d, 0))"

definition sync_catalog_episode ::
  "bool \<Rightarrow> int \<Rightarrow> string \<Rightarrow> string \<Rightarrow> (episode_id, episode_row) table \<Rightarrow> (episode_id, string) table \<Rightarrow> catalog_episode \<Rightarrow>
   side_db \<times> catalog_result \<Rightarrow> side_db \<times> catalog_result" where
  "sync_catalog_episode english_first stamp kind story_id existing titles ce s =
     (let (d, res) = s; ep = (kind, story_id, ce_key ce);
          current = (case row titles ep of None \<Rightarrow> [] | Some jp \<Rightarrow> jp);
          (d, created, requeued) = sync_episode stamp kind story_id ce existing d;
          (d, dropped, written) = sync_title_line english_first stamp ep ce current d
      in (d, res\<lparr>cr_new_episodes := cr_new_episodes res + (if created then 1 else 0),
             cr_requeued := cr_requeued res + requeued,
             cr_titles_replaced := cr_titles_replaced res +
               (if current \<noteq> [] \<and> current \<noteq> trim_space (ce_title_jp ce) then 1 else 0),
             cr_dropped_titles := cr_dropped_titles res + dropped,
             cr_official_titles := cr_official_titles res + written\<rparr>))"

fun sync_stories ::
  "(nat \<Rightarrow> bool) \<Rightarrow> bool \<Rightarrow> int \<Rightarrow> string \<Rightarrow> side_db \<Rightarrow> nat \<Rightarrow> catalog_story list \<Rightarrow> side_db \<times> catalog_result \<Rightarrow>
   side_error + (side_db \<times> catalog_result)" where
  "sync_stories cancelled english_first stamp kind d0 n [] s = Inr s"
| "sync_stories cancelled english_first stamp kind d0 n (story # ss) s =
     (if cancelled n then Inl Cancelled
      else let (d, res) = s; (d, created) = sync_story_row stamp kind story (stories d0) d;
             res = res\<lparr>cr_new_stories := cr_new_stories res + created\<rparr>
        in sync_stories cancelled english_first stamp kind d0 (n + 1) ss
             (fold (sync_catalog_episode english_first stamp kind (cs_story_id story) (episodes d0) (load_title_keys kind d0))
               (cs_episodes story) (d, res)))"

definition sync_catalog ::
  "tx_end \<Rightarrow> (nat \<Rightarrow> bool) \<Rightarrow> bool \<Rightarrow> string \<Rightarrow> catalog_story list \<Rightarrow> int \<Rightarrow> side_db \<Rightarrow>
   side_db \<times> (side_error + catalog_result)" where
  "sync_catalog tx cancelled english_first kind ss stamp d =
     (case validate_catalog kind ss of Some err \<Rightarrow> (d, Inl err) | None \<Rightarrow>
      if tx = NoBegin then (d, Inl BeginFailed)
      else case sync_stories cancelled english_first stamp kind d 0 ss
          (d, \<lparr>cr_stories = length ss, cr_new_stories = 0, cr_new_episodes = 0, cr_requeued = 0, cr_official_titles = 0,
             cr_titles_replaced = 0, cr_dropped_titles = 0\<rparr>) of
        Inl err \<Rightarrow> (d, Inl err)
      | Inr (d', res) \<Rightarrow> if tx = NoCommit then (d, Inl CommitFailed) else (d', Inr res))"

section \<open>The work queue\<close>

record work_item =
  wi_episode :: episode_id
  wi_row :: episode_row

definition importable :: "episode_row \<Rightarrow> bool" where
  "importable e \<longleftrightarrow> (e_cn_path e \<noteq> [] \<and> e_cn_state e = ''pending'') \<or> (e_en_path e \<noteq> [] \<and> e_en_state e = ''pending'')"

definition due :: "int \<Rightarrow> episode_row \<Rightarrow> bool" where
  "due now e \<longleftrightarrow> e_next_attempt_at e \<le> now \<and>
     (e_script_sha256 e = [] \<or> e_jp_refetch e \<or> importable e)"

text \<open>
  \<open>ORDER BY\<close>: importable first, newer stories first, then kind, action set, the length and the
  value of the story id (both descending), position and key. Descending numbers are negated.
\<close>

definition before :: "episode_id \<times> episode_row \<times> story_row \<Rightarrow> episode_id \<times> episode_row \<times> story_row \<Rightarrow> bool" where
  "before x y \<longleftrightarrow>
     (let (ex, rx, sx) = x; (ey, ry, sy) = y;
          kx = (\<not> importable rx, - s_released_at sx, fst ex, - s_action_set_id sx, - int (length (fst (snd ex))));
          ky = (\<not> importable ry, - s_released_at sy, fst ey, - s_action_set_id sy, - int (length (fst (snd ey))))
      in kx < ky \<or> kx = ky \<and>
         (fst (snd ey) < fst (snd ex) \<or> fst (snd ey) = fst (snd ex) \<and>
          (e_position rx, snd (snd ex)) \<le> (e_position ry, snd (snd ey))))"

fun insert_row :: "('a \<Rightarrow> 'a \<Rightarrow> bool) \<Rightarrow> 'a \<Rightarrow> 'a list \<Rightarrow> 'a list" where
  "insert_row le x [] = [x]"
| "insert_row le x (y # ys) = (if le x y then x # y # ys else y # insert_row le x ys)"

definition order_rows :: "('a \<Rightarrow> 'a \<Rightarrow> bool) \<Rightarrow> 'a list \<Rightarrow> 'a list" where
  "order_rows le xs = foldr (insert_row le) xs []"

text \<open>One episode joined with its story, when it is due.\<close>

fun work_row :: "int \<Rightarrow> side_db \<Rightarrow> episode_id \<times> episode_row \<Rightarrow> (episode_id \<times> episode_row \<times> story_row) list" where
  "work_row now d (ep, e) =
     (case row (stories d) (fst ep, fst (snd ep)) of
        None \<Rightarrow> [] | Some s \<Rightarrow> if due now e then [(ep, e, s)] else [])"

definition work_rows :: "int \<Rightarrow> side_db \<Rightarrow> (episode_id \<times> episode_row \<times> story_row) list" where
  "work_rows now d = concat (map (work_row now d) (episodes d))"

definition work_queue :: "int \<Rightarrow> int \<Rightarrow> side_db \<Rightarrow> side_error + work_item list" where
  "work_queue limit now d =
     (if limit < 1 then Inl (InvalidQueueLimit limit)
      else let limit = (if limit > sideStoryMaxQueueLimit then sideStoryMaxQueueLimit else limit) in
        Inr (map (\<lambda>(ep, e, s). \<lparr>wi_episode = ep, wi_row = e\<rparr>)
          (take (nat limit) (order_rows before (work_rows now d)))))"

definition side_story_episode :: "episode_id \<Rightarrow> side_db \<Rightarrow> side_error + work_item" where
  "side_story_episode ep d =
     (case row (episodes d) ep of None \<Rightarrow> Inl NoSuchRows | Some e \<Rightarrow> Inr \<lparr>wi_episode = ep, wi_row = e\<rparr>)"

definition side_story_episodes :: "string \<Rightarrow> string \<Rightarrow> side_db \<Rightarrow> side_error + work_item list" where
  "side_story_episodes kind story_id d =
     (if row (stories d) (kind, story_id) = None then Inl NoSuchRows
      else Inr (map (\<lambda>(ep, e). \<lparr>wi_episode = ep, wi_row = e\<rparr>)
        (sort_key (\<lambda>(ep, e). (e_position e, snd (snd ep)))
          (filter (\<lambda>((k, s, _), _). k = kind \<and> s = story_id) (episodes d)))))"

section \<open>Lemmas on one episode\<close>

lemma official_state_ok: "official_ok path (official_state path)"
  "official_state path = SideStoryStatePending \<longleftrightarrow> path \<noteq> []"
  by (simp_all add: official_state_def official_ok_def side_states)

lemma locale_state_eq:
  "locale_state path old state =
     (if path = old then (state, 0) else (official_state path, if path \<noteq> [] then 1 else 0))"
  by (simp add: locale_state_def official_state_ok)

lemma locale_state_ok:
  assumes "locale_state path old state = (s', n)" "official_ok old state"
  shows "official_ok path s'"
    and "0 < n \<Longrightarrow> path \<noteq> [] \<and> s' = SideStoryStatePending"
    and "n = 0 \<Longrightarrow> s' = state \<Longrightarrow> (path \<noteq> [] \<and> s' = SideStoryStatePending) = (old \<noteq> [] \<and> state = SideStoryStatePending)"
proof -
  show "official_ok path s'" using assms official_state_ok(1) by (auto simp: locale_state_eq split: if_splits)
  show "0 < n \<Longrightarrow> path \<noteq> [] \<and> s' = SideStoryStatePending"
    using assms(1) official_state_ok(2) by (auto simp: locale_state_eq split: if_splits)
  assume n: "n = 0" "s' = state"
  show "(path \<noteq> [] \<and> s' = SideStoryStatePending) = (old \<noteq> [] \<and> state = SideStoryStatePending)"
  proof (cases "path = old")
    case False
    then have "path = []" "state = official_state path" using assms(1) n by (auto simp: locale_state_eq split: if_splits)
    then show ?thesis using official_state_ok(2) [of path] by simp
  qed (use n in simp)
qed

text \<open>The row an existing episode becomes.\<close>

definition synced_row :: "int \<Rightarrow> catalog_episode \<Rightarrow> episode_row \<Rightarrow> episode_row" where
  "synced_row stamp ce current =
     (let (cn_state, cn_requeued) = locale_state (ce_cn_path ce) (e_cn_path current) (e_cn_state current);
          (en_state, en_requeued) = locale_state (ce_en_path ce) (e_en_path current) (e_en_state current);
          requeued = cn_requeued + en_requeued;
          jp_changed = (ce_jp_path ce \<noteq> e_jp_path current \<or> ce_scenario_id ce \<noteq> e_scenario_id current);
          synced = current\<lparr>e_cn_path := ce_cn_path ce, e_en_path := ce_en_path ce, e_cn_state := cn_state, e_en_state := en_state\<rparr>;
          written = current\<lparr>e_scenario_id := ce_scenario_id ce, e_title_jp := ce_title_jp ce, e_position := ce_position ce,
            e_jp_path := ce_jp_path ce, e_cn_path := ce_cn_path ce, e_en_path := ce_en_path ce, e_cn_state := cn_state,
            e_en_state := en_state, e_updated_at := stamp\<rparr>;
          kept = join_with ''; '' (kept_parts synced cn_state en_state);
          vanished = (cn_state \<noteq> e_cn_state current \<or> en_state \<noteq> e_en_state current)
      in if jp_changed then written\<lparr>e_jp_refetch := (e_script_sha256 current \<noteq> []), e_attempts := 0,
             e_next_attempt_at := 0, e_last_error := kept\<rparr>
         else if requeued > 0 \<or> (vanished \<and> \<not> queued synced)
         then written\<lparr>e_attempts := 0, e_next_attempt_at := 0, e_last_error := kept\<rparr>
         else if vanished then written\<lparr>e_last_error := join_with ''; '' (rest_parts current cn_state en_state)\<rparr>
         else written)"

lemma synced_row_ok:
  assumes "episode_ok current"
  shows "episode_ok (synced_row stamp ce current)"
    and "e_next_attempt_at (synced_row stamp ce current) \<in> {0, e_next_attempt_at current}"
proof -
  obtain cs cn where c: "locale_state (ce_cn_path ce) (e_cn_path current) (e_cn_state current) = (cs, cn)" by fastforce
  obtain es en where e: "locale_state (ce_en_path ce) (e_en_path current) (e_en_state current) = (es, en)" by fastforce
  have ok: "official_ok (e_cn_path current) (e_cn_state current)" "official_ok (e_en_path current) (e_en_state current)"
    "\<not> queued current \<Longrightarrow> e_attempts current = 0 \<and> e_next_attempt_at current = 0"
    using assms by (auto simp: episode_ok_def)
  have cok: "official_ok (ce_cn_path ce) cs" and eok: "official_ok (ce_en_path ce) es"
    using locale_state_ok(1) [OF c ok(1)] locale_state_ok(1) [OF e ok(2)] by blast+
  have q: "queued (current\<lparr>e_cn_path := ce_cn_path ce, e_en_path := ce_en_path ce, e_cn_state := cs, e_en_state := es\<rparr>) = queued current"
    if "cn + en = 0" "cs = e_cn_state current" "es = e_en_state current"
    using locale_state_ok(3) [OF c ok(1)] locale_state_ok(3) [OF e ok(2)] that by (auto simp: queued_def)
  show "episode_ok (synced_row stamp ce current)"
    using cok eok ok(3) q by (auto simp: synced_row_def c e Let_def episode_ok_def queued_def)
  show "e_next_attempt_at (synced_row stamp ce current) \<in> {0, e_next_attempt_at current}"
    by (auto simp: synced_row_def c e Let_def)
qed

lemma modify_put: "modify k g (put k r t) = put k (g r) t"
  by (simp add: modify_def)

definition new_row :: "int \<Rightarrow> catalog_episode \<Rightarrow> episode_row" where
  "new_row stamp ce = \<lparr>e_scenario_id = ce_scenario_id ce, e_title_jp = ce_title_jp ce,
     e_position = ce_position ce, e_jp_path = ce_jp_path ce, e_cn_path = ce_cn_path ce, e_en_path = ce_en_path ce,
     e_script_sha256 = [], e_jp_fetched_at = 0, e_jp_refetch = False, e_cn_state = official_state (ce_cn_path ce),
     e_en_state = official_state (ce_en_path ce), e_attempts = 0, e_next_attempt_at = 0, e_last_error = [],
     e_updated_at = stamp\<rparr>"

lemma new_row_ok: "episode_ok (new_row stamp ce)" "e_next_attempt_at (new_row stamp ce) = 0"
  by (simp_all add: new_row_def episode_ok_def official_state_ok)

lemma modify_const: "row t k = Some r \<Longrightarrow> modify k f t = put k (f r) t"
  by (simp add: modify_def)

lemma sync_episode_cases:
  assumes "sync_episode stamp kind sid ce existing d = (d', created, rq)"
    and "row existing (kind, sid, ce_key ce) = row (episodes d) (kind, sid, ce_key ce)"
  obtains (new) "row (episodes d) (kind, sid, ce_key ce) = None" "created"
      "d' = d\<lparr>episodes := put (kind, sid, ce_key ce) (new_row stamp ce) (episodes d)\<rparr>"
    | (same) cur where "row (episodes d) (kind, sid, ce_key ce) = Some cur" "\<not> created" "d' = d" "rq = 0"
    | (synced) cur where "row (episodes d) (kind, sid, ce_key ce) = Some cur" "\<not> created"
      "d' = d\<lparr>episodes := put (kind, sid, ce_key ce) (synced_row stamp ce cur) (episodes d)\<rparr>"
proof (cases "row (episodes d) (kind, sid, ce_key ce)")
  case None
  then show ?thesis using assms by (intro new) (simp_all add: sync_episode_def new_row_def)
next
  case (Some cur)
  obtain cs cn where c: "locale_state (ce_cn_path ce) (e_cn_path cur) (e_cn_state cur) = (cs, cn)" by fastforce
  obtain es en where e: "locale_state (ce_en_path ce) (e_en_path cur) (e_en_state cur) = (es, en)" by fastforce
  let ?jp = "ce_jp_path ce \<noteq> e_jp_path cur \<or> ce_scenario_id ce \<noteq> e_scenario_id cur"
  show ?thesis
  proof (cases "\<not> ?jp \<and> cs = e_cn_state cur \<and> es = e_en_state cur \<and> ce_cn_path ce = e_cn_path cur \<and>
      ce_en_path ce = e_en_path cur \<and> ce_title_jp ce = e_title_jp cur \<and> ce_position ce = e_position cur")
    case True
    show ?thesis
      by (rule same [OF Some]) (use assms True Some c e in \<open>auto simp: sync_episode_def Let_def\<close>)
  next
    case False
    note x = assms(1) [unfolded sync_episode_def Let_def assms(2) Some option.case c e prod.case if_not_P [OF False]]
    have created: "\<not> created" using x by (simp only: prod.inject) blast
    note m = modify_put modify_const [OF Some]
    have "d' = d\<lparr>episodes := put (kind, sid, ce_key ce) (synced_row stamp ce cur) (episodes d)\<rparr>"
    proof (cases ?jp)
      case True
      then show ?thesis using x
        unfolding synced_row_def Let_def c e prod.case if_P [OF True] by (auto simp: m)
    next
      case jp: False
      note x = x [unfolded if_not_P [OF jp]]
      show ?thesis
        using x unfolding synced_row_def Let_def c e prod.case if_not_P [OF jp]
        by (cases "0 < cn + en"; cases "cs \<noteq> e_cn_state cur \<or> es \<noteq> e_en_state cur";
            cases "queued (cur\<lparr>e_cn_path := ce_cn_path ce, e_en_path := ce_en_path ce, e_cn_state := cs, e_en_state := es\<rparr>)";
            simp only: if_True if_False simp_thms prod.inject) (auto simp: m)
    qed
    with created show ?thesis using synced [OF Some] by blast
  qed
qed

section \<open>Lemmas on titles\<close>

lemma write_title_eq:
  "write_title stamp ep title (lc, official) (d, n) =
   (let t = trim_space official in
    if t = [] \<or> (t = title \<and> has_kana title) then (d, n)
    else (fst (write_official stamp (ep, title) lc t d), if snd (write_official stamp (ep, title) lc t d) then n + 1 else n))"
  by (simp add: write_title_def Let_def case_prod_unfold)

lemma write_title_keeps:
  "stories (fst (write_title stamp ep title lo s)) = stories (fst s)"
  "episodes (fst (write_title stamp ep title lo s)) = episodes (fst s)"
  "lines (fst (write_title stamp ep title lo s)) = lines (fst s)"
  "humans (fst (write_title stamp ep title lo s)) = humans (fst s)"
  by (cases lo; cases s; simp add: write_title_eq Let_def)+

lemma write_title_ok:
  "side_ok (fst s) \<Longrightarrow> row (lines (fst s)) (ep, title) \<noteq> None \<Longrightarrow> fst lo \<in> {LocaleChinese, LocaleEnglish} \<Longrightarrow>
   side_ok (fst (write_title stamp ep title lo s))"
  by (cases lo; cases s) (auto simp: write_title_eq Let_def intro: write_official_ok)

lemma official_eff_human_back:
  "official_eff stamp t c = Some r \<Longrightarrow> t_source r = SideStorySourceHuman \<Longrightarrow> c = Some r"
  by (auto simp: official_eff_def side_sources split: option.splits if_splits)

lemma write_title_human_back:
  assumes "row (line_locs (fst (write_title stamp ep title lo s))) x = Some r" "t_source r = SideStorySourceHuman"
  shows "row (line_locs (fst s)) x = Some r"
proof -
  obtain lc official d n where lo: "lo = (lc, official)" and s: "s = (d, n)" by (metis prod.exhaust)
  let ?t = "trim_space official"
  show ?thesis
  proof (cases "?t = [] \<or> (?t = title \<and> has_kana title)")
    case True
    then show ?thesis using assms(1) by (simp add: lo s write_title_eq Let_def)
  next
    case False
    then have "row (line_locs (fst (write_official stamp (ep, title) lc ?t d))) x = Some r"
      using assms(1) unfolding lo s write_title_eq Let_def if_not_P [OF False] by simp
    then show ?thesis
      unfolding write_official_rows s fst_conv
      using official_eff_human_back [OF _ assms(2)] by (metis (full_types))
  qed
qed

lemma title_fold_facts:
  assumes "side_ok (fst s)" "row (lines (fst s)) (ep, title) \<noteq> None"
    and "list_all (\<lambda>lo. fst lo \<in> {LocaleChinese, LocaleEnglish}) los"
  shows "side_ok (fst (fold (write_title stamp ep title) los s)) \<and>
    stories (fst (fold (write_title stamp ep title) los s)) = stories (fst s) \<and>
    episodes (fst (fold (write_title stamp ep title) los s)) = episodes (fst s) \<and>
    lines (fst (fold (write_title stamp ep title) los s)) = lines (fst s) \<and>
    humans (fst (fold (write_title stamp ep title) los s)) = humans (fst s) \<and>
    (\<forall>x r. row (line_locs (fst (fold (write_title stamp ep title) los s))) x = Some r \<and> t_source r = SideStorySourceHuman \<longrightarrow>
       row (line_locs (fst s)) x = Some r)"
  using assms
proof (induction los arbitrary: s)
  case (Cons lo los)
  let ?s = "write_title stamp ep title lo s"
  have "side_ok (fst ?s)" using Cons.prems by (intro write_title_ok) simp_all
  from Cons.IH [OF this] Cons.prems
  have ih: "side_ok (fst (fold (write_title stamp ep title) los ?s)) \<and>
    stories (fst (fold (write_title stamp ep title) los ?s)) = stories (fst ?s) \<and>
    episodes (fst (fold (write_title stamp ep title) los ?s)) = episodes (fst ?s) \<and>
    lines (fst (fold (write_title stamp ep title) los ?s)) = lines (fst ?s) \<and>
    humans (fst (fold (write_title stamp ep title) los ?s)) = humans (fst ?s) \<and>
    (\<forall>x r. row (line_locs (fst (fold (write_title stamp ep title) los ?s))) x = Some r \<and> t_source r = SideStorySourceHuman \<longrightarrow>
       row (line_locs (fst ?s)) x = Some r)" by (simp add: write_title_keeps)
  then show ?case
    unfolding fold.simps comp_apply write_title_keeps using write_title_human_back by blast
qed simp

lemma sync_title_line_facts:
  assumes ok: "side_ok d" and ep: "row (episodes d) ep \<noteq> None" and key: "key \<noteq> [] \<Longrightarrow> row (lines d) (ep, key) \<noteq> None"
    and s: "sync_title_line english_first stamp ep ce key d = (d', dropped, written)"
  shows "side_ok d' \<and> stories d' = stories d \<and> episodes d' = episodes d \<and> humans d' + dropped = humans d \<and>
    (\<forall>x r. row (line_locs d') x = Some r \<and> t_source r = SideStorySourceHuman \<longrightarrow> row (line_locs d) x = Some r) \<and>
    (\<forall>k. fst k \<noteq> ep \<longrightarrow> row (lines d') k = row (lines d) k)"
proof -
  let ?t = "trim_space (ce_title_jp ce)"
  let ?d1 = "if key \<noteq> [] \<and> key \<noteq> ?t then delete_line (ep, key) d else d"
  let ?n1 = "if key \<noteq> [] \<and> key \<noteq> ?t then count_humans (ep, key) d else 0"
  let ?d2 = "if key \<noteq> ?t then ?d1\<lparr>lines := put (ep, ?t) title_line (lines ?d1)\<rparr> else ?d1"
  let ?titles = "if english_first then rev [(''zh-CN'', ce_cn_title ce), (''en-US'', ce_en_title ce)]
    else [(''zh-CN'', ce_cn_title ce), (''en-US'', ce_en_title ce)]"
  let ?f = "fold (write_title stamp ep ?t) ?titles (?d2, 0)"
  have ok1: "side_ok ?d1" using ok delete_line_ok by simp
  have h1: "humans ?d1 + ?n1 = humans d" using humans_delete [of "(ep, key)" d] by simp
  have b1: "row (line_locs ?d1) x = Some r \<Longrightarrow> row (line_locs d) x = Some r" for x r
    by (cases x) (auto split: if_splits)
  have same1: "stories ?d1 = stories d" "episodes ?d1 = episodes d" "fst k \<noteq> ep \<Longrightarrow> row (lines ?d1) k = row (lines d) k" for k
    by auto
  have d1: "(if key \<noteq> [] \<and> key \<noteq> ?t then (delete_line (ep, key) d, count_humans (ep, key) d) else (d, 0)) = (?d1, ?n1)"
    by simp
  show ?thesis
  proof (cases "?t = []")
    case True
    then have "d' = ?d1" "dropped = ?n1" using s unfolding sync_title_line_def Let_def d1 by simp_all
    then show ?thesis using ok1 h1 b1 same1 by blast
  next
    case False
    have d': "d' = fst ?f" "dropped = ?n1" using s False
      unfolding sync_title_line_def Let_def d1 prod.case if_not_P [OF False] by (auto simp add: case_prod_unfold)
    have lo: "line_ok ((ep, ?t), title_line)" using False by (simp add: line_ok_def title_line_def side_roles)
    have ep1: "row (episodes ?d1) (fst (ep, ?t)) \<noteq> None" unfolding fst_conv same1(2) by (rule ep)
    have ok2: "side_ok ?d2"
    proof (cases "key \<noteq> ?t")
      case True
      show ?thesis unfolding if_P [OF True] by (rule put_line_ok [OF ok1 lo ep1])
    next
      case False
      show ?thesis unfolding if_not_P [OF False] by (rule ok1)
    qed
    have in2: "row (lines ?d2) (ep, ?t) \<noteq> None" using key False by auto
    have same2: "stories ?d2 = stories d" "episodes ?d2 = episodes d" "line_locs ?d2 = line_locs ?d1"
      "fst k \<noteq> ep \<Longrightarrow> row (lines ?d2) k = row (lines d) k" for k using same1 by auto
    have h2: "humans ?d2 + ?n1 = humans d" using h1 by (auto simp: humans_def)
    have "list_all (\<lambda>lo. fst lo \<in> {LocaleChinese, LocaleEnglish}) ?titles" by (simp add: locale_names)
    from title_fold_facts [where s = "(?d2, 0)" and stamp = stamp, unfolded fst_conv, OF ok2 in2 this]
    have f: "side_ok (fst ?f)" "stories (fst ?f) = stories ?d2" "episodes (fst ?f) = episodes ?d2" "lines (fst ?f) = lines ?d2"
      "humans (fst ?f) = humans ?d2"
      "\<And>x r. row (line_locs (fst ?f)) x = Some r \<Longrightarrow> t_source r = SideStorySourceHuman \<Longrightarrow> row (line_locs ?d2) x = Some r"
      by blast+
    have "row (line_locs d) x = Some r" if "row (line_locs (fst ?f)) x = Some r" "t_source r = SideStorySourceHuman" for x r
      by (rule b1) (use f(6) [OF that] same2(3) in simp)
    then show ?thesis unfolding d' f(2-5) using f(1) same2 h2 by blast
  qed
qed

section \<open>Lemmas on the synchronisation\<close>

lemma load_title_keys_in: "row (load_title_keys kind d) ep = Some jp \<Longrightarrow> \<exists>l. ((ep, jp), l) \<in> set (lines d)"
proof -
  have "row (fold (\<lambda>((ep, jp), l). if fst ep = kind \<and> l_role l = ''title'' then put ep jp else (\<lambda>t. t)) ls t) ep = Some jp \<Longrightarrow>
      row t ep = Some jp \<or> (\<exists>l. ((ep, jp), l) \<in> set ls)" for ls t
  proof (induction ls arbitrary: t)
    case (Cons x ls)
    obtain e j l where x: "x = ((e, j), l)" by (metis prod.exhaust)
    show ?case using Cons.IH [OF Cons.prems [unfolded fold.simps comp_apply]]
      by (auto simp: x split: if_splits)
  qed simp
  from this [of "lines d" "[]"] show "row (load_title_keys kind d) ep = Some jp \<Longrightarrow> \<exists>l. ((ep, jp), l) \<in> set (lines d)"
    by (simp add: load_title_keys_def)
qed

text \<open>What the loop keeps; \<open>rem\<close> are the episodes still to come, not yet touched.\<close>

definition sync_inv :: "int \<Rightarrow> string \<Rightarrow> side_db \<Rightarrow> episode_id set \<Rightarrow> side_db \<times> catalog_result \<Rightarrow> bool" where
  "sync_inv stamp kind d0 rem s \<longleftrightarrow>
     side_ok (fst s) \<and> episodes_ok (fst s) \<and> due_within stamp (fst s) \<and> humans (fst s) + cr_dropped_titles (snd s) = humans d0 \<and>
     (\<forall>x r. row (line_locs (fst s)) x = Some r \<and> t_source r = SideStorySourceHuman \<longrightarrow> row (line_locs d0) x = Some r) \<and>
     (\<forall>ep \<in> rem. row (episodes (fst s)) ep = row (episodes d0) ep \<and>
        (\<forall>jp. row (load_title_keys kind d0) ep = Some jp \<longrightarrow> row (lines (fst s)) (ep, jp) \<noteq> None))"

lemma sync_episode_facts:
  assumes s: "sync_episode stamp kind sid ce existing d = (d', created, rq)" and stamp: "0 \<le> stamp"
    and ex: "row existing (kind, sid, ce_key ce) = row (episodes d) (kind, sid, ce_key ce)"
    and ok: "side_ok d" "episodes_ok d" "due_within stamp d"
  shows "side_ok d'" "episodes_ok d'" "due_within stamp d'" "lines d' = lines d" "line_locs d' = line_locs d"
    "row (episodes d') (kind, sid, ce_key ce) \<noteq> None" "x \<noteq> (kind, sid, ce_key ce) \<Longrightarrow> row (episodes d') x = row (episodes d) x"
proof -
  consider "d' = d" "row (episodes d) (kind, sid, ce_key ce) \<noteq> None"
    | e where "d' = d\<lparr>episodes := put (kind, sid, ce_key ce) e (episodes d)\<rparr>" "episode_ok e" "e_next_attempt_at e \<le> stamp + 86400"
    using s ex
  proof (cases rule: sync_episode_cases)
    case new
    then show ?thesis using that(2) new_row_ok stamp by simp
  next
    case (same cur)
    then show ?thesis using that(1) by simp
  next
    case (synced cur)
    have "episode_ok cur" "e_next_attempt_at cur \<le> stamp + 86400"
      using ok(2,3) synced(1) unfolding episodes_ok_def due_within_def by blast+
    then show ?thesis using that(2) [OF synced(3)] synced_row_ok [of cur stamp ce] stamp by auto
  qed
  then have "side_ok d' \<and> episodes_ok d' \<and> due_within stamp d' \<and> lines d' = lines d \<and> line_locs d' = line_locs d \<and>
      row (episodes d') (kind, sid, ce_key ce) \<noteq> None \<and>
      (x \<noteq> (kind, sid, ce_key ce) \<longrightarrow> row (episodes d') x = row (episodes d) x)"
  proof cases
    case 1
    then show ?thesis using ok by simp
  next
    case (2 e)
    have "episodes_ok d'" "due_within stamp d'"
      using ok(2,3) 2 unfolding episodes_ok_def due_within_def by (simp_all split: if_splits)
    then show ?thesis using ok(1) put_episode_ok 2 by simp
  qed
  then show "side_ok d'" "episodes_ok d'" "due_within stamp d'" "lines d' = lines d" "line_locs d' = line_locs d"
    "row (episodes d') (kind, sid, ce_key ce) \<noteq> None" "x \<noteq> (kind, sid, ce_key ce) \<Longrightarrow> row (episodes d') x = row (episodes d) x"
    by blast+
qed

lemma due_episodes: "episodes d' = episodes d \<Longrightarrow> episodes_ok d' = episodes_ok d" "episodes d' = episodes d \<Longrightarrow> due_within stamp d' = due_within stamp d"
  by (simp_all add: episodes_ok_def due_within_def)

lemma sync_catalog_episode_inv:
  assumes stamp: "0 \<le> stamp" and inv: "sync_inv stamp kind d0 (insert (kind, sid, ce_key ce) rem) s"
    and new: "(kind, sid, ce_key ce) \<notin> rem"
  shows "sync_inv stamp kind d0 rem
    (sync_catalog_episode english_first stamp kind sid (episodes d0) (load_title_keys kind d0) ce s)"
proof -
  obtain d res where s: "s = (d, res)" by fastforce
  let ?ep = "(kind, sid, ce_key ce)"
  let ?key = "case row (load_title_keys kind d0) ?ep of None \<Rightarrow> [] | Some jp \<Rightarrow> jp"
  obtain d1 created rq where e: "sync_episode stamp kind sid ce (episodes d0) d = (d1, created, rq)" by (metis prod.exhaust)
  obtain d2 dropped written where t: "sync_title_line english_first stamp ?ep ce ?key d1 = (d2, dropped, written)" by (metis prod.exhaust)
  have i: "side_ok d" "episodes_ok d" "due_within stamp d" "humans d + cr_dropped_titles res = humans d0"
    "\<And>x r. row (line_locs d) x = Some r \<Longrightarrow> t_source r = SideStorySourceHuman \<Longrightarrow> row (line_locs d0) x = Some r"
    "\<And>ep. ep \<in> insert ?ep rem \<Longrightarrow> row (episodes d) ep = row (episodes d0) ep"
    "\<And>ep jp. ep \<in> insert ?ep rem \<Longrightarrow> row (load_title_keys kind d0) ep = Some jp \<Longrightarrow> row (lines d) (ep, jp) \<noteq> None"
    using inv unfolding sync_inv_def s fst_conv snd_conv by blast+
  have ex: "row (episodes d0) ?ep = row (episodes d) ?ep" using i(6) by simp
  note ef = sync_episode_facts [OF e stamp ex i(1-3)]
  have key: "?key \<noteq> [] \<Longrightarrow> row (lines d1) (?ep, ?key) \<noteq> None"
    using i(7) [of ?ep] ef(4) by (cases "row (load_title_keys kind d0) ?ep") simp_all
  note tf = sync_title_line_facts [OF ef(1) ef(6) key t]
  have h: "humans d2 + (cr_dropped_titles res + dropped) = humans d0"
    using tf i(4) ef(5) by (simp add: humans_def)
  have "sync_inv stamp kind d0 rem (d2, res\<lparr>cr_new_episodes := a, cr_requeued := b, cr_titles_replaced := c,
      cr_dropped_titles := cr_dropped_titles res + dropped, cr_official_titles := f\<rparr>)" for a b c f
    unfolding sync_inv_def fst_conv
  proof (intro conjI ballI)
    show "side_ok d2" using tf by blast
    show "episodes_ok d2" "due_within stamp d2" using due_episodes [of d2 d1] tf ef(2,3) by simp_all
    show "humans d2 + cr_dropped_titles (snd (d2, res\<lparr>cr_new_episodes := a, cr_requeued := b, cr_titles_replaced := c,
      cr_dropped_titles := cr_dropped_titles res + dropped, cr_official_titles := f\<rparr>)) = humans d0" using h by simp
    show "\<forall>x r. row (line_locs d2) x = Some r \<and> t_source r = SideStorySourceHuman \<longrightarrow> row (line_locs d0) x = Some r"
      using tf ef(5) i(5) by simp
    fix ep assume ep: "ep \<in> rem"
    then have "ep \<noteq> ?ep" using new by blast
    then show "row (episodes d2) ep = row (episodes d0) ep" using tf ef(7) [of ep] i(6) [of ep] ep by simp
    show "\<forall>jp. row (load_title_keys kind d0) ep = Some jp \<longrightarrow> row (lines d2) (ep, jp) \<noteq> None"
    proof (intro allI impI)
      fix jp assume jp: "row (load_title_keys kind d0) ep = Some jp"
      have f: "fst (ep, jp) \<noteq> ?ep" unfolding fst_conv by (rule \<open>ep \<noteq> ?ep\<close>)
      have "\<forall>k. fst k \<noteq> ?ep \<longrightarrow> row (lines d2) k = row (lines d1) k" using tf by blast
      then have "row (lines d2) (ep, jp) = row (lines d1) (ep, jp)" using f by blast
      then show "row (lines d2) (ep, jp) \<noteq> None" using i(7) [OF _ jp] ep ef(4) by simp
    qed
  qed
  then show ?thesis unfolding sync_catalog_episode_def s Let_def prod.case e t .
qed

definition catalog_ids :: "string \<Rightarrow> catalog_story list \<Rightarrow> episode_id list" where
  "catalog_ids kind ss = concat (map (\<lambda>s. map (\<lambda>e. (kind, cs_story_id s, ce_key e)) (cs_episodes s)) ss)"

lemma validate_episodes_distinct:
  "validate_episodes kind sid seen es = None \<Longrightarrow> distinct (map ce_key es) \<and> seen \<inter> ce_key ` set es = {}"
  by (induction kind sid seen es rule: validate_episodes.induct) (auto split: if_splits)

lemma validate_stories_distinct:
  "validate_stories kind seen ss = None \<Longrightarrow> distinct (map cs_story_id ss) \<and> seen \<inter> cs_story_id ` set ss = {} \<and>
   (\<forall>s \<in> set ss. distinct (map ce_key (cs_episodes s)))"
proof (induction kind seen ss rule: validate_stories.induct)
  case (2 kind seen s ss)
  then show ?case using validate_episodes_distinct [of kind "cs_story_id s" "{}" "cs_episodes s"]
    by (auto split: if_splits option.splits)
qed simp

lemma catalog_ids_distinct: "validate_catalog kind ss = None \<Longrightarrow> distinct (catalog_ids kind ss)"
proof -
  assume "validate_catalog kind ss = None"
  then have v: "distinct (map cs_story_id ss)" "\<forall>s \<in> set ss. distinct (map ce_key (cs_episodes s))"
    using validate_stories_distinct by (auto simp: validate_catalog_def split: if_splits)
  then show ?thesis
  proof (induction ss)
    case (Cons s ss)
    have "distinct (map (\<lambda>e. (kind, cs_story_id s, ce_key e)) (cs_episodes s))"
      using Cons.prems(2) by (simp add: distinct_map inj_on_def)
    with Cons show ?case by (auto simp: catalog_ids_def)
  qed (simp add: catalog_ids_def)
qed

lemma sync_story_row_facts:
  assumes "sync_story_row stamp kind s existing d = (d', n)"
  shows "side_ok d \<Longrightarrow> side_ok d'" "episodes d' = episodes d" "lines d' = lines d" "line_locs d' = line_locs d"
proof -
  have "side_ok (d\<lparr>stories := t\<rparr>)" if "side_ok d" "table_ok t" for t using that by (simp add: side_ok_def)
  then show "side_ok d \<Longrightarrow> side_ok d'" using assms
    by (auto simp: sync_story_row_def Let_def dest: side_okD(1) split: option.splits if_splits)
  show "episodes d' = episodes d" "lines d' = lines d" "line_locs d' = line_locs d"
    using assms by (auto simp: sync_story_row_def Let_def split: option.splits if_splits)
qed

lemma fold_episodes_inv:
  assumes "0 \<le> stamp"
  shows "sync_inv stamp kind d0 (set (map (\<lambda>e. (kind, sid, ce_key e)) es) \<union> rem) s \<Longrightarrow>
   distinct (map (\<lambda>e. (kind, sid, ce_key e)) es) \<Longrightarrow> set (map (\<lambda>e. (kind, sid, ce_key e)) es) \<inter> rem = {} \<Longrightarrow>
   sync_inv stamp kind d0 rem (fold (sync_catalog_episode english_first stamp kind sid (episodes d0) (load_title_keys kind d0)) es s)"
proof (induction es arbitrary: s)
  case (Cons e es)
  have "sync_inv stamp kind d0 (set (map (\<lambda>e. (kind, sid, ce_key e)) es) \<union> rem)
     (sync_catalog_episode english_first stamp kind sid (episodes d0) (load_title_keys kind d0) e s)"
    by (rule sync_catalog_episode_inv [OF assms]) (use Cons.prems in auto)
  then show ?case unfolding fold.simps comp_apply by (rule Cons.IH) (use Cons.prems in auto)
qed simp

lemma sync_stories_inv:
  assumes "0 \<le> stamp"
  shows "sync_inv stamp kind d0 (set (catalog_ids kind ss)) s \<Longrightarrow> distinct (catalog_ids kind ss) \<Longrightarrow>
   sync_stories cancelled english_first stamp kind d0 n ss s = Inr s' \<Longrightarrow>
   sync_inv stamp kind d0 {} s' \<and> cr_stories (snd s') = cr_stories (snd s)"
proof (induction ss arbitrary: n s)
  case (Cons story ss)
  obtain d res where s: "s = (d, res)" by fastforce
  obtain d1 created where r: "sync_story_row stamp kind story (stories d0) d = (d1, created)" by fastforce
  let ?res = "res\<lparr>cr_new_stories := cr_new_stories res + created\<rparr>"
  let ?f = "sync_catalog_episode english_first stamp kind (cs_story_id story) (episodes d0) (load_title_keys kind d0)"
  have ids: "catalog_ids kind (story # ss) = map (\<lambda>e. (kind, cs_story_id story, ce_key e)) (cs_episodes story) @ catalog_ids kind ss"
    by (simp add: catalog_ids_def)
  have "sync_inv stamp kind d0 (set (catalog_ids kind (story # ss))) (d1, ?res)"
    using Cons.prems(1) sync_story_row_facts [OF r] due_episodes [of d1 d]
    unfolding sync_inv_def s by (simp add: humans_def)
  then have inv: "sync_inv stamp kind d0 (set (catalog_ids kind ss)) (fold ?f (cs_episodes story) (d1, ?res))"
    unfolding ids set_append by (rule fold_episodes_inv [OF assms]) (use Cons.prems(2) ids in auto)
  have next1: "sync_stories cancelled english_first stamp kind d0 (n + 1) ss (fold ?f (cs_episodes story) (d1, ?res)) = Inr s'"
    using Cons.prems(3) by (simp add: s r split: if_splits)
  have "cr_stories (snd (fold ?f es x)) = cr_stories (snd x)" for es x
    by (induction es arbitrary: x) (simp_all add: sync_catalog_episode_def Let_def case_prod_unfold)
  with Cons.IH [OF inv _ next1] Cons.prems(2) ids s show ?case by simp
qed (simp add: catalog_ids_def)

section \<open>Properties\<close>

text \<open>
  A catalog synchronisation keeps what the fetch rounds rely on. Whatever the catalog, the
  tables stay well-formed, every episode keeps its invariant (a locale is absent exactly without
  an asset path, an idle episode has no retry) and none waits more than a day; the human rows
  missing are exactly those counted as dropped titles, no other human row changes or appears,
  and a request that is refused, cancelled or not committed changes nothing.
\<close>

theorem sync_catalog_invariants:
  assumes "side_ok d" "episodes_ok d" "due_within stamp d" "0 \<le> stamp"
    and s: "sync_catalog tx cancelled english_first kind ss stamp d = (d', r)"
  shows "side_ok d' \<and> episodes_ok d' \<and> due_within stamp d' \<and> (case r of Inl _ \<Rightarrow> d' = d | Inr res \<Rightarrow>
     cr_stories res = length ss \<and> humans d' + cr_dropped_titles res = humans d \<and>
     (\<forall>x r. row (line_locs d') x = Some r \<and> t_source r = SideStorySourceHuman \<longrightarrow> row (line_locs d) x = Some r))"
proof (cases r)
  case (Inl err)
  then have "d' = d" using s unfolding sync_catalog_def by (simp split: option.splits if_splits sum.splits prod.splits)
  with Inl assms show ?thesis by simp
next
  case (Inr res)
  let ?r0 = "\<lparr>cr_stories = length ss, cr_new_stories = 0, cr_new_episodes = 0, cr_requeued = 0, cr_official_titles = 0,
     cr_titles_replaced = 0, cr_dropped_titles = 0\<rparr>"
  have v: "validate_catalog kind ss = None"
    and l: "sync_stories cancelled english_first stamp kind d 0 ss (d, ?r0) = Inr (d', res)"
    using s Inr unfolding sync_catalog_def by (simp_all split: option.splits if_splits sum.splits prod.splits)
  have "sync_inv stamp kind d (set (catalog_ids kind ss)) (d, ?r0)"
    using assms(1-3) load_title_keys_in [of kind d] in_row [OF side_okD(3) [OF assms(1)]]
    unfolding sync_inv_def by fastforce
  from sync_stories_inv [OF assms(4) this catalog_ids_distinct [OF v] l]
  show ?thesis unfolding sync_inv_def Inr by simp
qed

theorem sync_catalog_invariants_witness:
  "episodes_ok (fst (sync_catalog Committed (\<lambda>_. False) False ''card'' [] 7 demo_side)) \<and>
   humans (fst (sync_catalog Committed (\<lambda>_. False) False ''card'' [] 7 demo_side)) = 1"
proof -
  let ?r = "\<lparr>cr_stories = 0, cr_new_stories = 0, cr_new_episodes = 0, cr_requeued = 0, cr_official_titles = 0,
     cr_titles_replaced = 0, cr_dropped_titles = 0\<rparr>"
  have s: "sync_catalog Committed (\<lambda>_. False) False ''card'' [] 7 demo_side = (demo_side, Inr ?r)"
    by (simp add: sync_catalog_def validate_catalog_def valid_side_story_kind_def SideStoryKindCard_def)
  have h: "humans demo_side = 1" by (simp add: humans_def demo_side_def side_sources)
  show ?thesis using sync_catalog_invariants [OF demo_side_ok(1,2,4) _ s] unfolding s by (simp add: h)
qed

section \<open>The order of the work queue\<close>

lemma insert_row_mset [simp]: "mset (insert_row le x ys) = add_mset x (mset ys)"
  by (induction ys) auto

lemma order_rows_mset: "mset (order_rows le xs) = mset xs"
  by (induction xs) (simp_all add: order_rows_def)

lemma insert_row_sorted:
  assumes "\<And>x y. le x y \<or> le y x" "\<And>x y z. le x y \<Longrightarrow> le y z \<Longrightarrow> le x z"
  shows "sorted_wrt le ys \<Longrightarrow> sorted_wrt le (insert_row le x ys)"
proof (induction ys)
  case (Cons y ys)
  have "set (insert_row le x ys) = insert x (set ys)" by (metis insert_row_mset set_mset_add_mset_insert set_mset_mset)
  with Cons assms show ?case by auto
qed simp

lemma order_rows_sorted:
  assumes "\<And>x y. le x y \<or> le y x" "\<And>x y z. le x y \<Longrightarrow> le y z \<Longrightarrow> le x z"
  shows "sorted_wrt le (order_rows le xs)"
  unfolding order_rows_def using insert_row_sorted [of le, OF assms] by (induction xs) simp_all

definition queue_rank :: "episode_id \<times> episode_row \<times> story_row \<Rightarrow> bool \<times> int \<times> string \<times> int \<times> int" where
  "queue_rank = (\<lambda>(ep, e, s). (\<not> importable e, - s_released_at s, fst ep, - s_action_set_id s, - int (length (fst (snd ep)))))"

lemma before_eq:
  "before x y \<longleftrightarrow> queue_rank x < queue_rank y \<or> queue_rank x = queue_rank y \<and>
     (fst (snd (fst y)) < fst (snd (fst x)) \<or> fst (snd (fst y)) = fst (snd (fst x)) \<and>
      (e_position (fst (snd x)), snd (snd (fst x))) \<le> (e_position (fst (snd y)), snd (snd (fst y))))"
  by (cases x; cases y) (simp only: before_def queue_rank_def Let_def prod.case fst_conv snd_conv)

lemma lex_total:
  fixes a a' :: "'a::linorder" and b b' :: "'b::linorder" and c c' :: "'c::linorder"
  shows "(a < a' \<or> a = a' \<and> (b' < b \<or> b' = b \<and> c \<le> c')) \<or> (a' < a \<or> a' = a \<and> (b < b' \<or> b = b' \<and> c' \<le> c))"
  by (cases a a' rule: linorder_cases; cases b b' rule: linorder_cases) auto

lemma lex_trans:
  fixes a a' a'' :: "'a::linorder" and b b' b'' :: "'b::linorder" and c c' c'' :: "'c::linorder"
  assumes "a < a' \<or> a = a' \<and> (b' < b \<or> b' = b \<and> c \<le> c')" "a' < a'' \<or> a' = a'' \<and> (b'' < b' \<or> b'' = b' \<and> c' \<le> c'')"
  shows "a < a'' \<or> a = a'' \<and> (b'' < b \<or> b'' = b \<and> c \<le> c'')"
  using assms by auto

lemma before_total: "before x y \<or> before y x"
  unfolding before_eq by (rule lex_total)

lemma before_trans: "before x y \<Longrightarrow> before y z \<Longrightarrow> before x z"
  unfolding before_eq by (rule lex_trans)

lemma work_row_set:
  "(ep, e, s) \<in> set (work_row now d x) \<longleftrightarrow> x = (ep, e) \<and> row (stories d) (fst ep, fst (snd ep)) = Some s \<and> due now e"
proof -
  obtain ep' e' where x: "x = (ep', e')" by fastforce
  show ?thesis
    unfolding x by (cases "row (stories d) (fst ep', fst (snd ep'))"; cases "due now e'") auto
qed

lemma in_concat: "t \<in> set (concat (map f ls)) \<longleftrightarrow> (\<exists>y \<in> set ls. t \<in> set (f y))"
  by simp

lemma work_rows_in:
  assumes "table_ok (episodes d)"
  shows "(ep, e, s) \<in> set (work_rows now d) \<longleftrightarrow>
    row (episodes d) ep = Some e \<and> row (stories d) (fst ep, fst (snd ep)) = Some s \<and> due now e"
proof -
  have "(ep, e) \<in> set (episodes d) \<longleftrightarrow> row (episodes d) ep = Some e" using in_row [OF assms] row_in by metis
  then show ?thesis unfolding work_rows_def in_concat work_row_set by blast
qed

lemma work_rows_distinct:
  assumes "table_ok (episodes d)"
  shows "distinct (work_rows now d)"
proof -
  have "distinct (concat (map (work_row now d) ls))" if "distinct (map fst ls)" for ls
    using that
  proof (induction ls)
    case (Cons x ls)
    obtain ep e where x: "x = (ep, e)" by fastforce
    have one: "distinct (work_row now d x)"
      unfolding x by (cases "row (stories d) (fst ep, fst (snd ep))"; cases "due now e") simp_all
    have "set (work_row now d x) \<inter> set (concat (map (work_row now d) ls)) = {}"
    proof (intro equals0I)
      fix t assume t: "t \<in> set (work_row now d x) \<inter> set (concat (map (work_row now d) ls))"
      obtain ep' e' s' where t': "t = (ep', e', s')" by (metis prod.exhaust)
      have "(ep', e') \<in> set ls \<and> x = (ep', e')" using t unfolding t' Int_iff in_concat work_row_set by blast
      then show False using Cons.prems by force
    qed
    then show ?case using one Cons by simp
  qed simp
  from this [of "episodes d"] assms show ?thesis by (simp add: work_rows_def table_ok_def)
qed

text \<open>
  The work queue. A limit below one is refused; else the queue lists distinct episodes that
  are due (with their story, in the order of the query), at most the limit and never more than
  500; a due episode is left out only when the queue is full, and then it comes after every listed
  one; and nothing that is idle is ever listed.
\<close>

theorem work_queue_spec:
  assumes ok: "table_ok (episodes d)" "episodes_ok d" and limit: "1 \<le> limit"
  shows "\<exists>rows. work_queue limit now d = Inr (map (\<lambda>(ep, e, s). \<lparr>wi_episode = ep, wi_row = e\<rparr>) rows) \<and>
    distinct rows \<and> sorted_wrt before rows \<and> int (length rows) \<le> min limit sideStoryMaxQueueLimit \<and>
    (\<forall>(ep, e, s) \<in> set rows. row (episodes d) ep = Some e \<and> row (stories d) (fst ep, fst (snd ep)) = Some s \<and>
       queued e \<and> e_next_attempt_at e \<le> now) \<and>
    (\<forall>ep e s. row (episodes d) ep = Some e \<and> row (stories d) (fst ep, fst (snd ep)) = Some s \<and> queued e \<and>
       e_next_attempt_at e \<le> now \<and> (ep, e, s) \<notin> set rows \<longrightarrow>
       int (length rows) = min limit sideStoryMaxQueueLimit \<and> (\<forall>x \<in> set rows. before x (ep, e, s)))"
proof -
  let ?all = "order_rows before (work_rows now d)"
  let ?n = "nat (min limit sideStoryMaxQueueLimit)"
  have due: "due now e \<longleftrightarrow> queued e \<and> e_next_attempt_at e \<le> now" for e
    by (auto simp: due_def importable_def queued_def SideStoryStatePending_def)
  have pos: "int ?n = min limit sideStoryMaxQueueLimit" using limit by (simp add: sideStoryMaxQueueLimit_def)
  have mem: "x \<in> set ?all \<longleftrightarrow> x \<in> set (work_rows now d)" for x
    using mset_eq_setD [OF order_rows_mset [of before "work_rows now d"]] by simp
  have di: "distinct ?all"
    using work_rows_distinct [OF ok(1)] order_rows_mset [of before "work_rows now d"] mset_eq_imp_distinct_iff by blast
  have so: "sorted_wrt before ?all" by (rule order_rows_sorted) (rule before_total, rule before_trans)
  have split: "?all = take ?n ?all @ drop ?n ?all" by simp
  have later: "int (length (take ?n ?all)) = min limit sideStoryMaxQueueLimit \<and> (\<forall>x \<in> set (take ?n ?all). before x y)"
    if y: "y \<in> set ?all" "y \<notin> set (take ?n ?all)" for y
  proof -
    have "y \<in> set (drop ?n ?all)" using y by (subst (asm) split) (auto simp del: append_take_drop_id)
    moreover from this have "?n < length ?all" by (cases "?n < length ?all") auto
    ultimately show ?thesis
      using so pos by (subst (asm) split) (auto simp: sorted_wrt_append simp del: append_take_drop_id)
  qed
  have "work_queue limit now d = Inr (map (\<lambda>(ep, e, s). \<lparr>wi_episode = ep, wi_row = e\<rparr>) (take ?n ?all))"
    using limit by (simp add: work_queue_def Let_def min_def)
  moreover have "distinct (take ?n ?all)" "sorted_wrt before (take ?n ?all)" using di so sorted_wrt_take by auto
  moreover have "int (length (take ?n ?all)) \<le> min limit sideStoryMaxQueueLimit"
    using limit by (simp add: sideStoryMaxQueueLimit_def) linarith
  moreover have "\<forall>(ep, e, s) \<in> set (take ?n ?all). row (episodes d) ep = Some e \<and>
      row (stories d) (fst ep, fst (snd ep)) = Some s \<and> queued e \<and> e_next_attempt_at e \<le> now"
    using in_set_takeD [of _ ?n ?all] mem work_rows_in [OF ok(1)] due by blast
  moreover have "\<forall>ep e s. row (episodes d) ep = Some e \<and> row (stories d) (fst ep, fst (snd ep)) = Some s \<and> queued e \<and>
       e_next_attempt_at e \<le> now \<and> (ep, e, s) \<notin> set (take ?n ?all) \<longrightarrow>
       int (length (take ?n ?all)) = min limit sideStoryMaxQueueLimit \<and> (\<forall>x \<in> set (take ?n ?all). before x (ep, e, s))"
    using later mem work_rows_in [OF ok(1)] due by blast
  ultimately show ?thesis by blast
qed

definition demo_stories :: side_db where
  "demo_stories = demo_side\<lparr>stories := [((''card'', ''1''), \<lparr>s_title = [], s_area_category = [], s_character_id = 1, s_area_id = 0,
     s_action_set_id = 0, s_released_at = 5, s_updated_at = 0\<rparr>)]\<rparr>"

theorem work_queue_spec_witness:
  "\<exists>rows :: (episode_id \<times> episode_row \<times> story_row) list. work_queue 1 9 demo_stories = Inr (map (\<lambda>(ep, e, s). \<lparr>wi_episode = ep, wi_row = e\<rparr>) rows) \<and> length rows = 1"
proof -
  let ?e = "the (row (episodes demo_stories) (''card'', ''1'', ''1''))"
  have r: "row (episodes demo_stories) (''card'', ''1'', ''1'') = Some ?e" "queued ?e" "e_next_attempt_at ?e \<le> 9"
    "row (stories demo_stories) (''card'', ''1'') \<noteq> None"
    by (simp_all add: demo_stories_def demo_side_def row_def queued_def)
  have ok: "table_ok (episodes demo_stories)" "episodes_ok demo_stories"
    using demo_side_ok by (simp_all add: demo_stories_def side_ok_def episodes_ok_def)
  from work_queue_spec [OF ok, of 1 9] obtain rows where
    w: "work_queue 1 9 demo_stories = Inr (map (\<lambda>(ep, e, s). \<lparr>wi_episode = ep, wi_row = e\<rparr>) rows)"
    "int (length rows) \<le> 1" "\<And>ep e s. row (episodes demo_stories) ep = Some e \<Longrightarrow>
      row (stories demo_stories) (fst ep, fst (snd ep)) = Some s \<Longrightarrow> queued e \<Longrightarrow>
      e_next_attempt_at e \<le> 9 \<Longrightarrow> (ep, e, s) \<notin> set rows \<Longrightarrow> int (length rows) = 1"
    by (auto simp: sideStoryMaxQueueLimit_def)
  have "length rows = 1"
  proof (cases rows)
    case Nil
    then show ?thesis using w(3) [OF r(1)] r by auto
  qed (use w(2) in simp)
  with w(1) show ?thesis by blast
qed

section \<open>A replaced title that is also a talk\<close>

lemma title_fold_lines: "lines (fst (fold (write_title stamp ep title) los s)) = lines (fst s)"
  by (induction los arbitrary: s) (simp_all add: write_title_keeps)

text \<open>
  A title line takes the place of a talk line with the same text. When the title changes, that
  line is deleted, although the script still has a talk with this text; the script is not fetched
  again for a new title, so the talk has no line until the next fetch.
\<close>

lemma replaced_title_loses_line:
  assumes "x \<in> talk_body ` set (sc_talks sc)" "x \<noteq> []" "x \<noteq> trim_space (ce_title_jp ce)"
  shows "row (lines (fst (sync_title_line english_first stamp ep ce x d))) (ep, x) = None \<and>
    x \<in> ld_key ` set (script_lines sc (trim_space (ce_title_jp ce)))"
proof -
  have "row (lines (fst (sync_title_line english_first stamp ep ce x d))) (ep, x) = None"
    using assms(2,3) unfolding sync_title_line_def
    by (cases "trim_space (ce_title_jp ce) = []") (simp_all add: Let_def case_prod_unfold title_fold_lines)
  then show ?thesis using script_lines_facts(4) [of x sc "trim_space (ce_title_jp ce)"] assms by blast
qed

end
