(* ===== verification/JsonStrict.thy ===== *)
theory JsonStrict
  imports GoJson GoConv "HOL-Library.Word"
begin

unbundle bit_operations_syntax

text \<open>
  The structural JSON validator (\<open>jsonstrict/scanner.go\<close>): one pass over the bytes that checks the
  syntax, the nesting depth, duplicate keys, forbidden nulls and lone surrogates. A position in
  the data is the data from there on: \<open>s.data[s.pos]\<close> is the head, the end is the empty string.
  The recursion carries fuel; \<open>scan_fuel\<close> is always enough.
\<close>

section \<open>Options and errors\<close>

record options =
  max_depth :: int
  forbid_null :: bool
  forbid_lone_surrogates :: bool
  require_valid_utf8 :: bool
  check_key :: "(string \<Rightarrow> string option) option"

datatype json_error =
    NotUTF8 | EmptyJSON | TrailingValue | TooDeep int | UnexpectedEnd | InvalidLiteral | ContainsNull
  | UnexpectedChar char | UnterminatedObject | ExpectedKey | KeyRejected string | DuplicateKey string
  | ExpectedColon | ExpectedCommaOrBrace | UnterminatedArray | ExpectedCommaOrBracket
  | ControlChar | IncompleteEscape | InvalidUnicodeEscape | LoneHighSurrogate | LoneLowSurrogate
  | InvalidEscape | UnterminatedString | UnmarshalError | InvalidNumber | InvalidFraction | InvalidExponent
  | OutOfFuel

text \<open>The scanner: the rest of the data and the keys of the open objects.\<close>

record scanner =
  sc_rest :: string
  sc_keys :: "string list"

definition inlineKeyDupLimit :: nat where "inlineKeyDupLimit = 24"

section \<open>White space\<close>

definition is_ws :: "char \<Rightarrow> bool" where
  "is_ws c \<longleftrightarrow> byte c = 0x20 \<or> byte c = 0x09 \<or> byte c = 0x0A \<or> byte c = 0x0D"

definition skip_ws :: "string \<Rightarrow> string" where
  "skip_ws s = dropWhile is_ws s"

section \<open>Numbers\<close>

definition scan_int :: "string \<Rightarrow> json_error + string" where
  "scan_int s = (case s of [] \<Rightarrow> Inl InvalidNumber
     | c # cs \<Rightarrow> if c = CHR ''0'' then Inr cs
         else if is_digit c then Inr (dropWhile is_digit cs) else Inl InvalidNumber)"

definition scan_frac :: "string \<Rightarrow> json_error + string" where
  "scan_frac s = (case s of [] \<Rightarrow> Inr s
     | c # cs \<Rightarrow> if c = CHR ''.''
         then (case cs of [] \<Rightarrow> Inl InvalidFraction
           | d # ds \<Rightarrow> if is_digit d then Inr (dropWhile is_digit cs) else Inl InvalidFraction)
         else Inr s)"

definition drop_sign :: "string \<Rightarrow> string" where
  "drop_sign s = (case s of [] \<Rightarrow> [] | d # ds \<Rightarrow> if d = CHR ''+'' \<or> d = CHR ''-'' then ds else s)"

definition scan_exp :: "string \<Rightarrow> json_error + string" where
  "scan_exp s = (case s of [] \<Rightarrow> Inr s
     | c # cs \<Rightarrow> if c = CHR ''e'' \<or> c = CHR ''E''
         then (case drop_sign cs of [] \<Rightarrow> Inl InvalidExponent
           | d # ds \<Rightarrow> if is_digit d then Inr (dropWhile is_digit (d # ds)) else Inl InvalidExponent)
         else Inr s)"

definition drop_minus :: "string \<Rightarrow> string" where
  "drop_minus s = (case s of [] \<Rightarrow> [] | c # cs \<Rightarrow> if c = CHR ''-'' then cs else s)"

definition scan_number :: "string \<Rightarrow> json_error + string" where
  "scan_number s =
     (case scan_int (drop_minus s) of Inl e \<Rightarrow> Inl e
      | Inr s \<Rightarrow> (case scan_frac s of Inl e \<Rightarrow> Inl e | Inr s \<Rightarrow> scan_exp s))"

section \<open>Strings\<close>

definition hex_digit :: "char \<Rightarrow> 16 word option" where
  "hex_digit c =
     (if 0x30 \<le> byte c \<and> byte c \<le> 0x39 then Some (word_of_nat (byte c - 0x30))
      else if 0x61 \<le> byte c \<and> byte c \<le> 0x66 then Some (word_of_nat (byte c - 0x61) + 10)
      else if 0x41 \<le> byte c \<and> byte c \<le> 0x46 then Some (word_of_nat (byte c - 0x41) + 10)
      else None)"

fun hex_loop :: "string \<Rightarrow> 16 word \<Rightarrow> 16 word option" where
  "hex_loop [] v = Some v"
| "hex_loop (c # cs) v = (case hex_digit c of None \<Rightarrow> None | Some d \<Rightarrow> hex_loop cs (push_bit 4 v OR d))"

definition hex_quad :: "string \<Rightarrow> 16 word option" where
  "hex_quad s = (if length s < 4 then None else hex_loop (take 4 s) 0)"

definition is_high :: "16 word \<Rightarrow> bool" where "is_high u \<longleftrightarrow> 0xD800 \<le> u \<and> u \<le> 0xDBFF"
definition is_low :: "16 word \<Rightarrow> bool" where "is_low u \<longleftrightarrow> 0xDC00 \<le> u \<and> u \<le> 0xDFFF"

text \<open>A whole escape at the front of the data (\<open>getu4\<close> of \<open>encoding/json\<close> is the same).\<close>

definition getu4 :: "string \<Rightarrow> 16 word option" where
  "getu4 s = (if length s < 6 \<or> s ! 0 \<noteq> backslash \<or> s ! 1 \<noteq> CHR ''u'' then None else hex_quad (drop 2 s))"

text \<open>The fast loop: what is before the quote, or where it stops.\<close>

datatype plain = PlainDone string string | PlainStop string string | PlainControl

fun plain_string :: "string \<Rightarrow> string \<Rightarrow> plain" where
  "plain_string raw [] = PlainStop raw []"
| "plain_string raw (c # cs) =
     (if c = quote then PlainDone (rev raw) cs
      else if c = backslash then PlainStop raw (c # cs)
      else if byte c < 0x20 then PlainControl
      else plain_string (c # raw) cs)"

definition simple_escapes :: string where
  "simple_escapes = [quote, backslash, CHR ''/'', CHR ''b'', CHR ''f'', CHR ''n'', CHR ''r'', CHR ''t'']"

text \<open>The loop that knows escapes; the bytes it passed, in reverse.\<close>

function escaped_string :: "bool \<Rightarrow> string \<Rightarrow> string \<Rightarrow> json_error + (string \<times> string)" where
  "escaped_string forbid raw [] = Inl UnterminatedString"
| "escaped_string forbid raw (c # cs) =
     (if c = quote then Inr (rev raw, cs)
      else if byte c < 0x20 then Inl ControlChar
      else if c \<noteq> backslash then escaped_string forbid (c # raw) cs
      else case cs of [] \<Rightarrow> Inl IncompleteEscape
      | e # es \<Rightarrow>
          if e \<in> set simple_escapes then escaped_string forbid (e # c # raw) es
          else if e = CHR ''u'' then
            (case hex_quad es of None \<Rightarrow> Inl InvalidUnicodeEscape
             | Some u \<Rightarrow>
                 if forbid \<and> is_high u then
                   (case getu4 (drop 4 es) of None \<Rightarrow> Inl LoneHighSurrogate
                    | Some l \<Rightarrow> if l < 0xDC00 \<or> 0xDFFF < l then Inl LoneHighSurrogate
                        else escaped_string forbid (rev (take 10 es) @ e # c # raw) (drop 10 es))
                 else if forbid \<and> is_low u then Inl LoneLowSurrogate
                 else escaped_string forbid (rev (take 4 es) @ e # c # raw) (drop 4 es))
          else Inl InvalidEscape)"
  by pat_completeness auto
termination by (relation "measure (\<lambda>(forbid, raw, s). length s)") auto

declare escaped_string.simps(2) [simp del]

subsection \<open>\<open>json.Unmarshal\<close> of a string literal\<close>

definition encode_rune :: "nat \<Rightarrow> string" where
  "encode_rune r =
     (if r < 0x80 then [char_of r]
      else if r < 0x800 then [char_of (0xC0 + r div 64), char_of (0x80 + r mod 64)]
      else if r < 0x10000 then [char_of (0xE0 + r div 4096), char_of (0x80 + r div 64 mod 64), char_of (0x80 + r mod 64)]
      else [char_of (0xF0 + r div 262144), char_of (0x80 + r div 4096 mod 64), char_of (0x80 + r div 64 mod 64),
            char_of (0x80 + r mod 64)])"

definition escape_value :: "char \<Rightarrow> char option" where
  "escape_value e =
     (if e \<in> {quote, backslash, CHR ''/'', CHR 0x27} then Some e
      else if e = CHR ''b'' then Some (CHR 0x08) else if e = CHR ''f'' then Some (CHR 0x0C)
      else if e = CHR ''n'' then Some (CHR 0x0A) else if e = CHR ''r'' then Some (CHR 0x0D)
      else if e = CHR ''t'' then Some (CHR 0x09) else None)"

function unquote :: "string \<Rightarrow> string \<Rightarrow> string option" where
  "unquote out [] = Some (rev out)"
| "unquote out (c # cs) =
     (if c = backslash then
        (case cs of [] \<Rightarrow> None
         | e # es \<Rightarrow>
            if e = CHR ''u'' then
              (case getu4 (c # cs) of None \<Rightarrow> None
               | Some u \<Rightarrow>
                  if is_high u \<or> is_low u then
                    (case getu4 (drop 4 es) of
                       Some l \<Rightarrow> if is_high u \<and> is_low l
                         then unquote (rev (encode_rune (0x10000 + (unat u - 0xD800) * 1024 + (unat l - 0xDC00))) @ out) (drop 10 es)
                         else unquote (rev (encode_rune RuneError) @ out) (drop 4 es)
                     | None \<Rightarrow> unquote (rev (encode_rune RuneError) @ out) (drop 4 es))
                  else unquote (rev (encode_rune (unat u)) @ out) (drop 4 es))
            else (case escape_value e of None \<Rightarrow> None | Some v \<Rightarrow> unquote (v # out) es))
      else if c = quote \<or> byte c < 0x20 then None
      else if byte c < 0x80 then unquote (c # out) cs
      else (let (r, n) = decode_rune (map byte (c # cs)) in
        unquote (rev (encode_rune r) @ out) (drop (n - 1) cs)))"
  by pat_completeness auto
termination by (relation "measure (\<lambda>(out, s). length s)") auto

declare unquote.simps(2) [simp del]

text \<open>\<open>scanString\<close> behind the opening quote: the key and the rest.\<close>

definition scan_string :: "bool \<Rightarrow> bool \<Rightarrow> string \<Rightarrow> json_error + (string \<times> string)" where
  "scan_string forbid need_unescaped s =
     (case plain_string [] s of
        PlainDone key rest \<Rightarrow> Inr (key, rest)
      | PlainControl \<Rightarrow> Inl ControlChar
      | PlainStop raw rest \<Rightarrow>
          (case escaped_string forbid raw rest of Inl e \<Rightarrow> Inl e
           | Inr (content, rest) \<Rightarrow>
               if \<not> need_unescaped then Inr ([], rest)
               else (case unquote [] content of None \<Rightarrow> Inl UnmarshalError | Some key \<Rightarrow> Inr (key, rest))))"

section \<open>Values\<close>

text \<open>
  The duplicate check: the keys of the frame one by one, and a set once there are
  \<open>inlineKeyDupLimit\<close> of them. The result is the key stack and the set, or a duplicate.
\<close>

definition note_key :: "nat \<Rightarrow> string \<Rightarrow> string list \<Rightarrow> string set option \<Rightarrow> json_error + (string list \<times> string set option)" where
  "note_key frame_start key keys large =
     (case large of
        None \<Rightarrow>
          if key \<in> set (drop frame_start keys) then Inl (DuplicateKey key)
          else if length keys - frame_start \<ge> inlineKeyDupLimit
          then Inr (keys, Some (insert key (set (drop frame_start keys))))
          else Inr (keys @ [key], None)
      | Some seen \<Rightarrow> if key \<in> seen then Inl (DuplicateKey key) else Inr (keys, Some (insert key seen)))"

definition reject_key :: "options \<Rightarrow> string \<Rightarrow> string option" where
  "reject_key opts key = (case check_key opts of None \<Rightarrow> None | Some check \<Rightarrow> check key)"

fun scan_value :: "nat \<Rightarrow> options \<Rightarrow> int \<Rightarrow> scanner \<Rightarrow> json_error + scanner"
  and object_loop :: "nat \<Rightarrow> options \<Rightarrow> int \<Rightarrow> nat \<Rightarrow> string set option \<Rightarrow> scanner \<Rightarrow> json_error + scanner"
  and array_loop :: "nat \<Rightarrow> options \<Rightarrow> int \<Rightarrow> scanner \<Rightarrow> json_error + scanner" where
  "scan_value 0 opts depth s = Inl OutOfFuel"
| "scan_value (Suc n) opts depth s =
     (if 0 < max_depth opts \<and> max_depth opts < depth then Inl (TooDeep (max_depth opts))
      else case sc_rest s of [] \<Rightarrow> Inl UnexpectedEnd
      | c # cs \<Rightarrow>
          if c = CHR ''{'' then
            (case skip_ws cs of [] \<Rightarrow> Inl UnterminatedObject
             | d # ds \<Rightarrow> if d = CHR ''}'' then Inr (s\<lparr>sc_rest := ds\<rparr>)
                 else object_loop n opts depth (length (sc_keys s)) None (s\<lparr>sc_rest := d # ds\<rparr>))
          else if c = CHR ''['' then
            (case skip_ws cs of [] \<Rightarrow> Inl UnterminatedArray
             | d # ds \<Rightarrow> if d = CHR '']'' then Inr (s\<lparr>sc_rest := ds\<rparr>)
                 else array_loop n opts depth (s\<lparr>sc_rest := d # ds\<rparr>))
          else if c = quote then
            (case scan_string (forbid_lone_surrogates opts) False cs of Inl e \<Rightarrow> Inl e
             | Inr (_, rest) \<Rightarrow> Inr (s\<lparr>sc_rest := rest\<rparr>))
          else if c = CHR ''t'' then
            (if take 4 (c # cs) = ''true'' then Inr (s\<lparr>sc_rest := drop 4 (c # cs)\<rparr>) else Inl InvalidLiteral)
          else if c = CHR ''f'' then
            (if take 5 (c # cs) = ''false'' then Inr (s\<lparr>sc_rest := drop 5 (c # cs)\<rparr>) else Inl InvalidLiteral)
          else if c = CHR ''n'' then
            (if take 4 (c # cs) = ''null''
             then (if forbid_null opts then Inl ContainsNull else Inr (s\<lparr>sc_rest := drop 4 (c # cs)\<rparr>))
             else Inl InvalidLiteral)
          else if c = CHR ''-'' \<or> is_digit c then
            (case scan_number (c # cs) of Inl e \<Rightarrow> Inl e | Inr rest \<Rightarrow> Inr (s\<lparr>sc_rest := rest\<rparr>))
          else Inl (UnexpectedChar c))"
| "object_loop 0 opts depth frame_start large s = Inl OutOfFuel"
| "object_loop (Suc n) opts depth frame_start large s =
     (case sc_rest s of [] \<Rightarrow> Inl ExpectedKey
      | c # cs \<Rightarrow>
        if c \<noteq> quote then Inl ExpectedKey
        else case scan_string (forbid_lone_surrogates opts) True cs of Inl e \<Rightarrow> Inl e
        | Inr (key, rest) \<Rightarrow>
          (case reject_key opts key of Some msg \<Rightarrow> Inl (KeyRejected msg)
           | None \<Rightarrow>
             (case note_key frame_start key (sc_keys s) large of Inl e \<Rightarrow> Inl e
              | Inr (keys, large) \<Rightarrow>
                (case skip_ws rest of [] \<Rightarrow> Inl ExpectedColon
                 | d # ds \<Rightarrow>
                   if d \<noteq> CHR '':'' then Inl ExpectedColon
                   else case scan_value n opts (depth + 1) (s\<lparr>sc_rest := skip_ws ds, sc_keys := keys\<rparr>) of Inl e \<Rightarrow> Inl e
                   | Inr s \<Rightarrow>
                     (case skip_ws (sc_rest s) of [] \<Rightarrow> Inl UnterminatedObject
                      | t # ts \<Rightarrow>
                        if t = CHR '','' then object_loop n opts depth frame_start large (s\<lparr>sc_rest := skip_ws ts\<rparr>)
                        else if t = CHR ''}'' then Inr (s\<lparr>sc_rest := ts, sc_keys := take frame_start (sc_keys s)\<rparr>)
                        else Inl ExpectedCommaOrBrace)))))"
| "array_loop 0 opts depth s = Inl OutOfFuel"
| "array_loop (Suc n) opts depth s =
     (case scan_value n opts (depth + 1) s of Inl e \<Rightarrow> Inl e
      | Inr s \<Rightarrow>
        (case skip_ws (sc_rest s) of [] \<Rightarrow> Inl UnterminatedArray
         | t # ts \<Rightarrow>
           if t = CHR '','' then array_loop n opts depth (s\<lparr>sc_rest := skip_ws ts\<rparr>)
           else if t = CHR '']'' then Inr (s\<lparr>sc_rest := ts\<rparr>)
           else Inl ExpectedCommaOrBracket))"

declare scan_value.simps(2) [simp del] object_loop.simps(2) [simp del] array_loop.simps(2) [simp del]

definition scan_fuel :: "string \<Rightarrow> nat" where
  "scan_fuel data = 2 * length data + 1"

text \<open>\<open>Scan\<close>: None when the data is accepted.\<close>

definition scan :: "string \<Rightarrow> options \<Rightarrow> json_error option" where
  "scan data opts =
     (if require_valid_utf8 opts \<and> \<not> valid_utf8 data then Some NotUTF8
      else case skip_ws data of [] \<Rightarrow> Some EmptyJSON
      | c # cs \<Rightarrow>
        (case scan_value (scan_fuel data) opts 1 \<lparr>sc_rest = c # cs, sc_keys = []\<rparr> of Inl e \<Rightarrow> Some e
         | Inr s \<Rightarrow> if skip_ws (sc_rest s) \<noteq> [] then Some TrailingValue else None))"

section \<open>The grammar\<close>

text \<open>
  What a JSON text is, read off RFC 8259 and not off the scanner: numbers, string bodies and, by
  mutual induction, values, members and elements, with the constraints of the options.
\<close>

definition json_number :: "string \<Rightarrow> bool" where
  "json_number v \<longleftrightarrow> (\<exists>sg ip fr ex. v = sg @ ip @ fr @ ex \<and> (sg = [] \<or> sg = ''-'') \<and>
     (ip = ''0'' \<or> (\<exists>d ds. ip = d # ds \<and> is_digit d \<and> d \<noteq> CHR ''0'' \<and> list_all is_digit ds)) \<and>
     (fr = [] \<or> (\<exists>ds. fr = CHR ''.'' # ds \<and> ds \<noteq> [] \<and> list_all is_digit ds)) \<and>
     (ex = [] \<or> (\<exists>e sg ds. ex = e # sg @ ds \<and> e \<in> {CHR ''e'', CHR ''E''} \<and> sg \<in> {[], ''+'', ''-''} \<and>
        ds \<noteq> [] \<and> list_all is_digit ds)))"

inductive string_body :: "bool \<Rightarrow> string \<Rightarrow> bool" for forbid where
  body_Nil: "string_body forbid []"
| body_char: "0x20 \<le> byte c \<Longrightarrow> c \<noteq> quote \<Longrightarrow> c \<noteq> backslash \<Longrightarrow> string_body forbid s \<Longrightarrow> string_body forbid (c # s)"
| body_escape: "e \<in> set simple_escapes \<Longrightarrow> string_body forbid s \<Longrightarrow> string_body forbid (backslash # e # s)"
| body_unicode: "length h = 4 \<Longrightarrow> hex_quad h = Some u \<Longrightarrow> (forbid \<Longrightarrow> \<not> is_high u \<and> \<not> is_low u) \<Longrightarrow>
    string_body forbid s \<Longrightarrow> string_body forbid (backslash # CHR ''u'' # h @ s)"
| body_pair: "forbid \<Longrightarrow> length h = 4 \<Longrightarrow> hex_quad h = Some u \<Longrightarrow> is_high u \<Longrightarrow> length l = 4 \<Longrightarrow> hex_quad l = Some w \<Longrightarrow>
    is_low w \<Longrightarrow> string_body forbid s \<Longrightarrow>
    string_body forbid (backslash # CHR ''u'' # h @ backslash # CHR ''u'' # l @ s)"

definition key_of :: "string \<Rightarrow> string option" where
  "key_of body = (if backslash \<in> set body then unquote [] body else Some body)"

definition white :: "string \<Rightarrow> bool" where
  "white w \<longleftrightarrow> list_all is_ws w"

definition depth_ok :: "options \<Rightarrow> int \<Rightarrow> bool" where
  "depth_ok opts depth \<longleftrightarrow> \<not> (0 < max_depth opts \<and> max_depth opts < depth)"

inductive jvalue :: "options \<Rightarrow> int \<Rightarrow> string \<Rightarrow> bool"
  and jmembers :: "options \<Rightarrow> int \<Rightarrow> string set \<Rightarrow> string \<Rightarrow> bool"
  and jelements :: "options \<Rightarrow> int \<Rightarrow> string \<Rightarrow> bool"
  for opts where
  j_true: "depth_ok opts depth \<Longrightarrow> jvalue opts depth ''true''"
| j_false: "depth_ok opts depth \<Longrightarrow> jvalue opts depth ''false''"
| j_null: "depth_ok opts depth \<Longrightarrow> \<not> forbid_null opts \<Longrightarrow> jvalue opts depth ''null''"
| j_number: "depth_ok opts depth \<Longrightarrow> json_number v \<Longrightarrow> jvalue opts depth v"
| j_string: "depth_ok opts depth \<Longrightarrow> string_body (forbid_lone_surrogates opts) body \<Longrightarrow> jvalue opts depth (quote # body @ [quote])"
| j_object_empty: "depth_ok opts depth \<Longrightarrow> white w \<Longrightarrow> jvalue opts depth (''{'' @ w @ ''}'')"
| j_object: "depth_ok opts depth \<Longrightarrow> white w \<Longrightarrow> jmembers opts depth {} m \<Longrightarrow> jvalue opts depth (''{'' @ w @ m @ ''}'')"
| j_array_empty: "depth_ok opts depth \<Longrightarrow> white w \<Longrightarrow> jvalue opts depth (''['' @ w @ '']'')"
| j_array: "depth_ok opts depth \<Longrightarrow> white w \<Longrightarrow> jelements opts depth m \<Longrightarrow> jvalue opts depth (''['' @ w @ m @ '']'')"
| j_member: "string_body (forbid_lone_surrogates opts) body \<Longrightarrow> key_of body = Some key \<Longrightarrow> reject_key opts key = None \<Longrightarrow>
    key \<notin> seen \<Longrightarrow> white w1 \<Longrightarrow> white w2 \<Longrightarrow> white w3 \<Longrightarrow> jvalue opts (depth + 1) v \<Longrightarrow>
    jmembers opts depth seen (quote # body @ [quote] @ w1 @ '':'' @ w2 @ v @ w3)"
| j_members: "string_body (forbid_lone_surrogates opts) body \<Longrightarrow> key_of body = Some key \<Longrightarrow> reject_key opts key = None \<Longrightarrow>
    key \<notin> seen \<Longrightarrow> white w1 \<Longrightarrow> white w2 \<Longrightarrow> white w3 \<Longrightarrow> white w4 \<Longrightarrow> jvalue opts (depth + 1) v \<Longrightarrow>
    jmembers opts depth (insert key seen) m \<Longrightarrow>
    jmembers opts depth seen (quote # body @ [quote] @ w1 @ '':'' @ w2 @ v @ w3 @ '','' @ w4 @ m)"
| j_element: "jvalue opts (depth + 1) v \<Longrightarrow> white w \<Longrightarrow> jelements opts depth (v @ w)"
| j_elements: "jvalue opts (depth + 1) v \<Longrightarrow> white w1 \<Longrightarrow> white w2 \<Longrightarrow> jelements opts depth m \<Longrightarrow>
    jelements opts depth (v @ w1 @ '','' @ w2 @ m)"

text \<open>A whole text: one value between white space, in valid UTF-8 where that is required.\<close>

definition jtext :: "options \<Rightarrow> string \<Rightarrow> bool" where
  "jtext opts data \<longleftrightarrow> \<not> (require_valid_utf8 opts \<and> \<not> valid_utf8 data) \<and>
     (\<exists>w1 v w2. data = w1 @ v @ w2 \<and> white w1 \<and> white w2 \<and> jvalue opts 1 v)"

section \<open>Lemmas on white space and numbers\<close>

lemma skip_ws_split: "\<exists>w. s = w @ skip_ws s \<and> white w"
  by (metis list_all_iff set_takeWhileD skip_ws_def takeWhile_dropWhile_id white_def)

lemma skip_ws_white [simp]: "white w \<Longrightarrow> skip_ws (w @ s) = skip_ws s"
  by (induction w) (auto simp: white_def skip_ws_def)

lemma skip_ws_other [simp]: "\<not> is_ws c \<Longrightarrow> skip_ws (c # s) = c # s"
  by (simp add: skip_ws_def)

lemma skip_ws_idem [simp]: "skip_ws (skip_ws s) = skip_ws s"
  by (simp add: skip_ws_def dropWhile_idem)

lemma skip_ws_Nil [simp]: "skip_ws [] = []"
  by (simp add: skip_ws_def)

lemma skip_ws_length: "length (skip_ws s) \<le> length s"
  by (simp add: skip_ws_def length_dropWhile_le)

lemma drop_digits_split: "\<exists>ds. s = ds @ dropWhile is_digit s \<and> list_all is_digit ds"
  by (metis list_all_iff set_takeWhileD takeWhile_dropWhile_id)

lemma drop_digits: "list_all is_digit ds \<Longrightarrow> (s = [] \<or> \<not> is_digit (hd s)) \<Longrightarrow> dropWhile is_digit (ds @ s) = s"
  by (induction ds) (cases s; auto)+

lemma scan_int_sound:
  assumes "scan_int s = Inr rest"
  obtains ip where "s = ip @ rest" "ip = ''0'' \<or> (\<exists>d ds. ip = d # ds \<and> is_digit d \<and> d \<noteq> CHR ''0'' \<and> list_all is_digit ds)"
proof -
  obtain c cs where s: "s = c # cs" using assms by (cases s) (auto simp: scan_int_def)
  show ?thesis
  proof (cases "c = CHR ''0''")
    case True
    then show ?thesis using assms s by (intro that [of "''0''"]) (simp_all add: scan_int_def)
  next
    case False
    then have d: "is_digit c" "rest = dropWhile is_digit cs" using assms s by (auto simp: scan_int_def split: if_splits)
    obtain ds where "cs = ds @ dropWhile is_digit cs" "list_all is_digit ds" using drop_digits_split by blast
    then show ?thesis using False d s by (intro that [of "c # ds"]) auto
  qed
qed

lemma scan_frac_sound:
  assumes "scan_frac s = Inr rest"
  obtains fr where "s = fr @ rest" "fr = [] \<or> (\<exists>ds. fr = CHR ''.'' # ds \<and> ds \<noteq> [] \<and> list_all is_digit ds)"
proof (cases "\<exists>cs. s = CHR ''.'' # cs")
  case True
  then obtain d ds where s: "s = CHR ''.'' # d # ds" and d: "is_digit d" "rest = dropWhile is_digit (d # ds)"
    using assms by (auto simp: scan_frac_def split: list.splits if_splits)
  obtain es where es: "ds = es @ dropWhile is_digit ds" "list_all is_digit es" using drop_digits_split by blast
  show ?thesis using s d es by (intro that [of "CHR ''.'' # d # es"]) auto
next
  case False
  then have "s = rest" using assms by (auto simp: scan_frac_def split: list.splits if_splits)
  then show ?thesis by (intro that [of "[]"]) simp_all
qed

lemma drop_sign_split: "\<exists>sg. s = sg @ drop_sign s \<and> sg \<in> {[], ''+'', ''-''}"
proof (cases s)
  case (Cons d ds)
  then show ?thesis
    by (cases "d = CHR ''+'' \<or> d = CHR ''-''") (auto simp: drop_sign_def)
qed (simp add: drop_sign_def)

lemma scan_exp_sound:
  assumes "scan_exp s = Inr rest"
  obtains ex where "s = ex @ rest" "ex = [] \<or> (\<exists>e sg ds. ex = e # sg @ ds \<and> e \<in> {CHR ''e'', CHR ''E''} \<and>
    sg \<in> {[], ''+'', ''-''} \<and> ds \<noteq> [] \<and> list_all is_digit ds)"
proof (cases "\<exists>c cs. s = c # cs \<and> c \<in> {CHR ''e'', CHR ''E''}")
  case True
  then obtain c cs where s: "s = c # cs" "c \<in> {CHR ''e'', CHR ''E''}" by blast
  obtain sg where cs: "cs = sg @ drop_sign cs" "sg \<in> {[], ''+'', ''-''}" using drop_sign_split by blast
  obtain d ds' where d: "drop_sign cs = d # ds'" "is_digit d" "rest = dropWhile is_digit (d # ds')"
    using assms s by (cases "drop_sign cs") (auto simp: scan_exp_def split: if_splits)
  obtain es where es: "ds' = es @ dropWhile is_digit ds'" "list_all is_digit es" using drop_digits_split by blast
  have "s = (c # sg @ d # es) @ rest" using s cs(1) d es(1) by simp
  moreover have "c # sg @ d # es = c # sg @ (d # es) \<and> c \<in> {CHR ''e'', CHR ''E''} \<and> sg \<in> {[], ''+'', ''-''} \<and>
      d # es \<noteq> [] \<and> list_all is_digit (d # es)" using s(2) cs(2) d(2) es(2) by simp
  ultimately show ?thesis using that by blast
next
  case False
  then have "s = rest" using assms by (auto simp: scan_exp_def split: list.splits if_splits)
  then show ?thesis by (intro that [of "[]"]) simp_all
qed

text \<open>What may follow a number: nothing that continues it.\<close>

definition number_end :: "string \<Rightarrow> bool" where
  "number_end s \<longleftrightarrow> (case s of [] \<Rightarrow> True | c # _ \<Rightarrow> \<not> is_digit c \<and> c \<notin> {CHR ''.'', CHR ''e'', CHR ''E''})"

lemma drop_minus_split: "\<exists>sg. s = sg @ drop_minus s \<and> (sg = [] \<or> sg = ''-'')"
proof (cases s)
  case (Cons c cs)
  then show ?thesis by (cases "c = CHR ''-''") (auto simp: drop_minus_def)
qed (simp add: drop_minus_def)

lemma scan_number_sound:
  assumes "scan_number s = Inr rest"
  obtains v where "s = v @ rest" "json_number v"
proof -
  let ?s = "drop_minus s"
  obtain sg where sg: "s = sg @ ?s" "sg = [] \<or> sg = ''-''" using drop_minus_split by blast
  obtain s1 where s1: "scan_int ?s = Inr s1" using assms by (cases "scan_int ?s") (simp_all add: scan_number_def)
  obtain s2 where s2: "scan_frac s1 = Inr s2" "scan_exp s2 = Inr rest"
    using assms by (cases "scan_frac s1") (simp_all add: scan_number_def s1)
  obtain ip where ip: "?s = ip @ s1" "ip = ''0'' \<or> (\<exists>d ds. ip = d # ds \<and> is_digit d \<and> d \<noteq> CHR ''0'' \<and> list_all is_digit ds)"
    using scan_int_sound [OF s1] .
  obtain fr where fr: "s1 = fr @ s2" "fr = [] \<or> (\<exists>ds. fr = CHR ''.'' # ds \<and> ds \<noteq> [] \<and> list_all is_digit ds)"
    using scan_frac_sound [OF s2(1)] .
  obtain ex where ex: "s2 = ex @ rest" "ex = [] \<or> (\<exists>e sg ds. ex = e # sg @ ds \<and> e \<in> {CHR ''e'', CHR ''E''} \<and>
    sg \<in> {[], ''+'', ''-''} \<and> ds \<noteq> [] \<and> list_all is_digit ds)"
    using scan_exp_sound [OF s2(2)] .
  have "s = (sg @ ip @ fr @ ex) @ rest" using sg(1) ip(1) fr(1) ex(1) by simp
  moreover have "json_number (sg @ ip @ fr @ ex)"
    unfolding json_number_def using sg(2) ip(2) fr(2) ex(2) by blast
  ultimately show ?thesis using that by blast
qed

lemma digit_bounds: "is_digit d \<Longrightarrow> d \<noteq> CHR ''.'' \<and> d \<noteq> CHR ''e'' \<and> d \<noteq> CHR ''E'' \<and> d \<noteq> CHR ''+'' \<and> d \<noteq> CHR ''-''"
  by (auto simp: is_digit_def)

lemma scan_int_complete:
  assumes "ip = ''0'' \<or> (\<exists>d ds. ip = d # ds \<and> is_digit d \<and> d \<noteq> CHR ''0'' \<and> list_all is_digit ds)"
    and "s = [] \<or> \<not> is_digit (hd s)"
  shows "scan_int (ip @ s) = Inr s" "\<exists>d ds. ip = d # ds \<and> d \<noteq> CHR ''-''"
proof -
  have "scan_int (ip @ s) = Inr s \<and> (\<exists>d ds. ip = d # ds \<and> d \<noteq> CHR ''-'')"
  proof (cases "ip = ''0''")
    case False
    then obtain d ds where ip: "ip = d # ds" "is_digit d" "d \<noteq> CHR ''0''" "list_all is_digit ds" using assms(1) by blast
    then show ?thesis using drop_digits [OF ip(4) assms(2)] digit_bounds [OF ip(2)] by (simp add: scan_int_def)
  qed (simp add: scan_int_def)
  then show "scan_int (ip @ s) = Inr s" "\<exists>d ds. ip = d # ds \<and> d \<noteq> CHR ''-''" by blast+
qed

lemma scan_frac_complete:
  assumes "fr = [] \<or> (\<exists>ds. fr = CHR ''.'' # ds \<and> ds \<noteq> [] \<and> list_all is_digit ds)"
    and "s = [] \<or> \<not> is_digit (hd s) \<and> hd s \<noteq> CHR ''.''"
  shows "scan_frac (fr @ s) = Inr s"
proof (cases "fr = []")
  case True
  then show ?thesis using assms(2) by (cases s) (auto simp: scan_frac_def)
next
  case False
  then obtain d ds where "fr = CHR ''.'' # d # ds" "is_digit d" "list_all is_digit (d # ds)"
    using assms(1) by (metis list.pred_inject(2) neq_Nil_conv)
  then show ?thesis using drop_digits [of "d # ds" s] assms(2) by (auto simp: scan_frac_def)
qed

lemma drop_sign_complete: "sg \<in> {[], ''+'', ''-''} \<Longrightarrow> is_digit d \<Longrightarrow> drop_sign (sg @ d # s) = d # s"
  using digit_bounds [of d] by (auto simp: drop_sign_def)

lemma scan_exp_complete:
  assumes "ex = [] \<or> (\<exists>e sg ds. ex = e # sg @ ds \<and> e \<in> {CHR ''e'', CHR ''E''} \<and> sg \<in> {[], ''+'', ''-''} \<and>
      ds \<noteq> [] \<and> list_all is_digit ds)"
    and "number_end s"
  shows "scan_exp (ex @ s) = Inr s"
proof (cases "ex = []")
  case True
  then show ?thesis using assms(2) by (cases s) (auto simp: scan_exp_def number_end_def)
next
  case False
  then obtain e sg d ds where x: "ex = e # sg @ d # ds" "e \<in> {CHR ''e'', CHR ''E''}" "sg \<in> {[], ''+'', ''-''}"
    "is_digit d" "list_all is_digit (d # ds)"
    using assms(1) by (metis list.pred_inject(2) neq_Nil_conv)
  have "dropWhile is_digit ((d # ds) @ s) = s"
    by (rule drop_digits [OF x(5)]) (use assms(2) in \<open>cases s; simp add: number_end_def\<close>)
  then show ?thesis using x(2,4) drop_sign_complete [OF x(3,4), of "ds @ s"] by (auto simp: scan_exp_def x(1))
qed

lemma scan_number_complete:
  assumes "json_number v" "number_end s"
  shows "scan_number (v @ s) = Inr s" "\<exists>c cs. v = c # cs \<and> (c = CHR ''-'' \<or> is_digit c)"
proof -
  obtain sg ip fr ex where v: "v = sg @ ip @ fr @ ex" and sg: "sg = [] \<or> sg = ''-''"
    and ip: "ip = ''0'' \<or> (\<exists>d ds. ip = d # ds \<and> is_digit d \<and> d \<noteq> CHR ''0'' \<and> list_all is_digit ds)"
    and fr: "fr = [] \<or> (\<exists>ds. fr = CHR ''.'' # ds \<and> ds \<noteq> [] \<and> list_all is_digit ds)"
    and ex: "ex = [] \<or> (\<exists>e sg ds. ex = e # sg @ ds \<and> e \<in> {CHR ''e'', CHR ''E''} \<and> sg \<in> {[], ''+'', ''-''} \<and>
      ds \<noteq> [] \<and> list_all is_digit ds)"
    using assms(1) unfolding json_number_def by blast
  have e2: "ex @ s = [] \<or> \<not> is_digit (hd (ex @ s)) \<and> hd (ex @ s) \<noteq> CHR ''.''"
  proof (cases "ex = []")
    case True
    then show ?thesis using assms(2) by (cases s) (simp_all add: number_end_def)
  next
    case False
    then obtain e r where "ex = e # r" "e \<in> {CHR ''e'', CHR ''E''}" using ex by blast
    then show ?thesis using digit_bounds [of e] by auto
  qed
  then have e1: "fr @ ex @ s = [] \<or> \<not> is_digit (hd (fr @ ex @ s))"
    using fr digit_bounds [of "CHR ''.''"] by auto
  have i: "scan_int (ip @ fr @ ex @ s) = Inr (fr @ ex @ s)" "\<exists>d ds. ip = d # ds \<and> d \<noteq> CHR ''-''"
    using scan_int_complete [OF ip e1] by simp_all
  have "drop_minus (v @ s) = ip @ fr @ ex @ s"
    using sg i(2) by (auto simp: v drop_minus_def)
  then show "scan_number (v @ s) = Inr s"
    using i(1) scan_frac_complete [OF fr e2] scan_exp_complete [OF ex assms(2)] by (simp add: scan_number_def)
  show "\<exists>c cs. v = c # cs \<and> (c = CHR ''-'' \<or> is_digit c)" using sg ip by (auto simp: v is_digit_def)
qed

section \<open>Lemmas on strings\<close>

lemma hex_quad_append [simp]: "length h = 4 \<Longrightarrow> hex_quad (h @ s) = hex_quad h"
  by (simp add: hex_quad_def)

lemma hex_quad_take: "hex_quad s = Some u \<Longrightarrow> length (take 4 s) = 4 \<and> hex_quad (take 4 s) = Some u \<and> s = take 4 s @ drop 4 s"
  by (simp add: hex_quad_def split: if_splits)

lemma escape_chars: "e \<in> set simple_escapes \<Longrightarrow> e \<noteq> CHR ''u''"
  by (auto simp: simple_escapes_def quote_def backslash_def)

lemma quote_facts [simp]: "quote \<noteq> backslash" "backslash \<noteq> quote" "0x20 \<le> byte backslash" "0x20 \<le> byte quote"
    "\<not> byte backslash < 0x20" "\<not> byte quote < 0x20"
  by (simp_all add: quote_def backslash_def)

lemma low_iff: "l < 0xDC00 \<or> 0xDFFF < l \<longleftrightarrow> \<not> is_low l"
  by (auto simp: is_low_def not_le)

text \<open>A surrogate pair at the front.\<close>

lemma pair_split:
  assumes "hex_quad es = Some u" "getu4 (drop 4 es) = Some l"
  obtains h lo where "length h = 4" "hex_quad h = Some u" "length lo = 4" "hex_quad lo = Some l"
    "take 10 es = h @ backslash # CHR ''u'' # lo" "es = h @ backslash # CHR ''u'' # lo @ drop 10 es"
proof -
  note h = hex_quad_take [OF assms(1)]
  obtain a b r where r: "drop 4 es = a # b # r"
    using assms(2) by (cases "drop 4 es"; cases "tl (drop 4 es)") (auto simp: getu4_def split: if_splits)
  then have ab: "a = backslash" "b = CHR ''u''" and q: "hex_quad r = Some l"
    using assms(2) by (auto simp: getu4_def split: if_splits)
  note lo = hex_quad_take [OF q]
  have es: "es = take 4 es @ backslash # CHR ''u'' # r" using h r ab by metis
  have r': "r = take 4 r @ drop 4 r" by simp
  have "drop 10 es = drop 6 (drop 4 es)" by simp
  then have d: "drop 4 r = drop 10 es" using r by (simp add: drop_Cons')
  have e1: "es = take 4 es @ backslash # CHR ''u'' # take 4 r @ drop 10 es" using es r' d by metis
  have e2: "take 10 es = take 4 es @ backslash # CHR ''u'' # take 4 r"
    using h by (subst es) (simp add: take_Cons')
  show ?thesis by (rule that [OF _ _ _ _ e2 e1]) (use h lo in blast)+
qed

lemma escaped_sound:
  "escaped_string f raw s = Inr (content, rest) \<Longrightarrow>
   \<exists>b. s = b @ quote # rest \<and> string_body f b \<and> content = rev raw @ b"
proof (induction f raw s rule: escaped_string.induct)
  case (2 f raw c cs)
  note IH = "2.IH"
  show ?case
  proof (cases "c = quote")
    case True
    then show ?thesis using "2.prems" body_Nil by (auto simp: escaped_string.simps(2))
  next
    case q: False
    then have ctl: "\<not> byte c < 0x20" using "2.prems" by (auto simp: escaped_string.simps(2))
    show ?thesis
    proof (cases "c = backslash")
      case False
      then have "escaped_string f (c # raw) cs = Inr (content, rest)"
        using "2.prems" q ctl by (simp add: escaped_string.simps(2))
      from IH(1) [OF q ctl False this] obtain b where b: "cs = b @ quote # rest" "string_body f b" "content = rev (c # raw) @ b"
        by blast
      then show ?thesis using body_char [OF _ q False b(2)] ctl by (intro exI [of _ "c # b"]) (simp add: not_less)
    next
      case True
      then obtain e es where cs: "cs = e # es" using "2.prems" q ctl by (cases cs) (simp_all add: escaped_string.simps(2))
      note step = "2.prems" [unfolded escaped_string.simps(2) if_not_P [OF q] if_not_P [OF ctl] cs list.case]
      show ?thesis
      proof (cases "e \<in> set simple_escapes")
        case se: True
        then have "escaped_string f (e # c # raw) es = Inr (content, rest)" using step True by simp
        from IH(2) [OF q ctl _ cs se this] True obtain b where
          b: "es = b @ quote # rest" "string_body f b" "content = rev (e # c # raw) @ b" by auto
        then show ?thesis using body_escape [OF se b(2)] True cs by (intro exI [of _ "c # e # b"]) simp
      next
        case se: False
        then have u: "e = CHR ''u''" using step True by (simp split: if_splits)
        then obtain v where v: "hex_quad es = Some v" using step True se by (cases "hex_quad es") simp_all
        show ?thesis
        proof (cases "f \<and> is_high v")
          case hi: True
          obtain l where l: "getu4 (drop 4 es) = Some l"
            using step True se u v hi by (cases "getu4 (drop 4 es)") simp_all
          have lo: "\<not> (l < 0xDC00 \<or> 0xDFFF < l)" using step True se u v hi l by auto
          have r: "escaped_string f (rev (take 10 es) @ e # c # raw) (drop 10 es) = Inr (content, rest)"
            using step True se u v hi l lo by simp
          from IH(3) [OF q ctl _ cs se u v hi l lo r] True obtain b where
            b: "drop 10 es = b @ quote # rest" "string_body f b" "content = rev (rev (take 10 es) @ e # c # raw) @ b"
            by auto
          obtain h k where hk: "length h = 4" "hex_quad h = Some v" "length k = 4" "hex_quad k = Some l"
            "take 10 es = h @ backslash # CHR ''u'' # k" "es = h @ backslash # CHR ''u'' # k @ drop 10 es"
            by (rule pair_split [OF v l])
          have "string_body f (backslash # CHR ''u'' # h @ backslash # CHR ''u'' # k @ b)"
            using body_pair [of f h v k l b] hi hk(1-4) lo b(2) by (simp add: low_iff)
          moreover have "c # cs = (backslash # CHR ''u'' # h @ backslash # CHR ''u'' # k @ b) @ quote # rest"
            using hk(6) b(1) True cs u by simp
          ultimately show ?thesis using b(3) hk(5) True u by (intro exI conjI) (assumption, assumption, simp)
        next
          case hi: False
          then have nl: "\<not> (f \<and> is_low v)" using step True se u v by auto
          have r: "escaped_string f (rev (take 4 es) @ e # c # raw) (drop 4 es) = Inr (content, rest)"
            using step True se unfolding if_P [OF u] v option.case if_not_P [OF hi] if_not_P [OF nl] by simp
          from IH(4) [OF q ctl _ cs se u v hi nl r] True obtain b where
            b: "drop 4 es = b @ quote # rest" "string_body f b" "content = rev (rev (take 4 es) @ e # c # raw) @ b" by auto
          note h = hex_quad_take [OF v]
          have "string_body f (backslash # CHR ''u'' # take 4 es @ b)"
            using body_unicode [of "take 4 es" v f b] h hi nl b(2) by blast
          moreover have "c # cs = (backslash # CHR ''u'' # take 4 es @ b) @ quote # rest"
            using h b(1) True cs u by (metis append_Cons append_assoc)
          ultimately show ?thesis using b(3) True u by (intro exI conjI) (assumption, assumption, simp)
        qed
      qed
    qed
  qed
qed simp

lemma getu4_pair [simp]:
  "length l = 4 \<Longrightarrow> getu4 (backslash # CHR ''u'' # l @ s) = hex_quad l"
  by (simp add: getu4_def)

lemma escaped_complete:
  "string_body f b \<Longrightarrow> escaped_string f raw (b @ quote # rest) = Inr (rev raw @ b, rest)"
proof (induction b arbitrary: raw rule: string_body.induct)
  case (body_unicode h u s)
  have n: "CHR ''u'' \<notin> set simple_escapes" using escape_chars by blast
  have l: "\<not> (f \<and> is_high u)" "\<not> (f \<and> is_low u)" using body_unicode.hyps(3) by auto
  have "escaped_string f raw ((backslash # CHR ''u'' # h @ s) @ quote # rest)
      = escaped_string f (rev h @ CHR ''u'' # backslash # raw) (s @ quote # rest)"
    using n body_unicode.hyps(1,2) unfolding append_Cons append_assoc escaped_string.simps(2)
    by (simp add: l not_less)
  also have "\<dots> = Inr (rev (rev h @ CHR ''u'' # backslash # raw) @ s, rest)" by (rule body_unicode.IH)
  finally show ?case by simp
next
  case (body_pair h u l w s)
  have n: "CHR ''u'' \<notin> set simple_escapes" using escape_chars by blast
  have lo: "\<not> (w < 0xDC00 \<or> 0xDFFF < w)" using body_pair.hyps(7) by (simp add: low_iff)
  have "escaped_string f raw ((backslash # CHR ''u'' # h @ backslash # CHR ''u'' # l @ s) @ quote # rest)
      = escaped_string f (rev (h @ backslash # CHR ''u'' # l) @ CHR ''u'' # backslash # raw) (s @ quote # rest)"
    using n lo body_pair.hyps(1-6) unfolding append_Cons append_assoc escaped_string.simps(2)
    by (auto simp: not_less)
  also have "\<dots> = Inr (rev (rev (h @ backslash # CHR ''u'' # l) @ CHR ''u'' # backslash # raw) @ s, rest)"
    by (rule body_pair.IH)
  finally show ?case by simp
next
  case (body_escape e s)
  show ?case using body_escape.hyps body_escape.IH [of "e # backslash # raw"]
    by (simp add: escaped_string.simps(2))
qed (simp_all add: escaped_string.simps(2) not_less)

lemma escaped_no_fuel: "escaped_string f raw s \<noteq> Inl OutOfFuel"
proof (induction f raw s rule: escaped_string.induct)
  case (2 f raw c cs)
  then show ?case
    by (auto simp: escaped_string.simps(2) split: list.split option.split)
qed simp

lemma plain_string_done:
  "plain_string raw s = PlainDone key rest \<Longrightarrow>
   \<exists>b. s = b @ quote # rest \<and> key = rev raw @ b \<and> string_body f b \<and> backslash \<notin> set b"
proof (induction raw s rule: plain_string.induct)
  case (2 raw c cs)
  show ?case
  proof (cases "c = quote")
    case True
    then show ?thesis using "2.prems" body_Nil by simp
  next
    case False
    then have c: "c \<noteq> backslash" "\<not> byte c < 0x20" using "2.prems" by (auto split: if_splits)
    with 2 False obtain b where "cs = b @ quote # rest" "key = rev (c # raw) @ b" "string_body f b" "backslash \<notin> set b"
      by auto
    then show ?thesis using c False body_char [of c f b] by (intro exI [of _ "c # b"]) (auto simp: not_less)
  qed
qed simp

lemma plain_string_stop:
  "plain_string raw s = PlainStop raw' r \<Longrightarrow> escaped_string f raw' r = escaped_string f raw s"
  by (induction raw s rule: plain_string.induct) (auto simp: escaped_string.simps(2) split: if_splits)

lemma plain_string_control:
  "plain_string raw s = PlainControl \<Longrightarrow> escaped_string f raw s = Inl ControlChar"
  by (induction raw s rule: plain_string.induct) (auto simp: escaped_string.simps(2) split: if_splits)

lemma plain_string_stopped:
  "plain_string raw s = PlainStop raw' r \<Longrightarrow> \<exists>u. s = u @ r \<and> raw' = rev u @ raw \<and> (r = [] \<or> hd r = backslash)"
proof (induction raw s rule: plain_string.induct)
  case (2 raw c cs)
  show ?case
  proof (cases "c = quote \<or> c = backslash \<or> byte c < 0x20")
    case True
    then show ?thesis using "2.prems" by (auto split: if_splits)
  next
    case False
    with 2 obtain u where "cs = u @ r" "raw' = rev u @ c # raw" "r = [] \<or> hd r = backslash" by auto
    then show ?thesis by (intro exI [of _ "c # u"]) simp
  qed
qed simp

lemma plain_stop_escape:
  assumes "plain_string [] s = PlainStop raw r" "escaped_string f [] s = Inr (b, rest)"
  shows "escaped_string f raw r = Inr (b, rest)" "backslash \<in> set b"
proof -
  show e: "escaped_string f raw r = Inr (b, rest)"
    using plain_string_stop [OF assms(1)] assms(2) by simp
  obtain u where u: "raw = rev u" "r = [] \<or> hd r = backslash" using plain_string_stopped [OF assms(1)] by auto
  obtain b' where b': "r = b' @ quote # rest" "b = rev raw @ b'" using escaped_sound [OF e] by blast
  then have "b' \<noteq> []" "hd b' = backslash" using u(2) by (cases b'; auto)+
  then have "backslash \<in> set b'" by (metis hd_in_set)
  then show "backslash \<in> set b" using b'(2) by simp
qed

lemma scan_string_sound:
  assumes "scan_string f need s = Inr (k, rest)"
  obtains b where "s = b @ quote # rest" "string_body f b" "need \<Longrightarrow> key_of b = Some k"
proof (cases "plain_string [] s")
  case (PlainDone key r)
  obtain b where "s = b @ quote # r" "key = b" "string_body f b" "backslash \<notin> set b"
    using plain_string_done [OF PlainDone] by auto
  then show ?thesis using that [of b] assms PlainDone by (simp add: scan_string_def key_of_def)
next
  case (PlainStop raw r)
  obtain b where b: "escaped_string f raw r = Inr (b, rest)"
    using assms PlainStop by (auto simp: scan_string_def split: sum.splits if_splits option.splits)
  have e: "escaped_string f [] s = Inr (b, rest)" using plain_string_stop [OF PlainStop] b by simp
  obtain b2 where b2: "s = b2 @ quote # rest" "string_body f b2" "b = b2" using escaped_sound [OF e] by auto
  have "need \<Longrightarrow> key_of b = Some k"
    using assms PlainStop b plain_stop_escape(2) [OF PlainStop e]
    by (auto simp: scan_string_def key_of_def split: option.splits)
  then show ?thesis using that b2 by blast
qed (use assms in \<open>simp add: scan_string_def\<close>)

lemma scan_string_complete:
  assumes "string_body f b"
  shows "\<exists>k. scan_string f False (b @ quote # rest) = Inr (k, rest)"
    and "scan_string f True (b @ quote # rest) = (case key_of b of None \<Rightarrow> Inl UnmarshalError | Some k \<Rightarrow> Inr (k, rest))"
proof -
  let ?s = "b @ quote # rest"
  have e: "escaped_string f [] ?s = Inr (b, rest)" using escaped_complete [OF assms, of "[]"] by simp
  have "(\<exists>k. scan_string f False ?s = Inr (k, rest)) \<and>
    scan_string f True ?s = (case key_of b of None \<Rightarrow> Inl UnmarshalError | Some k \<Rightarrow> Inr (k, rest))"
  proof (cases "plain_string [] ?s")
    case (PlainDone key r)
    obtain b2 where b2: "?s = b2 @ quote # r" "key = b2" "string_body f b2" "backslash \<notin> set b2"
      using plain_string_done [OF PlainDone] by auto
    have "escaped_string f [] ?s = Inr (b2, r)" unfolding b2(1) using escaped_complete [OF b2(3), of "[]" r] by simp
    then have "b2 = b" "r = rest" using e by simp_all
    then show ?thesis using PlainDone b2(2,4) by (simp add: scan_string_def key_of_def)
  next
    case (PlainStop raw r)
    show ?thesis using plain_stop_escape [OF PlainStop e] PlainStop
      by (simp add: scan_string_def key_of_def)
  next
    case PlainControl
    then show ?thesis using plain_string_control [OF PlainControl, of f] e by simp
  qed
  then show "\<exists>k. scan_string f False ?s = Inr (k, rest)"
    and "scan_string f True ?s = (case key_of b of None \<Rightarrow> Inl UnmarshalError | Some k \<Rightarrow> Inr (k, rest))"
    by blast+
qed

lemma scan_string_no_fuel: "scan_string f need s \<noteq> Inl OutOfFuel"
  using escaped_no_fuel by (auto simp: scan_string_def split: plain.split sum.split option.split)

lemma scan_int_no_fuel: "scan_int s \<noteq> Inl OutOfFuel"
  by (cases s) (simp_all add: scan_int_def)

lemma scan_frac_no_fuel: "scan_frac s \<noteq> Inl OutOfFuel"
  by (cases s; cases "tl s") (simp_all add: scan_frac_def)

lemma scan_exp_no_fuel: "scan_exp s \<noteq> Inl OutOfFuel"
proof (cases s)
  case (Cons c cs)
  then show ?thesis by (cases "drop_sign cs") (simp_all add: scan_exp_def)
qed (simp add: scan_exp_def)

lemma scan_number_no_fuel: "scan_number s \<noteq> Inl OutOfFuel"
proof (cases "scan_int (drop_minus s)")
  case (Inl e)
  then show ?thesis using scan_int_no_fuel [of "drop_minus s"] by (simp add: scan_number_def)
next
  case (Inr r)
  then show ?thesis using scan_frac_no_fuel [of r] scan_exp_no_fuel
    by (cases "scan_frac r") (simp_all add: scan_number_def)
qed

lemma scan_string_length: "scan_string f need s = Inr (k, rest) \<Longrightarrow> length rest < length s"
  by (erule scan_string_sound) simp

lemma scan_number_length: "scan_number s = Inr rest \<Longrightarrow> length rest \<le> length s"
  by (erule scan_number_sound) simp

lemma json_number_nonempty: "json_number v \<Longrightarrow> v \<noteq> []"
  using scan_number_complete(2) [of v "[]"] by (auto simp: number_end_def)

section \<open>Soundness: what is accepted is in the grammar\<close>

text \<open>The keys of the open object, wherever they are kept.\<close>

definition frame_seen :: "nat \<Rightarrow> string set option \<Rightarrow> string list \<Rightarrow> string set" where
  "frame_seen frame_start large keys = (case large of None \<Rightarrow> set (drop frame_start keys) | Some seen \<Rightarrow> seen)"

lemma frame_seen_start [simp]: "frame_seen (length keys) None keys = {}"
  by (simp add: frame_seen_def)

lemma note_key_seen:
  "note_key fs key keys large =
     (if key \<in> frame_seen fs large keys then Inl (DuplicateKey key) else note_key fs key keys large)"
  by (auto simp: note_key_def frame_seen_def split: option.splits)

lemma note_key_new:
  assumes "fs \<le> length keys" "key \<notin> frame_seen fs large keys"
  obtains keys' large' where "note_key fs key keys large = Inr (keys', large')"
    "frame_seen fs large' keys' = insert key (frame_seen fs large keys)"
    "fs \<le> length keys'" "take fs keys' = take fs keys"
proof (cases large)
  case None
  show ?thesis
  proof (cases "length keys - fs \<ge> inlineKeyDupLimit")
    case True
    then show ?thesis using assms None that [of keys "Some (insert key (set (drop fs keys)))"]
      by (simp add: note_key_def frame_seen_def)
  next
    case False
    then show ?thesis using assms None that [of "keys @ [key]" None]
      by (simp add: note_key_def frame_seen_def)
  qed
next
  case (Some seen)
  then show ?thesis using assms that [of keys "Some (insert key seen)"]
    by (simp add: note_key_def frame_seen_def)
qed

lemma note_key_sound:
  assumes "fs \<le> length keys" "note_key fs key keys large = Inr (keys', large')"
  shows "key \<notin> frame_seen fs large keys" "frame_seen fs large' keys' = insert key (frame_seen fs large keys)"
    "fs \<le> length keys'" "take fs keys' = take fs keys"
proof -
  show n: "key \<notin> frame_seen fs large keys" using assms(2) note_key_seen [of fs key keys large] by auto
  obtain k2 l2 where r: "note_key fs key keys large = Inr (k2, l2)"
    "frame_seen fs l2 k2 = insert key (frame_seen fs large keys)" "fs \<le> length k2" "take fs k2 = take fs keys"
    by (rule note_key_new [OF assms(1) n])
  have "k2 = keys'" "l2 = large'" using r(1) assms(2) by simp_all
  then show "frame_seen fs large' keys' = insert key (frame_seen fs large keys)"
    "fs \<le> length keys'" "take fs keys' = take fs keys" using r(2-4) by simp_all
qed

lemma note_key_no_fuel: "note_key fs key keys large \<noteq> Inl OutOfFuel"
  by (auto simp: note_key_def split: option.split)

text \<open>A successful turn of each loop, taken apart.\<close>

lemma object_turn:
  assumes "object_loop (Suc n) opts depth fs large s = Inr s'"
  obtains cs key rest keys large' ds s1 t ts where
    "sc_rest s = quote # cs" "scan_string (forbid_lone_surrogates opts) True cs = Inr (key, rest)"
    "reject_key opts key = None" "note_key fs key (sc_keys s) large = Inr (keys, large')"
    "skip_ws rest = CHR '':'' # ds"
    "scan_value n opts (depth + 1) (s\<lparr>sc_rest := skip_ws ds, sc_keys := keys\<rparr>) = Inr s1"
    "skip_ws (sc_rest s1) = t # ts"
    "t = CHR '','' \<and> object_loop n opts depth fs large' (s1\<lparr>sc_rest := skip_ws ts\<rparr>) = Inr s' \<or>
     t = CHR ''}'' \<and> s' = s1\<lparr>sc_rest := ts, sc_keys := take fs (sc_keys s1)\<rparr>"
proof -
  note st = assms [unfolded object_loop.simps(2)]
  obtain c cs where c: "sc_rest s = c # cs" "c = quote"
    using st by (cases "sc_rest s") (simp_all split: if_splits)
  note st = st [unfolded c list.case, simplified]
  obtain key rest where k: "scan_string (forbid_lone_surrogates opts) True cs = Inr (key, rest)"
    using st by (cases "scan_string (forbid_lone_surrogates opts) True cs") auto
  note st = st [unfolded k sum.case prod.case]
  have r: "reject_key opts key = None" using st by (cases "reject_key opts key") simp_all
  note st = st [unfolded r option.case]
  obtain keys large' where nk: "note_key fs key (sc_keys s) large = Inr (keys, large')"
    using st by (cases "note_key fs key (sc_keys s) large") auto
  note st = st [unfolded nk sum.case prod.case]
  obtain d ds where d: "skip_ws rest = d # ds" "d = CHR '':''"
    using st by (cases "skip_ws rest") (simp_all split: if_splits)
  note st = st [unfolded d list.case, simplified]
  obtain s1 where s1: "scan_value n opts (depth + 1) (s\<lparr>sc_rest := skip_ws ds, sc_keys := keys\<rparr>) = Inr s1"
    using st by (cases "scan_value n opts (depth + 1) (s\<lparr>sc_rest := skip_ws ds, sc_keys := keys\<rparr>)") simp_all
  note st = st [unfolded s1 sum.case]
  obtain t ts where t: "skip_ws (sc_rest s1) = t # ts" using st by (cases "skip_ws (sc_rest s1)") simp_all
  show ?thesis using st that [OF _ k r nk _ s1 t] c d unfolding t list.case
    by (simp split: if_splits)
qed

lemma array_turn:
  assumes "array_loop (Suc n) opts depth s = Inr s'"
  obtains s1 t ts where "scan_value n opts (depth + 1) s = Inr s1" "skip_ws (sc_rest s1) = t # ts"
    "t = CHR '','' \<and> array_loop n opts depth (s1\<lparr>sc_rest := skip_ws ts\<rparr>) = Inr s' \<or>
     t = CHR '']'' \<and> s' = s1\<lparr>sc_rest := ts\<rparr>"
proof -
  note st = assms [unfolded array_loop.simps(2)]
  obtain s1 where s1: "scan_value n opts (depth + 1) s = Inr s1"
    using st by (cases "scan_value n opts (depth + 1) s") simp_all
  note st = st [unfolded s1 sum.case]
  obtain t ts where t: "skip_ws (sc_rest s1) = t # ts" using st by (cases "skip_ws (sc_rest s1)") simp_all
  show ?thesis using st that [OF s1 t] unfolding t list.case by (simp split: if_splits)
qed

lemma take_literal: "take n (c # cs) = l \<Longrightarrow> c # cs = l @ drop n (c # cs)"
  by (metis append_take_drop_id)

lemma open_braces: "skip_ws cs = d # ds \<Longrightarrow> \<exists>w. cs = w @ d # ds \<and> white w"
  using skip_ws_split [of cs] by auto

lemma value_turn:
  assumes "scan_value (Suc n) opts depth s = Inr s'"
  obtains
    (object) w d ds where "depth_ok opts depth" "white w" "sc_rest s = CHR ''{'' # w @ d # ds"
      "d = CHR ''}'' \<and> s' = s\<lparr>sc_rest := ds\<rparr> \<or>
       d \<noteq> CHR ''}'' \<and> object_loop n opts depth (length (sc_keys s)) None (s\<lparr>sc_rest := d # ds\<rparr>) = Inr s'"
  | (array) w d ds where "depth_ok opts depth" "white w" "sc_rest s = CHR ''['' # w @ d # ds"
      "d = CHR '']'' \<and> s' = s\<lparr>sc_rest := ds\<rparr> \<or>
       d \<noteq> CHR '']'' \<and> array_loop n opts depth (s\<lparr>sc_rest := d # ds\<rparr>) = Inr s'"
  | (scalar) v where "sc_rest s = v @ sc_rest s'" "jvalue opts depth v" "sc_keys s' = sc_keys s"
proof -
  note st = assms [unfolded scan_value.simps(2)]
  have dok: "depth_ok opts depth" using st by (auto simp: depth_ok_def split: if_splits)
  then have nd: "\<not> (0 < max_depth opts \<and> max_depth opts < depth)" by (simp add: depth_ok_def)
  note st = st [unfolded if_not_P [OF nd]]
  obtain c cs where c: "sc_rest s = c # cs" using st by (cases "sc_rest s") simp_all
  note st = st [unfolded c list.case]
  consider "c = CHR ''{''" | "c = CHR ''[''" | "c = quote" | "c = CHR ''t''" | "c = CHR ''f''" | "c = CHR ''n''"
    | (other) "c \<noteq> CHR ''{''" "c \<noteq> CHR ''[''" "c \<noteq> quote" "c \<noteq> CHR ''t''" "c \<noteq> CHR ''f''" "c \<noteq> CHR ''n''" by blast
  then show ?thesis
  proof cases
    case 1
    obtain d ds where d: "skip_ws cs = d # ds" using st 1 by (cases "skip_ws cs") simp_all
    obtain w where w: "cs = w @ d # ds" "white w" using open_braces [OF d] by blast
    show ?thesis using object [OF dok w(2), of d ds] st c 1 w(1) unfolding d list.case by (simp split: if_splits)
  next
    case 2
    obtain d ds where d: "skip_ws cs = d # ds" using st 2 by (cases "skip_ws cs") simp_all
    obtain w where w: "cs = w @ d # ds" "white w" using open_braces [OF d] by blast
    show ?thesis using array [OF dok w(2), of d ds] st c 2 w(1) unfolding d list.case by (simp split: if_splits)
  next
    case 3
    have q: "quote \<noteq> CHR ''{''" "quote \<noteq> CHR ''[''" by (simp_all add: quote_def)
    obtain k rest where k: "scan_string (forbid_lone_surrogates opts) False cs = Inr (k, rest)"
      using st 3 q by (cases "scan_string (forbid_lone_surrogates opts) False cs") auto
    obtain b where "cs = b @ quote # rest" "string_body (forbid_lone_surrogates opts) b"
      using scan_string_sound [OF k] by blast
    moreover have "s' = s\<lparr>sc_rest := rest\<rparr>" using st k 3 q by simp
    ultimately show ?thesis using c 3 by (intro scalar [OF _ j_string [OF dok]]) simp_all
  next
    case 4
    have q: "CHR ''t'' \<noteq> quote" by (simp add: quote_def)
    then have t: "take 4 (c # cs) = ''true''" "s' = s\<lparr>sc_rest := drop 4 (c # cs)\<rparr>" using st 4 by (simp_all split: if_splits)
    show ?thesis using scalar [OF _ j_true [OF dok]] take_literal [OF t(1)] t(2) c by simp
  next
    case 5
    have q: "CHR ''f'' \<noteq> quote" by (simp add: quote_def)
    then have t: "take 5 (c # cs) = ''false''" "s' = s\<lparr>sc_rest := drop 5 (c # cs)\<rparr>" using st 5 by (simp_all split: if_splits)
    show ?thesis using scalar [OF _ j_false [OF dok]] take_literal [OF t(1)] t(2) c by simp
  next
    case 6
    have q: "CHR ''n'' \<noteq> quote" by (simp add: quote_def)
    then have t: "take 4 (c # cs) = ''null''" "\<not> forbid_null opts" "s' = s\<lparr>sc_rest := drop 4 (c # cs)\<rparr>"
      using st 6 by (simp_all split: if_splits)
    show ?thesis using scalar [OF _ j_null [OF dok t(2)]] take_literal [OF t(1)] t(3) c by simp
  next
    case other
    then obtain rest where r: "scan_number (c # cs) = Inr rest"
      using st by (cases "scan_number (c # cs)") (simp_all split: if_splits)
    obtain v where "c # cs = v @ rest" "json_number v" by (rule scan_number_sound [OF r])
    moreover have "s' = s\<lparr>sc_rest := rest\<rparr>" using st other r by (simp split: if_splits)
    ultimately show ?thesis using c by (intro scalar [OF _ j_number [OF dok]]) simp_all
  qed
qed

lemma scan_sound:
  "\<And>depth (s :: scanner) s'. scan_value n opts depth s = Inr s' \<Longrightarrow>
     (\<exists>v. sc_rest s = v @ sc_rest s' \<and> jvalue opts depth v) \<and> sc_keys s' = sc_keys s"
  "\<And>depth fs large (s :: scanner) s'. fs \<le> length (sc_keys s) \<Longrightarrow> object_loop n opts depth fs large s = Inr s' \<Longrightarrow>
     (\<exists>m. sc_rest s = m @ CHR ''}'' # sc_rest s' \<and> jmembers opts depth (frame_seen fs large (sc_keys s)) m) \<and>
     sc_keys s' = take fs (sc_keys s)"
  "\<And>depth (s :: scanner) s'. array_loop n opts depth s = Inr s' \<Longrightarrow>
     (\<exists>m. sc_rest s = m @ CHR '']'' # sc_rest s' \<and> jelements opts depth m) \<and> sc_keys s' = sc_keys s"
proof (induction n)
  case (Suc n)
  { case 1
    then show ?case
    proof (cases rule: value_turn)
      case (object w d ds)
      show ?thesis
      proof (cases "d = CHR ''}''")
        case True
        then show ?thesis using object j_object_empty [OF object(1,2)]
          by (intro conjI exI [of _ "''{'' @ w @ ''}''"]) simp_all
      next
        case False
        then have "object_loop n opts depth (length (sc_keys s)) None (s\<lparr>sc_rest := d # ds\<rparr>) = Inr s'"
          using object(4) by simp
        from Suc.IH(2) [OF _ this] obtain m where
          "d # ds = m @ CHR ''}'' # sc_rest s'" "jmembers opts depth {} m" "sc_keys s' = sc_keys s" by auto
        then show ?thesis using object j_object [OF object(1,2)]
          by (intro conjI exI [of _ "''{'' @ w @ m @ ''}''"]) simp_all
      qed
    next
      case (array w d ds)
      show ?thesis
      proof (cases "d = CHR '']''")
        case True
        then show ?thesis using array j_array_empty [OF array(1,2)]
          by (intro conjI exI [of _ "''['' @ w @ '']''"]) simp_all
      next
        case False
        then have "array_loop n opts depth (s\<lparr>sc_rest := d # ds\<rparr>) = Inr s'" using array(4) by simp
        from Suc.IH(3) [OF this] obtain m where
          "d # ds = m @ CHR '']'' # sc_rest s'" "jelements opts depth m" "sc_keys s' = sc_keys s" by auto
        then show ?thesis using array j_array [OF array(1,2)]
          by (intro conjI exI [of _ "''['' @ w @ m @ '']''"]) simp_all
      qed
    qed blast
  next
    case 2
    from 2(2) show ?case
    proof (cases rule: object_turn)
      case (1 cs key rest keys large' ds s1 t ts)
      note nk = note_key_sound [OF 2(1) 1(4)]
      obtain body where body: "cs = body @ quote # rest" "string_body (forbid_lone_surrogates opts) body"
        "key_of body = Some key" by (rule scan_string_sound [OF 1(2)]) blast
      obtain w1 where w1: "rest = w1 @ CHR '':'' # ds" "white w1" using open_braces [OF 1(5)] by blast
      obtain w2 where w2: "ds = w2 @ skip_ws ds" "white w2" using skip_ws_split by blast
      obtain v where v: "skip_ws ds = v @ sc_rest s1" "jvalue opts (depth + 1) v" "sc_keys s1 = keys"
        using Suc.IH(1) [OF 1(6)] by auto
      obtain w3 where w3: "sc_rest s1 = w3 @ t # ts" "white w3" using open_braces [OF 1(7)] by blast
      have eq: "sc_rest s = (quote # body @ [quote] @ w1 @ '':'' @ w2 @ v @ w3) @ t # ts"
        using 1(1) body(1) w1(1) w2(1) v(1) w3(1) by simp
      note mem = body(2,3) 1(3) nk(1) w1(2) w2(2) w3(2)
      show ?thesis
      proof (cases "t = CHR '',''")
        case True
        then have "object_loop n opts depth fs large' (s1\<lparr>sc_rest := skip_ws ts\<rparr>) = Inr s'" using 1(8) by simp
        from Suc.IH(2) [OF _ this] nk(3) v(3) obtain m where
          m: "skip_ws ts = m @ CHR ''}'' # sc_rest s'" "jmembers opts depth (frame_seen fs large' keys) m"
          "sc_keys s' = take fs keys" by auto
        obtain w4 where w4: "ts = w4 @ skip_ws ts" "white w4" using skip_ws_split by blast
        have "jmembers opts depth (frame_seen fs large (sc_keys s))
            (quote # body @ [quote] @ w1 @ '':'' @ w2 @ v @ w3 @ '','' @ w4 @ m)"
          by (rule j_members [OF mem w4(2) v(2)]) (use m(2) nk(2) in simp)
        moreover have "sc_rest s = (quote # body @ [quote] @ w1 @ '':'' @ w2 @ v @ w3 @ '','' @ w4 @ m) @ CHR ''}'' # sc_rest s'"
          using eq True w4(1) m(1) by simp
        ultimately show ?thesis using m(3) nk(4) by auto
      next
        case False
        then have "t = CHR ''}''" "s' = s1\<lparr>sc_rest := ts, sc_keys := take fs (sc_keys s1)\<rparr>" using 1(8) by simp_all
        then show ?thesis using eq j_member [OF mem v(2)] v(3) nk(4) by auto
      qed
    qed
  next
    case 3
    then show ?case
    proof (cases rule: array_turn)
      case (1 s1 t ts)
      obtain v where v: "sc_rest s = v @ sc_rest s1" "jvalue opts (depth + 1) v" "sc_keys s1 = sc_keys s"
        using Suc.IH(1) [OF 1(1)] by auto
      obtain w1 where w1: "sc_rest s1 = w1 @ t # ts" "white w1" using open_braces [OF 1(2)] by blast
      show ?thesis
      proof (cases "t = CHR '',''")
        case True
        then have "array_loop n opts depth (s1\<lparr>sc_rest := skip_ws ts\<rparr>) = Inr s'" using 1(3) by simp
        from Suc.IH(3) [OF this] v(3) obtain m where
          m: "skip_ws ts = m @ CHR '']'' # sc_rest s'" "jelements opts depth m" "sc_keys s' = sc_keys s" by auto
        obtain w2 where w2: "ts = w2 @ skip_ws ts" "white w2" using skip_ws_split by blast
        have "sc_rest s = (v @ w1 @ '','' @ w2 @ m) @ CHR '']'' # sc_rest s'"
          using v(1) w1(1) True w2(1) m(1) by simp
        then show ?thesis using j_elements [OF v(2) w1(2) w2(2) m(2)] m(3) by blast
      next
        case False
        then have "t = CHR '']''" "s' = s1\<lparr>sc_rest := ts\<rparr>" using 1(3) by simp_all
        then have "sc_rest s = (v @ w1) @ CHR '']'' # sc_rest s'" "sc_keys s' = sc_keys s" using v w1(1) by simp_all
        then show ?thesis using j_element [OF v(2) w1(2)] by blast
      qed
    qed
  }
qed simp_all

section \<open>Completeness: what is in the grammar is accepted\<close>

lemma ws_facts [simp]: "\<not> is_ws quote" "\<not> is_ws CHR '':''" "\<not> is_ws CHR '',''" "\<not> is_ws CHR ''}''" "\<not> is_ws CHR '']''"
    "\<not> is_ws CHR ''{''" "\<not> is_ws CHR ''[''" "\<not> is_ws CHR ''-''"
  by (simp_all add: is_ws_def quote_def)

lemma digit_not_ws: "is_digit c \<Longrightarrow> \<not> is_ws c"
  by (auto simp: is_ws_def is_digit_def)

lemma number_end_white:
  assumes "white w" "c \<in> {CHR '','', CHR ''}'', CHR '']''}"
  shows "number_end (w @ c # s)"
proof (cases w)
  case (Cons x xs)
  then have "is_ws x" using assms(1) by (simp add: white_def)
  then show ?thesis using Cons by (auto simp: number_end_def is_ws_def is_digit_def)
qed (use assms(2) in \<open>auto simp: number_end_def is_digit_def\<close>)

lemma number_end_only_white: "white w \<Longrightarrow> number_end w"
  by (cases w) (auto simp: number_end_def white_def is_ws_def is_digit_def)

lemma value_start:
  assumes "jvalue opts depth v"
  obtains c cs where "v = c # cs" "\<not> is_ws c" "c \<noteq> CHR '']''" "c \<noteq> CHR ''}''"
  using assms
proof (cases rule: jvalue.cases)
  case j_number
  then obtain c cs where c: "v = c # cs" "c = CHR ''-'' \<or> is_digit c"
    using scan_number_complete(2) [of v "[]"] by (auto simp: number_end_def)
  moreover have "\<not> is_ws c \<and> c \<noteq> CHR '']'' \<and> c \<noteq> CHR ''}''" using c(2) digit_not_ws [of c] by (auto simp: is_digit_def)
  ultimately show ?thesis using that [of c cs] by blast
qed (use that in \<open>auto simp: is_ws_def quote_def\<close>)

lemma elements_start:
  assumes "jelements opts depth m"
  obtains c cs where "m = c # cs" "\<not> is_ws c" "c \<noteq> CHR '']''"
  using assms
proof (cases rule: jelements.cases)
  case (j_element v w)
  then show ?thesis using that by (elim value_start) auto
next
  case (j_elements v w1 w2 m)
  then show ?thesis using that by (elim value_start) auto
qed

lemma members_start:
  assumes "jmembers opts depth seen m"
  obtains cs where "m = quote # cs"
  using assms by (cases rule: jmembers.cases) auto

lemma scan_value_open:
  assumes "depth_ok opts depth" "white w" "\<not> is_ws d"
  shows "sc_rest s = CHR ''{'' # w @ d # ds \<Longrightarrow> scan_value (Suc n) opts depth s =
      (if d = CHR ''}'' then Inr (s\<lparr>sc_rest := ds\<rparr>)
       else object_loop n opts depth (length (sc_keys s)) None (s\<lparr>sc_rest := d # ds\<rparr>))"
    and "sc_rest s = CHR ''['' # w @ d # ds \<Longrightarrow> scan_value (Suc n) opts depth s =
      (if d = CHR '']'' then Inr (s\<lparr>sc_rest := ds\<rparr>) else array_loop n opts depth (s\<lparr>sc_rest := d # ds\<rparr>))"
proof -
  have nd: "\<not> (0 < max_depth opts \<and> max_depth opts < depth)" using assms(1) by (simp add: depth_ok_def)
  show "sc_rest s = CHR ''{'' # w @ d # ds \<Longrightarrow> scan_value (Suc n) opts depth s =
      (if d = CHR ''}'' then Inr (s\<lparr>sc_rest := ds\<rparr>)
       else object_loop n opts depth (length (sc_keys s)) None (s\<lparr>sc_rest := d # ds\<rparr>))"
    unfolding scan_value.simps(2) if_not_P [OF nd] using assms(2,3) by simp
  show "sc_rest s = CHR ''['' # w @ d # ds \<Longrightarrow> scan_value (Suc n) opts depth s =
      (if d = CHR '']'' then Inr (s\<lparr>sc_rest := ds\<rparr>) else array_loop n opts depth (s\<lparr>sc_rest := d # ds\<rparr>))"
    unfolding scan_value.simps(2) if_not_P [OF nd] using assms(2,3) by simp
qed

lemma scan_value_scalar:
  assumes "depth_ok opts depth"
  shows "sc_rest s = ''true'' @ rest \<Longrightarrow> scan_value (Suc n) opts depth s = Inr (s\<lparr>sc_rest := rest\<rparr>)"
    and "sc_rest s = ''false'' @ rest \<Longrightarrow> scan_value (Suc n) opts depth s = Inr (s\<lparr>sc_rest := rest\<rparr>)"
    and "\<not> forbid_null opts \<Longrightarrow> sc_rest s = ''null'' @ rest \<Longrightarrow>
      scan_value (Suc n) opts depth s = Inr (s\<lparr>sc_rest := rest\<rparr>)"
    and "string_body (forbid_lone_surrogates opts) b \<Longrightarrow> sc_rest s = (quote # b @ [quote]) @ rest \<Longrightarrow>
      scan_value (Suc n) opts depth s = Inr (s\<lparr>sc_rest := rest\<rparr>)"
    and "json_number v \<Longrightarrow> number_end rest \<Longrightarrow> sc_rest s = v @ rest \<Longrightarrow>
      scan_value (Suc n) opts depth s = Inr (s\<lparr>sc_rest := rest\<rparr>)"
proof -
  have nd: "\<not> (0 < max_depth opts \<and> max_depth opts < depth)" using assms(1) by (simp add: depth_ok_def)
  have q: "CHR ''t'' \<noteq> quote" "CHR ''f'' \<noteq> quote" "CHR ''n'' \<noteq> quote" by (simp_all add: quote_def)
  show "sc_rest s = ''true'' @ rest \<Longrightarrow> scan_value (Suc n) opts depth s = Inr (s\<lparr>sc_rest := rest\<rparr>)"
    unfolding scan_value.simps(2) if_not_P [OF nd] using q by simp
  show "sc_rest s = ''false'' @ rest \<Longrightarrow> scan_value (Suc n) opts depth s = Inr (s\<lparr>sc_rest := rest\<rparr>)"
    unfolding scan_value.simps(2) if_not_P [OF nd] using q by simp
  show "\<not> forbid_null opts \<Longrightarrow> sc_rest s = ''null'' @ rest \<Longrightarrow>
      scan_value (Suc n) opts depth s = Inr (s\<lparr>sc_rest := rest\<rparr>)"
    unfolding scan_value.simps(2) if_not_P [OF nd] using q by simp
  show "scan_value (Suc n) opts depth s = Inr (s\<lparr>sc_rest := rest\<rparr>)"
    if b: "string_body (forbid_lone_surrogates opts) b" "sc_rest s = (quote # b @ [quote]) @ rest"
  proof -
    obtain k where k: "scan_string (forbid_lone_surrogates opts) False (b @ quote # rest) = Inr (k, rest)"
      using scan_string_complete(1) [OF b(1)] by blast
    have "quote \<noteq> CHR ''{''" "quote \<noteq> CHR ''[''" by (simp_all add: quote_def)
    then show ?thesis unfolding scan_value.simps(2) if_not_P [OF nd] using b(2) k by simp
  qed
  show "scan_value (Suc n) opts depth s = Inr (s\<lparr>sc_rest := rest\<rparr>)"
    if v: "json_number v" "number_end rest" "sc_rest s = v @ rest"
  proof -
    note r = scan_number_complete [OF v(1,2)]
    then obtain c cs where c: "v = c # cs" "c = CHR ''-'' \<or> is_digit c" by blast
    have "c \<noteq> CHR ''{''" "c \<noteq> CHR ''[''" "c \<noteq> quote" "c \<noteq> CHR ''t''" "c \<noteq> CHR ''f''" "c \<noteq> CHR ''n''"
      using c(2) by (auto simp: is_digit_def quote_def)
    then show ?thesis unfolding scan_value.simps(2) if_not_P [OF nd] using v(3) c r(1) by simp
  qed
qed

lemma object_turn_complete:
  assumes "string_body (forbid_lone_surrogates opts) body" "key_of body = Some key" "reject_key opts key = None"
    and "note_key fs key (sc_keys s) large = Inr (keys, large')"
    and "white w1" "white w2" "sc_rest s = quote # body @ quote # w1 @ CHR '':'' # w2 @ x" "skip_ws x = x"
    and "scan_value n opts (depth + 1) (s\<lparr>sc_rest := x, sc_keys := keys\<rparr>) = Inr s1" "skip_ws (sc_rest s1) = t # ts"
  shows "object_loop (Suc n) opts depth fs large s =
     (if t = CHR '','' then object_loop n opts depth fs large' (s1\<lparr>sc_rest := skip_ws ts\<rparr>)
      else if t = CHR ''}'' then Inr (s1\<lparr>sc_rest := ts, sc_keys := take fs (sc_keys s1)\<rparr>)
      else Inl ExpectedCommaOrBrace)"
  unfolding object_loop.simps(2) using scan_string_complete(2) [OF assms(1)] assms(2-10) by simp

lemma array_turn_complete:
  assumes "scan_value n opts (depth + 1) s = Inr s1" "skip_ws (sc_rest s1) = t # ts"
  shows "array_loop (Suc n) opts depth s =
     (if t = CHR '','' then array_loop n opts depth (s1\<lparr>sc_rest := skip_ws ts\<rparr>)
      else if t = CHR '']'' then Inr (s1\<lparr>sc_rest := ts\<rparr>) else Inl ExpectedCommaOrBracket)"
  unfolding array_loop.simps(2) using assms by simp

lemma skip_ws_value: "jvalue opts depth v \<Longrightarrow> skip_ws (v @ s) = v @ s"
  by (erule value_start) simp

lemma skip_ws_elements: "jelements opts depth m \<Longrightarrow> skip_ws (m @ s) = m @ s"
  by (erule elements_start) simp

lemma skip_ws_members: "jmembers opts depth seen m \<Longrightarrow> skip_ws (m @ s) = m @ s"
  by (erule members_start) simp

lemma value_length: "jvalue opts depth v \<Longrightarrow> 0 < length v"
  by (erule value_start) simp

lemma take_self [simp]: "s\<lparr>sc_rest := r, sc_keys := sc_keys s\<rparr> = (s :: scanner)\<lparr>sc_rest := r\<rparr>"
  by simp

lemma rest_over_keys [simp]: "s\<lparr>sc_keys := k, sc_rest := r\<rparr> = (s :: scanner)\<lparr>sc_rest := r, sc_keys := k\<rparr>"
  by (cases s) simp

lemma scan_complete:
  "jvalue opts depth v \<Longrightarrow> (\<And>rest (s :: scanner) n. number_end rest \<Longrightarrow> sc_rest s = v @ rest \<Longrightarrow> 2 * length v \<le> n \<Longrightarrow>
     scan_value n opts depth s = Inr (s\<lparr>sc_rest := rest\<rparr>))"
  "jmembers opts depth seen m \<Longrightarrow> (\<And>fs large rest (s :: scanner) n. frame_seen fs large (sc_keys s) = seen \<Longrightarrow>
     fs \<le> length (sc_keys s) \<Longrightarrow> sc_rest s = m @ CHR ''}'' # rest \<Longrightarrow> 2 * length m + 1 \<le> n \<Longrightarrow>
     object_loop n opts depth fs large s = Inr (s\<lparr>sc_rest := rest, sc_keys := take fs (sc_keys s)\<rparr>))"
  "jelements opts depth m \<Longrightarrow> (\<And>rest (s :: scanner) n. sc_rest s = m @ CHR '']'' # rest \<Longrightarrow> 2 * length m + 1 \<le> n \<Longrightarrow>
     array_loop n opts depth s = Inr (s\<lparr>sc_rest := rest\<rparr>))"
proof (induction rule: jvalue_jmembers_jelements.inducts)
  case (j_true depth)
  then show ?case by (cases n) (simp_all add: scan_value_scalar(1))
next
  case (j_false depth)
  then show ?case by (cases n) (simp_all add: scan_value_scalar(2))
next
  case (j_null depth)
  then show ?case by (cases n) (simp_all add: scan_value_scalar(3))
next
  case (j_number depth v)
  then show ?case using json_number_nonempty [OF j_number(2)]
    by (cases n) (simp_all add: scan_value_scalar(5))
next
  case (j_string depth body)
  then show ?case by (cases n) (simp_all add: scan_value_scalar(4))
next
  case (j_object_empty depth w)
  then show ?case using scan_value_open(1) [OF j_object_empty(1,2), of "CHR ''}''" s rest] by (cases n) simp_all
next
  case (j_object depth w m)
  obtain n' where n: "n = Suc n'" using j_object.prems by (cases n) simp_all
  obtain cs where m: "m = quote # cs" by (rule members_start [OF j_object(2)])
  have "quote \<noteq> CHR ''}''" by (simp add: quote_def)
  then have "scan_value n opts depth s = object_loop n' opts depth (length (sc_keys s)) None (s\<lparr>sc_rest := m @ CHR ''}'' # rest\<rparr>)"
    using scan_value_open(1) [OF j_object(1,4), of quote s "cs @ CHR ''}'' # rest" n'] j_object.prems
    by (simp add: n m)
  also have "\<dots> = Inr (s\<lparr>sc_rest := rest\<rparr>)" using j_object.prems n by (subst j_object(3)) simp_all
  finally show ?case .
next
  case (j_array_empty depth w)
  then show ?case using scan_value_open(2) [OF j_array_empty(1,2), of "CHR '']''" s rest] by (cases n) simp_all
next
  case (j_array depth w m)
  obtain n' where n: "n = Suc n'" using j_array.prems by (cases n) simp_all
  obtain c cs where m: "m = c # cs" "\<not> is_ws c" "c \<noteq> CHR '']''" by (rule elements_start [OF j_array(2)])
  have "scan_value n opts depth s = array_loop n' opts depth (s\<lparr>sc_rest := m @ CHR '']'' # rest\<rparr>)"
    using scan_value_open(2) [OF j_array(1,4) m(2), of s "cs @ CHR '']'' # rest" n'] j_array.prems m(3)
    by (simp add: n m(1))
  also have "\<dots> = Inr (s\<lparr>sc_rest := rest\<rparr>)" using j_array.prems n by (subst j_array(3)) simp_all
  finally show ?case .
next
  case (j_member body key seen w1 w2 w3 depth v)
  obtain n' where n: "n = Suc n'" using j_member.prems by (cases n) simp_all
  obtain keys' large' where nk: "note_key fs key (sc_keys s) large = Inr (keys', large')"
    "fs \<le> length keys'" "take fs keys' = take fs (sc_keys s)"
    by (rule note_key_new [OF j_member.prems(2), of key large]) (use j_member(6) j_member.prems(1) in auto)
  let ?x = "v @ w3 @ CHR ''}'' # rest"
  have v: "scan_value n' opts (depth + 1) (s\<lparr>sc_rest := ?x, sc_keys := keys'\<rparr>) = Inr (s\<lparr>sc_rest := w3 @ CHR ''}'' # rest, sc_keys := keys'\<rparr>)"
    using j_member.prems(4) n by (subst j_member(4)) (simp_all add: number_end_white [OF j_member(9)])
  have r: "sc_rest s = quote # body @ quote # w1 @ CHR '':'' # w2 @ ?x" using j_member.prems(3) by simp
  have t: "skip_ws (sc_rest (s\<lparr>sc_rest := w3 @ CHR ''}'' # rest, sc_keys := keys'\<rparr>)) = CHR ''}'' # rest"
    using j_member(9) by simp
  show ?case unfolding n object_turn_complete [OF j_member(1,5,2) nk(1) j_member(7,8) r skip_ws_value [OF j_member(3)] v t]
    using nk(3) by simp
next
  case (j_members body key seen w1 w2 w3 w4 depth v m)
  obtain n' where n: "n = Suc n'" using j_members.prems by (cases n) simp_all
  obtain keys' large' where nk: "note_key fs key (sc_keys s) large = Inr (keys', large')"
    "frame_seen fs large' keys' = insert key seen" "fs \<le> length keys'" "take fs keys' = take fs (sc_keys s)"
    by (rule note_key_new [OF j_members.prems(2), of key large]) (use j_members(8) j_members.prems(1) in auto)
  let ?r = "w3 @ CHR '','' # w4 @ m @ CHR ''}'' # rest"
  have v: "scan_value n' opts (depth + 1) (s\<lparr>sc_rest := v @ ?r, sc_keys := keys'\<rparr>) = Inr (s\<lparr>sc_rest := ?r, sc_keys := keys'\<rparr>)"
    using j_members.prems(4) n by (subst j_members(4)) (simp_all add: number_end_white [OF j_members(11)])
  have r: "sc_rest s = quote # body @ quote # w1 @ CHR '':'' # w2 @ v @ ?r" using j_members.prems(3) by simp
  have t: "skip_ws (sc_rest (s\<lparr>sc_rest := ?r, sc_keys := keys'\<rparr>)) = CHR '','' # w4 @ m @ CHR ''}'' # rest"
    using j_members(11) by simp
  have "object_loop n opts depth fs large s =
      object_loop n' opts depth fs large' (s\<lparr>sc_rest := m @ CHR ''}'' # rest, sc_keys := keys'\<rparr>)"
    unfolding n object_turn_complete [OF j_members(1,7,2) nk(1) j_members(9,10) r skip_ws_value [OF j_members(3)] v t]
    using j_members(12) skip_ws_members [OF j_members(5)] by simp
  also have "\<dots> = Inr (s\<lparr>sc_rest := rest, sc_keys := take fs (sc_keys s)\<rparr>)"
    using j_members.prems(4) n nk(2-4) by (subst j_members(6)) simp_all
  finally show ?case .
next
  case (j_element depth v w)
  obtain n' where n: "n = Suc n'" using j_element.prems by (cases n) simp_all
  have v: "scan_value n' opts (depth + 1) s = Inr (s\<lparr>sc_rest := w @ CHR '']'' # rest\<rparr>)"
    using j_element.prems n by (subst j_element(2)) (simp_all add: number_end_white [OF j_element(3)])
  have t: "skip_ws (sc_rest (s\<lparr>sc_rest := w @ CHR '']'' # rest\<rparr>)) = CHR '']'' # rest" using j_element(3) by simp
  show ?case unfolding n array_turn_complete [OF v t] by simp
next
  case (j_elements depth v w1 w2 m)
  obtain n' where n: "n = Suc n'" using j_elements.prems by (cases n) simp_all
  let ?r = "w1 @ CHR '','' # w2 @ m @ CHR '']'' # rest"
  have v: "scan_value n' opts (depth + 1) s = Inr (s\<lparr>sc_rest := ?r\<rparr>)"
    using j_elements.prems n by (subst j_elements(2)) (simp_all add: number_end_white [OF j_elements(5)])
  have t: "skip_ws (sc_rest (s\<lparr>sc_rest := ?r\<rparr>)) = CHR '','' # w2 @ m @ CHR '']'' # rest" using j_elements(5) by simp
  have "array_loop n opts depth s = array_loop n' opts depth (s\<lparr>sc_rest := m @ CHR '']'' # rest\<rparr>)"
    unfolding n array_turn_complete [OF v t] using j_elements(6) skip_ws_elements [OF j_elements(3)] by simp
  also have "\<dots> = Inr (s\<lparr>sc_rest := rest\<rparr>)"
    using j_elements.prems n by (subst j_elements(4)) simp_all
  finally show ?case .
qed

section \<open>The fuel is enough\<close>

lemma take_Inr_length:
  "scan_value n opts depth (s :: scanner) = Inr s' \<Longrightarrow> length (sc_rest s') < length (sc_rest s)"
  using scan_sound(1) [of n opts depth s s'] value_length by force

lemma if_ne: "(P \<Longrightarrow> a \<noteq> z) \<Longrightarrow> (\<not> P \<Longrightarrow> b \<noteq> z) \<Longrightarrow> (if P then a else b) \<noteq> z"
  by simp

lemma fuel_enough:
  "\<And>depth (s :: scanner). 2 * length (sc_rest s) + 1 \<le> n \<Longrightarrow> scan_value n opts depth s \<noteq> Inl OutOfFuel"
  "\<And>depth fs large (s :: scanner). 2 * length (sc_rest s) + 2 \<le> n \<Longrightarrow> object_loop n opts depth fs large s \<noteq> Inl OutOfFuel"
  "\<And>depth (s :: scanner). 2 * length (sc_rest s) + 2 \<le> n \<Longrightarrow> array_loop n opts depth s \<noteq> Inl OutOfFuel"
proof (induction n)
  case (Suc n)
  { case 1
    show ?case
    proof (cases "0 < max_depth opts \<and> max_depth opts < depth")
      case nd: False
      show ?thesis
      proof (cases "sc_rest s")
        case (Cons c cs)
        have obj: "object_loop n opts depth fs large (s\<lparr>sc_rest := d # ds\<rparr>) \<noteq> Inl OutOfFuel"
          and arr: "array_loop n opts depth (s\<lparr>sc_rest := d # ds\<rparr>) \<noteq> Inl OutOfFuel"
          if "skip_ws cs = d # ds" for fs large d ds
          using Suc.IH(2,3) 1 Cons skip_ws_length [of cs] that by simp_all
        show ?thesis unfolding scan_value.simps(2) if_not_P [OF nd] Cons list.case
        proof (intro if_ne)
          show "(case skip_ws cs of [] \<Rightarrow> Inl UnterminatedObject
             | d # ds \<Rightarrow> if d = CHR ''}'' then Inr (s\<lparr>sc_rest := ds\<rparr>)
                 else object_loop n opts depth (length (sc_keys s)) None (s\<lparr>sc_rest := d # ds\<rparr>)) \<noteq> Inl OutOfFuel"
            using obj by (simp split: list.split)
          show "(case skip_ws cs of [] \<Rightarrow> Inl UnterminatedArray
             | d # ds \<Rightarrow> if d = CHR '']'' then Inr (s\<lparr>sc_rest := ds\<rparr>)
                 else array_loop n opts depth (s\<lparr>sc_rest := d # ds\<rparr>)) \<noteq> Inl OutOfFuel"
            using arr by (simp split: list.split)
          show "(case scan_string (forbid_lone_surrogates opts) False cs of Inl e \<Rightarrow> Inl e
             | Inr (_, rest) \<Rightarrow> Inr (s\<lparr>sc_rest := rest\<rparr>)) \<noteq> Inl OutOfFuel"
            using scan_string_no_fuel [of "forbid_lone_surrogates opts" False cs] by (auto split: sum.split)
          show "(case scan_number (c # cs) of Inl e \<Rightarrow> Inl e | Inr rest \<Rightarrow> Inr (s\<lparr>sc_rest := rest\<rparr>)) \<noteq> Inl OutOfFuel"
            using scan_number_no_fuel [of "c # cs"] by (auto split: sum.split)
        qed simp_all
      qed (simp add: scan_value.simps(2))
    qed (simp add: scan_value.simps(2))
  next
    case 2
    show ?case
    proof (cases "sc_rest s")
      case (Cons c cs)
      have val: "scan_value n opts (depth + 1) (s\<lparr>sc_rest := skip_ws ds, sc_keys := keys\<rparr>) \<noteq> Inl OutOfFuel"
        and loop: "scan_value n opts (depth + 1) (s\<lparr>sc_rest := skip_ws ds, sc_keys := keys\<rparr>) = Inr s1 \<Longrightarrow>
          skip_ws (sc_rest s1) = t # ts \<Longrightarrow> object_loop n opts depth fs l (s1\<lparr>sc_rest := skip_ws ts\<rparr>) \<noteq> Inl OutOfFuel"
        if r: "scan_string (forbid_lone_surrogates opts) True cs = Inr (key, rest)" "skip_ws rest = d # ds"
        for key rest d ds keys s1 t ts l
      proof -
        have len: "length (skip_ws ds) < length cs"
          using scan_string_length [OF r(1)] skip_ws_length [of rest] skip_ws_length [of ds] r(2) by simp
        then show "scan_value n opts (depth + 1) (s\<lparr>sc_rest := skip_ws ds, sc_keys := keys\<rparr>) \<noteq> Inl OutOfFuel"
          using Suc.IH(1) 2 Cons by simp
        assume v: "scan_value n opts (depth + 1) (s\<lparr>sc_rest := skip_ws ds, sc_keys := keys\<rparr>) = Inr s1"
          and t: "skip_ws (sc_rest s1) = t # ts"
        have "length (skip_ws ts) < length cs"
          using len take_Inr_length [OF v] skip_ws_length [of "sc_rest s1"] skip_ws_length [of ts] t by simp
        then show "object_loop n opts depth fs l (s1\<lparr>sc_rest := skip_ws ts\<rparr>) \<noteq> Inl OutOfFuel"
          using Suc.IH(2) 2 Cons by simp
      qed
      show ?thesis unfolding object_loop.simps(2) Cons list.case
        using val loop scan_string_no_fuel [of "forbid_lone_surrogates opts" True cs] note_key_no_fuel
        by (auto split: list.split sum.split option.split prod.split)
    qed (simp add: object_loop.simps(2))
  next
    case 3
    have "array_loop n opts depth (s1\<lparr>sc_rest := skip_ws ts\<rparr>) \<noteq> Inl OutOfFuel"
      if v: "scan_value n opts (depth + 1) s = Inr s1" "skip_ws (sc_rest s1) = t # ts" for s1 t ts
      using Suc.IH(3) 3 take_Inr_length [OF v(1)] skip_ws_length [of "sc_rest s1"] skip_ws_length [of ts] v(2) by simp
    then show ?case unfolding array_loop.simps(2)
      using Suc.IH(1) [of s "depth + 1"] 3 by (auto split: list.split sum.split)
  }
qed simp_all

section \<open>The validator\<close>

text \<open>
  C7:
  \<open>Scan\<close> accepts exactly the JSON texts of RFC 8259 that satisfy the options: one value between
  white space, within the depth, with no key twice in one object, no rejected key, no null and no
  lone surrogate where they are forbidden, and nothing after it.
\<close>

theorem scan_accepts_grammar: "scan data opts = None \<longleftrightarrow> jtext opts data"
proof
  assume s: "scan data opts = None"
  then have u: "\<not> (require_valid_utf8 opts \<and> \<not> valid_utf8 data)" by (auto simp: scan_def split: if_splits)
  note s = s [unfolded scan_def if_not_P [OF u]]
  obtain c cs where c: "skip_ws data = c # cs" using s by (cases "skip_ws data") simp_all
  note s = s [unfolded c list.case]
  obtain s' where v: "scan_value (scan_fuel data) opts 1 \<lparr>sc_rest = c # cs, sc_keys = []\<rparr> = Inr s'"
    using s by (cases "scan_value (scan_fuel data) opts 1 \<lparr>sc_rest = c # cs, sc_keys = []\<rparr>") simp_all
  have e: "skip_ws (sc_rest s') = []" using s by (simp add: v split: if_splits)
  obtain v where j: "c # cs = v @ sc_rest s'" "jvalue opts 1 v" using scan_sound(1) [OF v] by auto
  obtain w1 where w1: "data = w1 @ skip_ws data" "white w1" using skip_ws_split by blast
  have "white (sc_rest s')" using skip_ws_split [of "sc_rest s'"] e by auto
  moreover have "data = w1 @ v @ sc_rest s'" using w1(1) c j(1) by simp
  ultimately show "jtext opts data" unfolding jtext_def using u w1(2) j(2) by blast
next
  assume "jtext opts data"
  then obtain w1 v w2 where u: "\<not> (require_valid_utf8 opts \<and> \<not> valid_utf8 data)"
    and d: "data = w1 @ v @ w2" "white w1" "white w2" "jvalue opts 1 v" by (auto simp: jtext_def)
  obtain c cs where c: "v = c # cs" by (rule value_start [OF d(4)])
  have sk: "skip_ws data = c # cs @ w2" using d(1,2) skip_ws_value [OF d(4), of w2] c by simp
  have "scan_value (scan_fuel data) opts 1 \<lparr>sc_rest = c # cs @ w2, sc_keys = []\<rparr> = Inr \<lparr>sc_rest = w2, sc_keys = []\<rparr>"
    by (subst scan_complete(1) [OF d(4) number_end_only_white [OF d(3)]]) (simp_all add: c d(1) scan_fuel_def)
  moreover have "skip_ws w2 = []" using skip_ws_white [OF d(3), of "[]"] by simp
  ultimately show "scan data opts = None" unfolding scan_def if_not_P [OF u] sk by simp
qed

text \<open>
  C40:
  The scan ends on every input, with acceptance or one of the code's errors: the fuel of the
  model never runs out.
\<close>

theorem scan_terminates: "scan data opts \<noteq> Some OutOfFuel"
proof (cases "skip_ws data")
  case (Cons c cs)
  have "length (c # cs) \<le> length data" using skip_ws_length [of data] Cons by simp
  then have "scan_value (scan_fuel data) opts 1 \<lparr>sc_rest = c # cs, sc_keys = []\<rparr> \<noteq> Inl OutOfFuel"
    by (intro fuel_enough(1)) (simp add: scan_fuel_def)
  then show ?thesis by (auto simp: scan_def Cons split: sum.split)
qed (simp add: scan_def)

end
