(* ===== verification/SseHub.thy ===== *)
theory SseHub
  imports Prelude "HOL-Library.Sublist" "HOL-Library.Word" "HOL-Library.Char_ord" "HOL-Library.List_Lexorder"
begin

text \<open>
  The hub that pushes events to the consoles (\<open>sse/hub.go\<close>): the table of connected clients with
  their bounded queues, the presence of users, revocation and shutdown, and the handler of each
  connection as a step relation, one step per region under the hub's mutex, per channel operation
  and per write. Every interleaving of connections, broadcasts, revocations and \<open>Close\<close> is a run.
\<close>

section \<open>Messages and clients\<close>

text \<open>The payloads the hub builds itself, and those of its callers as their JSON text.\<close>

datatype event_data = Roster "string list" | Presence string "string list" | Payload string

record message =
  m_event :: string
  m_data :: event_data

definition EventPresenceSnapshot :: string where [const_defs]: "EventPresenceSnapshot = ''presence.snapshot''"
definition EventPresenceJoined :: string where [const_defs]: "EventPresenceJoined = ''presence.joined''"
definition EventPresenceLeft :: string where [const_defs]: "EventPresenceLeft = ''presence.left''"

text \<open>
  A client: its user, the buffered channel \<open>ch\<close>, whether \<open>done\<close> and \<open>ch\<close> are closed, whether it was
  given an \<open>abortWrite\<close> and how often that was called, and its \<open>closeOnce\<close>.
\<close>

record client =
  cl_user :: string
  cl_queue :: "message list"
  cl_done :: bool
  cl_has_abort :: bool
  cl_aborts :: nat
  cl_ch_closed :: bool
  cl_once :: bool

definition clientQueueSize :: nat where "clientQueueSize = 32"
definition maxHubClients :: nat where "maxHubClients = 128"
definition maxHubClientsPerUser :: nat where "maxHubClientsPerUser = 8"

datatype hub_error = HubClosed | HubCapacity | UserHubCapacity

definition disconnect :: "client \<Rightarrow> client" where
  "disconnect c =
     (if cl_once c then c
      else c\<lparr>cl_once := True, cl_done := True, cl_aborts := cl_aborts c + (if cl_has_abort c then 1 else 0),
             cl_ch_closed := True\<rparr>)"

section \<open>The hub\<close>

type_synonym client_id = "64 word"

record hub =
  clients :: "(client_id, client) table"
  last_id :: client_id
  hub_closed :: bool
  hub_once :: bool

definition new_hub :: hub where
  "new_hub = \<lparr>clients = [], last_id = 0, hub_closed = False, hub_once = False\<rparr>"

text \<open>
  The non-blocking send of \<open>broadcastLocked\<close>. A send on a closed channel panics: that is None.
\<close>

definition offer :: "message \<Rightarrow> client \<Rightarrow> client option" where
  "offer msg c =
     (if cl_done c then Some c
      else if cl_ch_closed c then None
      else if length (cl_queue c) < clientQueueSize then Some (c\<lparr>cl_queue := cl_queue c @ [msg]\<rparr>)
      else Some (disconnect c))"

fun offer_all :: "message \<Rightarrow> client_id \<Rightarrow> (client_id, client) table \<Rightarrow> (client_id, client) table option" where
  "offer_all msg exclude [] = Some []"
| "offer_all msg exclude ((i, c) # t) =
     (case (if i = exclude then Some c else offer msg c) of None \<Rightarrow> None
      | Some c' \<Rightarrow> (case offer_all msg exclude t of None \<Rightarrow> None | Some t' \<Rightarrow> Some ((i, c') # t')))"

definition broadcast_locked :: "message \<Rightarrow> client_id \<Rightarrow> hub \<Rightarrow> hub option" where
  "broadcast_locked msg exclude h =
     (case offer_all msg exclude (clients h) of None \<Rightarrow> None | Some t \<Rightarrow> Some (h\<lparr>clients := t\<rparr>))"

definition hub_broadcast :: "string \<Rightarrow> event_data \<Rightarrow> hub \<Rightarrow> hub option" where
  "hub_broadcast event data h = broadcast_locked \<lparr>m_event = event, m_data = data\<rparr> 0 h"

definition client_count :: "hub \<Rightarrow> nat" where
  "client_count h = length (clients h)"

fun collect_users :: "string set \<Rightarrow> (client_id, client) table \<Rightarrow> string list" where
  "collect_users seen [] = []"
| "collect_users seen ((i, c) # t) =
     (if cl_user c = [] \<or> cl_done c \<or> cl_user c \<in> seen then collect_users seen t
      else cl_user c # collect_users (insert (cl_user c) seen) t)"

definition online_users :: "hub \<Rightarrow> string list" where
  "online_users h = sort (collect_users {} (clients h))"

definition live_of :: "string \<Rightarrow> (client_id, client) table \<Rightarrow> (client_id, client) table" where
  "live_of user t = filter (\<lambda>(i, c). cl_user c = user \<and> \<not> cl_done c) t"

definition add_with_abort ::
  "string \<Rightarrow> bool \<Rightarrow> hub \<Rightarrow> hub_error + (client_id \<times> string list \<times> bool \<times> hub)" where
  "add_with_abort user has_abort h =
     (if hub_closed h then Inl HubClosed
      else if maxHubClients \<le> length (clients h) then Inl HubCapacity
      else if maxHubClientsPerUser \<le> length (live_of user (clients h)) then Inl UserHubCapacity
      else let i = last_id h + 1;
               c = \<lparr>cl_user = user, cl_queue = [], cl_done = False, cl_has_abort = has_abort, cl_aborts = 0,
                    cl_ch_closed = False, cl_once = False\<rparr>;
               h' = h\<lparr>last_id := i, clients := put i c (clients h)\<rparr>
           in Inr (i, online_users h', live_of user (clients h) = [], h'))"

definition hub_add :: "string \<Rightarrow> hub \<Rightarrow> hub_error + (client_id \<times> hub)" where
  "hub_add user h = (case add_with_abort user False h of Inl e \<Rightarrow> Inl e | Inr (i, _, _, h) \<Rightarrow> Inr (i, h))"

definition on_clients :: "(client \<Rightarrow> client) \<Rightarrow> (client_id, client) table \<Rightarrow> (client_id, client) table" where
  "on_clients f t = map (\<lambda>(i, c). (i, f c)) t"

definition hub_close :: "hub \<Rightarrow> hub" where
  "hub_close h =
     (if hub_once h then h
      else h\<lparr>hub_once := True, hub_closed := True, clients := on_clients disconnect (clients h)\<rparr>)"

definition revoke_user :: "string \<Rightarrow> hub \<Rightarrow> hub" where
  "revoke_user user h =
     h\<lparr>clients := on_clients (\<lambda>c. if cl_user c = user then disconnect c else c) (clients h)\<rparr>"

definition contains_user :: "string list \<Rightarrow> string \<Rightarrow> bool" where
  "contains_user users user = list_ex (\<lambda>u. u = user) users"

text \<open>
  \<open>remove\<close> in its two halves: the part under the lock, and the message it broadcasts afterwards,
  when it has released the lock.
\<close>

definition remove_locked :: "client_id \<Rightarrow> hub \<Rightarrow> hub \<times> message option" where
  "remove_locked i h =
     (case row (clients h) i of
        None \<Rightarrow> (h, None)
      | Some c \<Rightarrow>
          let h' = h\<lparr>clients := del (\<lambda>k. k = i) (clients h)\<rparr>; users = online_users h' in
          (h', if cl_user c \<noteq> [] \<and> \<not> hub_closed h' \<and> \<not> contains_user users (cl_user c)
               then Some \<lparr>m_event = EventPresenceLeft, m_data = Presence (cl_user c) users\<rparr> else None))"

section \<open>Connections\<close>

text \<open>
  Where the handler of a connection stands: writing the greeting; about to announce the user; at
  the top of the loop; in the second \<open>select\<close>; with a message it received; about to write it; about
  to run the deferred \<open>remove\<close>; between the two halves of \<open>remove\<close>; finished.
\<close>

datatype conn_phase =
    Greeting "string list" bool | Announcing | Top | Selecting | Holding message | Writing message
  | Leaving | Farewell message | Gone

text \<open>The frames a stream has written: the greeting, the messages of its channel, and the pings.\<close>

record conn =
  cn_user :: string
  cn_phase :: conn_phase
  cn_greeting :: "message list"
  cn_written :: "message list"
  cn_pings :: nat
  cn_joined_at :: nat

definition greeting :: "string \<Rightarrow> bool \<Rightarrow> string list \<Rightarrow> message list \<Rightarrow> message list" where
  "greeting user wants_presence users initial =
     (if user \<noteq> [] \<and> wants_presence then [\<lparr>m_event = EventPresenceSnapshot, m_data = Roster users\<rparr>] else []) @ initial"

text \<open>
  The system: the hub, the connections, every broadcast so far with the id it excludes, and
  whether a send on a closed channel has panicked.
\<close>

record sse =
  the_hub :: hub
  conns :: "(client_id, conn) table"
  published :: "(message \<times> client_id) list"
  hub_panicked :: bool

definition init_sse :: sse where
  "init_sse = \<lparr>the_hub = new_hub, conns = [], published = [], hub_panicked = False\<rparr>"

definition phase_at :: "sse \<Rightarrow> client_id \<Rightarrow> conn_phase option" where
  "phase_at s i = map_option cn_phase (row (conns s) i)"

definition goto :: "client_id \<Rightarrow> conn_phase \<Rightarrow> sse \<Rightarrow> sse" where
  "goto i p s = s\<lparr>conns := modify i (\<lambda>c. c\<lparr>cn_phase := p\<rparr>) (conns s)\<rparr>"

definition is_done :: "client_id \<Rightarrow> sse \<Rightarrow> bool" where
  "is_done i s = (case row (clients (the_hub s)) i of None \<Rightarrow> True | Some c \<Rightarrow> cl_done c)"

definition publish :: "message \<Rightarrow> client_id \<Rightarrow> sse \<Rightarrow> sse" where
  "publish msg exclude s =
     (case broadcast_locked msg exclude (the_hub s) of
        None \<Rightarrow> s\<lparr>hub_panicked := True\<rparr>
      | Some h \<Rightarrow> s\<lparr>the_hub := h, published := published s @ [(msg, exclude)]\<rparr>)"

definition at_conn :: "client_id \<Rightarrow> (conn \<Rightarrow> conn) \<Rightarrow> sse \<Rightarrow> sse" where
  "at_conn i f s = s\<lparr>conns := modify i f (conns s)\<rparr>"

definition joined_message :: "string \<Rightarrow> hub \<Rightarrow> message" where
  "joined_message user h = \<lparr>m_event = EventPresenceJoined, m_data = Presence user (online_users h)\<rparr>"

definition pop_queue :: "client_id \<Rightarrow> hub \<Rightarrow> hub" where
  "pop_queue i h = h\<lparr>clients := modify i (\<lambda>c. c\<lparr>cl_queue := tl (cl_queue c)\<rparr>) (clients h)\<rparr>"

text \<open>
  One step of one handler or of the rest of the server. The counter of connection ids is taken
  before it wraps, after 2^64 connections. A cancelled request, an expired or revoked token and a
  failing write end the handler wherever the code looks at them: \<open>quit\<close>.
\<close>

inductive sse_step :: "sse \<Rightarrow> sse \<Rightarrow> bool" where
  connect: "add_with_abort user True (the_hub s) = Inr (i, users, first, h) \<Longrightarrow>
    unat (last_id (the_hub s)) + 1 < 2 ^ 64 \<Longrightarrow>
    sse_step s (s\<lparr>the_hub := h, conns := put i \<lparr>cn_user = user, cn_phase = Greeting users first, cn_greeting = [],
      cn_written = [], cn_pings = 0, cn_joined_at = length (published s)\<rparr> (conns s)\<rparr>)"
| greet: "row (conns s) i = Some c \<Longrightarrow> cn_phase c = Greeting users first \<Longrightarrow>
    sse_step s (at_conn i (\<lambda>c. c\<lparr>cn_greeting := greeting (cn_user c) wants users initial,
      cn_phase := (if cn_user c \<noteq> [] \<and> first then Announcing else Top)\<rparr>) s)"
| greet_fails: "row (conns s) i = Some c \<Longrightarrow> cn_phase c = Greeting users first \<Longrightarrow>
    sse_step s (at_conn i (\<lambda>c. c\<lparr>cn_greeting := take k (greeting (cn_user c) wants users initial), cn_phase := Leaving\<rparr>) s)"
| announce: "row (conns s) i = Some c \<Longrightarrow> cn_phase c = Announcing \<Longrightarrow>
    sse_step s (goto i Top (if hub_closed (the_hub s) then s
      else publish (joined_message (cn_user c) (the_hub s)) i s))"
| select: "phase_at s i = Some Top \<Longrightarrow> \<not> is_done i s \<Longrightarrow> sse_step s (goto i Selecting s)"
| ping: "phase_at s i = Some Selecting \<Longrightarrow>
    sse_step s (at_conn i (\<lambda>c. c\<lparr>cn_pings := cn_pings c + 1, cn_phase := Top\<rparr>) s)"
| receive: "phase_at s i = Some Selecting \<Longrightarrow> row (clients (the_hub s)) i = Some cl \<Longrightarrow> cl_queue cl = m # ms \<Longrightarrow>
    sse_step s (goto i (Holding m) (s\<lparr>the_hub := pop_queue i (the_hub s)\<rparr>))"
| check: "phase_at s i = Some (Holding m) \<Longrightarrow> \<not> is_done i s \<Longrightarrow> sse_step s (goto i (Writing m) s)"
| wrote: "phase_at s i = Some (Writing m) \<Longrightarrow>
    sse_step s (at_conn i (\<lambda>c. c\<lparr>cn_written := cn_written c @ [m], cn_phase := Top\<rparr>) s)"
| quit: "phase_at s i = Some p \<Longrightarrow> p \<in> {Top, Selecting} \<or> (\<exists>m. p = Holding m \<or> p = Writing m) \<Longrightarrow>
    sse_step s (goto i Leaving s)"
| leave: "phase_at s i = Some Leaving \<Longrightarrow> remove_locked i (the_hub s) = (h, msg) \<Longrightarrow>
    sse_step s (goto i (case msg of None \<Rightarrow> Gone | Some m \<Rightarrow> Farewell m) (s\<lparr>the_hub := h\<rparr>))"
| farewell: "phase_at s i = Some (Farewell m) \<Longrightarrow> sse_step s (goto i Gone (publish m 0 s))"
| others: "sse_step s (publish m 0 s)"
| revoke: "sse_step s (s\<lparr>the_hub := revoke_user user (the_hub s)\<rparr>)"
| close: "sse_step s (s\<lparr>the_hub := hub_close (the_hub s)\<rparr>)"

inductive sse_steps :: "sse \<Rightarrow> sse \<Rightarrow> bool" where
  sse_none: "sse_steps s s"
| sse_more: "sse_steps s t \<Longrightarrow> sse_step t u \<Longrightarrow> sse_steps s u"

definition sse_reachable :: "sse \<Rightarrow> bool" where
  "sse_reachable s \<longleftrightarrow> sse_steps init_sse s"

section \<open>Lemmas on the table of clients\<close>

lemma row_on_clients [simp]: "row (on_clients f t) i = map_option f (row t i)"
  by (induction t) (auto simp: row_def on_clients_def)

lemma keys_on_clients [simp]: "map fst (on_clients f t) = map fst t"
  by (induction t) (auto simp: on_clients_def)

lemma table_ok_on_clients [simp]: "table_ok (on_clients f t) = table_ok t"
  by (simp add: table_ok_def)

lemma length_on_clients [simp]: "length (on_clients f t) = length t"
  by (simp add: on_clients_def)

lemma offer_all_keys: "offer_all msg ex t = Some t' \<Longrightarrow> map fst t' = map fst t"
  by (induction t arbitrary: t') (auto split: option.splits if_splits)

lemma offer_all_row:
  "offer_all msg ex t = Some t' \<Longrightarrow>
   row t' i = (case row t i of None \<Rightarrow> None | Some c \<Rightarrow> if i = ex then Some c else offer msg c)"
  by (induction t arbitrary: t') (auto simp: row_def split: option.splits if_splits)

lemma offer_all_table: "offer_all msg ex t = Some t' \<Longrightarrow> table_ok t' = table_ok t \<and> length t' = length t"
  using offer_all_keys [of msg ex t t'] by (metis length_map table_ok_def)

lemma offer_all_total:
  "(\<And>i c. (i, c) \<in> set t \<Longrightarrow> offer msg c \<noteq> None) \<Longrightarrow> offer_all msg ex t \<noteq> None"
  by (induction t) (force split: option.split)+

lemma collect_users_spec:
  "distinct (collect_users seen t) \<and>
   set (collect_users seen t) = {cl_user c | i c. (i, c) \<in> set t \<and> cl_user c \<noteq> [] \<and> \<not> cl_done c} - seen"
proof (induction seen t rule: collect_users.induct)
  case (2 seen i c t)
  let ?S = "\<lambda>t. {cl_user c | i c. (i, c) \<in> set t \<and> cl_user c \<noteq> [] \<and> \<not> cl_done c}"
  show ?case
  proof (cases "cl_user c = [] \<or> cl_done c")
    case True
    then have "?S ((i, c) # t) = ?S t" by auto
    then show ?thesis using True 2(1) by auto
  next
    case False
    then have "?S ((i, c) # t) = insert (cl_user c) (?S t)" by auto
    then show ?thesis using False 2 by auto
  qed
qed simp

text \<open>The roster: the users with a live connection, in order, each once.\<close>

lemma online_users_spec:
  "sorted (online_users h) \<and> distinct (online_users h) \<and>
   set (online_users h) = {cl_user c | i c. (i, c) \<in> set (clients h) \<and> cl_user c \<noteq> [] \<and> \<not> cl_done c}"
  using collect_users_spec [of "{}" "clients h"] by (simp add: online_users_def)

lemma contains_user_iff [simp]: "contains_user users u \<longleftrightarrow> u \<in> set users"
  by (auto simp: contains_user_def list_ex_iff)

section \<open>The invariant of the hub\<close>

definition client_ok :: "client \<Rightarrow> bool" where
  "client_ok c \<longleftrightarrow> length (cl_queue c) \<le> clientQueueSize \<and> cl_once c = cl_done c \<and> cl_ch_closed c = cl_done c \<and>
     cl_aborts c = (if cl_done c \<and> cl_has_abort c then 1 else 0)"

lemma disconnect_ok [simp]: "client_ok c \<Longrightarrow> client_ok (disconnect c)"
  by (auto simp: client_ok_def disconnect_def)

lemma disconnect_user [simp]: "cl_user (disconnect c) = cl_user c"
  by (simp add: disconnect_def)

lemma disconnect_queue [simp]: "cl_queue (disconnect c) = cl_queue c"
  by (simp add: disconnect_def)

lemma disconnect_done: "client_ok c \<Longrightarrow> cl_done (disconnect c)"
  by (auto simp: client_ok_def disconnect_def)

lemma offer_ok:
  assumes "client_ok c"
  obtains c' where "offer msg c = Some c'" "client_ok c'" "cl_user c' = cl_user c"
    "cl_done c \<Longrightarrow> c' = c" "\<not> cl_done c' \<Longrightarrow> cl_queue c' = cl_queue c @ [msg]"
    "cl_queue c' = cl_queue c \<or> cl_queue c' = cl_queue c @ [msg]"
proof (cases "cl_done c")
  case True
  then show ?thesis using that assms by (auto simp: offer_def)
next
  case False
  then show ?thesis
    using that [of "c\<lparr>cl_queue := cl_queue c @ [msg]\<rparr>"] that [of "disconnect c"] assms disconnect_done [OF assms]
      disconnect_ok [OF assms]
    by (cases "length (cl_queue c) < clientQueueSize") (simp_all add: offer_def client_ok_def)
qed

definition hub_ok :: "hub \<Rightarrow> bool" where
  "hub_ok h \<longleftrightarrow> table_ok (clients h) \<and> length (clients h) \<le> maxHubClients \<and>
     (\<forall>u. length (live_of u (clients h)) \<le> maxHubClientsPerUser) \<and>
     (\<forall>i c. row (clients h) i = Some c \<longrightarrow> client_ok c \<and> (hub_closed h \<longrightarrow> cl_done c) \<and>
        0 < unat i \<and> unat i \<le> unat (last_id h))"

text \<open>Any change that keeps the keys and the users and wakes no one up keeps the limits per user.\<close>

lemma live_of_mono:
  assumes "map fst t' = map fst t" "table_ok t"
    and "\<And>i c'. row t' i = Some c' \<Longrightarrow> \<exists>c. row t i = Some c \<and> cl_user c' = cl_user c \<and> (cl_done c \<longrightarrow> cl_done c')"
  shows "length (live_of u t') \<le> length (live_of u t)"
proof -
  have ok: "table_ok t'" using assms(1,2) by (simp add: table_ok_def)
  have d: "distinct (map fst (live_of u x))" if "table_ok x" for x
    using that unfolding live_of_def table_ok_def by (rule distinct_map_filter)
  have "set (map fst (live_of u t')) \<subseteq> set (map fst (live_of u t))"
  proof
    fix i assume "i \<in> set (map fst (live_of u t'))"
    then obtain c' where c': "(i, c') \<in> set t'" "cl_user c' = u" "\<not> cl_done c'" by (auto simp: live_of_def)
    from assms(3) [OF in_row [OF ok c'(1)]] obtain c where c: "row t i = Some c" "cl_user c' = cl_user c"
      "cl_done c \<longrightarrow> cl_done c'" by blast
    then have "(i, c) \<in> set (live_of u t)" using row_in [OF c(1)] c' by (auto simp: live_of_def)
    then show "i \<in> set (map fst (live_of u t))" by force
  qed
  then have "card (set (map fst (live_of u t'))) \<le> card (set (map fst (live_of u t)))"
    by (rule card_mono [rotated]) simp
  then show ?thesis using distinct_card [OF d [OF ok]] distinct_card [OF d [OF assms(2)]] by simp
qed

lemma hub_ok_change:
  assumes "hub_ok h" "map fst (clients h') = map fst (clients h)" "last_id h' = last_id h"
    and "\<And>i c'. row (clients h') i = Some c' \<Longrightarrow> \<exists>c. row (clients h) i = Some c \<and> client_ok c' \<and> cl_user c' = cl_user c \<and>
      (cl_done c \<longrightarrow> cl_done c') \<and> (hub_closed h' \<longrightarrow> cl_done c')"
  shows "hub_ok h'"
proof -
  have t: "table_ok (clients h)" "table_ok (clients h')" using assms(1,2) by (auto simp: hub_ok_def table_ok_def)
  have l: "length (clients h') = length (clients h)" using assms(2) by (metis length_map)
  have "length (live_of u (clients h')) \<le> maxHubClientsPerUser" for u
    using live_of_mono [OF assms(2) t(1), of u] assms(1,4) by (meson hub_ok_def le_trans)
  then show ?thesis using assms t l unfolding hub_ok_def by (metis (no_types, lifting))
qed

lemma hub_ok_new: "hub_ok new_hub"
  by (simp add: hub_ok_def new_hub_def live_of_def)

lemma hub_ok_row: "hub_ok h \<Longrightarrow> row (clients h) i = Some c \<Longrightarrow> client_ok c"
  by (simp add: hub_ok_def)

lemma broadcast_locked_ok:
  assumes "hub_ok h"
  obtains h' where "broadcast_locked msg ex h = Some h'" "hub_ok h'" "last_id h' = last_id h" "hub_closed h' = hub_closed h"
    "\<And>i. row (clients h') i = (case row (clients h) i of None \<Rightarrow> None | Some c \<Rightarrow> if i = ex then Some c else offer msg c)"
proof -
  have t: "table_ok (clients h)" using assms by (simp add: hub_ok_def)
  have "offer msg c \<noteq> None" if c: "(i, c) \<in> set (clients h)" for i c
  proof -
    obtain c' where "offer msg c = Some c'" by (rule offer_ok [OF hub_ok_row [OF assms in_row [OF t c]]])
    then show ?thesis by simp
  qed
  then obtain t' where t': "offer_all msg ex (clients h) = Some t'" using offer_all_total [of "clients h" msg ex] by blast
  let ?h = "h\<lparr>clients := t'\<rparr>"
  have r: "row (clients ?h) i = (case row (clients h) i of None \<Rightarrow> None | Some c \<Rightarrow> if i = ex then Some c else offer msg c)" for i
    using offer_all_row [OF t'] by simp
  have "hub_ok ?h"
  proof (rule hub_ok_change [OF assms])
    fix i c' assume c': "row (clients ?h) i = Some c'"
    then obtain c where c: "row (clients h) i = Some c" using r [of i] by (auto split: option.splits)
    obtain c2 where c2: "offer msg c = Some c2" "client_ok c2" "cl_user c2 = cl_user c" "cl_done c \<Longrightarrow> c2 = c"
      by (rule offer_ok [OF hub_ok_row [OF assms c], of msg]) blast
    have "hub_closed h \<longrightarrow> cl_done c" using assms c by (auto simp: hub_ok_def)
    then show "\<exists>c. row (clients h) i = Some c \<and> client_ok c' \<and> cl_user c' = cl_user c \<and> (cl_done c \<longrightarrow> cl_done c') \<and>
        (hub_closed ?h \<longrightarrow> cl_done c')"
      using c c' r [of i] c2 hub_ok_row [OF assms c] by (cases "i = ex") auto
  qed (use offer_all_keys [OF t'] in simp_all)
  then show ?thesis using that [of ?h] t' r by (simp add: broadcast_locked_def)
qed

lemma disconnect_mono: "client_ok c \<Longrightarrow> cl_done c \<longrightarrow> cl_done (disconnect c)"
  by (simp add: disconnect_done)

lemma hub_ok_closed: "hub_ok h \<Longrightarrow> row (clients h) i = Some c \<Longrightarrow> hub_closed h \<Longrightarrow> cl_done c"
  by (simp add: hub_ok_def)

lemma revoke_user_ok:
  assumes "hub_ok h"
  shows "hub_ok (revoke_user user h)"
  by (rule hub_ok_change [OF assms])
    (auto simp: revoke_user_def disconnect_done hub_ok_row [OF assms] hub_ok_closed [OF assms])

lemma hub_close_ok:
  assumes "hub_ok h"
  shows "hub_ok (hub_close h)"
  by (rule hub_ok_change [OF assms])
    (auto simp: hub_close_def disconnect_done hub_ok_row [OF assms] hub_ok_closed [OF assms] split: if_splits)

lemma keys_modify: "map fst (modify k f t) = map fst t"
proof (cases "row t k")
  case (Some r)
  then have "k \<in> fst ` set t" by (force dest: row_in)
  then have "map fst (put k x t) = map fst t" for x
    by (induction t) (auto simp: put_def)
  then show ?thesis by (simp add: modify_def Some)
qed (simp add: modify_def)

lemma pop_client_ok: "client_ok c \<Longrightarrow> client_ok (c\<lparr>cl_queue := tl (cl_queue c)\<rparr>)"
  by (auto simp: client_ok_def)

lemma pop_queue_ok:
  assumes "hub_ok h"
  shows "hub_ok (pop_queue i h)"
  by (rule hub_ok_change [OF assms])
    (auto simp: pop_queue_def keys_modify pop_client_ok hub_ok_row [OF assms] hub_ok_closed [OF assms] split: if_splits)

lemma live_of_del: "length (live_of u (del p t)) \<le> length (live_of u t)"
  by (induction t) (auto simp: live_of_def del_def)

lemma remove_locked_ok:
  assumes "hub_ok h" "remove_locked i h = (h', msg)"
  shows "hub_ok h'" "last_id h' = last_id h" "hub_closed h' = hub_closed h"
    "row (clients h') k = (if k = i then None else row (clients h) k)"
proof -
  have "hub_ok h' \<and> last_id h' = last_id h \<and> hub_closed h' = hub_closed h \<and>
      row (clients h') k = (if k = i then None else row (clients h) k)"
  proof (cases "row (clients h) i")
    case (Some c)
    then have h': "h' = h\<lparr>clients := del (\<lambda>k. k = i) (clients h)\<rparr>" using assms(2) by (simp add: remove_locked_def Let_def)
    have "length (clients h') \<le> length (clients h)" by (simp add: h' del_def)
    moreover have "length (live_of u (clients h')) \<le> maxHubClientsPerUser" for u
      using live_of_del [of u "\<lambda>k. k = i" "clients h"] assms(1) by (auto simp: h' hub_ok_def intro: le_trans)
    ultimately show ?thesis using assms(1) by (auto simp: h' hub_ok_def)
  qed (use assms in \<open>auto simp: remove_locked_def\<close>)
  then show "hub_ok h'" "last_id h' = last_id h" "hub_closed h' = hub_closed h"
    "row (clients h') k = (if k = i then None else row (clients h) k)" by blast+
qed

lemma live_of_put:
  assumes "row t i = None"
  shows "live_of u (put i c t) = live_of u t @ (if cl_user c = u \<and> \<not> cl_done c then [(i, c)] else [])"
proof -
  have "put i c t = t @ [(i, c)]" using assms unfolding put_def row_def by (induction t) (auto split: if_splits)
  then show ?thesis by (simp add: live_of_def)
qed

lemma length_put_new: "row t i = None \<Longrightarrow> length (put i c t) = length t + 1"
  unfolding put_def row_def by (induction t) (auto split: if_splits)

lemma add_with_abort_ok:
  assumes "hub_ok h" "add_with_abort user ab h = Inr (i, users, first, h')" "unat (last_id h) + 1 < 2 ^ 64"
  shows "hub_ok h'" "unat i = unat (last_id h) + 1" "last_id h' = i" "row (clients h) i = None" "\<not> hub_closed h"
    "row (clients h') k = (if k = i then Some \<lparr>cl_user = user, cl_queue = [], cl_done = False, cl_has_abort = ab,
       cl_aborts = 0, cl_ch_closed = False, cl_once = False\<rparr> else row (clients h) k)"
    "users = online_users h'" "hub_closed h' = hub_closed h"
proof -
  let ?c = "\<lparr>cl_user = user, cl_queue = [], cl_done = False, cl_has_abort = ab, cl_aborts = 0, cl_ch_closed = False, cl_once = False\<rparr>"
  have a: "\<not> hub_closed h" "length (clients h) < maxHubClients" "length (live_of user (clients h)) < maxHubClientsPerUser"
    "i = last_id h + 1" "users = online_users h'" "h' = h\<lparr>last_id := i, clients := put i ?c (clients h)\<rparr>"
    using assms(2) by (auto simp: add_with_abort_def Let_def split: if_splits)
  have u: "unat i = unat (last_id h) + 1" using assms(3) a(4) by (simp add: unat_word_ariths)
  have n: "row (clients h) i = None"
    using assms(1) u by (cases "row (clients h) i") (fastforce simp: hub_ok_def)+
  have "length (live_of v (clients h')) \<le> maxHubClientsPerUser" for v
    using a(3) assms(1) by (auto simp: a(6) live_of_put [OF n] hub_ok_def)
  moreover have "client_ok ?c" by (simp add: client_ok_def)
  ultimately have "hub_ok h'"
    using assms(1) a(1,2) u length_put_new [OF n] by (force simp: a(6) hub_ok_def)
  then show "hub_ok h'" "unat i = unat (last_id h) + 1" "last_id h' = i" "row (clients h) i = None" "\<not> hub_closed h"
    "row (clients h') k = (if k = i then Some ?c else row (clients h) k)" "users = online_users h'"
    "hub_closed h' = hub_closed h"
    using u n a by simp_all
qed

section \<open>What every stream has been given\<close>

text \<open>What was broadcast to a connection since it joined, and the message its handler holds.\<close>

definition owed :: "(message \<times> client_id) list \<Rightarrow> client_id \<Rightarrow> conn \<Rightarrow> message list" where
  "owed pub i c = map fst (filter (\<lambda>(m, ex). ex \<noteq> i) (drop (cn_joined_at c) pub))"

definition in_hand :: "conn_phase \<Rightarrow> message list" where
  "in_hand p = (case p of Holding m \<Rightarrow> [m] | Writing m \<Rightarrow> [m] | _ \<Rightarrow> [])"

definition removed_phase :: "conn_phase \<Rightarrow> bool" where
  "removed_phase p \<longleftrightarrow> p = Gone \<or> (\<exists>m. p = Farewell m)"

definition conn_ok :: "(message \<times> client_id) list \<Rightarrow> client option \<Rightarrow> client_id \<Rightarrow> conn \<Rightarrow> bool" where
  "conn_ok pub cl i c \<longleftrightarrow> cn_joined_at c \<le> length pub \<and> prefix (cn_written c @ in_hand (cn_phase c)) (owed pub i c) \<and>
     (case cl of None \<Rightarrow> removed_phase (cn_phase c)
      | Some x \<Rightarrow> cl_user x = cn_user c \<and> \<not> removed_phase (cn_phase c) \<and>
          (cn_phase c \<noteq> Leaving \<longrightarrow>
             prefix (cn_written c @ in_hand (cn_phase c) @ cl_queue x) (owed pub i c) \<and>
             (\<not> cl_done x \<longrightarrow> cn_written c @ in_hand (cn_phase c) @ cl_queue x = owed pub i c)))"

definition sse_inv :: "sse \<Rightarrow> bool" where
  "sse_inv s \<longleftrightarrow> hub_ok (the_hub s) \<and> \<not> hub_panicked s \<and>
     (\<forall>i c. row (conns s) i = Some c \<longrightarrow>
        conn_ok (published s) (row (clients (the_hub s)) i) i c \<and> unat i \<le> unat (last_id (the_hub s))) \<and>
     (\<forall>i. row (conns s) i = None \<longrightarrow> row (clients (the_hub s)) i = None)"

lemma owed_publish:
  "cn_joined_at c \<le> length pub \<Longrightarrow> owed (pub @ [(m, ex)]) i c = owed pub i c @ (if ex = i then [] else [m])"
  by (simp add: owed_def)

lemma owed_cong: "cn_joined_at c' = cn_joined_at c \<Longrightarrow> owed pub i c' = owed pub i c"
  by (simp add: owed_def)

lemma in_hand_simps [simp]:
  "in_hand (Greeting us f) = []" "in_hand Announcing = []" "in_hand Top = []" "in_hand Selecting = []"
  "in_hand (Holding m) = [m]" "in_hand (Writing m) = [m]" "in_hand Leaving = []" "in_hand (Farewell m) = []" "in_hand Gone = []"
  by (simp_all add: in_hand_def)

lemma removed_phase_simps [simp]:
  "\<not> removed_phase (Greeting us f)" "\<not> removed_phase Announcing" "\<not> removed_phase Top" "\<not> removed_phase Selecting"
  "\<not> removed_phase (Holding m)" "\<not> removed_phase (Writing m)" "\<not> removed_phase Leaving" "removed_phase (Farewell m)" "removed_phase Gone"
  by (simp_all add: removed_phase_def)

lemma prefix_snoc_right: "prefix xs ys \<Longrightarrow> prefix xs (ys @ zs)"
  by (auto simp: prefix_def)

lemma conn_ok_publish:
  assumes "conn_ok pub cl i c"
    and "cl' = (case cl of None \<Rightarrow> None | Some x \<Rightarrow> if i = ex then Some x else offer m x)"
    and "\<And>x. cl = Some x \<Longrightarrow> client_ok x"
  shows "conn_ok (pub @ [(m, ex)]) cl' i c"
proof (cases cl)
  case None
  then show ?thesis using assms(1,2) by (auto simp: conn_ok_def owed_publish prefix_snoc_right)
next
  case (Some x)
  show ?thesis
  proof (cases "i = ex")
    case True
    then show ?thesis using assms(1,2) Some by (auto simp: conn_ok_def owed_publish)
  next
    case False
    obtain x' where x': "offer m x = Some x'" "cl_user x' = cl_user x" "cl_done x \<Longrightarrow> x' = x"
      "\<not> cl_done x' \<Longrightarrow> cl_queue x' = cl_queue x @ [m]" "cl_queue x' = cl_queue x \<or> cl_queue x' = cl_queue x @ [m]"
      by (rule offer_ok [OF assms(3) [OF Some], of m]) blast
    have e: "cl' = Some x'" "ex \<noteq> i" using assms(2) Some False x'(1) by auto
    have o: "owed (pub @ [(m, ex)]) i c = owed pub i c @ [m]"
      using assms(1) e(2) by (simp add: conn_ok_def owed_publish)
    show ?thesis
    proof (cases "cl_done x")
      case True
      then show ?thesis using assms(1) Some e(1) x'(3) by (auto simp: conn_ok_def o prefix_snoc_right)
    next
      case live: False
      then have "cn_phase c \<noteq> Leaving \<longrightarrow> cn_written c @ in_hand (cn_phase c) @ cl_queue x = owed pub i c"
        using assms(1) Some by (simp add: conn_ok_def)
      then have "cn_phase c \<noteq> Leaving \<longrightarrow> cn_written c @ in_hand (cn_phase c) @ cl_queue x @ [m] = owed pub i c @ [m]"
        by (metis append_assoc)
      then have "cn_phase c \<noteq> Leaving \<longrightarrow>
          prefix (cn_written c @ in_hand (cn_phase c) @ cl_queue x') (owed pub i c @ [m]) \<and>
          (\<not> cl_done x' \<longrightarrow> cn_written c @ in_hand (cn_phase c) @ cl_queue x' = owed pub i c @ [m])"
        using x'(4,5) \<open>cn_phase c \<noteq> Leaving \<longrightarrow> cn_written c @ in_hand (cn_phase c) @ cl_queue x = owed pub i c\<close>
        by (metis prefix_order.refl prefix_snoc_right)
      then show ?thesis using assms(1) Some e(1) x'(2) by (auto simp: conn_ok_def o prefix_snoc_right)
    qed
  qed
qed

lemma publish_inv:
  assumes "sse_inv s"
  obtains h where "publish m ex s = s\<lparr>the_hub := h, published := published s @ [(m, ex)]\<rparr>"
    "sse_inv (publish m ex s)" "last_id h = last_id (the_hub s)"
    "\<And>i. row (clients h) i = (case row (clients (the_hub s)) i of None \<Rightarrow> None | Some c \<Rightarrow> if i = ex then Some c else offer m c)"
proof -
  have ok: "hub_ok (the_hub s)" using assms by (simp add: sse_inv_def)
  obtain h where h: "broadcast_locked m ex (the_hub s) = Some h" "hub_ok h" "last_id h = last_id (the_hub s)"
    "\<And>i. row (clients h) i = (case row (clients (the_hub s)) i of None \<Rightarrow> None | Some c \<Rightarrow> if i = ex then Some c else offer m c)"
    by (rule broadcast_locked_ok [OF ok]) blast
  let ?s = "s\<lparr>the_hub := h, published := published s @ [(m, ex)]\<rparr>"
  have p: "publish m ex s = ?s" by (simp add: publish_def h(1))
  have "sse_inv ?s"
    unfolding sse_inv_def
  proof (intro conjI allI impI)
    fix i c assume c: "row (conns ?s) i = Some c"
    then have "conn_ok (published s) (row (clients (the_hub s)) i) i c" using assms by (simp add: sse_inv_def)
    from conn_ok_publish [OF this h(4) hub_ok_row [OF ok]]
    show "conn_ok (published ?s) (row (clients (the_hub ?s)) i) i c" by simp
    show "unat i \<le> unat (last_id (the_hub ?s))" using assms c by (simp add: sse_inv_def h(3))
  next
    fix i assume "row (conns ?s) i = None"
    then show "row (clients (the_hub ?s)) i = None" using assms by (simp add: sse_inv_def h(4))
  qed (use h(2) assms in \<open>simp_all add: sse_inv_def\<close>)
  then show ?thesis using that h p by metis
qed

text \<open>A change of one connection that keeps the hub.\<close>

lemma at_conn_inv:
  assumes "sse_inv s" "row (conns s) i = Some c" "conn_ok (published s) (row (clients (the_hub s)) i) i (f c)"
  shows "sse_inv (at_conn i f s)"
  using assms unfolding sse_inv_def at_conn_def by auto

lemma goto_at_conn: "goto i p s = at_conn i (\<lambda>c. c\<lparr>cn_phase := p\<rparr>) s"
  by (simp add: goto_def at_conn_def)

lemma goto_inv:
  assumes "sse_inv s" "row (conns s) i = Some c" "conn_ok (published s) (row (clients (the_hub s)) i) i (c\<lparr>cn_phase := p\<rparr>)"
  shows "sse_inv (goto i p s)"
  unfolding goto_at_conn by (rule at_conn_inv [of s i c]) (use assms in simp_all)

lemma conn_ok_cong:
  assumes "cn_joined_at c' = cn_joined_at c" "cn_written c' = cn_written c" "cn_user c' = cn_user c"
  shows "conn_ok pub cl i c' = conn_ok pub cl i (c\<lparr>cn_phase := cn_phase c'\<rparr>)"
  using assms owed_cong [of c' c] owed_cong [of "c\<lparr>cn_phase := cn_phase c'\<rparr>" c]
  by (cases cl) (simp_all add: conn_ok_def)

lemma conn_ok_phase:
  assumes "conn_ok pub cl i c" "\<not> removed_phase (cn_phase c)" "\<not> removed_phase p"
    and "p = Leaving \<or> cn_phase c \<noteq> Leaving \<and> in_hand p = in_hand (cn_phase c)"
  shows "conn_ok pub cl i (c\<lparr>cn_phase := p\<rparr>)"
proof -
  have o: "owed pub i (c\<lparr>cn_phase := p\<rparr>) = owed pub i c" by (rule owed_cong) simp
  obtain x where x: "cl = Some x" using assms(1,2) by (cases cl) (auto simp: conn_ok_def)
  have w: "prefix (cn_written c) (owed pub i c)"
    using assms(1) by (auto simp: conn_ok_def elim: append_prefixD)
  then show ?thesis using assms x by (auto simp: conn_ok_def o)
qed

lemma wrote_conn_ok:
  assumes "conn_ok pub cl i c" "cn_phase c = Writing m"
  shows "conn_ok pub cl i (c\<lparr>cn_written := cn_written c @ [m], cn_phase := Top\<rparr>)"
proof -
  have o: "owed pub i (c\<lparr>cn_written := cn_written c @ [m], cn_phase := Top\<rparr>) = owed pub i c" by (rule owed_cong) simp
  show ?thesis using assms by (auto simp: conn_ok_def o split: option.splits)
qed

lemma phase_at_row: "phase_at s i = Some p \<Longrightarrow> \<exists>c. row (conns s) i = Some c \<and> cn_phase c = p"
  by (auto simp: phase_at_def)

lemma inv_conn: "sse_inv s \<Longrightarrow> row (conns s) i = Some c \<Longrightarrow> conn_ok (published s) (row (clients (the_hub s)) i) i c"
  by (simp add: sse_inv_def)

lemma inv_hub: "sse_inv s \<Longrightarrow> hub_ok (the_hub s)"
  by (simp add: sse_inv_def)

text \<open>A step of a handler that stays between joining and \<open>remove\<close>.\<close>

lemma phase_inv:
  assumes "sse_inv s" "row (conns s) i = Some c" "\<not> removed_phase (cn_phase c)" "\<not> removed_phase (cn_phase (f c))"
    and "cn_joined_at (f c) = cn_joined_at c" "cn_written (f c) = cn_written c" "cn_user (f c) = cn_user c"
    and "cn_phase (f c) = Leaving \<or> cn_phase c \<noteq> Leaving \<and> in_hand (cn_phase (f c)) = in_hand (cn_phase c)"
  shows "sse_inv (at_conn i f s)"
proof (rule at_conn_inv [OF assms(1,2)])
  show "conn_ok (published s) (row (clients (the_hub s)) i) i (f c)"
    unfolding conn_ok_cong [OF assms(5-7)]
    by (rule conn_ok_phase [OF inv_conn [OF assms(1,2)] assms(3,4,8)])
qed

text \<open>A change of the hub that keeps the queues and only disconnects.\<close>

lemma disconnects_inv:
  assumes "sse_inv s" "hub_ok h" "last_id h = last_id (the_hub s)"
    and "\<And>i. row (clients h) i = map_option (\<lambda>c. if P c then disconnect c else c) (row (clients (the_hub s)) i)"
  shows "sse_inv (s\<lparr>the_hub := h\<rparr>)"
proof -
  have "conn_ok (published s) (row (clients h) i) i c" if c: "row (conns s) i = Some c" for i c
  proof (cases "row (clients (the_hub s)) i")
    case None
    then show ?thesis using inv_conn [OF assms(1) c] assms(4) [of i] by simp
  next
    case (Some x)
    have "cl_done (disconnect x)" by (rule disconnect_done [OF hub_ok_row [OF inv_hub [OF assms(1)] Some]])
    then show ?thesis using inv_conn [OF assms(1) c] assms(4) [of i] Some by (auto simp: conn_ok_def)
  qed
  moreover have "row (conns s) i = None \<Longrightarrow> row (clients h) i = None" for i
    using assms(1,4) by (simp add: sse_inv_def)
  ultimately show ?thesis using assms(1-3) by (simp add: sse_inv_def)
qed

lemma connect_inv:
  assumes "sse_inv s" "add_with_abort user True (the_hub s) = Inr (i, users, first, h)"
    and "unat (last_id (the_hub s)) + 1 < 2 ^ 64"
  shows "sse_inv (s\<lparr>the_hub := h, conns := put i \<lparr>cn_user = user, cn_phase = Greeting users first, cn_greeting = [],
      cn_written = [], cn_pings = 0, cn_joined_at = length (published s)\<rparr> (conns s)\<rparr>)"
proof -
  note a = add_with_abort_ok [OF inv_hub [OF assms(1)] assms(2,3)]
  have k: "conn_ok (published s) (row (clients h) k) k c \<and> unat k \<le> unat (last_id h)"
    if c: "row (conns s) k = Some c" "k \<noteq> i" for k c
  proof -
    have "conn_ok (published s) (row (clients (the_hub s)) k) k c \<and> unat k \<le> unat (last_id (the_hub s))"
      using assms(1) c(1) by (simp add: sse_inv_def)
    then show ?thesis using a(2,3) a(6) [of k] c(2) by simp
  qed
  have "row (clients h) k = None" if "row (conns s) k = None" "k \<noteq> i" for k
    using assms(1) that a(6) [of k] by (simp add: sse_inv_def)
  then show ?thesis using k a(1,3) a(6) [of i] assms(1) by (auto simp: sse_inv_def conn_ok_def owed_def)
qed

lemma receive_inv:
  assumes "sse_inv s" "row (conns s) i = Some c" "cn_phase c = Selecting"
    and "row (clients (the_hub s)) i = Some cl" "cl_queue cl = m # ms"
  shows "sse_inv (goto i (Holding m) (s\<lparr>the_hub := pop_queue i (the_hub s)\<rparr>))"
proof -
  have r: "row (clients (pop_queue i (the_hub s))) k =
      (if k = i then Some (cl\<lparr>cl_queue := ms\<rparr>) else row (clients (the_hub s)) k)" for k
    using assms(4,5) by (simp add: pop_queue_def)
  have o: "owed pub i (c\<lparr>cn_phase := Holding m\<rparr>) = owed pub i c" for pub by (rule owed_cong) simp
  have "conn_ok (published s) (Some (cl\<lparr>cl_queue := ms\<rparr>)) i (c\<lparr>cn_phase := Holding m\<rparr>)"
    using inv_conn [OF assms(1,2)] assms(3-5)
    by (auto simp: conn_ok_def o intro: append_prefixD [of "cn_written c @ [m]" ms])
  then show ?thesis
    using assms(1,2) pop_queue_ok [OF inv_hub [OF assms(1)], of i] r
    unfolding sse_inv_def goto_def by (auto simp: pop_queue_def)
qed

lemma leave_inv:
  assumes "sse_inv s" "row (conns s) i = Some c" "cn_phase c = Leaving" "remove_locked i (the_hub s) = (h, msg)"
    and "removed_phase p"
  shows "sse_inv (goto i p (s\<lparr>the_hub := h\<rparr>))"
proof -
  note r = remove_locked_ok [OF inv_hub [OF assms(1)] assms(4)]
  have o: "owed pub i (c\<lparr>cn_phase := p\<rparr>) = owed pub i c" for pub by (rule owed_cong) simp
  have h: "in_hand p = []" using assms(5) by (auto simp: removed_phase_def)
  have "conn_ok (published s) None i (c\<lparr>cn_phase := p\<rparr>)"
    using inv_conn [OF assms(1,2)] assms(3,5) by (auto simp: conn_ok_def o h)
  then show ?thesis using assms(1,2) r unfolding sse_inv_def goto_def by auto
qed

lemma sse_inv_init: "sse_inv init_sse"
  by (simp add: sse_inv_def init_sse_def hub_ok_new) (simp add: new_hub_def)

lemma sse_step_inv: "sse_step s t \<Longrightarrow> sse_inv s \<Longrightarrow> sse_inv t"
proof (induction rule: sse_step.induct)
  case (connect user s i users first h)
  then show ?case by (intro connect_inv)
next
  case (greet s i c users first wants initial)
  show ?case by (rule phase_inv [OF greet.prems greet.hyps(1)]) (simp_all add: greet.hyps(2))
next
  case (greet_fails s i c users first k wants initial)
  show ?case by (rule phase_inv [OF greet_fails.prems greet_fails.hyps(1)]) (simp_all add: greet_fails.hyps(2))
next
  case (announce s i c)
  let ?t = "if hub_closed (the_hub s) then s else publish (joined_message (cn_user c) (the_hub s)) i s"
  obtain h where h: "publish (joined_message (cn_user c) (the_hub s)) i s =
      s\<lparr>the_hub := h, published := published s @ [(joined_message (cn_user c) (the_hub s), i)]\<rparr>"
    "sse_inv (publish (joined_message (cn_user c) (the_hub s)) i s)"
    by (rule publish_inv [OF announce.prems]) blast
  then have "sse_inv ?t" "row (conns ?t) i = Some c" using announce by simp_all
  then show ?case unfolding goto_at_conn by (rule phase_inv) (simp_all add: announce.hyps(2))
next
  case (select s i)
  then obtain c where c: "row (conns s) i = Some c" "cn_phase c = Top" using phase_at_row by blast
  show ?case unfolding goto_at_conn by (rule phase_inv [OF select.prems c(1)]) (simp_all add: c(2))
next
  case (ping s i)
  then obtain c where c: "row (conns s) i = Some c" "cn_phase c = Selecting" using phase_at_row by blast
  show ?case by (rule phase_inv [OF ping.prems c(1)]) (simp_all add: c(2))
next
  case (receive s i cl m ms)
  then obtain c where "row (conns s) i = Some c" "cn_phase c = Selecting" using phase_at_row by blast
  then show ?case using receive by (intro receive_inv)
next
  case (check s i m)
  then obtain c where c: "row (conns s) i = Some c" "cn_phase c = Holding m" using phase_at_row by blast
  show ?case unfolding goto_at_conn by (rule phase_inv [OF check.prems c(1)]) (simp_all add: c(2))
next
  case (wrote s i m)
  then obtain c where c: "row (conns s) i = Some c" "cn_phase c = Writing m" using phase_at_row by blast
  show ?case by (rule at_conn_inv [OF wrote.prems c(1)], rule wrote_conn_ok [OF inv_conn [OF wrote.prems c(1)] c(2)])
next
  case (quit s i p)
  then obtain c where c: "row (conns s) i = Some c" "cn_phase c = p" using phase_at_row by blast
  have "\<not> removed_phase p" using quit.hyps(2) by (auto simp: removed_phase_def)
  then show ?case unfolding goto_at_conn by (intro phase_inv [OF quit.prems c(1)]) (simp_all add: c(2))
next
  case (leave s i h msg)
  then obtain c where c: "row (conns s) i = Some c" "cn_phase c = Leaving" using phase_at_row by blast
  show ?case by (rule leave_inv [OF leave.prems c leave.hyps(2)]) (simp split: option.split)
next
  case (farewell s i m)
  then obtain c where c: "row (conns s) i = Some c" "cn_phase c = Farewell m" using phase_at_row by blast
  obtain h where h: "publish m 0 s = s\<lparr>the_hub := h, published := published s @ [(m, 0)]\<rparr>" "sse_inv (publish m 0 s)"
    by (rule publish_inv [OF farewell.prems]) blast
  have r: "row (conns (publish m 0 s)) i = Some c" using c h(1) by simp
  note k = inv_conn [OF h(2) r]
  show ?case
  proof (rule goto_inv [OF h(2) r])
    have o: "owed pub i (c\<lparr>cn_phase := Gone\<rparr>) = owed pub i c" for pub by (rule owed_cong) simp
    show "conn_ok (published (publish m 0 s)) (row (clients (the_hub (publish m 0 s))) i) i (c\<lparr>cn_phase := Gone\<rparr>)"
      using k c(2) by (cases "row (clients (the_hub (publish m 0 s))) i") (auto simp: conn_ok_def o)
  qed
next
  case (others s m)
  then show ?case by (metis publish_inv)
next
  case (revoke s user)
  then show ?case
    by (intro disconnects_inv [where P = "\<lambda>c. cl_user c = user"] revoke_user_ok inv_hub) (simp_all add: revoke_user_def)
next
  case (close s)
  then show ?case
    by (intro disconnects_inv [where P = "\<lambda>c. \<not> hub_once (the_hub s)"] hub_close_ok inv_hub)
      (auto simp: hub_close_def option.map_ident)
qed

lemma sse_reachable_inv: "sse_reachable s \<Longrightarrow> sse_inv s"
proof -
  have "sse_steps i t \<Longrightarrow> sse_inv i \<Longrightarrow> sse_inv t" for i t
    by (induction rule: sse_steps.induct) (auto intro: sse_step_inv)
  then show "sse_reachable s \<Longrightarrow> sse_inv s" using sse_inv_init by (auto simp: sse_reachable_def)
qed

lemma sse_steps_inv: "sse_steps s t \<Longrightarrow> sse_inv s \<Longrightarrow> sse_inv t"
  by (induction rule: sse_steps.induct) (auto intro: sse_step_inv)

lemma sse_steps_trans: "sse_steps t u \<Longrightarrow> sse_steps s t \<Longrightarrow> sse_steps s u"
  by (induction rule: sse_steps.induct) (auto intro: sse_more)

section \<open>A disconnected stream\<close>

text \<open>
  What a disconnected connection can still write: the rest of its greeting, the ping of the second
  \<open>select\<close>, or the message that is past the last check; and after any of them nothing.
\<close>

definition idle :: "conn \<Rightarrow> bool" where
  "idle c \<longleftrightarrow> (\<forall>users first. cn_phase c \<noteq> Greeting users first) \<and> cn_phase c \<noteq> Selecting \<and> (\<forall>m. cn_phase c \<noteq> Writing m)"

definition frames :: "conn \<Rightarrow> message list \<times> message list \<times> nat" where
  "frames c = (cn_greeting c, cn_written c, cn_pings c)"

fun last_output :: "conn_phase \<Rightarrow> string \<Rightarrow> message list \<times> message list \<times> nat \<Rightarrow> message list \<times> message list \<times> nat \<Rightarrow> bool" where
  "last_output (Writing m) user (g, w, n) out \<longleftrightarrow> out = (g, w @ [m], n)"
| "last_output Selecting user (g, w, n) out \<longleftrightarrow> out = (g, w, n + 1)"
| "last_output (Greeting users first) user (g, w, n) out \<longleftrightarrow> (\<exists>k wants initial. out = (take k (greeting user wants users initial), w, n))"
| "last_output _ user _ out \<longleftrightarrow> False"

definition ends_quietly :: "conn \<Rightarrow> conn \<Rightarrow> bool" where
  "ends_quietly c c' \<longleftrightarrow> cn_user c' = cn_user c \<and>
     (frames c' = frames c \<and> (cn_phase c' = cn_phase c \<or> idle c') \<or> idle c' \<and> last_output (cn_phase c) (cn_user c) (frames c) (frames c'))"

lemmas quiet_defs = ends_quietly_def frames_def idle_def

lemma idle_output: "idle c \<Longrightarrow> \<not> last_output (cn_phase c) user o1 o2"
  by (cases "(cn_phase c, user, o1, o2)" rule: last_output.cases) (auto simp: idle_def)

lemma idle_phase: "idle c \<Longrightarrow> cn_phase c' = cn_phase c \<Longrightarrow> idle c'"
  by (simp add: idle_def)

lemma ends_quietly_refl [simp]: "ends_quietly c c"
  by (simp add: ends_quietly_def)

lemma ends_quietly_trans: "ends_quietly a b \<Longrightarrow> ends_quietly b c \<Longrightarrow> ends_quietly a c"
  unfolding ends_quietly_def using idle_output [of b "cn_user b" "frames b" "frames c"] idle_phase [of b c] by auto

lemma is_done_at_conn [simp]: "is_done i (at_conn k f s) = is_done i s"
  by (simp add: is_done_def at_conn_def)

lemma row_at_conn [simp]:
  "row (conns (at_conn k f s)) i = (if i = k then map_option f (row (conns s) k) else row (conns s) i)"
  by (simp add: at_conn_def)

lemma quiet_at_conn:
  assumes "row (conns s) i = Some c" "i = k \<Longrightarrow> ends_quietly c (f c)"
  shows "\<exists>c'. row (conns (at_conn k f s)) i = Some c' \<and> ends_quietly c c'"
  using assms by auto

lemma is_done_publish:
  assumes "sse_inv s" "is_done i s"
  shows "is_done i (publish m ex s)"
proof -
  obtain h where h: "publish m ex s = s\<lparr>the_hub := h, published := published s @ [(m, ex)]\<rparr>"
    "\<And>i. row (clients h) i = (case row (clients (the_hub s)) i of None \<Rightarrow> None | Some c \<Rightarrow> if i = ex then Some c else offer m c)"
    by (rule publish_inv [OF assms(1)]) blast
  show ?thesis using assms(2) h(2) [of i]
    by (cases "row (clients (the_hub s)) i") (auto simp: is_done_def h(1) offer_def)
qed

lemma conns_publish [simp]: "conns (publish m ex s) = conns s"
  by (simp add: publish_def split: option.split)

lemma disconnected_step:
  assumes "sse_step s t" "sse_inv s" "row (conns s) i = Some c" "is_done i s"
  shows "is_done i t \<and> (\<exists>c'. row (conns t) i = Some c' \<and> ends_quietly c c')"
  using assms
proof (induction rule: sse_step.induct)
  case (connect user s k users first h)
  note a = add_with_abort_ok [OF inv_hub [OF connect.prems(1)] connect.hyps]
  have "unat i \<le> unat (last_id (the_hub s))" using connect.prems by (simp add: sse_inv_def)
  then have "i \<noteq> k" using a(2) by auto
  then show ?case using connect.prems a(6) [of i] by (simp add: is_done_def)
next
  case (greet s k d users first wants initial)
  have "last_output (cn_phase d) (cn_user d) (frames d) (greeting (cn_user d) wants users initial, cn_written d, cn_pings d)"
    using greet.hyps(2) by (auto simp: frames_def intro!: exI [of _ "length (greeting (cn_user d) wants users initial)"] exI [of _ wants] exI [of _ initial])
  then have "ends_quietly d (d\<lparr>cn_greeting := greeting (cn_user d) wants users initial,
      cn_phase := if cn_user d \<noteq> [] \<and> first then Announcing else Top\<rparr>)"
    by (simp add: ends_quietly_def idle_def) (auto simp: frames_def)
  then show ?case using greet quiet_at_conn [of s i c k] by auto
next
  case (greet_fails s k d users first n wants initial)
  have "last_output (cn_phase d) (cn_user d) (frames d) (take n (greeting (cn_user d) wants users initial), cn_written d, cn_pings d)"
    using greet_fails.hyps(2) by (auto simp: frames_def)
  then have "ends_quietly d (d\<lparr>cn_greeting := take n (greeting (cn_user d) wants users initial), cn_phase := Leaving\<rparr>)"
    by (simp add: ends_quietly_def idle_def) (simp add: frames_def)
  then show ?case using greet_fails quiet_at_conn [of s i c k] by auto
next
  case (announce s k d)
  then show ?case by (auto simp: goto_at_conn quiet_defs is_done_publish)
next
  case (select s k)
  then show ?case by (auto simp: goto_at_conn quiet_defs)
next
  case (ping s k)
  then show ?case by (auto simp: quiet_defs phase_at_def)
next
  case (receive s k cl m ms)
  have "is_done i (s\<lparr>the_hub := pop_queue k (the_hub s)\<rparr>)"
    using receive.prems(3) by (auto simp: is_done_def pop_queue_def split: option.splits)
  then show ?case using receive.prems by (auto simp: goto_at_conn quiet_defs)
next
  case (check s k m)
  then show ?case by (cases "i = k") (auto simp: goto_at_conn)
next
  case (wrote s k m)
  then show ?case by (auto simp: quiet_defs phase_at_def)
next
  case (quit s k p)
  then show ?case by (auto simp: goto_at_conn quiet_defs)
next
  case (leave s k h msg)
  have "is_done i (s\<lparr>the_hub := h\<rparr>)"
    using leave.prems(3) remove_locked_ok(4) [OF inv_hub [OF leave.prems(1)] leave.hyps(2), of i]
    by (auto simp: is_done_def)
  then show ?case using leave.prems by (auto simp: goto_at_conn quiet_defs split: option.split)
next
  case (farewell s k m)
  then show ?case by (auto simp: goto_at_conn quiet_defs is_done_publish)
next
  case (others s m)
  then show ?case by (auto simp: is_done_publish)
next
  case (revoke s user)
  then show ?case
    by (auto simp: is_done_def revoke_user_def disconnect_done [OF hub_ok_row [OF inv_hub]] split: option.splits)
next
  case (close s)
  then show ?case
    by (auto simp: is_done_def hub_close_def disconnect_done [OF hub_ok_row [OF inv_hub]] split: option.splits)
qed

lemma disconnected_steps:
  "sse_steps s t \<Longrightarrow> sse_inv s \<Longrightarrow> row (conns s) i = Some c \<Longrightarrow> is_done i s \<Longrightarrow>
   is_done i t \<and> (\<exists>c'. row (conns t) i = Some c' \<and> ends_quietly c c')"
proof (induction rule: sse_steps.induct)
  case (sse_more s t u)
  then obtain c' where "is_done i t" "row (conns t) i = Some c'" "ends_quietly c c'" by blast
  with disconnected_step [OF sse_more.hyps(2) sse_steps_inv [OF sse_more.hyps(1) sse_more.prems(1)]]
  show ?case by (blast intro: ends_quietly_trans)
qed auto

section \<open>A sample run\<close>

text \<open>
  The user \<open>a\<close> connects, leaves, and connects again before the first handler has broadcast that
  \<open>a\<close> left.
\<close>

definition joined_a :: message where
  "joined_a = \<lparr>m_event = EventPresenceJoined, m_data = Presence ''a'' [''a'']\<rparr>"

definition left_a :: message where
  "left_a = \<lparr>m_event = EventPresenceLeft, m_data = Presence ''a'' []\<rparr>"

definition demo_client :: "message list \<Rightarrow> client" where
  "demo_client q = \<lparr>cl_user = ''a'', cl_queue = q, cl_done = False, cl_has_abort = True, cl_aborts = 0,
     cl_ch_closed = False, cl_once = False\<rparr>"

definition demo_conn :: "conn_phase \<Rightarrow> message list \<Rightarrow> nat \<Rightarrow> conn" where
  "demo_conn p w at = \<lparr>cn_user = ''a'', cn_phase = p, cn_greeting = [], cn_written = w, cn_pings = 0, cn_joined_at = at\<rparr>"

definition demo_sse :: "(client_id, client) table \<Rightarrow> client_id \<Rightarrow> (client_id, conn) table \<Rightarrow> (message \<times> client_id) list \<Rightarrow> sse" where
  "demo_sse cs n ks pub = \<lparr>the_hub = \<lparr>clients = cs, last_id = n, hub_closed = False, hub_once = False\<rparr>,
     conns = ks, published = pub, hub_panicked = False\<rparr>"

definition stale_sse :: sse where
  "stale_sse = demo_sse [(2, demo_client [left_a])] 2 [(1, demo_conn Gone [] 0), (2, demo_conn Top [] 1)]
     [(joined_a, 1), (joined_a, 2), (left_a, 0)]"

lemmas demo_defs = demo_sse_def demo_client_def demo_conn_def joined_a_def left_a_def

lemmas demo_eval = at_conn_def goto_def modify_def row_def put_def del_def phase_at_def is_done_def publish_def
  broadcast_locked_def offer_def online_users_def live_of_def clientQueueSize_def Let_def

lemma demo_connect:
  "sse_step init_sse (demo_sse [(1, demo_client [])] 1 [(1, demo_conn (Greeting [''a''] True) [] 0)] [])"
  using sse_step.connect [of "''a''" init_sse 1 "[''a'']" True
      "the_hub (demo_sse [(1, demo_client [])] 1 [(1, demo_conn (Greeting [''a''] True) [] 0)] [])"]
  by (simp add: init_sse_def new_hub_def add_with_abort_def demo_defs demo_eval maxHubClients_def maxHubClientsPerUser_def)

lemma demo_reconnect:
  "sse_step (demo_sse [] 1 [(1, demo_conn (Farewell left_a) [] 0)] [(joined_a, 1)])
     (demo_sse [(2, demo_client [])] 2 [(1, demo_conn (Farewell left_a) [] 0), (2, demo_conn (Greeting [''a''] True) [] 1)] [(joined_a, 1)])"
  using sse_step.connect [of "''a''" "demo_sse [] 1 [(1, demo_conn (Farewell left_a) [] 0)] [(joined_a, 1)]" 2 "[''a'']" True
      "the_hub (demo_sse [(2, demo_client [])] 2 [] [])"]
  by (simp add: add_with_abort_def demo_defs demo_eval maxHubClients_def maxHubClientsPerUser_def)

lemma demo_greet:
  "row ks i = Some (demo_conn (Greeting [''a''] True) [] k) \<Longrightarrow>
   sse_step (demo_sse cs n ks pub) (demo_sse cs n (put i (demo_conn Announcing [] k) ks) pub)"
  using sse_step.greet [of "demo_sse cs n ks pub" i "demo_conn (Greeting [''a''] True) [] k" "[''a'']" True False "[]"]
  by (simp add: demo_sse_def demo_conn_def at_conn_def modify_def greeting_def)

lemma demo_announce:
  "row ks i = Some (demo_conn Announcing [] k) \<Longrightarrow>
   sse_step (demo_sse [(i, demo_client [])] n ks pub)
     (demo_sse [(i, demo_client [])] n (put i (demo_conn Top [] k) ks) (pub @ [(joined_a, i)]))"
  using sse_step.announce [of "demo_sse [(i, demo_client [])] n ks pub" i "demo_conn Announcing [] k"]
  by (simp add: demo_sse_def demo_conn_def demo_client_def goto_def modify_def joined_message_def joined_a_def
      publish_def broadcast_locked_def online_users_def)

lemma stale_reachable: "sse_reachable stale_sse"
proof -
  let ?s2 = "demo_sse [(1, demo_client [])] 1 [(1, demo_conn Announcing [] 0)] []"
  let ?s3 = "demo_sse [(1, demo_client [])] 1 [(1, demo_conn Top [] 0)] [(joined_a, 1)]"
  let ?s4 = "demo_sse [(1, demo_client [])] 1 [(1, demo_conn Leaving [] 0)] [(joined_a, 1)]"
  let ?s5 = "demo_sse [] 1 [(1, demo_conn (Farewell left_a) [] 0)] [(joined_a, 1)]"
  let ?s8 = "demo_sse [(2, demo_client [])] 2 [(1, demo_conn (Farewell left_a) [] 0), (2, demo_conn Top [] 1)]
      [(joined_a, 1), (joined_a, 2)]"
  have 2: "sse_steps init_sse ?s2"
    using sse_more [OF sse_more [OF sse_none demo_connect] demo_greet [of _ 1 0]] by (simp add: row_def put_def)
  have 3: "sse_steps init_sse ?s3" using sse_more [OF 2 demo_announce [of _ 1 0]] by (simp add: row_def put_def)
  have "sse_step ?s3 ?s4"
    using sse_step.quit [of ?s3 1 Top] by (simp add: demo_defs demo_eval)
  moreover have "sse_step ?s4 ?s5"
    using sse_step.leave [of ?s4 1 "the_hub ?s5" "Some left_a"]
    by (simp add: demo_defs demo_eval remove_locked_def contains_user_def)
  ultimately have 5: "sse_steps init_sse ?s5" using 3 by (blast intro: sse_more)
  have "sse_steps init_sse ?s8"
    using sse_more [OF sse_more [OF sse_more [OF 5 demo_reconnect] demo_greet [of _ 2 1]] demo_announce [of _ 2 1]]
    by (simp add: row_def put_def)
  moreover have "sse_step ?s8 stale_sse"
    using sse_step.farewell [of ?s8 1 left_a] by (simp add: stale_sse_def demo_defs demo_eval)
  ultimately show ?thesis unfolding sse_reachable_def by (rule sse_more)
qed

section \<open>Properties\<close>

text \<open>
  The limits hold in every run: no send on a closed channel, at most 128 connections and 8 live
  ones per user, at most 32 messages in a queue, each client cut off exactly once, and nobody live
  after \<open>Close\<close>.
\<close>

theorem hub_limits:
  assumes "sse_reachable s"
  shows "\<not> hub_panicked s \<and> client_count (the_hub s) \<le> 128 \<and>
    (\<forall>u. length (live_of u (clients (the_hub s))) \<le> 8) \<and>
    (\<forall>i c. row (clients (the_hub s)) i = Some c \<longrightarrow> length (cl_queue c) \<le> 32 \<and> cl_ch_closed c = cl_done c \<and>
       cl_aborts c = (if cl_done c \<and> cl_has_abort c then 1 else 0) \<and> (hub_closed (the_hub s) \<longrightarrow> cl_done c))"
proof -
  have "hub_ok (the_hub s)" "\<not> hub_panicked s" using sse_reachable_inv [OF assms] by (simp_all add: sse_inv_def)
  then show ?thesis
    by (simp add: hub_ok_def client_ok_def client_count_def maxHubClients_def maxHubClientsPerUser_def clientQueueSize_def)
qed

lemma hub_limits_witness:
  "sse_reachable stale_sse \<and> client_count (the_hub stale_sse) \<le> 128"
  using stale_reachable hub_limits [OF stale_reachable] by blast

text \<open>
  C8:
  No message is lost silently. What a connection has written, holds and has in its queue is exactly
  what was broadcast since it joined, in order, as long as it is live; a connection that was cut
  off has written a prefix of it.
\<close>

theorem live_stream_exact:
  assumes "sse_reachable s" "row (conns s) i = Some c"
  shows "prefix (cn_written c) (owed (published s) i c) \<and>
    (\<forall>cl. row (clients (the_hub s)) i = Some cl \<and> \<not> cl_done cl \<and> cn_phase c \<noteq> Leaving \<longrightarrow>
       cn_written c @ in_hand (cn_phase c) @ cl_queue cl = owed (published s) i c)"
  using inv_conn [OF sse_reachable_inv [OF assms(1)] assms(2)] by (auto simp: conn_ok_def dest: append_prefixD)

lemma live_stream_exact_witness:
  "sse_reachable stale_sse \<and> row (conns stale_sse) 2 = Some (demo_conn Top [] 1) \<and>
   owed (published stale_sse) 2 (demo_conn Top [] 1) = [left_a]"
proof -
  have r: "row (conns stale_sse) 2 = Some (demo_conn Top [] 1)" by (simp add: stale_sse_def demo_sse_def row_def)
  have c: "row (clients (the_hub stale_sse)) 2 = Some (demo_client [left_a])"
    by (simp add: stale_sse_def demo_sse_def row_def)
  show ?thesis using stale_reachable r live_stream_exact [OF stale_reachable r] c
    by (simp add: demo_client_def demo_conn_def)
qed

text \<open>
  C21:
  A revoked or cut off stream ends: whatever the connections, the broadcasts and the scheduler do
  from then on, a connection in its greeting writes at most the rest of it, one that waits in the
  second \<open>select\<close> at most one ping, one that is past the last check at most the message it holds,
  and any other nothing at all.
\<close>

theorem disconnected_stream_ends:
  assumes "sse_reachable s" "row (conns s) i = Some c" "is_done i s" "sse_steps s t"
  shows "\<exists>c'. row (conns t) i = Some c' \<and>
    (case cn_phase c of
       Greeting users first \<Rightarrow> cn_written c' = cn_written c \<and> cn_pings c' = cn_pings c \<and>
         (cn_greeting c' = cn_greeting c \<or> (\<exists>k wants initial. cn_greeting c' = take k (greeting (cn_user c) wants users initial)))
     | Selecting \<Rightarrow> cn_greeting c' = cn_greeting c \<and> cn_written c' = cn_written c \<and> cn_pings c' \<le> cn_pings c + 1
     | Writing m \<Rightarrow> cn_greeting c' = cn_greeting c \<and> cn_pings c' = cn_pings c \<and>
         (cn_written c' = cn_written c \<or> cn_written c' = cn_written c @ [m])
     | _ \<Rightarrow> cn_greeting c' = cn_greeting c \<and> cn_written c' = cn_written c \<and> cn_pings c' = cn_pings c)"
proof -
  obtain c' where c': "row (conns t) i = Some c'" "ends_quietly c c'"
    using disconnected_steps [OF assms(4) sse_reachable_inv [OF assms(1)] assms(2,3)] by blast
  from c'(2) show ?thesis
    by (intro exI [of _ c'] conjI [OF c'(1)]) (cases "cn_phase c"; auto simp: ends_quietly_def frames_def)
qed

lemma disconnected_stream_ends_witness:
  "\<exists>c'. row (conns (goto 2 Leaving (stale_sse\<lparr>the_hub := revoke_user ''a'' (the_hub stale_sse)\<rparr>))) 2 = Some c' \<and>
     cn_written c' = [] \<and> cn_pings c' = 0"
proof -
  let ?s = "stale_sse\<lparr>the_hub := revoke_user ''a'' (the_hub stale_sse)\<rparr>"
  have s: "sse_reachable ?s"
    using stale_reachable sse_step.revoke unfolding sse_reachable_def by (rule sse_more)
  have r: "row (conns ?s) 2 = Some (demo_conn Top [] 1)" by (simp add: stale_sse_def demo_sse_def row_def)
  have d: "is_done 2 ?s"
    by (simp add: stale_sse_def demo_defs is_done_def revoke_user_def on_clients_def disconnect_def row_def)
  have "sse_step ?s (goto 2 Leaving ?s)"
    by (rule sse_step.quit [of _ _ Top]) (use r in \<open>simp_all add: phase_at_def demo_conn_def\<close>)
  then have t: "sse_steps ?s (goto 2 Leaving ?s)" by (rule sse_more [OF sse_none])
  show ?thesis using disconnected_stream_ends [OF s r d t] by (auto simp: demo_conn_def)
qed

text \<open>
  C39:
  The presence the consoles see can stay wrong: \<open>remove\<close> broadcasts that a user left after it has
  given up the lock, so in a run where the user reconnects in between every handler is at rest,
  the user is online, and the last broadcast says the user left and nobody is online.
\<close>

theorem presence_can_go_stale:
  "\<exists>s. sse_reachable s \<and> set (map (\<lambda>(i, c). cn_phase c) (conns s)) = {Gone, Top} \<and>
     online_users (the_hub s) = [''a''] \<and>
     last (published s) = (\<lparr>m_event = EventPresenceLeft, m_data = Presence ''a'' []\<rparr>, 0)"
proof (intro exI conjI)
  show "sse_reachable stale_sse" by (rule stale_reachable)
qed (simp_all add: stale_sse_def demo_defs online_users_def)

end
