(* ===== verification/Accounts.thy ===== *)
theory Accounts
  imports GoText
begin

text \<open>
  Accounts and tokens (\<open>auth/auth.go\<close>, \<open>auth/middleware.go\<close>): the users table with its unique
  names and ids that are never used again, every operation on it, token issue, refresh and
  verification, and the HTTP guards. bcrypt and the JWT library are parameters; what a login
  relies on of them are the named hypotheses \<open>bcrypt_checks\<close> and \<open>jwt_reads_back\<close>.
\<close>

section \<open>Users\<close>

definition RoleAdmin :: string where "RoleAdmin = ''admin''"
definition RoleEditor :: string where "RoleEditor = ''editor''"

definition valid_role :: "string \<Rightarrow> bool" where
  "valid_role r \<longleftrightarrow> r = RoleAdmin \<or> r = RoleEditor"

datatype auth_error =
    CredentialsRequired | PasswordRequired | WeakPassword | InvalidRole | HashFailed | UserExists
  | SetupComplete | UserNotFound | InvalidCreds | LastAdmin | WeakJWTSecret | DbFailed | SignFailed

text \<open>The row of an account, its id is the key; and the user the operations return.\<close>

record user_row =
  u_name :: string
  u_hash :: string
  u_role :: string
  u_created :: int
  u_version :: int

record user =
  usr_id :: int
  usr_name :: string
  usr_role :: string
  usr_created :: int
  usr_version :: int

text \<open>The table and the counter of AUTOINCREMENT, which only grows.\<close>

record accounts =
  users :: "(int, user_row) table"
  user_seq :: int

definition read_user :: "int \<Rightarrow> user_row \<Rightarrow> user" where
  "read_user i r = \<lparr>usr_id = i, usr_name = u_name r, usr_role = u_role r, usr_created = u_created r, usr_version = u_version r\<rparr>"

definition user_named :: "string \<Rightarrow> accounts \<Rightarrow> (int \<times> user_row) option" where
  "user_named name d = List.find (\<lambda>(i, r). u_name r = name) (users d)"

text \<open>\<open>UPDATE users SET ... WHERE ...\<close> and the number of rows it changed.\<close>

definition update_users :: "(int \<times> user_row \<Rightarrow> bool) \<Rightarrow> (user_row \<Rightarrow> user_row) \<Rightarrow> accounts \<Rightarrow> accounts \<times> nat" where
  "update_users p f d =
     (d\<lparr>users := map (\<lambda>(i, r). (i, if p (i, r) then f r else r)) (users d)\<rparr>, length (filter p (users d)))"

text \<open>\<open>INSERT INTO users\<close>: None where the name is taken; the id is one that was never used.\<close>

definition insert_user :: "string \<Rightarrow> string \<Rightarrow> string \<Rightarrow> int \<Rightarrow> accounts \<Rightarrow> (accounts \<times> int) option" where
  "insert_user name hash role now d =
     (if user_named name d \<noteq> None then None
      else Some (d\<lparr>users := users d @ [(user_seq d + 1, \<lparr>u_name = name, u_hash = hash, u_role = role, u_created = now, u_version = 1\<rparr>)],
                  user_seq := user_seq d + 1\<rparr>, user_seq d + 1))"

definition validate_password :: "string \<Rightarrow> auth_error option" where
  "validate_password password =
     (if length password < 12 \<or> 72 < length password \<or> length (runes password) < 12 then Some WeakPassword else None)"

definition validate_jwt_secret :: "string \<Rightarrow> auth_error option" where
  "validate_jwt_secret secret =
     (if length secret < 32 \<or> trim_space secret = ''replace-with-at-least-32-random-bytes'' then Some WeakJWTSecret else None)"

text \<open>\<open>generate\<close> is bcrypt with the salt it drew; None where it fails.\<close>

definition create_user ::
  "db_fate \<Rightarrow> (string \<Rightarrow> string option) \<Rightarrow> int \<Rightarrow> string \<Rightarrow> string \<Rightarrow> string \<Rightarrow> accounts \<Rightarrow> accounts \<times> (auth_error + user)" where
  "create_user fate generate now username password role d =
     (let username = trim_space username in
      if username = [] \<or> password = [] then (d, Inl CredentialsRequired)
      else case validate_password password of Some e \<Rightarrow> (d, Inl e) | None \<Rightarrow>
      if \<not> valid_role role then (d, Inl InvalidRole)
      else case generate password of None \<Rightarrow> (d, Inl HashFailed) | Some hash \<Rightarrow>
      if fate \<noteq> DbWorks then (d, Inl DbFailed)
      else case insert_user username hash role now d of None \<Rightarrow> (d, Inl UserExists)
      | Some (d', i) \<Rightarrow>
          (d', Inr \<lparr>usr_id = i, usr_name = username, usr_role = role, usr_created = now, usr_version = 1\<rparr>))"

definition create_first_admin ::
  "db_fate \<Rightarrow> (string \<Rightarrow> string option) \<Rightarrow> int \<Rightarrow> string \<Rightarrow> string \<Rightarrow> accounts \<Rightarrow> accounts \<times> (auth_error + user)" where
  "create_first_admin fate generate now username password d =
     (let username = trim_space username in
      if username = [] \<or> password = [] then (d, Inl CredentialsRequired)
      else case validate_password password of Some e \<Rightarrow> (d, Inl e) | None \<Rightarrow>
      case generate password of None \<Rightarrow> (d, Inl HashFailed) | Some hash \<Rightarrow>
      if fate = DbNoBegin then (d, Inl DbFailed)
      else if users d \<noteq> [] then (d, Inl SetupComplete)
      else if fate = DbNoExec then (d, Inl DbFailed)
      else case insert_user username hash RoleAdmin now d of None \<Rightarrow> (d, Inl DbFailed)
      | Some (d', i) \<Rightarrow>
          if fate = DbNoCommit then (d, Inl DbFailed)
          else (d', Inr \<lparr>usr_id = i, usr_name = username, usr_role = RoleAdmin, usr_created = now, usr_version = 1\<rparr>))"

definition list_users :: "accounts \<Rightarrow> auth_error + user list" where
  "list_users d =
     (if list_all (\<lambda>(i, r). valid_role (u_role r)) (users d)
      then Inr (sort_key usr_id (map (\<lambda>(i, r). read_user i r) (users d))) else Inl InvalidRole)"

definition set_password ::
  "db_fate \<Rightarrow> (string \<Rightarrow> string option) \<Rightarrow> string \<Rightarrow> string \<Rightarrow> accounts \<Rightarrow> accounts \<times> auth_error option" where
  "set_password fate generate username password d =
     (if password = [] then (d, Some PasswordRequired)
      else case validate_password password of Some e \<Rightarrow> (d, Some e) | None \<Rightarrow>
      case generate password of None \<Rightarrow> (d, Some HashFailed) | Some hash \<Rightarrow>
      if fate \<noteq> DbWorks then (d, Some DbFailed)
      else let (d', n) = update_users (\<lambda>(i, r). u_name r = username)
                 (\<lambda>r. r\<lparr>u_hash := hash, u_version := u_version r + 1\<rparr>) d in
        if n = 0 then (d', Some UserNotFound) else (d', None))"

definition admin_count :: "accounts \<Rightarrow> nat" where
  "admin_count d = length (filter (\<lambda>(i, r). u_role r = RoleAdmin) (users d))"

definition guard_last_admin :: "string \<Rightarrow> accounts \<Rightarrow> auth_error option" where
  "guard_last_admin username d =
     (case user_named username d of None \<Rightarrow> None
      | Some (i, r) \<Rightarrow>
          if u_role r \<noteq> RoleAdmin then None
          else if admin_count d \<le> 1 then Some LastAdmin else None)"

definition set_role :: "db_fate \<Rightarrow> string \<Rightarrow> string \<Rightarrow> accounts \<Rightarrow> accounts \<times> auth_error option" where
  "set_role fate username role d =
     (if \<not> valid_role role then (d, Some InvalidRole)
      else if fate = DbNoBegin then (d, Some DbFailed)
      else case (if role \<noteq> RoleAdmin then guard_last_admin username d else None) of Some e \<Rightarrow> (d, Some e) | None \<Rightarrow>
      if fate = DbNoExec then (d, Some DbFailed)
      else let (d', n) = update_users (\<lambda>(i, r). u_name r = username)
                 (\<lambda>r. r\<lparr>u_role := role, u_version := u_version r + 1\<rparr>) d in
        if n = 0 then (d, Some UserNotFound)
        else if fate = DbNoCommit then (d, Some DbFailed) else (d', None))"

definition delete_user :: "db_fate \<Rightarrow> string \<Rightarrow> accounts \<Rightarrow> accounts \<times> auth_error option" where
  "delete_user fate username d =
     (if fate = DbNoBegin then (d, Some DbFailed)
      else case guard_last_admin username d of Some e \<Rightarrow> (d, Some e) | None \<Rightarrow>
      if fate = DbNoExec then (d, Some DbFailed)
      else if user_named username d = None then (d, Some UserNotFound)
      else if fate = DbNoCommit then (d, Some DbFailed)
      else (d\<lparr>users := filter (\<lambda>(i, r). u_name r \<noteq> username) (users d)\<rparr>, None))"

definition count_users :: "accounts \<Rightarrow> nat" where
  "count_users d = length (users d)"

text \<open>None where every role is one of the two, otherwise the first offender by id.\<close>

definition validate_persisted_roles :: "accounts \<Rightarrow> (string \<times> string) option" where
  "validate_persisted_roles d =
     (case sort_key fst (filter (\<lambda>(i, r). \<not> valid_role (u_role r)) (users d)) of
        [] \<Rightarrow> None | (i, r) # _ \<Rightarrow> Some (u_name r, u_role r))"

text \<open>\<open>compare_hash hash password\<close> is bcrypt's comparison.\<close>

definition authenticate :: "(string \<Rightarrow> string \<Rightarrow> bool) \<Rightarrow> string \<Rightarrow> string \<Rightarrow> accounts \<Rightarrow> auth_error + user" where
  "authenticate compare_hash username password d =
     (case user_named (trim_space username) d of None \<Rightarrow> Inl InvalidCreds
      | Some (i, r) \<Rightarrow>
          if \<not> compare_hash (u_hash r) password then Inl InvalidCreds
          else if \<not> valid_role (u_role r) then Inl InvalidCreds
          else Inr (read_user i r))"

definition get_user :: "string \<Rightarrow> accounts \<Rightarrow> auth_error + user" where
  "get_user username d =
     (case user_named username d of None \<Rightarrow> Inl UserNotFound
      | Some (i, r) \<Rightarrow> if \<not> valid_role (u_role r) then Inl InvalidRole else Inr (read_user i r))"

section \<open>Tokens\<close>

record claims =
  c_uid :: int
  c_name :: string
  c_role :: string
  c_version :: int
  c_expires :: int
  c_issued :: int

text \<open>\<open>sign secret claims\<close> and \<open>parse secret now token\<close> are the JWT library with HS256.\<close>

definition issue_token ::
  "(string \<Rightarrow> claims \<Rightarrow> string option) \<Rightarrow> string \<Rightarrow> int \<Rightarrow> int \<Rightarrow> int \<Rightarrow> string \<Rightarrow> string \<Rightarrow> int \<Rightarrow> auth_error + (string \<times> int)" where
  "issue_token sign secret ttl now uid username role version =
     (if \<not> valid_role role then Inl InvalidRole
      else case validate_jwt_secret secret of Some e \<Rightarrow> Inl e | None \<Rightarrow>
        (case sign secret \<lparr>c_uid = uid, c_name = username, c_role = role, c_version = version,
                c_expires = now + ttl, c_issued = now\<rparr> of
           None \<Rightarrow> Inl SignFailed | Some token \<Rightarrow> Inr (token, now + ttl)))"

definition issue_user_token ::
  "(string \<Rightarrow> claims \<Rightarrow> string option) \<Rightarrow> string \<Rightarrow> int \<Rightarrow> int \<Rightarrow> user option \<Rightarrow> auth_error + (string \<times> int)" where
  "issue_user_token sign secret ttl now u =
     (case u of None \<Rightarrow> Inl InvalidRole
      | Some u \<Rightarrow> if \<not> valid_role (usr_role u) then Inl InvalidRole
          else issue_token sign secret ttl now (usr_id u) (usr_name u) (usr_role u) (usr_version u))"

definition refresh_token ::
  "db_fate \<Rightarrow> (string \<Rightarrow> claims \<Rightarrow> string option) \<Rightarrow> string \<Rightarrow> int \<Rightarrow> int \<Rightarrow> claims option \<Rightarrow> accounts \<Rightarrow>
   accounts \<times> (auth_error + (string \<times> int))" where
  "refresh_token fate sign secret ttl now c d =
     (case c of None \<Rightarrow> (d, Inl InvalidCreds)
      | Some c \<Rightarrow>
          if \<not> valid_role (c_role c) then (d, Inl InvalidCreds)
          else if fate = DbNoBegin \<or> fate = DbNoExec then (d, Inl DbFailed)
          else let (d', n) = update_users (\<lambda>(i, r). i = c_uid c \<and> u_name r = c_name c \<and> u_role r = c_role c \<and> u_version r = c_version c)
                     (\<lambda>r. r\<lparr>u_version := u_version r + 1\<rparr>) d in
            if n \<noteq> 1 then (d, Inl InvalidCreds)
            else (case issue_token sign secret ttl now (c_uid c) (c_name c) (c_role c) (c_version c + 1) of
                Inl e \<Rightarrow> (d, Inl e)
              | Inr t \<Rightarrow> if fate = DbNoCommit then (d, Inl DbFailed) else (d', Inr t)))"

text \<open>The check of the claims against the row of their user.\<close>

definition claims_current :: "claims \<Rightarrow> accounts \<Rightarrow> bool" where
  "claims_current c d \<longleftrightarrow>
     (case row (users d) (c_uid c) of None \<Rightarrow> False
      | Some r \<Rightarrow> valid_role (u_role r) \<and> u_name r = c_name c \<and> u_role r = c_role c \<and> u_version r = c_version c)"

definition verify_token ::
  "(string \<Rightarrow> int \<Rightarrow> string \<Rightarrow> claims option) \<Rightarrow> string \<Rightarrow> int \<Rightarrow> string \<Rightarrow> accounts \<Rightarrow> auth_error + claims" where
  "verify_token parse secret now token d =
     (if validate_jwt_secret secret \<noteq> None then Inl InvalidCreds
      else case parse secret now token of None \<Rightarrow> Inl InvalidCreds
      | Some c \<Rightarrow>
          if \<not> valid_role (c_role c) then Inl InvalidCreds
          else if \<not> claims_current c d then Inl InvalidCreds
          else Inr c)"

section \<open>The HTTP guards\<close>

definition lower :: "char \<Rightarrow> char" where
  "lower c = (if 65 \<le> byte c \<and> byte c \<le> 90 then char_of (byte c + 32) else c)"

text \<open>
  \<open>strings.EqualFold(scheme, "Bearer")\<close>: no letter of the word folds to one outside ASCII.
\<close>

definition is_bearer :: "string \<Rightarrow> bool" where
  "is_bearer scheme \<longleftrightarrow> map lower scheme = ''bearer''"

definition bearer_token :: "string \<Rightarrow> string" where
  "bearer_token header =
     (let h = trim_space header; scheme = takeWhile (\<lambda>c. c \<noteq> CHR '' '') h; token = drop (length scheme + 1) h in
      if CHR '' '' \<notin> set h \<or> \<not> is_bearer scheme \<or> token = [] \<or> CHR '' '' \<in> set token \<or> CHR 0x09 \<in> set token then []
      else token)"

datatype guard = Unauthorized | Forbidden | Passes claims

definition require_auth ::
  "(string \<Rightarrow> int \<Rightarrow> string \<Rightarrow> claims option) \<Rightarrow> string \<Rightarrow> int \<Rightarrow> string \<Rightarrow> accounts \<Rightarrow> guard" where
  "require_auth parse secret now header d =
     (case verify_token parse secret now (bearer_token header) d of Inl e \<Rightarrow> Unauthorized | Inr c \<Rightarrow> Passes c)"

definition require_admin ::
  "(string \<Rightarrow> int \<Rightarrow> string \<Rightarrow> claims option) \<Rightarrow> string \<Rightarrow> int \<Rightarrow> string \<Rightarrow> accounts \<Rightarrow> guard" where
  "require_admin parse secret now header d =
     (case require_auth parse secret now header d of
        Passes c \<Rightarrow> if c_role c \<noteq> RoleAdmin then Forbidden else Passes c | g \<Rightarrow> g)"

section \<open>Runs\<close>

text \<open>Everything that writes the table, with what bcrypt and the JWT library answered.\<close>

datatype account_op =
    CreateUser db_fate "string \<Rightarrow> string option" int string string string
  | CreateFirstAdmin db_fate "string \<Rightarrow> string option" int string string
  | SetPassword db_fate "string \<Rightarrow> string option" string string
  | SetRole db_fate string string
  | DeleteUser db_fate string
  | RefreshToken db_fate "string \<Rightarrow> claims \<Rightarrow> string option" string int int "claims option"

fun run_op :: "account_op \<Rightarrow> accounts \<Rightarrow> accounts" where
  "run_op (CreateUser fate generate now name password role) d = fst (create_user fate generate now name password role d)"
| "run_op (CreateFirstAdmin fate generate now name password) d = fst (create_first_admin fate generate now name password d)"
| "run_op (SetPassword fate generate name password) d = fst (set_password fate generate name password d)"
| "run_op (SetRole fate name role) d = fst (set_role fate name role d)"
| "run_op (DeleteUser fate name) d = fst (delete_user fate name d)"
| "run_op (RefreshToken fate sign secret ttl now c) d = fst (refresh_token fate sign secret ttl now c d)"

definition run_ops :: "account_op list \<Rightarrow> accounts \<Rightarrow> accounts" where
  "run_ops ops d = fold run_op ops d"

definition accounts_ok :: "accounts \<Rightarrow> bool" where
  "accounts_ok d \<longleftrightarrow> table_ok (users d) \<and> distinct (map (\<lambda>(i, r). u_name r) (users d)) \<and>
     (\<forall>i r. (i, r) \<in> set (users d) \<longrightarrow> i \<le> user_seq d)"

text \<open>
  What may become of an account: it is gone for good, or it keeps its name, and its version only
  grows; with the same version it has the same role.
\<close>

definition evolves :: "accounts \<Rightarrow> accounts \<Rightarrow> bool" where
  "evolves d d' \<longleftrightarrow> user_seq d \<le> user_seq d' \<and>
     (\<forall>i r'. row (users d') i = Some r' \<longrightarrow> user_seq d < i \<or>
        (\<exists>r. row (users d) i = Some r \<and> u_name r' = u_name r \<and> u_version r \<le> u_version r' \<and>
           (u_version r' = u_version r \<longrightarrow> u_role r' = u_role r)))"

lemma evolves_refl [simp]: "evolves d d"
  by (auto simp: evolves_def)

lemma evolves_trans: "evolves a b \<Longrightarrow> evolves b c \<Longrightarrow> evolves a c"
  unfolding evolves_def by (smt (verit, best))

lemma row_map: "row (map (\<lambda>(i, r). (i, f i r)) t) k = map_option (f k) (row t k)"
  by (induction t) (auto simp: row_def)

lemma row_filter: "table_ok t \<Longrightarrow> row (filter (\<lambda>(i, r). P r) t) k = (case row t k of None \<Rightarrow> None | Some r \<Rightarrow> if P r then Some r else None)"
proof (induction t)
  case (Cons x t)
  obtain i r where x: "x = (i, r)" by force
  have "table_ok t" "i \<notin> fst ` set t" using Cons.prems x by (auto simp: table_ok_def)
  moreover from this have "row t i = None" by (simp add: row_None_iff)
  ultimately show ?case using Cons.IH x by (auto simp: row_def)
qed simp

lemma update_users_keeps:
  assumes "accounts_ok d" "\<And>r. u_name (f r) = u_name r" "\<And>r. u_version (f r) = u_version r + 1"
  shows "accounts_ok (fst (update_users p f d))" "evolves d (fst (update_users p f d))"
proof -
  let ?g = "\<lambda>(i, r). (i, if p (i, r) then f r else r)"
  have m: "map fst (map ?g (users d)) = map fst (users d)"
    "map (\<lambda>(i, r). u_name r) (map ?g (users d)) = map (\<lambda>(i, r). u_name r) (users d)"
    using assms(2) by (auto simp: case_prod_beta)
  then have t: "table_ok (map ?g (users d))" "distinct (map (\<lambda>(i, r). u_name r) (map ?g (users d)))"
    unfolding table_ok_def m using assms(1) by (simp_all add: accounts_ok_def table_ok_def)
  have "i \<le> user_seq d" if "(i, r) \<in> set (map ?g (users d))" for i r
  proof -
    have "i \<in> set (map fst (users d))" unfolding m(1) [symmetric] using that by force
    then show ?thesis using assms(1) by (auto simp: accounts_ok_def)
  qed
  then show "accounts_ok (fst (update_users p f d))" using t by (simp add: accounts_ok_def update_users_def)
  show "evolves d (fst (update_users p f d))"
    using assms(2,3) by (auto simp: evolves_def update_users_def row_map [where f = "\<lambda>i r. if p (i, r) then f r else r"] split: if_splits)
qed

lemma filter_keeps:
  assumes "accounts_ok d"
  shows "accounts_ok (d\<lparr>users := filter (\<lambda>(i, r). P r) (users d)\<rparr>)" "evolves d (d\<lparr>users := filter (\<lambda>(i, r). P r) (users d)\<rparr>)"
proof -
  have t: "table_ok (users d)" using assms by (simp add: accounts_ok_def)
  have "table_ok (filter (\<lambda>(i, r). P r) (users d))" using t unfolding table_ok_def by (rule distinct_map_filter)
  moreover have "distinct (map (\<lambda>(i, r). u_name r) (filter (\<lambda>(i, r). P r) (users d)))"
    using assms unfolding accounts_ok_def by (blast intro: distinct_map_filter)
  ultimately show "accounts_ok (d\<lparr>users := filter (\<lambda>(i, r). P r) (users d)\<rparr>)" using assms by (auto simp: accounts_ok_def)
  show "evolves d (d\<lparr>users := filter (\<lambda>(i, r). P r) (users d)\<rparr>)"
    by (auto simp: evolves_def row_filter [OF t] split: option.splits if_splits)
qed

lemma user_named_None: "user_named name d = None \<longleftrightarrow> name \<notin> set (map (\<lambda>(i, r). u_name r) (users d))"
  by (auto simp: user_named_def find_None_iff)

lemma user_named_Some:
  assumes "user_named name d = Some (i, r)"
  shows "(i, r) \<in> set (users d)" "u_name r = name"
  using assms by (auto simp: user_named_def find_Some_iff) (metis nth_mem)

lemma insert_keeps:
  assumes "accounts_ok d" "insert_user name hash role now d = Some (d', i)"
  shows "accounts_ok d'" "evolves d d'" "i = user_seq d + 1"
    "users d' = users d @ [(i, \<lparr>u_name = name, u_hash = hash, u_role = role, u_created = now, u_version = 1\<rparr>)]"
    "user_named name d = None"
proof -
  let ?r = "\<lparr>u_name = name, u_hash = hash, u_role = role, u_created = now, u_version = 1\<rparr>"
  have n: "user_named name d = None" and d': "d' = d\<lparr>users := users d @ [(i, ?r)], user_seq := i\<rparr>" and i: "i = user_seq d + 1"
    using assms(2) by (cases "user_named name d", auto simp: insert_user_def)+
  have "i \<notin> fst ` set (users d)" using assms(1) i by (force simp: accounts_ok_def)
  then have t: "table_ok (users d')" and fresh: "row (users d) i = None"
    using assms(1) by (auto simp: d' accounts_ok_def table_ok_def row_None_iff)
  have r: "row (users d') k = (if k = i then Some ?r else row (users d) k)" for k
    using fresh by (auto simp: d' row_def map_add_def split: option.split)
  show "accounts_ok d'" using assms(1) n i t by (force simp: accounts_ok_def d' user_named_None)
  show "evolves d d'" using r i by (auto simp: evolves_def d')
  show "i = user_seq d + 1" "users d' = users d @ [(i, ?r)]" "user_named name d = None" using n d' i by simp_all
qed

lemma create_user_keeps:
  assumes "accounts_ok d"
  shows "accounts_ok (fst (create_user fate generate now name password role d)) \<and>
    evolves d (fst (create_user fate generate now name password role d))"
  using insert_keeps [OF assms] assms
  by (auto simp: create_user_def Let_def split: option.splits)

lemma create_first_admin_keeps:
  assumes "accounts_ok d"
  shows "accounts_ok (fst (create_first_admin fate generate now name password d)) \<and>
    evolves d (fst (create_first_admin fate generate now name password d))"
  using insert_keeps [OF assms] assms
  by (auto simp: create_first_admin_def Let_def split: option.splits)

lemma set_password_keeps:
  assumes "accounts_ok d"
  shows "accounts_ok (fst (set_password fate generate name password d)) \<and> evolves d (fst (set_password fate generate name password d))"
  using update_users_keeps [OF assms, of "\<lambda>r. r\<lparr>u_hash := h, u_version := u_version r + 1\<rparr>" for h] assms
  by (auto simp: set_password_def Let_def case_prod_beta split: option.splits)

lemma set_role_keeps:
  assumes "accounts_ok d"
  shows "accounts_ok (fst (set_role fate name role d)) \<and> evolves d (fst (set_role fate name role d))"
  using update_users_keeps [OF assms, of "\<lambda>r. r\<lparr>u_role := role, u_version := u_version r + 1\<rparr>"] assms
  by (auto simp: set_role_def Let_def case_prod_beta split: option.splits)

lemma delete_user_keeps:
  assumes "accounts_ok d"
  shows "accounts_ok (fst (delete_user fate name d)) \<and> evolves d (fst (delete_user fate name d))"
  using filter_keeps [OF assms, of "\<lambda>r. u_name r \<noteq> name"] assms
  by (auto simp: delete_user_def split: option.splits)

lemma refresh_token_keeps:
  assumes "accounts_ok d"
  shows "accounts_ok (fst (refresh_token fate sign secret ttl now c d)) \<and> evolves d (fst (refresh_token fate sign secret ttl now c d))"
  using update_users_keeps [OF assms, of "\<lambda>r. r\<lparr>u_version := u_version r + 1\<rparr>"] assms
  by (auto simp: refresh_token_def Let_def case_prod_beta split: option.splits sum.splits)

lemma run_op_keeps: "accounts_ok d \<Longrightarrow> accounts_ok (run_op opr d) \<and> evolves d (run_op opr d)"
  by (cases opr) (simp_all add: create_user_keeps create_first_admin_keeps set_password_keeps set_role_keeps
      delete_user_keeps refresh_token_keeps)

lemma run_ops_keeps: "accounts_ok d \<Longrightarrow> accounts_ok (run_ops ops d) \<and> evolves d (run_ops ops d)"
proof (induction ops arbitrary: d)
  case (Cons opr ops)
  then show ?case using run_op_keeps [OF Cons.prems, of opr] evolves_trans by (fastforce simp: run_ops_def)
qed (simp add: run_ops_def)

section \<open>The last administrator\<close>

definition has_admin :: "accounts \<Rightarrow> bool" where
  "has_admin d \<longleftrightarrow> (\<exists>i r. (i, r) \<in> set (users d) \<and> u_role r = RoleAdmin)"

lemma names_distinct:
  assumes "accounts_ok d" "(i, r) \<in> set (users d)" "(j, q) \<in> set (users d)" "u_name r = u_name q"
  shows "i = j \<and> r = q"
proof -
  have "distinct (map (\<lambda>(i, r). u_name r) (users d))" using assms(1) by (simp add: accounts_ok_def)
  then have "inj_on (\<lambda>(i, r). u_name r) (set (users d))" by (simp add: distinct_map)
  then have "(i, r) = (j, q)" using assms(2-4) by (intro inj_onD [where f = "\<lambda>(i, r). u_name r"]) simp_all
  then show ?thesis by simp
qed

lemma other_admin:
  assumes "accounts_ok d" "has_admin d" "guard_last_admin name d = None"
  obtains i r where "(i, r) \<in> set (users d)" "u_role r = RoleAdmin" "u_name r \<noteq> name"
proof (cases "\<exists>i r. (i, r) \<in> set (users d) \<and> u_role r = RoleAdmin \<and> u_name r \<noteq> name")
  case False
  let ?as = "filter (\<lambda>(i, r). u_role r = RoleAdmin) (users d)"
  obtain i r where r: "(i, r) \<in> set (users d)" "u_role r = RoleAdmin" "u_name r = name"
    using False assms(2) by (auto simp: has_admin_def)
  have d: "distinct (map (\<lambda>(i, r). u_name r) ?as)"
    using assms(1) by (simp add: accounts_ok_def distinct_map_filter)
  have "set (map (\<lambda>(i, r). u_name r) ?as) \<subseteq> {name}" using False by auto
  then have "card (set (map (\<lambda>(i, r). u_name r) ?as)) \<le> 1"
    by (metis card.empty card_insert_disjoint card_mono empty_iff finite.emptyI finite.insertI One_nat_def)
  then have n: "admin_count d \<le> 1" using distinct_card [OF d] by (simp add: admin_count_def)
  obtain j q where j: "user_named name d = Some (j, q)"
    using r by (cases "user_named name d") (auto simp: user_named_None)
  have "q = r" using names_distinct [OF assms(1) user_named_Some(1) [OF j] r(1)] user_named_Some(2) [OF j] r(3) by simp
  then show ?thesis using assms(3) j r(2) n by (simp add: guard_last_admin_def)
qed blast

lemma has_admin_update:
  assumes "(i, r) \<in> set (users d)" "u_role r = RoleAdmin" "p (i, r) \<Longrightarrow> u_role (f r) = RoleAdmin"
  shows "has_admin (fst (update_users p f d))"
proof -
  have "(i, if p (i, r) then f r else r) \<in> set (users (fst (update_users p f d)))"
    using assms(1) by (force simp: update_users_def)
  then show ?thesis using assms(2,3) by (auto simp: has_admin_def split: if_splits)
qed

lemma has_admin_insert: "has_admin d \<Longrightarrow> insert_user name hash role now d = Some (d', i) \<Longrightarrow> has_admin d'"
  unfolding has_admin_def insert_user_def by (force split: if_splits)

lemma set_role_admin:
  assumes "accounts_ok d" "has_admin d"
  shows "has_admin (fst (set_role fate name role d))"
proof (cases "snd (set_role fate name role d) = None")
  case False
  then have "fst (set_role fate name role d) = d"
    by (auto simp: set_role_def Let_def case_prod_beta split: option.splits if_splits)
  then show ?thesis using assms(2) by simp
next
  case True
  let ?p = "\<lambda>(i, r). u_name r = name" and ?f = "\<lambda>r. r\<lparr>u_role := role, u_version := u_version r + 1\<rparr>"
  have d': "fst (set_role fate name role d) = fst (update_users ?p ?f d)"
    and g: "role = RoleAdmin \<or> guard_last_admin name d = None"
    using True by (auto simp: set_role_def Let_def case_prod_beta split: option.splits if_splits)
  show ?thesis
  proof (cases "role = RoleAdmin")
    case True
    obtain i r where "(i, r) \<in> set (users d)" "u_role r = RoleAdmin" using assms(2) by (auto simp: has_admin_def)
    then show ?thesis unfolding d' by (rule has_admin_update) (simp add: True)
  next
    case False
    then obtain i r where "(i, r) \<in> set (users d)" "u_role r = RoleAdmin" "u_name r \<noteq> name"
      using other_admin [OF assms] g by blast
    then show ?thesis unfolding d' by (intro has_admin_update) auto
  qed
qed

lemma delete_user_admin:
  assumes "accounts_ok d" "has_admin d"
  shows "has_admin (fst (delete_user fate name d))"
proof (cases "snd (delete_user fate name d) = None")
  case False
  then have "fst (delete_user fate name d) = d" by (auto simp: delete_user_def split: option.splits if_splits)
  then show ?thesis using assms(2) by simp
next
  case True
  then have "guard_last_admin name d = None" and d': "users (fst (delete_user fate name d)) = filter (\<lambda>(i, r). u_name r \<noteq> name) (users d)"
    by (auto simp: delete_user_def split: option.splits if_splits)
  then obtain i r where "(i, r) \<in> set (users d)" "u_role r = RoleAdmin" "u_name r \<noteq> name"
    using other_admin [OF assms] by blast
  then show ?thesis unfolding has_admin_def d' by auto
qed

lemma role_kept_admin:
  assumes "has_admin d" "\<And>r. u_role (f r) = u_role r"
  shows "has_admin (fst (update_users p f d))"
proof -
  obtain i r where "(i, r) \<in> set (users d)" "u_role r = RoleAdmin" using assms(1) by (auto simp: has_admin_def)
  then show ?thesis by (rule has_admin_update) (simp add: assms(2) \<open>u_role r = RoleAdmin\<close>)
qed

lemma set_password_admin: "has_admin d \<Longrightarrow> has_admin (fst (set_password fate generate name password d))"
  by (auto simp: set_password_def Let_def case_prod_beta role_kept_admin split: option.split)

lemma refresh_token_admin: "has_admin d \<Longrightarrow> has_admin (fst (refresh_token fate sign secret ttl now c d))"
  by (auto simp: refresh_token_def Let_def case_prod_beta role_kept_admin split: option.split sum.split)

lemma run_op_admin: "accounts_ok d \<Longrightarrow> has_admin d \<Longrightarrow> has_admin (run_op opr d)"
proof (cases opr)
  case (CreateUser fate generate now name password role)
  then show "has_admin d \<Longrightarrow> has_admin (run_op opr d)"
    by (auto simp: create_user_def Let_def dest: has_admin_insert split: option.split)
next
  case (CreateFirstAdmin fate generate now name password)
  then show "has_admin d \<Longrightarrow> has_admin (run_op opr d)"
    by (auto simp: create_first_admin_def Let_def dest: has_admin_insert split: option.split)
qed (simp_all add: set_role_admin delete_user_admin set_password_admin refresh_token_admin)

lemma run_ops_admin: "accounts_ok d \<Longrightarrow> has_admin d \<Longrightarrow> has_admin (run_ops ops d)"
proof (induction ops arbitrary: d)
  case (Cons opr ops)
  then show ?case using run_op_keeps [of d opr] run_op_admin [of d opr] by (simp add: run_ops_def)
qed (simp add: run_ops_def)

lemma has_admin_users: "has_admin d \<Longrightarrow> users d \<noteq> []"
  by (auto simp: has_admin_def)

lemma setup_refused: "users d \<noteq> [] \<Longrightarrow> fst (create_first_admin fate generate now name password d) = d \<and>
    (\<exists>e. snd (create_first_admin fate generate now name password d) = Inl e)"
  by (auto simp: create_first_admin_def Let_def split: option.split)

section \<open>Revocation\<close>

text \<open>Whose tokens a successful operation ends.\<close>

fun ends_tokens_of :: "account_op \<Rightarrow> accounts \<Rightarrow> string option" where
  "ends_tokens_of (SetPassword fate generate name password) d =
     (if snd (set_password fate generate name password d) = None then Some name else None)"
| "ends_tokens_of (SetRole fate name role) d = (if snd (set_role fate name role d) = None then Some name else None)"
| "ends_tokens_of (DeleteUser fate name) d = (if snd (delete_user fate name d) = None then Some name else None)"
| "ends_tokens_of (RefreshToken fate sign secret ttl now c) d =
     (case (c, snd (refresh_token fate sign secret ttl now c d)) of (Some c, Inr _) \<Rightarrow> Some (c_name c) | _ \<Rightarrow> None)"
| "ends_tokens_of _ d = None"

text \<open>Claims that no row can match any more.\<close>

definition spent :: "claims \<Rightarrow> accounts \<Rightarrow> bool" where
  "spent c d \<longleftrightarrow> c_uid c \<le> user_seq d \<and> (\<forall>r. row (users d) (c_uid c) = Some r \<longrightarrow> c_version c < u_version r)"

lemma spent_evolves: "spent c d \<Longrightarrow> evolves d d' \<Longrightarrow> spent c d'"
  unfolding spent_def evolves_def by (meson dual_order.trans less_le_trans linorder_not_le)

lemma spent_refused: "spent c d \<Longrightarrow> verify_token parse secret now token d \<noteq> Inr c"
  by (auto simp: spent_def verify_token_def claims_current_def split: option.splits if_splits)

lemma current_row:
  assumes "accounts_ok d" "claims_current c d"
  obtains r where "row (users d) (c_uid c) = Some r" "(c_uid c, r) \<in> set (users d)" "u_name r = c_name c"
    "u_version r = c_version c" "c_uid c \<le> user_seq d"
  using assms by (auto simp: claims_current_def accounts_ok_def split: option.splits intro: row_in)

lemma spent_update:
  assumes "accounts_ok d" "claims_current c d" "\<And>r. u_version (f r) = u_version r + 1"
    and "\<And>r. row (users d) (c_uid c) = Some r \<Longrightarrow> p (c_uid c, r)"
  shows "spent c (fst (update_users p f d))"
proof -
  obtain r where "row (users d) (c_uid c) = Some r" "u_version r = c_version c" "c_uid c \<le> user_seq d"
    by (rule current_row [OF assms(1,2)])
  then show ?thesis using assms(3,4)
    by (simp add: spent_def update_users_def row_map [where f = "\<lambda>i r. if p (i, r) then f r else r"])
qed

lemma spent_after:
  assumes "accounts_ok d" "claims_current c d" "ends_tokens_of opr d = Some (c_name c)"
  shows "spent c (run_op opr d)"
proof -
  obtain r where r: "row (users d) (c_uid c) = Some r" "(c_uid c, r) \<in> set (users d)" "u_name r = c_name c"
    "u_version r = c_version c" "c_uid c \<le> user_seq d" by (rule current_row [OF assms(1,2)])
  show ?thesis
  proof (cases opr)
    case (SetPassword fate generate name password)
    then have n: "name = c_name c" and s: "snd (set_password fate generate name password d) = None"
      using assms(3) by (simp_all split: if_splits)
    obtain h where "fst (set_password fate generate name password d) =
        fst (update_users (\<lambda>(i, r). u_name r = name) (\<lambda>r. r\<lparr>u_hash := h, u_version := u_version r + 1\<rparr>) d)"
      using s by (auto simp: set_password_def Let_def case_prod_beta split: option.splits if_splits)
    then show ?thesis using SetPassword r n spent_update [OF assms(1,2)] by simp
  next
    case (SetRole fate name role)
    then have n: "name = c_name c" and s: "snd (set_role fate name role d) = None"
      using assms(3) by (simp_all split: if_splits)
    have "fst (set_role fate name role d) =
        fst (update_users (\<lambda>(i, r). u_name r = name) (\<lambda>r. r\<lparr>u_role := role, u_version := u_version r + 1\<rparr>) d)"
      using s by (auto simp: set_role_def Let_def case_prod_beta split: option.splits if_splits)
    then show ?thesis using SetRole r n spent_update [OF assms(1,2)] by simp
  next
    case (DeleteUser fate name)
    then have n: "name = c_name c" and s: "snd (delete_user fate name d) = None"
      using assms(3) by (simp_all split: if_splits)
    have d': "fst (delete_user fate name d) = d\<lparr>users := filter (\<lambda>(i, r). u_name r \<noteq> name) (users d)\<rparr>"
      using s by (auto simp: delete_user_def split: option.splits if_splits)
    have t: "table_ok (users d)" using assms(1) by (simp add: accounts_ok_def)
    show ?thesis unfolding DeleteUser run_op.simps d' using r n
      by (simp add: spent_def row_filter [OF t, where P = "\<lambda>r. u_name r \<noteq> c_name c"])
  next
    case (RefreshToken fate sign secret ttl now oc)
    then obtain k t where k: "oc = Some k" "c_name k = c_name c" "snd (refresh_token fate sign secret ttl now oc d) = Inr t"
      using assms(3) by (auto split: option.splits sum.splits)
    let ?p = "\<lambda>(i, r). i = c_uid k \<and> u_name r = c_name k \<and> u_role r = c_role k \<and> u_version r = c_version k"
    have d': "fst (refresh_token fate sign secret ttl now oc d) = fst (update_users ?p (\<lambda>r. r\<lparr>u_version := u_version r + 1\<rparr>) d)"
      and one: "length (filter ?p (users d)) = 1"
      using k by (auto simp: refresh_token_def Let_def update_users_def split: option.splits if_splits sum.splits)
    obtain i q where q: "(i, q) \<in> set (users d)" "?p (i, q)"
    proof -
      have "filter ?p (users d) \<noteq> []" using one by auto
      then obtain x where "x \<in> set (users d)" "?p x" by (meson filter_False)
      then show ?thesis using that by (cases x) auto
    qed
    have "i = c_uid c \<and> q = r" by (rule names_distinct [OF assms(1) q(1) r(2)]) (use q(2) k(2) r(3) in auto)
    then show ?thesis using RefreshToken d' spent_update [OF assms(1,2)] q(2) r(1) by simp
  qed (use assms(3) in simp_all)
qed

section \<open>Properties\<close>

text \<open>
  What a login relies on of bcrypt and of the JWT library: a password checks against its own
  hash, and a signed token is read back, with its claims, until it expires.
\<close>

definition bcrypt_checks :: "(string \<Rightarrow> string option) \<Rightarrow> (string \<Rightarrow> string \<Rightarrow> bool) \<Rightarrow> bool" where
  "bcrypt_checks generate compare_hash \<longleftrightarrow> (\<forall>p h. generate p = Some h \<longrightarrow> compare_hash h p)"

definition jwt_reads_back ::
  "(string \<Rightarrow> claims \<Rightarrow> string option) \<Rightarrow> (string \<Rightarrow> int \<Rightarrow> string \<Rightarrow> claims option) \<Rightarrow> bool" where
  "jwt_reads_back sign parse \<longleftrightarrow>
     (\<forall>secret c t now. sign secret c = Some t \<and> now < c_expires c \<longrightarrow> parse secret now t = Some c)"

text \<open>
  C25:
  Revocation is final. After a successful change of password or role, a deletion or a refresh, no
  token with the claims that were valid before is ever accepted again, whatever happens to the
  accounts later: neither the same name created anew nor any further change revives it.
\<close>

theorem revocation_is_final:
  assumes "accounts_ok d" "claims_current c d" "ends_tokens_of opr d = Some (c_name c)"
  shows "verify_token parse secret now token (run_ops ops (run_op opr d)) \<noteq> Inr c"
proof -
  have "accounts_ok (run_op opr d)" using run_op_keeps [OF assms(1)] by blast
  then have "evolves (run_op opr d) (run_ops ops (run_op opr d))" using run_ops_keeps by blast
  then show ?thesis using spent_after [OF assms] spent_evolves spent_refused by blast
qed

text \<open>A sample: one administrator, who then resets the password.\<close>

definition demo_hash :: "string \<Rightarrow> string option" where "demo_hash p = Some (''#'' @ p)"
definition demo_compare :: "string \<Rightarrow> string \<Rightarrow> bool" where "demo_compare h p \<longleftrightarrow> h = ''#'' @ p"

definition demo_accounts :: accounts where
  "demo_accounts = \<lparr>users = [(1, \<lparr>u_name = ''root'', u_hash = ''#correct horse'', u_role = RoleAdmin, u_created = 5, u_version = 1\<rparr>)],
     user_seq = 1\<rparr>"

definition demo_claims :: claims where
  "demo_claims = \<lparr>c_uid = 1, c_name = ''root'', c_role = RoleAdmin, c_version = 1, c_expires = 100, c_issued = 5\<rparr>"

lemma demo_password: "validate_password ''another password'' = None" "validate_password ''correct horse'' = None"
  by code_simp+

lemma demo_ok: "accounts_ok demo_accounts" "claims_current demo_claims demo_accounts"
  by (simp_all add: accounts_ok_def demo_accounts_def table_ok_def claims_current_def demo_claims_def row_def valid_role_def)

lemma revocation_is_final_witness:
  "verify_token (\<lambda>_ _ _. Some demo_claims) ''key'' 6 ''token''
     (run_ops [DeleteUser DbWorks ''x''] (run_op (SetPassword DbWorks demo_hash ''root'' ''another password'') demo_accounts)) \<noteq> Inr demo_claims"
proof (rule revocation_is_final [OF demo_ok])
  show "ends_tokens_of (SetPassword DbWorks demo_hash ''root'' ''another password'') demo_accounts = Some (c_name demo_claims)"
    by (simp add: set_password_def demo_password demo_hash_def update_users_def demo_accounts_def demo_claims_def)
qed

text \<open>
  C26:
  The setup happens once. After the first administrator was created, whatever operations follow,
  an administrator remains, and no setup succeeds again.
\<close>

theorem setup_happens_once:
  assumes "accounts_ok d" "create_first_admin fate generate now name password d = (d1, Inr u)"
  shows "has_admin (run_ops ops d1) \<and>
    (\<exists>e. create_first_admin fate' generate' now' name' password' (run_ops ops d1) = (run_ops ops d1, Inl e))"
proof -
  obtain hash i where h: "insert_user (trim_space name) hash RoleAdmin now d = Some (d1, i)"
    using assms(2) by (auto simp: create_first_admin_def Let_def split: option.splits if_splits)
  have d1: "accounts_ok d1" by (rule insert_keeps(1) [OF assms(1) h])
  moreover have "(i, \<lparr>u_name = trim_space name, u_hash = hash, u_role = RoleAdmin, u_created = now, u_version = 1\<rparr>) \<in> set (users d1)"
    using insert_keeps(4) [OF assms(1) h] by simp
  then have "has_admin d1" unfolding has_admin_def by (metis user_row.select_convs(3))
  have "has_admin (run_ops ops d1)" using run_ops_admin d1 \<open>has_admin d1\<close> by blast
  then show ?thesis using setup_refused [OF has_admin_users] by (metis prod.collapse)
qed

lemma setup_happens_once_witness:
  "\<exists>d1. create_first_admin DbWorks demo_hash 5 ''root'' ''correct horse'' \<lparr>users = [], user_seq = 0\<rparr> = (d1, Inr (read_user 1 (snd (hd (users d1))))) \<and>
     has_admin (run_ops [DeleteUser DbWorks ''root'', SetRole DbWorks ''root'' RoleEditor] d1)"
proof -
  have ok: "accounts_ok \<lparr>users = [], user_seq = 0\<rparr>" by (simp add: accounts_ok_def)
  have t: "trim_space ''root'' = ''root''" by code_simp
  have c: "create_first_admin DbWorks demo_hash 5 ''root'' ''correct horse'' \<lparr>users = [], user_seq = 0\<rparr> =
      (demo_accounts, Inr (read_user 1 (snd (hd (users demo_accounts)))))"
    by (simp add: create_first_admin_def Let_def t demo_password demo_hash_def insert_user_def user_named_def
        demo_accounts_def read_user_def)
  show ?thesis using setup_happens_once [OF ok c] c by blast
qed

text \<open>
  A new account can log in: with the name and the password it was created with \<open>Authenticate\<close>
  returns it, and the token issued to it is accepted until it expires, with its claims.
\<close>

theorem login_roundtrip:
  assumes "accounts_ok d" "bcrypt_checks generate compare_hash" "jwt_reads_back sign parse"
    and "create_user fate generate created name password role d = (d', Inr u)"
    and "issue_user_token sign secret ttl issued (Some u) = Inr (token, expires)" "now < expires"
  shows "authenticate compare_hash name password d' = Inr u \<and>
    verify_token parse secret now token d' = Inr \<lparr>c_uid = usr_id u, c_name = trim_space name, c_role = role, c_version = 1,
      c_expires = issued + ttl, c_issued = issued\<rparr>"
proof -
  obtain hash i where h: "generate password = Some hash" "insert_user (trim_space name) hash role created d = Some (d', i)"
    "valid_role role" and u: "u = \<lparr>usr_id = i, usr_name = trim_space name, usr_role = role, usr_created = created, usr_version = 1\<rparr>"
    using assms(4) by (auto simp: create_user_def Let_def split: option.splits if_splits)
  note k = insert_keeps [OF assms(1) h(2)]
  let ?r = "\<lparr>u_name = trim_space name, u_hash = hash, u_role = role, u_created = created, u_version = 1\<rparr>"
  have mem: "(i, ?r) \<in> set (users d')" using k(4) by simp
  then have r: "row (users d') i = Some ?r" using k(1) by (intro in_row) (simp_all add: accounts_ok_def)
  obtain j q where n: "user_named (trim_space name) d' = Some (j, q)"
    using mem by (cases "user_named (trim_space name) d'") (force simp: user_named_None)+
  have "j = i \<and> q = ?r"
    using names_distinct [OF k(1) user_named_Some(1) [OF n] mem] user_named_Some(2) [OF n] by simp
  then have "authenticate compare_hash name password d' = Inr u"
    using n h(1,3) assms(2) by (simp add: authenticate_def bcrypt_checks_def read_user_def u)
  moreover have t: "sign secret \<lparr>c_uid = i, c_name = trim_space name, c_role = role, c_version = 1, c_expires = issued + ttl, c_issued = issued\<rparr> = Some token"
    and x: "expires = issued + ttl" and s: "validate_jwt_secret secret = None"
    using assms(5) h(3) by (auto simp: issue_user_token_def issue_token_def u split: option.splits)
  moreover have "parse secret now token = Some \<lparr>c_uid = i, c_name = trim_space name, c_role = role, c_version = 1, c_expires = issued + ttl, c_issued = issued\<rparr>"
    using assms(3,6) t x unfolding jwt_reads_back_def by (metis claims.select_convs(5))
  ultimately show ?thesis using r h(3) by (simp add: verify_token_def claims_current_def u)
qed

definition demo_sign :: "string \<Rightarrow> claims \<Rightarrow> string option" where
  "demo_sign secret c = (if c = demo_claims then Some ''token'' else None)"

definition demo_parse :: "string \<Rightarrow> int \<Rightarrow> string \<Rightarrow> claims option" where
  "demo_parse secret now token = (if token = ''token'' \<and> now < 100 then Some demo_claims else None)"

lemma demo_secret: "validate_jwt_secret (replicate 32 CHR ''k'') = None"
  by code_simp

lemma login_roundtrip_witness:
  "authenticate demo_compare ''root'' ''correct horse'' demo_accounts = Inr (read_user 1 (snd (hd (users demo_accounts)))) \<and>
   verify_token demo_parse (replicate 32 CHR ''k'') 50 ''token'' demo_accounts = Inr demo_claims"
proof -
  let ?u = "read_user 1 (snd (hd (users demo_accounts)))"
  have ok: "accounts_ok \<lparr>users = [], user_seq = 0\<rparr>" by (simp add: accounts_ok_def)
  have b: "bcrypt_checks demo_hash demo_compare" by (simp add: bcrypt_checks_def demo_hash_def demo_compare_def)
  have j: "jwt_reads_back demo_sign demo_parse"
    by (simp add: jwt_reads_back_def demo_sign_def demo_parse_def demo_claims_def)
  have t: "trim_space ''root'' = ''root''" by code_simp
  have c: "create_user DbWorks demo_hash 5 ''root'' ''correct horse'' RoleAdmin \<lparr>users = [], user_seq = 0\<rparr> = (demo_accounts, Inr ?u)"
    by (simp add: create_user_def Let_def t demo_password demo_hash_def insert_user_def user_named_def
        demo_accounts_def read_user_def valid_role_def)
  have i: "issue_user_token demo_sign (replicate 32 CHR ''k'') 95 5 (Some ?u) = Inr (''token'', 100)"
    unfolding issue_user_token_def issue_token_def demo_secret
    by (simp add: read_user_def demo_accounts_def demo_sign_def demo_claims_def valid_role_def)
  show ?thesis using login_roundtrip [OF ok b j c i, of 50] t
    by (simp add: demo_claims_def read_user_def demo_accounts_def)
qed

section \<open>Well-formed rows\<close>

definition row_wf :: "user_row \<Rightarrow> bool" where
  "row_wf r \<longleftrightarrow> u_name r \<noteq> [] \<and> valid_role (u_role r) \<and> 1 \<le> u_version r"

definition rows_wf :: "accounts \<Rightarrow> bool" where
  "rows_wf d \<longleftrightarrow> (\<forall>i r. (i, r) \<in> set (users d) \<longrightarrow> row_wf r)"

lemma rows_wf_update:
  "update_users p f d = (d', n) \<Longrightarrow> rows_wf d \<Longrightarrow> (\<And>r. row_wf r \<Longrightarrow> row_wf (f r)) \<Longrightarrow> rows_wf d'"
  by (fastforce simp: rows_wf_def update_users_def)

lemma rows_wf_insert:
  "rows_wf d \<Longrightarrow> name \<noteq> [] \<Longrightarrow> valid_role role \<Longrightarrow> insert_user name hash role now d = Some (d', i) \<Longrightarrow> rows_wf d'"
  by (auto simp: rows_wf_def row_wf_def insert_user_def split: if_splits)

lemma run_op_rows:
  assumes "rows_wf d"
  shows "rows_wf (run_op opr d)"
proof (cases opr)
  case (CreateUser fate generate now name password role)
  then show ?thesis using assms
    by (auto simp: create_user_def Let_def intro: rows_wf_insert split: option.split)
next
  case (CreateFirstAdmin fate generate now name password)
  then show ?thesis using assms
    by (auto simp: create_first_admin_def Let_def valid_role_def intro: rows_wf_insert split: option.split)
next
  case (SetPassword fate generate name password)
  then show ?thesis using assms
    by (auto simp: set_password_def Let_def row_wf_def intro: rows_wf_update split: option.split prod.split)
next
  case (SetRole fate name role)
  then show ?thesis using assms
    by (auto simp: set_role_def Let_def row_wf_def intro: rows_wf_update split: option.split prod.split)
next
  case (DeleteUser fate name)
  then show ?thesis using assms by (auto simp: delete_user_def rows_wf_def split: option.split)
next
  case (RefreshToken fate sign secret ttl now c)
  then show ?thesis using assms
    by (auto simp: refresh_token_def Let_def row_wf_def intro: rows_wf_update split: option.split prod.split sum.split)
qed

lemma run_ops_rows: "rows_wf d \<Longrightarrow> rows_wf (run_ops ops d)"
  by (induction ops arbitrary: d) (simp_all add: run_ops_def run_op_rows)

lemma rows_wf_roles: "rows_wf d \<Longrightarrow> validate_persisted_roles d = None"
proof -
  assume w: "rows_wf d"
  have "filter (\<lambda>(i, r). \<not> valid_role (u_role r)) (users d) = []" using w by (auto simp: rows_wf_def row_wf_def filter_empty_conv)
  then show ?thesis by (simp add: validate_persisted_roles_def)
qed

text \<open>
  C38:
  Starting from no account, whatever operations run, with whatever answers of the database: ids
  and names are unique, every account has a name, one of the two roles and a token version from 1
  on, and the check of the roles at the next start of the process passes.
\<close>

theorem accounts_stay_well_formed:
  "accounts_ok (run_ops ops \<lparr>users = [], user_seq = 0\<rparr>) \<and> rows_wf (run_ops ops \<lparr>users = [], user_seq = 0\<rparr>) \<and>
   validate_persisted_roles (run_ops ops \<lparr>users = [], user_seq = 0\<rparr>) = None"
proof -
  let ?d = "\<lparr>users = [], user_seq = 0\<rparr> :: accounts"
  have "accounts_ok ?d" "rows_wf ?d" by (simp_all add: accounts_ok_def rows_wf_def)
  then show ?thesis using run_ops_keeps [of ?d ops] run_ops_rows [of ?d ops] by (simp add: rows_wf_roles)
qed

end
