(* ===== verification/CollabStore.thy ===== *)
theory CollabStore
  imports GoConv GoJson
begin

text \<open>
  The collaborative drafts of the lyrics as SQLite keeps them (\<open>collab/persistence.go\<close> and the
  part of \<open>collab/document.go\<close> that identifies a document): one document row per song with the
  epoch of its room, a log of updates per epoch, and the ledger of checkpoints. The CRDT library
  is a parameter, \<open>merge\<close> and \<open>encode\<close>; what the store relies on of it is \<open>merge_joins\<close>. SHA-256
  in hexadecimal is the parameter \<open>sha256\<close>.
\<close>

section \<open>Rooms\<close>

definition room_name :: "int \<Rightarrow> int \<Rightarrow> string" where
  "room_name music_id epoch = ''lyrics-'' @ format_int music_id @ ''-e'' @ format_int epoch"

definition positive_digits :: "string \<Rightarrow> bool" where
  "positive_digits s \<longleftrightarrow> s \<noteq> [] \<and> hd s \<noteq> CHR ''0'' \<and> list_all is_digit s"

text \<open>The pattern \<open>^lyrics-([1-9][0-9]*)-e([1-9][0-9]*)$\<close> and the two \<open>ParseInt\<close>, in 32 and 64 bits.\<close>

definition parse_room :: "string \<Rightarrow> (int \<times> int) option" where
  "parse_room room =
     (let rest = drop 7 room; m = takeWhile is_digit rest; tl2 = drop (length m) rest; e = drop 2 tl2 in
      if take 7 room \<noteq> ''lyrics-'' \<or> take 2 tl2 \<noteq> ''-e'' \<or> \<not> positive_digits m \<or> \<not> positive_digits e then None
      else if 2 ^ 31 \<le> decimal_value m \<or> 2 ^ 63 \<le> decimal_value e then None
      else Some (int (decimal_value m), int (decimal_value e)))"

section \<open>Documents\<close>

datatype document_kind = DocumentLegacy | DocumentRenditions

text \<open>
  A lyrics document as far as this component looks at it: its kind, song and revision, and its
  JSON, or None where it cannot be marshalled.
\<close>

record lyrics_doc =
  ld_kind :: document_kind
  ld_music :: int
  ld_revision :: int
  ld_json :: "string option"

definition blank_lyrics :: "int \<Rightarrow> lyrics_doc" where
  "blank_lyrics m = \<lparr>ld_kind = DocumentLegacy, ld_music = m, ld_revision = 0,
     ld_json = Some (''{'' @ marshal_string ''musicId'' @ '':'' @ format_int m @ '','' @ marshal_string ''status'' @ '':'' @ marshal_string ''draft'' @
       '','' @ marshal_string ''revision'' @ '':0,'' @ marshal_string ''updatedAt'' @ '':'' @ marshal_string [] @
       '','' @ marshal_string ''attribution'' @ '':'' @ marshal_string [] @ '','' @ marshal_string ''translationCredit'' @ '':'' @ marshal_string [] @
       '','' @ marshal_string ''proofreadingCredit'' @ '':'' @ marshal_string [] @ '','' @ marshal_string ''lines'' @ '':[]}'')\<rparr>"

datatype collab_error =
    InvalidRoom | RoomUnavailable | RetiredRoom | AuthorityDrift | UpdateTooLarge | BadUpdateSize | BadUpdateChecksum
  | MergeFailed | EncodeFailed | MarshalFailed | NoDocument | EpochExhausted | CollabDbFailed | LyricsMissing | LyricsUnreadable

definition canonical_document ::
  "(string \<Rightarrow> string) \<Rightarrow> lyrics_doc \<Rightarrow> collab_error + (string \<times> string \<times> int \<times> document_kind)" where
  "canonical_document sha256 doc =
     (case ld_json doc of None \<Rightarrow> Inl MarshalFailed | Some body \<Rightarrow> Inr (body, sha256 body, ld_revision doc, ld_kind doc))"

text \<open>\<open>encode\<close> turns the JSON into the CRDT update that seeds a room.\<close>

definition document_update :: "(string \<Rightarrow> string option) \<Rightarrow> lyrics_doc \<Rightarrow> collab_error + string" where
  "document_update encode doc =
     (case ld_json doc of None \<Rightarrow> Inl MarshalFailed
      | Some body \<Rightarrow> (case encode body of None \<Rightarrow> Inl EncodeFailed | Some u \<Rightarrow> Inr u))"

text \<open>What the lyrics store and the catalog answer for a song.\<close>

datatype lyrics_read = LyricsFound lyrics_doc | LyricsNotFound | LyricsFails

definition authoritative_document :: "lyrics_read \<Rightarrow> bool option \<Rightarrow> int \<Rightarrow> collab_error + lyrics_doc" where
  "authoritative_document lyrics in_catalog m =
     (case lyrics of LyricsFound doc \<Rightarrow> Inr doc
      | LyricsFails \<Rightarrow> Inl LyricsUnreadable
      | LyricsNotFound \<Rightarrow> (case in_catalog of None \<Rightarrow> Inl CollabDbFailed
          | Some there \<Rightarrow> if there then Inr (blank_lyrics m) else Inl LyricsMissing))"

section \<open>The tables\<close>

record collab_doc =
  cd_epoch :: int
  cd_update :: string
  cd_base_revision :: int
  cd_authority :: string
  cd_updated_at :: int
  cd_checkpointed_at :: int
  cd_checkpointed_by :: string

record collab_update =
  cu_update :: string
  cu_sha :: string
  cu_size :: nat
  cu_created_at :: int

record checkpoint =
  ck_music :: int
  ck_epoch :: int
  ck_base_revision :: int
  ck_new_revision :: int
  ck_base_authority :: string
  ck_new_authority :: string
  ck_actor :: string
  ck_changed :: bool
  ck_created_at :: int

text \<open>The log is keyed by song, epoch and sequence number.\<close>

record collab_db =
  documents :: "(int, collab_doc) table"
  update_log :: "(int \<times> int \<times> int, collab_update) table"
  checkpoints :: "checkpoint list"

text \<open>A baseline: \<open>persistedDocument\<close>.\<close>

record persisted =
  pd_music :: int
  pd_epoch :: int
  pd_update :: string
  pd_base_revision :: int
  pd_authority :: string
  pd_kind :: document_kind

definition maxDocumentUpdateBytes :: nat where "maxDocumentUpdateBytes = 8 * 1024 * 1024"
definition maxUpdateBytes :: nat where "maxUpdateBytes = maxDocumentUpdateBytes"

section \<open>Reading and writing a room\<close>

text \<open>
  The largest epoch, the largest int64. The addition of SQLite goes on in floating point beyond it,
  and \<open>Scan\<close> refuses to read such an epoch into an int64.
\<close>

definition maxEpoch :: int where "maxEpoch = 2 ^ 63 - 1"

definition unreadable :: "collab_doc \<Rightarrow> bool" where
  "unreadable r \<longleftrightarrow> maxEpoch < cd_epoch r"

text \<open>The rows of one epoch, \<open>ORDER BY seq\<close>.\<close>

definition log_rows :: "int \<Rightarrow> int \<Rightarrow> collab_db \<Rightarrow> (int \<times> collab_update) list" where
  "log_rows m e d = sort_key fst (map (\<lambda>((_, _, q), u). (q, u)) (filter (\<lambda>((m', e', _), _). m' = m \<and> e' = e) (update_log d)))"

definition validate_persisted_update :: "(string \<Rightarrow> string) \<Rightarrow> collab_update \<Rightarrow> collab_error option" where
  "validate_persisted_update sha256 u =
     (if cu_update u = [] \<or> maxUpdateBytes < length (cu_update u) \<or> cu_size u \<noteq> length (cu_update u) then Some BadUpdateSize
      else if sha256 (cu_update u) \<noteq> cu_sha u then Some BadUpdateChecksum else None)"

fun validated :: "(string \<Rightarrow> string) \<Rightarrow> collab_update list \<Rightarrow> collab_error + string list" where
  "validated sha256 [] = Inr []"
| "validated sha256 (u # us) =
     (case validate_persisted_update sha256 u of Some e \<Rightarrow> Inl e
      | None \<Rightarrow> (case validated sha256 us of Inl e \<Rightarrow> Inl e | Inr bs \<Rightarrow> Inr (cu_update u # bs)))"

definition merge_document_updates :: "(string list \<Rightarrow> string option) \<Rightarrow> string list \<Rightarrow> collab_error + string" where
  "merge_document_updates merge us =
     (if length us = 1 then Inr (hd us)
      else case merge us of None \<Rightarrow> Inl MergeFailed
      | Some u \<Rightarrow> if u = [] \<or> maxDocumentUpdateBytes < length u then Inl UpdateTooLarge else Inr u)"

definition load_doc ::
  "db_fate \<Rightarrow> (string \<Rightarrow> string) \<Rightarrow> (string list \<Rightarrow> string option) \<Rightarrow> string \<Rightarrow> collab_db \<Rightarrow> collab_error + string" where
  "load_doc fate sha256 merge room d =
     (case parse_room room of None \<Rightarrow> Inl InvalidRoom
      | Some (m, e) \<Rightarrow>
          if fate = DbNoBegin \<or> fate = DbNoExec then Inl CollabDbFailed
          else (case row (documents d) m of None \<Rightarrow> Inl RoomUnavailable
            | Some r \<Rightarrow>
                if unreadable r then Inl CollabDbFailed
                else if cd_epoch r \<noteq> e then Inl RetiredRoom
                else if cd_update r = [] \<or> maxDocumentUpdateBytes < length (cd_update r) then Inl UpdateTooLarge
                else (case validated sha256 (map snd (log_rows m e d)) of Inl err \<Rightarrow> Inl err
                  | Inr us \<Rightarrow> if fate = DbNoCommit then Inl CollabDbFailed
                      else merge_document_updates merge (cd_update r # us))))"

definition next_seq :: "int \<Rightarrow> int \<Rightarrow> collab_db \<Rightarrow> int" where
  "next_seq m e d = Max (insert 0 (fst ` set (log_rows m e d))) + 1"

definition store_update ::
  "db_fate \<Rightarrow> (string \<Rightarrow> string) \<Rightarrow> int \<Rightarrow> string \<Rightarrow> string \<Rightarrow> collab_db \<Rightarrow> collab_db \<times> collab_error option" where
  "store_update fate sha256 now room update d =
     (case parse_room room of None \<Rightarrow> (d, Some InvalidRoom)
      | Some (m, e) \<Rightarrow>
          if update = [] \<or> maxUpdateBytes < length update then (d, Some UpdateTooLarge)
          else if fate = DbNoBegin \<or> fate = DbNoExec then (d, Some CollabDbFailed)
          else (case row (documents d) m of None \<Rightarrow> (d, Some NoDocument)
            | Some r \<Rightarrow>
                if unreadable r then (d, Some CollabDbFailed)
                else if cd_epoch r \<noteq> e then (d, Some RetiredRoom)
                else if fate = DbNoCommit then (d, Some CollabDbFailed)
                else (d\<lparr>update_log := put (m, e, next_seq m e d) \<lparr>cu_update = update, cu_sha = sha256 update,
                          cu_size = length update, cu_created_at = now\<rparr> (update_log d),
                        documents := modify m (\<lambda>r. r\<lparr>cd_updated_at := now\<rparr>) (documents d)\<rparr>, None)))"

definition compact ::
  "db_fate \<Rightarrow> (string \<Rightarrow> string) \<Rightarrow> (string list \<Rightarrow> string option) \<Rightarrow> int \<Rightarrow> string \<Rightarrow> collab_db \<Rightarrow> collab_db \<times> collab_error option" where
  "compact fate sha256 merge now room d =
     (case parse_room room of None \<Rightarrow> (d, Some InvalidRoom)
      | Some (m, e) \<Rightarrow>
          if fate = DbNoBegin \<or> fate = DbNoExec then (d, Some CollabDbFailed)
          else (case row (documents d) m of None \<Rightarrow> (d, Some NoDocument)
            | Some r \<Rightarrow>
                if unreadable r then (d, Some CollabDbFailed)
                else if cd_epoch r \<noteq> e then (d, Some RetiredRoom)
                else (case validated sha256 (map snd (log_rows m e d)) of Inl err \<Rightarrow> (d, Some err)
                  | Inr us \<Rightarrow>
                      if us = [] then (d, if fate = DbNoCommit then Some CollabDbFailed else None)
                      else (case merge (cd_update r # us) of None \<Rightarrow> (d, Some MergeFailed)
                        | Some merged \<Rightarrow>
                            if maxDocumentUpdateBytes < length merged then (d, Some UpdateTooLarge)
                            else if merged = [] then (d, Some CollabDbFailed)
                            else if fate = DbNoCommit then (d, Some CollabDbFailed)
                            else (d\<lparr>documents := modify m (\<lambda>r. r\<lparr>cd_update := merged, cd_updated_at := now\<rparr>) (documents d),
                                    update_log := del (\<lambda>(m', e', _). m' = m \<and> e' = e) (update_log d)\<rparr>, None)))))"

section \<open>Baselines\<close>

text \<open>A row against the document of the store: \<open>ensureRoom\<close> where the row is there.\<close>

definition check_room ::
  "(string \<Rightarrow> string) \<Rightarrow> lyrics_read \<Rightarrow> bool option \<Rightarrow> int \<Rightarrow> collab_doc \<Rightarrow> collab_error + persisted" where
  "check_room sha256 lyrics in_catalog m r =
     (case authoritative_document lyrics in_catalog m of Inl e \<Rightarrow> Inl e
      | Inr doc \<Rightarrow> (case canonical_document sha256 doc of Inl e \<Rightarrow> Inl e
          | Inr (_, sha, revision, kind) \<Rightarrow>
              if sha \<noteq> cd_authority r \<or> revision \<noteq> cd_base_revision r then Inl AuthorityDrift
              else Inr \<lparr>pd_music = m, pd_epoch = cd_epoch r, pd_update = cd_update r, pd_base_revision = cd_base_revision r,
                     pd_authority = cd_authority r, pd_kind = kind\<rparr>))"

text \<open>The constraints of the document table on a row that is written.\<close>

definition doc_row_ok :: "string \<Rightarrow> int \<Rightarrow> bool" where
  "doc_row_ok update revision \<longleftrightarrow> update \<noteq> [] \<and> 0 \<le> revision"

text \<open>
  The row of the song, if there is one; and the INSERT of a first ticket that found none, ON CONFLICT
  DO NOTHING, wherever it lands among the operations of others.
\<close>

definition read_room ::
  "db_fate \<Rightarrow> (string \<Rightarrow> string) \<Rightarrow> lyrics_read \<Rightarrow> bool option \<Rightarrow> int \<Rightarrow> collab_db \<Rightarrow> (collab_error + persisted) option" where
  "read_room fate sha256 lyrics in_catalog m d =
     (if fate = DbNoBegin then Some (Inl CollabDbFailed)
      else map_option (\<lambda>r. if unreadable r then Inl CollabDbFailed else check_room sha256 lyrics in_catalog m r) (row (documents d) m))"

definition open_room ::
  "db_fate \<Rightarrow> (string \<Rightarrow> string) \<Rightarrow> (string \<Rightarrow> string option) \<Rightarrow> int \<Rightarrow> lyrics_read \<Rightarrow> bool option \<Rightarrow> int \<Rightarrow> collab_db \<Rightarrow>
   collab_db \<times> collab_error option" where
  "open_room fate sha256 encode now lyrics in_catalog m d =
     (case authoritative_document lyrics in_catalog m of Inl e \<Rightarrow> (d, Some e)
      | Inr doc \<Rightarrow> (case document_update encode doc of Inl e \<Rightarrow> (d, Some e)
        | Inr update \<Rightarrow> (case canonical_document sha256 doc of Inl e \<Rightarrow> (d, Some e)
          | Inr (_, sha, revision, _) \<Rightarrow>
              if fate \<noteq> DbWorks \<or> \<not> doc_row_ok update revision then (d, Some CollabDbFailed)
              else if row (documents d) m \<noteq> None then (d, None)
              else (d\<lparr>documents := put m \<lparr>cd_epoch = 1, cd_update = update, cd_base_revision = revision, cd_authority = sha,
                       cd_updated_at = now, cd_checkpointed_at = 0, cd_checkpointed_by = []\<rparr> (documents d)\<rparr>, None))))"

text \<open>
  \<open>ensureRoom\<close> calls itself after the INSERT: \<open>again\<close> are the answers to the second pass, which may
  fail or find the document changed although the row is there. It always finds a row
  (\<open>opened_room_read\<close>), so there is no third pass.
\<close>

definition ensure_room ::
  "db_fate \<Rightarrow> (string \<Rightarrow> string) \<Rightarrow> (string \<Rightarrow> string option) \<Rightarrow> int \<Rightarrow> lyrics_read \<Rightarrow> bool option \<Rightarrow> db_fate \<times> lyrics_read \<times> bool option \<Rightarrow>
   int \<Rightarrow> collab_db \<Rightarrow> collab_db \<times> (collab_error + persisted)" where
  "ensure_room fate sha256 encode now lyrics in_catalog again m d =
     (if m \<le> 0 then (d, Inl InvalidRoom)
      else case read_room fate sha256 lyrics in_catalog m d of
        Some result \<Rightarrow> (d, result)
      | None \<Rightarrow>
         (case open_room fate sha256 encode now lyrics in_catalog m d of
            (d', Some e) \<Rightarrow> (d', Inl e)
          | (d', None) \<Rightarrow> (let (fate', lyrics', in_catalog') = again in
              case read_room fate' sha256 lyrics' in_catalog' m d' of
                Some result \<Rightarrow> (d', result)
              | None \<Rightarrow> (d', Inl RoomUnavailable))))"

lemma opened_room_read:
  "open_room fate sha256 encode now lyrics in_catalog m d = (d', None) \<Longrightarrow> read_room fate' sha256 lyrics' in_catalog' m d' \<noteq> None"
  by (auto simp: open_room_def read_room_def split: sum.splits if_splits)

text \<open>\<open>renditions\<close>: whether the song has a source document of schema version 3.\<close>

definition collab_baseline ::
  "db_fate \<Rightarrow> (string \<Rightarrow> string) \<Rightarrow> (string list \<Rightarrow> string option) \<Rightarrow> bool \<Rightarrow> int \<Rightarrow> collab_db \<Rightarrow> collab_error + persisted" where
  "collab_baseline fate sha256 merge renditions m d =
     (if fate = DbNoBegin then Inl CollabDbFailed
      else case row (documents d) m of None \<Rightarrow> Inl NoDocument
      | Some r \<Rightarrow> if unreadable r then Inl CollabDbFailed else
         (case load_doc fate sha256 merge (room_name m (cd_epoch r)) d of Inl e \<Rightarrow> Inl e
          | Inr update \<Rightarrow> Inr \<lparr>pd_music = m, pd_epoch = cd_epoch r, pd_update = update, pd_base_revision = cd_base_revision r,
              pd_authority = cd_authority r, pd_kind = (if renditions then DocumentRenditions else DocumentLegacy)\<rparr>))"

definition current_epoch :: "db_fate \<Rightarrow> int \<Rightarrow> collab_db \<Rightarrow> collab_error + int" where
  "current_epoch fate m d =
     (if fate \<noteq> DbWorks then Inl CollabDbFailed
      else case row (documents d) m of None \<Rightarrow> Inl NoDocument
      | Some r \<Rightarrow> if unreadable r then Inl CollabDbFailed else Inr (cd_epoch r))"

section \<open>Checkpoints\<close>

text \<open>The ledger refuses a revision below the base: its CHECK constraint.\<close>

definition insert_checkpoint_ledger ::
  "persisted \<Rightarrow> int \<Rightarrow> string \<Rightarrow> string \<Rightarrow> bool \<Rightarrow> int \<Rightarrow> collab_db \<Rightarrow> collab_db option" where
  "insert_checkpoint_ledger b new_revision new_authority actor changed now d =
     (if new_revision < pd_base_revision b then None
      else Some (d\<lparr>checkpoints := checkpoints d @ [\<lparr>ck_music = pd_music b, ck_epoch = pd_epoch b,
             ck_base_revision = pd_base_revision b, ck_new_revision = new_revision, ck_base_authority = pd_authority b,
             ck_new_authority = new_authority, ck_actor = actor, ck_changed = changed, ck_created_at = now\<rparr>]\<rparr>))"

definition same_baseline :: "persisted \<Rightarrow> collab_doc \<Rightarrow> bool" where
  "same_baseline b r \<longleftrightarrow> cd_epoch r = pd_epoch b \<and> cd_base_revision r = pd_base_revision b \<and> cd_authority r = pd_authority b"

definition commit_checkpoint_tx ::
  "(string \<Rightarrow> string) \<Rightarrow> (string list \<Rightarrow> string option) \<Rightarrow> int \<Rightarrow> persisted \<Rightarrow> string \<Rightarrow> int \<Rightarrow> string \<Rightarrow> string \<Rightarrow> bool \<Rightarrow>
   collab_db \<Rightarrow> collab_error + collab_db" where
  "commit_checkpoint_tx sha256 merge now b update new_revision new_authority actor changed d =
     (if update = [] \<or> maxDocumentUpdateBytes < length update then Inl UpdateTooLarge
      else case row (documents d) (pd_music b) of None \<Rightarrow> Inl RetiredRoom
      | Some r \<Rightarrow>
          if unreadable r then Inl CollabDbFailed
          else if \<not> same_baseline b r then Inl RetiredRoom
          else if cd_update r = [] \<or> maxDocumentUpdateBytes < length (cd_update r) then Inl UpdateTooLarge
          else let rows = log_rows (pd_music b) (pd_epoch b) d; cutoff = Max (insert 0 (fst ` set rows)) in
            (case validated sha256 (map snd rows) of Inl e \<Rightarrow> Inl e
             | Inr us \<Rightarrow> (case merge (cd_update r # update # us) of None \<Rightarrow> Inl MergeFailed
               | Some merged \<Rightarrow>
                   if merged = [] \<or> maxDocumentUpdateBytes < length merged then Inl UpdateTooLarge
                   else if new_revision < 0 then Inl CollabDbFailed
                   else (case insert_checkpoint_ledger b new_revision new_authority actor changed now
                          (d\<lparr>documents := modify (pd_music b) (\<lambda>r. r\<lparr>cd_update := merged, cd_base_revision := new_revision,
                             cd_authority := new_authority, cd_updated_at := now, cd_checkpointed_at := now,
                             cd_checkpointed_by := actor\<rparr>) (documents d)\<rparr>) of
                        None \<Rightarrow> Inl CollabDbFailed
                      | Some d \<Rightarrow> Inr (if 0 < cutoff
                          then d\<lparr>update_log := del (\<lambda>(m, e, q). m = pd_music b \<and> e = pd_epoch b \<and> q \<le> cutoff) (update_log d)\<rparr>
                          else d)))))"

definition commit_checkpoint ::
  "db_fate \<Rightarrow> (string \<Rightarrow> string) \<Rightarrow> (string list \<Rightarrow> string option) \<Rightarrow> int \<Rightarrow> persisted \<Rightarrow> string \<Rightarrow> int \<Rightarrow> string \<Rightarrow> string \<Rightarrow> bool \<Rightarrow>
   collab_db \<Rightarrow> collab_db \<times> collab_error option" where
  "commit_checkpoint fate sha256 merge now b update new_revision new_authority actor changed d =
     (if fate = DbNoBegin \<or> fate = DbNoExec then (d, Some CollabDbFailed)
      else case commit_checkpoint_tx sha256 merge now b update new_revision new_authority actor changed d of
        Inl e \<Rightarrow> (d, Some e)
      | Inr d' \<Rightarrow> if fate = DbNoCommit then (d, Some CollabDbFailed) else (d', None))"

definition reseed_checkpoint_tx ::
  "(string \<Rightarrow> string) \<Rightarrow> (string \<Rightarrow> string option) \<Rightarrow> int \<Rightarrow> persisted \<Rightarrow> lyrics_doc \<Rightarrow> string \<Rightarrow> bool \<Rightarrow>
   collab_db \<Rightarrow> collab_error + (collab_db \<times> string \<times> string)" where
  "reseed_checkpoint_tx sha256 encode now b doc actor changed d =
     (case document_update encode doc of Inl e \<Rightarrow> Inl e
      | Inr update \<Rightarrow> (case canonical_document sha256 doc of Inl e \<Rightarrow> Inl e
        | Inr (_, new_authority, new_revision, _) \<Rightarrow>
            if pd_epoch b = maxEpoch then Inl EpochExhausted
            else (case row (documents d) (pd_music b) of None \<Rightarrow> Inl RetiredRoom
              | Some r \<Rightarrow>
                  if \<not> same_baseline b r then Inl RetiredRoom
                  else if \<not> doc_row_ok update new_revision then Inl CollabDbFailed
                  else (case insert_checkpoint_ledger b new_revision new_authority actor changed now
                         (d\<lparr>documents := modify (pd_music b) (\<lambda>r. r\<lparr>cd_epoch := pd_epoch b + 1, cd_update := update,
                            cd_base_revision := new_revision, cd_authority := new_authority, cd_updated_at := now,
                            cd_checkpointed_at := now, cd_checkpointed_by := actor\<rparr>) (documents d),
                            update_log := del (\<lambda>(m, _, _). m = pd_music b) (update_log d)\<rparr>) of
                       None \<Rightarrow> Inl CollabDbFailed
                     | Some d' \<Rightarrow> Inr (d', room_name (pd_music b) (pd_epoch b), room_name (pd_music b) (pd_epoch b + 1))))))"

definition reseed_checkpoint ::
  "db_fate \<Rightarrow> (string \<Rightarrow> string) \<Rightarrow> (string \<Rightarrow> string option) \<Rightarrow> int \<Rightarrow> persisted \<Rightarrow> lyrics_doc \<Rightarrow> string \<Rightarrow> bool \<Rightarrow>
   collab_db \<Rightarrow> collab_db \<times> (collab_error + (string \<times> string))" where
  "reseed_checkpoint fate sha256 encode now b doc actor changed d =
     (if fate = DbNoBegin \<or> fate = DbNoExec then (d, Inl CollabDbFailed)
      else case reseed_checkpoint_tx sha256 encode now b doc actor changed d of
        Inl e \<Rightarrow> (d, Inl e)
      | Inr (d', rooms) \<Rightarrow> if fate = DbNoCommit then (d, Inl CollabDbFailed) else (d', Inr rooms))"

text \<open>The next epoch in int64: past the largest it would be negative, and the code starts over at 1.\<close>

definition next_epoch :: "int \<Rightarrow> int" where
  "next_epoch e = (if e = maxEpoch then 1 else e + 1)"

definition replace_from_authoritative ::
  "db_fate \<Rightarrow> (string \<Rightarrow> string) \<Rightarrow> (string \<Rightarrow> string option) \<Rightarrow> int \<Rightarrow> lyrics_read \<Rightarrow> bool option \<Rightarrow> int \<Rightarrow> collab_db \<Rightarrow>
   collab_db \<times> (collab_error + (string \<times> string))" where
  "replace_from_authoritative fate sha256 encode now lyrics in_catalog m d =
     (case authoritative_document lyrics in_catalog m of Inl e \<Rightarrow> (d, Inl e)
      | Inr doc \<Rightarrow> (case document_update encode doc of Inl e \<Rightarrow> (d, Inl e)
        | Inr update \<Rightarrow> (case canonical_document sha256 doc of Inl e \<Rightarrow> (d, Inl e)
          | Inr (_, sha, revision, _) \<Rightarrow>
              if fate = DbNoBegin \<or> fate = DbNoExec then (d, Inl CollabDbFailed)
              else let old = (case row (documents d) m of None \<Rightarrow> 0 | Some r \<Rightarrow> cd_epoch r); new = next_epoch old in
                if maxEpoch < old \<or> \<not> doc_row_ok update revision then (d, Inl CollabDbFailed)
                else if fate = DbNoCommit then (d, Inl CollabDbFailed)
                else (d\<lparr>documents := put m \<lparr>cd_epoch = new, cd_update = update, cd_base_revision = revision, cd_authority = sha,
                          cd_updated_at = now, cd_checkpointed_at = 0, cd_checkpointed_by = []\<rparr> (documents d),
                        update_log := del (\<lambda>(m', _, _). m' = m) (update_log d)\<rparr>,
                      Inr (if 0 < old then room_name m old else [], room_name m new)))))"

definition bump_all_epochs :: "db_fate \<Rightarrow> int \<Rightarrow> collab_db \<Rightarrow> collab_db \<times> (collab_error + string list)" where
  "bump_all_epochs fate now d =
     (if fate \<noteq> DbWorks \<or> list_ex (\<lambda>(_, r). unreadable r) (documents d) then (d, Inl CollabDbFailed)
      else (d\<lparr>documents := map (\<lambda>(m, r). (m, r\<lparr>cd_epoch := cd_epoch r + 1, cd_updated_at := now\<rparr>)) (documents d)\<rparr>,
            Inr (map (\<lambda>(m, r). room_name m (cd_epoch r)) (documents d))))"

section \<open>Room names\<close>

lemma digit_back: "is_digit c \<Longrightarrow> digit_char (digit_val c) = c \<and> digit_val c < 10"
  by (auto simp: is_digit_def digit_char_def digit_val_def)

lemma digit_zero: "is_digit c \<Longrightarrow> digit_val c = 0 \<longleftrightarrow> c = CHR ''0''"
proof -
  have z: "char_of (48 :: nat) = CHR ''0''" by code_simp
  assume "is_digit c"
  then show "digit_val c = 0 \<longleftrightarrow> c = CHR ''0''"
    using digit_back [of c] z by (auto simp: digit_char_def digit_val_def)
qed

lemma positive_digits_snoc:
  "positive_digits (xs @ [c]) \<longleftrightarrow> is_digit c \<and> (if xs = [] then c \<noteq> CHR ''0'' else positive_digits xs)"
  by (auto simp: positive_digits_def)

lemma decimal_value_pos: "positive_digits s \<Longrightarrow> 0 < decimal_value s"
proof (induction s rule: rev_induct)
  case (snoc c xs)
  show ?case using snoc.IH snoc.prems [unfolded positive_digits_snoc] digit_zero [of c] unfolding decimal_value_snoc
    by (cases "xs = []") auto
qed (simp add: positive_digits_def)

lemma format_decimal_value: "positive_digits s \<Longrightarrow> format_uint (decimal_value s) = s"
proof (induction s rule: rev_induct)
  case (snoc c xs)
  have c: "is_digit c" "digit_char (digit_val c) = c" "digit_val c < 10"
    using snoc.prems digit_back [of c] by (auto simp: positive_digits_snoc)
  show ?case
  proof (cases "xs = []")
    case True
    then show ?thesis using c by (subst format_uint.simps) (simp add: decimal_value_def)
  next
    case False
    then have p: "positive_digits xs" using snoc.prems by (simp add: positive_digits_snoc)
    then show ?thesis using snoc.IH decimal_value_pos [OF p] c
      by (subst format_uint.simps) (simp add: decimal_value_snoc)
  qed
qed (simp add: positive_digits_def)

lemma positive_digits_format: "0 < n \<Longrightarrow> positive_digits (format_uint n)"
proof (induction n rule: format_uint.induct)
  case (1 n)
  show ?case
  proof (cases "n < 10")
    case True
    then show ?thesis using 1(2) digit_zero [of "digit_char n"]
      by (subst format_uint.simps) (auto simp: positive_digits_def digit_char_props)
  next
    case False
    then have "positive_digits (format_uint (n div 10))" using 1 by simp
    then show ?thesis using False by (subst format_uint.simps) (simp add: positive_digits_snoc)
  qed
qed

lemma take_digits: "list_all is_digit xs \<Longrightarrow> takeWhile is_digit (xs @ CHR ''-'' # s) = xs"
  by (induction xs) (auto simp: is_digit_def)

lemma parse_room_name:
  assumes "0 < m" "m < 2 ^ 31" "0 < e" "e < 2 ^ 63"
  shows "parse_room (room_name m e) = Some (m, e)"
proof -
  let ?m = "format_uint (nat m)" and ?e = "format_uint (nat e)"
  have r: "room_name m e = ''lyrics-'' @ ?m @ ''-e'' @ ?e" using assms by (simp add: room_name_def format_int_def)
  have t: "takeWhile is_digit (?m @ ''-e'' @ ?e) = ?m" using take_digits [OF format_uint_digits] by simp
  have p: "positive_digits ?m" "positive_digits ?e" using assms by (simp_all add: positive_digits_format)
  have b: "\<not> 2 ^ 31 \<le> nat m" "\<not> 2 ^ 63 \<le> nat e" using assms by auto
  show ?thesis using t p b assms(1,3) by (simp add: parse_room_def r Let_def)
qed

lemma room_name_parse:
  assumes "parse_room room = Some (m, e)"
  shows "room = room_name m e" "0 < m" "m < 2 ^ 31" "0 < e" "e < 2 ^ 63"
proof -
  let ?rest = "drop 7 room"
  let ?d = "takeWhile is_digit ?rest"
  let ?tl = "drop (length ?d) ?rest"
  let ?e = "drop 2 ?tl"
  have a: "take 7 room = ''lyrics-''" "take 2 ?tl = ''-e''" "positive_digits ?d" "positive_digits ?e"
    "decimal_value ?d < 2 ^ 31" "decimal_value ?e < 2 ^ 63" "m = int (decimal_value ?d)" "e = int (decimal_value ?e)"
    using assms by (auto simp: parse_room_def Let_def split: if_splits)
  have "?rest = ?d @ ?tl" by (metis dropWhile_eq_drop takeWhile_dropWhile_id)
  moreover have "?tl = ''-e'' @ ?e" using a(2) by (metis append_take_drop_id)
  moreover have "room = ''lyrics-'' @ ?rest" using a(1) by (metis append_take_drop_id)
  ultimately have "room = ''lyrics-'' @ ?d @ ''-e'' @ ?e" by metis
  moreover have "format_int m = ?d" "format_int e = ?e"
    using a(3,4,7,8) by (simp_all add: format_int_def format_decimal_value)
  ultimately show "room = room_name m e" by (simp add: room_name_def)
  show "0 < m" "m < 2 ^ 31" "0 < e" "e < 2 ^ 63"
    using a(3-8) decimal_value_pos by simp_all
qed

section \<open>The specification: drafts\<close>

text \<open>
  What the store promises of a song: the epoch of its room and the set of edits in it. \<open>content\<close>
  is what an update carries; merging joins it. The log and the snapshots disappear.
\<close>

type_synonym 'c drafts = "int \<Rightarrow> (int \<times> 'c set) option"

definition merge_joins :: "(string list \<Rightarrow> string option) \<Rightarrow> (string \<Rightarrow> 'c set) \<Rightarrow> bool" where
  "merge_joins merge content \<longleftrightarrow> (\<forall>us u. merge us = Some u \<longrightarrow> content u = \<Union> (content ` set us))"

definition drafts_of :: "(string \<Rightarrow> 'c set) \<Rightarrow> collab_db \<Rightarrow> 'c drafts" where
  "drafts_of content d m = map_option (\<lambda>r. (cd_epoch r, content (cd_update r) \<union>
     \<Union> (content ` (\<lambda>(q, u). cu_update u) ` set (log_rows m (cd_epoch r) d)))) (row (documents d) m)"

text \<open>The operations on the store, with the answers of the database and of the lyrics store.\<close>

datatype collab_op =
    StoreUpdate db_fate int string string
  | Compact db_fate int string
  | Checkpoint db_fate int persisted string int string string bool
  | Reseed db_fate int persisted lyrics_doc string bool
  | Replace db_fate int lyrics_read "bool option" int
  | OpenRoom db_fate int lyrics_read "bool option" int
  | EnsureRoom db_fate int lyrics_read "bool option" "db_fate \<times> lyrics_read \<times> bool option" int
  | BumpAll db_fate int

text \<open>The new state and whether the operation reported success.\<close>

fun run_collab ::
  "(string \<Rightarrow> string) \<Rightarrow> (string list \<Rightarrow> string option) \<Rightarrow> (string \<Rightarrow> string option) \<Rightarrow> collab_op \<Rightarrow> collab_db \<Rightarrow> collab_db \<times> bool" where
  "run_collab sha256 merge encode (StoreUpdate fate now room u) d =
     (let (d', e) = store_update fate sha256 now room u d in (d', e = None))"
| "run_collab sha256 merge encode (Compact fate now room) d =
     (let (d', e) = compact fate sha256 merge now room d in (d', e = None))"
| "run_collab sha256 merge encode (Checkpoint fate now b u revision authority actor changed) d =
     (let (d', e) = commit_checkpoint fate sha256 merge now b u revision authority actor changed d in (d', e = None))"
| "run_collab sha256 merge encode (Reseed fate now b doc actor changed) d =
     (let (d', r) = reseed_checkpoint fate sha256 encode now b doc actor changed d in (d', isl r = False))"
| "run_collab sha256 merge encode (Replace fate now lyrics in_catalog m) d =
     (let (d', r) = replace_from_authoritative fate sha256 encode now lyrics in_catalog m d in (d', isl r = False))"
| "run_collab sha256 merge encode (OpenRoom fate now lyrics in_catalog m) d =
     (let (d', e) = open_room fate sha256 encode now lyrics in_catalog m d in (d', e = None))"
| "run_collab sha256 merge encode (EnsureRoom fate now lyrics in_catalog again m) d =
     (let (d', r) = ensure_room fate sha256 encode now lyrics in_catalog again m d in (d', isl r = False))"
| "run_collab sha256 merge encode (BumpAll fate now) d =
     (let (d', r) = bump_all_epochs fate now d in (d', isl r = False))"

text \<open>The same operations on drafts.\<close>

inductive draft_step :: "(string \<Rightarrow> 'c set) \<Rightarrow> (string \<Rightarrow> string option) \<Rightarrow> collab_op \<Rightarrow> bool \<Rightarrow> 'c drafts \<Rightarrow> 'c drafts \<Rightarrow> bool"
  for content encode where
  refused: "draft_step content encode opr False s s"
| stored: "parse_room room = Some (m, e) \<Longrightarrow> s m = Some (e, S) \<Longrightarrow>
    draft_step content encode (StoreUpdate fate now room u) True s (s(m \<mapsto> (e, S \<union> content u)))"
| compacted: "draft_step content encode (Compact fate now room) True s s"
| checkpointed: "s (pd_music b) = Some (pd_epoch b, S) \<Longrightarrow>
    draft_step content encode (Checkpoint fate now b u revision authority actor changed) True s (s(pd_music b \<mapsto> (pd_epoch b, S \<union> content u)))"
| reseeded: "s (pd_music b) = Some (pd_epoch b, S) \<Longrightarrow> pd_epoch b \<noteq> maxEpoch \<Longrightarrow> document_update encode doc = Inr u \<Longrightarrow>
    draft_step content encode (Reseed fate now b doc actor changed) True s (s(pd_music b \<mapsto> (pd_epoch b + 1, content u)))"
| replaced: "authoritative_document lyrics in_catalog m = Inr doc \<Longrightarrow> document_update encode doc = Inr u \<Longrightarrow>
    draft_step content encode (Replace fate now lyrics in_catalog m) True s
      (s(m \<mapsto> (case s m of None \<Rightarrow> 1 | Some (e, _) \<Rightarrow> next_epoch e, content u)))"
| ensured: "s m = Some x \<Longrightarrow> draft_step content encode (EnsureRoom fate now lyrics in_catalog again m) True s s"
| opened: "s m = None \<Longrightarrow> authoritative_document lyrics in_catalog m = Inr doc \<Longrightarrow> document_update encode doc = Inr u \<Longrightarrow>
    draft_step content encode (EnsureRoom fate now lyrics in_catalog again m) done_ok s (s(m \<mapsto> (1, content u)))"
| there: "s m = Some x \<Longrightarrow> draft_step content encode (OpenRoom fate now lyrics in_catalog m) True s s"
| inserted: "s m = None \<Longrightarrow> authoritative_document lyrics in_catalog m = Inr doc \<Longrightarrow> document_update encode doc = Inr u \<Longrightarrow>
    draft_step content encode (OpenRoom fate now lyrics in_catalog m) True s (s(m \<mapsto> (1, content u)))"
| bumped: "\<forall>m. (case s m of None \<Rightarrow> s' m = None | Some (e, S) \<Rightarrow> \<exists>S'. s' m = Some (e + 1, S') \<and> S' \<subseteq> S) \<Longrightarrow>
    draft_step content encode (BumpAll fate now) True s s'"

text \<open>The invariant of the tables: the constraints, and no log row ahead of the epoch of its room.\<close>

definition collab_ok :: "(string \<Rightarrow> string) \<Rightarrow> collab_db \<Rightarrow> bool" where
  "collab_ok sha256 d \<longleftrightarrow> table_ok (documents d) \<and> table_ok (update_log d) \<and>
     (\<forall>m r. row (documents d) m = Some r \<longrightarrow> 0 < cd_epoch r) \<and>
     (\<forall>m e q u. row (update_log d) (m, e, q) = Some u \<longrightarrow> validate_persisted_update sha256 u = None \<and>
        (\<exists>r. row (documents d) m = Some r \<and> e \<le> cd_epoch r))"

section \<open>Lemmas on the log\<close>

lemma log_rows_mem: "(q, u) \<in> set (log_rows m e d) \<longleftrightarrow> ((m, e, q), u) \<in> set (update_log d)"
  by (force simp: log_rows_def)

lemma log_rows_row: "table_ok (update_log d) \<Longrightarrow> (q, u) \<in> set (log_rows m e d) \<longleftrightarrow> row (update_log d) (m, e, q) = Some u"
  unfolding log_rows_mem using in_row row_in by metis

lemma next_seq_fresh: "table_ok (update_log d) \<Longrightarrow> row (update_log d) (m, e, next_seq m e d) = None"
proof (rule ccontr)
  assume t: "table_ok (update_log d)" and "row (update_log d) (m, e, next_seq m e d) \<noteq> None"
  then obtain u where "(next_seq m e d, u) \<in> set (log_rows m e d)" by (auto simp: log_rows_row)
  then have "next_seq m e d \<in> insert 0 (fst ` set (log_rows m e d))" by force
  then have "next_seq m e d \<le> Max (insert 0 (fst ` set (log_rows m e d)))" by (intro Max_ge) simp_all
  then show False by (simp add: next_seq_def)
qed

lemma validated_Inr: "validated sha256 us = Inr bs \<Longrightarrow> bs = map cu_update us"
  by (induction us arbitrary: bs) (auto split: option.splits sum.splits)

lemma validated_ok: "(\<And>u. u \<in> set us \<Longrightarrow> validate_persisted_update sha256 u = None) \<Longrightarrow> validated sha256 us = Inr (map cu_update us)"
  by (induction us) simp_all

lemma log_contents: "content ` set (map cu_update (map snd xs)) = content ` (\<lambda>(q, u). cu_update u) ` set xs"
  by (force simp: image_iff)

definition log_content :: "(string \<Rightarrow> 'c set) \<Rightarrow> int \<Rightarrow> int \<Rightarrow> collab_db \<Rightarrow> 'c set" where
  "log_content content m e d = \<Union> (content ` (\<lambda>(q, u). cu_update u) ` set (log_rows m e d))"

lemma log_content_row:
  "table_ok (update_log d) \<Longrightarrow>
   x \<in> log_content content m e d \<longleftrightarrow> (\<exists>q u. row (update_log d) (m, e, q) = Some u \<and> x \<in> content (cu_update u))"
  unfolding log_content_def by (auto simp: log_rows_row [symmetric] intro: rev_bexI)

lemma log_content_cong:
  assumes "table_ok (update_log d)" "table_ok (update_log d')" "\<And>q. row (update_log d') (m, e, q) = row (update_log d) (m, e, q)"
  shows "log_content content m e d' = log_content content m e d"
  using assms by (intro set_eqI) (simp add: log_content_row)

lemma drafts_of_row:
  "drafts_of content d m = map_option (\<lambda>r. (cd_epoch r, content (cd_update r) \<union> log_content content m (cd_epoch r) d)) (row (documents d) m)"
  by (simp add: drafts_of_def log_content_def)

lemma drafts_of_eqI:
  assumes "\<And>m. row (documents d') m = row (documents d) m" "\<And>m e q. row (update_log d') (m, e, q) = row (update_log d) (m, e, q)"
    and "table_ok (update_log d)" "table_ok (update_log d')"
  shows "drafts_of content d' = drafts_of content d"
  using assms log_content_cong [of d d' _ _ content] by (simp add: drafts_of_row fun_eq_iff)

text \<open>A load returns what the room holds, and only of the current epoch.\<close>

lemma load_doc_draft:
  assumes "merge_joins merge content" "load_doc fate sha256 merge room d = Inr u" "parse_room room = Some (m, e)"
  shows "drafts_of content d m = Some (e, content u)"
proof -
  obtain r where r: "row (documents d) m = Some r" "cd_epoch r = e"
    using assms(2,3) by (auto simp: load_doc_def split: option.splits if_splits)
  obtain us where us: "validated sha256 (map snd (log_rows m e d)) = Inr us" "merge_document_updates merge (cd_update r # us) = Inr u"
    using assms(2,3) r by (auto simp: load_doc_def split: sum.splits if_splits)
  have v: "us = map cu_update (map snd (log_rows m e d))" by (rule validated_Inr [OF us(1)])
  have "content u = \<Union> (content ` set (cd_update r # us))"
    using us(2) assms(1) by (auto simp: merge_document_updates_def merge_joins_def split: if_splits option.splits)
  then show ?thesis using r log_contents [of content "log_rows m e d"] by (simp add: drafts_of_def v case_prod_beta)
qed

section \<open>The operations on drafts\<close>

lemma drafts_of_upd:
  assumes "table_ok (update_log d)" "table_ok (update_log d')"
    and "\<And>m'. row (documents d') m' = (if m' = m then Some r else row (documents d) m')"
    and "\<And>m' e q. m' \<noteq> m \<Longrightarrow> row (update_log d') (m', e, q) = row (update_log d) (m', e, q)"
    and "content (cd_update r) \<union> log_content content m (cd_epoch r) d' = S"
  shows "drafts_of content d' = (drafts_of content d)(m \<mapsto> (cd_epoch r, S))"
  using assms(3,5) log_content_cong [OF assms(1,2) assms(4), where content = content] by (auto simp: drafts_of_row fun_eq_iff)

lemma collab_ok_epoch: "collab_ok sha256 d \<Longrightarrow> row (documents d) m = Some r \<Longrightarrow> 0 < cd_epoch r"
  by (simp add: collab_ok_def)

lemma collab_ok_ahead:
  assumes "collab_ok sha256 d" "row (update_log d) (m, e, q) = Some u" "row (documents d) m = Some r"
  shows "e \<le> cd_epoch r"
  using assms by (force simp: collab_ok_def)

lemma collab_ok_log: "collab_ok sha256 d \<Longrightarrow> row (update_log d) (m, e, q) = Some u \<Longrightarrow> validate_persisted_update sha256 u = None"
  by (simp add: collab_ok_def)

lemma log_rows_valid:
  "collab_ok sha256 d \<Longrightarrow> validated sha256 (map snd (log_rows m e d)) = Inr (map cu_update (map snd (log_rows m e d)))"
  by (rule validated_ok) (auto simp: collab_ok_def log_rows_row)

lemma log_content_merged:
  assumes "merge_joins merge content" "merge us = Some u"
    and "set us = insert a (B \<union> set (map cu_update (map snd (log_rows m e d))))"
  shows "content u = content a \<union> \<Union> (content ` B) \<union> log_content content m e d"
  using assms log_contents [of content "log_rows m e d"] by (auto simp: merge_joins_def log_content_def)

text \<open>An operation that writes the row of one song and keeps, of the log of that song, what is not ahead of it.\<close>

lemma collab_ok_upd:
  assumes "collab_ok sha256 d" "table_ok (documents d')" "table_ok (update_log d')"
    and "\<And>m'. row (documents d') m' = (if m' = m then Some r else row (documents d) m')" "0 < cd_epoch r"
    and "\<And>m' e q u. row (update_log d') (m', e, q) = Some u \<Longrightarrow>
      (if m' = m then validate_persisted_update sha256 u = None \<and> e \<le> cd_epoch r else row (update_log d) (m', e, q) = Some u)"
  shows "collab_ok sha256 d'"
  unfolding collab_ok_def
proof (intro conjI allI impI)
  fix m' e q u assume u: "row (update_log d') (m', e, q) = Some u"
  show "validate_persisted_update sha256 u = None" "\<exists>r. row (documents d') m' = Some r \<and> e \<le> cd_epoch r"
    using assms(6) [OF u] assms(1,4) by (auto simp: collab_ok_def split: if_splits)
next
  fix m' r' assume "row (documents d') m' = Some r'"
  then show "0 < cd_epoch r'" using assms(1,4,5) by (auto simp: collab_ok_def split: if_splits)
qed (use assms in auto)

lemma collab_ok_tables [simp]: "collab_ok sha256 d \<Longrightarrow> table_ok (documents d)" "collab_ok sha256 d \<Longrightarrow> table_ok (update_log d)"
  by (simp_all add: collab_ok_def)

lemma collab_ok_keep:
  assumes ok: "collab_ok sha256 d" and r0: "row (documents d) m = Some r0" "cd_epoch r0 \<le> cd_epoch r"
    and d': "table_ok (documents d')" "table_ok (update_log d')"
      "\<And>m'. row (documents d') m' = (if m' = m then Some r else row (documents d) m')"
    and sub: "\<And>k u. row (update_log d') k = Some u \<Longrightarrow> row (update_log d) k = Some u"
  shows "collab_ok sha256 d'"
proof (rule collab_ok_upd [OF ok d'])
  show "0 < cd_epoch r" using collab_ok_epoch [OF ok r0(1)] r0(2) by simp
  fix m' e q u assume "row (update_log d') (m', e, q) = Some u"
  then have u: "row (update_log d) (m', e, q) = Some u" by (rule sub)
  show "if m' = m then validate_persisted_update sha256 u = None \<and> e \<le> cd_epoch r else row (update_log d) (m', e, q) = Some u"
    using u collab_ok_log [OF ok u] collab_ok_ahead [OF ok u] r0 by fastforce
qed

lemma collab_ok_no_doc: "collab_ok sha256 d \<Longrightarrow> row (documents d) m = None \<Longrightarrow> row (update_log d) (m, e, q) = None"
  unfolding collab_ok_def by (metis option.distinct(1) option.exhaust)

lemma store_update_draft:
  assumes ok: "collab_ok sha256 d" and s: "store_update fate sha256 now room u d = (d', None)"
  obtains m e S where "parse_room room = Some (m, e)" "drafts_of content d m = Some (e, S)"
    "drafts_of content d' = (drafts_of content d)(m \<mapsto> (e, S \<union> content u))" "collab_ok sha256 d'"
proof -
  obtain m e r where r: "parse_room room = Some (m, e)" "row (documents d) m = Some r" "cd_epoch r = e"
    and u: "u \<noteq> []" "length u \<le> maxUpdateBytes"
    and d': "d' = d\<lparr>update_log := put (m, e, next_seq m e d) \<lparr>cu_update = u, cu_sha = sha256 u, cu_size = length u, cu_created_at = now\<rparr>
        (update_log d), documents := modify m (\<lambda>r. r\<lparr>cd_updated_at := now\<rparr>) (documents d)\<rparr>"
    using s by (auto simp: store_update_def split: option.splits if_splits)
  have fresh: "row (update_log d) (m, e, next_seq m e d) = None" by (rule next_seq_fresh) (use ok in simp)
  have l: "log_content content m e d' = log_content content m e d \<union> content u"
  proof (rule set_eqI)
    fix x
    show "x \<in> log_content content m e d' \<longleftrightarrow> x \<in> log_content content m e d \<union> content u"
      using ok fresh by (simp add: d' log_content_row) (metis option.distinct(1))
  qed
  let ?S = "content (cd_update r) \<union> log_content content m e d"
  have "drafts_of content d' = (drafts_of content d)(m \<mapsto> (cd_epoch (r\<lparr>cd_updated_at := now\<rparr>), ?S \<union> content u))"
    by (rule drafts_of_upd) (use ok r l in \<open>auto simp: d'\<close>)
  moreover have "collab_ok sha256 d'"
    by (rule collab_ok_upd [OF ok, where m = m and r = "r\<lparr>cd_updated_at := now\<rparr>"])
      (use ok r u in \<open>auto simp: d' validate_persisted_update_def dest: collab_ok_log collab_ok_epoch collab_ok_ahead split: if_splits\<close>)
  ultimately show thesis using r by (intro that) (simp_all add: drafts_of_row)
qed

lemma compact_draft:
  assumes ok: "collab_ok sha256 d" and j: "merge_joins merge content" and s: "compact fate sha256 merge now room d = (d', None)"
  shows "drafts_of content d' = drafts_of content d" "collab_ok sha256 d'"
proof -
  obtain m e r where r: "parse_room room = Some (m, e)" "row (documents d) m = Some r" "cd_epoch r = e"
    using s by (auto simp: compact_def split: option.splits if_splits)
  consider "d' = d" | merged where "merge (cd_update r # map cu_update (map snd (log_rows m e d))) = Some merged"
    "d' = d\<lparr>documents := modify m (\<lambda>r. r\<lparr>cd_update := merged, cd_updated_at := now\<rparr>) (documents d),
            update_log := del (\<lambda>(m', e', _). m' = m \<and> e' = e) (update_log d)\<rparr>"
    using s r log_rows_valid [OF ok, of m e] by (auto simp: compact_def split: option.splits if_splits)
  then have "drafts_of content d' = drafts_of content d \<and> collab_ok sha256 d'"
  proof cases
    case 2
    have c: "content merged = content (cd_update r) \<union> log_content content m e d"
      using log_content_merged [OF j 2(1), where B = "{}"] by simp
    have "drafts_of content d' = (drafts_of content d)(m \<mapsto> (cd_epoch (r\<lparr>cd_update := merged, cd_updated_at := now\<rparr>), content merged))"
      by (rule drafts_of_upd) (use ok r in \<open>auto simp: 2(2) log_content_row\<close>)
    moreover have "\<dots> = drafts_of content d" using r by (auto simp: c fun_eq_iff drafts_of_row)
    moreover have "collab_ok sha256 d'"
      by (rule collab_ok_keep [OF ok r(2), where r = "r\<lparr>cd_update := merged, cd_updated_at := now\<rparr>"])
        (use ok r in \<open>auto simp: 2(2) split: if_splits\<close>)
    ultimately show ?thesis by simp
  qed (use ok in simp)
  then show "drafts_of content d' = drafts_of content d" "collab_ok sha256 d'" by simp_all
qed

lemma commit_checkpoint_draft:
  assumes ok: "collab_ok sha256 d" and j: "merge_joins merge content"
    and s: "commit_checkpoint fate sha256 merge now b u revision authority actor changed d = (d', None)"
  obtains S where "drafts_of content d (pd_music b) = Some (pd_epoch b, S)"
    "drafts_of content d' = (drafts_of content d)(pd_music b \<mapsto> (pd_epoch b, S \<union> content u))" "collab_ok sha256 d'"
proof -
  let ?m = "pd_music b" and ?e = "pd_epoch b"
  have tx: "commit_checkpoint_tx sha256 merge now b u revision authority actor changed d = Inr d'"
    using s by (auto simp: commit_checkpoint_def split: sum.splits if_splits)
  obtain r where r: "row (documents d) ?m = Some r" "cd_epoch r = ?e"
    using tx by (auto simp: commit_checkpoint_tx_def same_baseline_def split: option.splits if_splits)
  obtain merged r' k where merged: "merge (cd_update r # u # map cu_update (map snd (log_rows ?m ?e d))) = Some merged"
    and r': "cd_update r' = merged" "cd_epoch r' = ?e"
    and docs: "documents d' = put ?m r' (documents d)"
    and log: "update_log d' = update_log d \<or> update_log d' = del (\<lambda>(m, e, q). m = ?m \<and> e = ?e \<and> q \<le> k) (update_log d)"
  proof -
    obtain merged where m: "merge (cd_update r # u # map cu_update (map snd (log_rows ?m ?e d))) = Some merged"
      and i: "insert_checkpoint_ledger b revision authority actor changed now
          (d\<lparr>documents := modify ?m (\<lambda>r. r\<lparr>cd_update := merged, cd_base_revision := revision, cd_authority := authority,
             cd_updated_at := now, cd_checkpointed_at := now, cd_checkpointed_by := actor\<rparr>) (documents d)\<rparr>) \<noteq> None"
      using tx r log_rows_valid [OF ok, of ?m ?e]
      by (auto simp: commit_checkpoint_tx_def Let_def split: option.splits if_splits)
    let ?r = "r\<lparr>cd_update := merged, cd_base_revision := revision, cd_authority := authority,
             cd_updated_at := now, cd_checkpointed_at := now, cd_checkpointed_by := actor\<rparr>"
    show thesis
    proof (rule that [OF m, of ?r])
      show "documents d' = put ?m ?r (documents d)"
        using tx r m log_rows_valid [OF ok, of ?m ?e]
        by (auto simp: commit_checkpoint_tx_def Let_def insert_checkpoint_ledger_def modify_def split: if_splits)
      show "update_log d' = update_log d \<or> update_log d' = del (\<lambda>(m, e, q). m = ?m \<and> e = ?e \<and>
          q \<le> Max (insert 0 (fst ` set (log_rows ?m ?e d)))) (update_log d)"
        using tx r m log_rows_valid [OF ok, of ?m ?e]
        by (auto simp: commit_checkpoint_tx_def Let_def insert_checkpoint_ledger_def split: if_splits)
    qed (use r in simp_all)
  qed
  have c: "content merged = content (cd_update r) \<union> content u \<union> log_content content ?m ?e d"
    using log_content_merged [OF j merged, of _ "{u}"] by auto
  have t: "table_ok (update_log d')" using ok log by auto
  have rows: "row (documents d') m' = (if m' = ?m then Some r' else row (documents d) m')" for m'
    using r by (simp add: docs)
  have sub: "row (update_log d') k = Some v \<Longrightarrow> row (update_log d) k = Some v" for k v
    using log by (auto split: if_splits)
  have "log_content content ?m ?e d' \<subseteq> log_content content ?m ?e d"
    using sub ok t by (fastforce simp: log_content_row)
  then have "content (cd_update r') \<union> log_content content ?m (cd_epoch r') d' = content merged"
    by (auto simp: r' c)
  then have "drafts_of content d' = (drafts_of content d)(?m \<mapsto> (cd_epoch r', content merged))"
    by (intro drafts_of_upd rows) (use ok t log in auto)
  moreover have "collab_ok sha256 d'"
    by (rule collab_ok_keep [OF ok r(1) _ _ t rows sub]) (use ok r r' in \<open>simp_all add: docs\<close>)
  ultimately show thesis using r by (intro that) (auto simp: drafts_of_row r' c)
qed

text \<open>Operations that drop the log of the song and start a new room.\<close>

lemma fresh_room:
  assumes ok: "collab_ok sha256 d" and e: "0 < cd_epoch r"
    and d': "documents d' = put m r (documents d)" "update_log d' = del (\<lambda>(m', _, _). m' = m) (update_log d)"
  shows "drafts_of content d' = (drafts_of content d)(m \<mapsto> (cd_epoch r, content (cd_update r)))" "collab_ok sha256 d'"
proof -
  have "table_ok (update_log d')" using ok by (simp add: d')
  then have "log_content content m e d' = {}" for e by (auto simp: log_content_row d' split: if_splits)
  then show "drafts_of content d' = (drafts_of content d)(m \<mapsto> (cd_epoch r, content (cd_update r)))"
    by (intro drafts_of_upd) (use ok in \<open>auto simp: d'\<close>)
  show "collab_ok sha256 d'"
    by (rule collab_ok_upd [OF ok, where m = m and r = r]) (use ok e in \<open>auto simp: d' split: if_splits\<close>)
qed

lemma reseed_checkpoint_draft:
  assumes ok: "collab_ok sha256 d" and s: "reseed_checkpoint fate sha256 encode now b doc actor changed d = (d', Inr rooms)"
  obtains S u where "drafts_of content d (pd_music b) = Some (pd_epoch b, S)" "pd_epoch b \<noteq> maxEpoch"
    "document_update encode doc = Inr u" "collab_ok sha256 d'"
    "drafts_of content d' = (drafts_of content d)(pd_music b \<mapsto> (pd_epoch b + 1, content u))"
proof -
  have tx: "reseed_checkpoint_tx sha256 encode now b doc actor changed d = Inr (d', rooms)"
    using s by (auto simp: reseed_checkpoint_def split: sum.splits if_splits)
  obtain r u where r: "row (documents d) (pd_music b) = Some r" "cd_epoch r = pd_epoch b"
    and u: "document_update encode doc = Inr u" "pd_epoch b \<noteq> maxEpoch"
    using tx by (auto simp: reseed_checkpoint_tx_def same_baseline_def split: option.splits sum.splits if_splits)
  define r' where "r' = the (row (documents d') (pd_music b))"
  have r': "cd_epoch r' = pd_epoch b + 1" "cd_update r' = u" "documents d' = put (pd_music b) r' (documents d)"
    "update_log d' = del (\<lambda>(m', _, _). m' = pd_music b) (update_log d)"
    using tx r u by (auto simp: r'_def reseed_checkpoint_tx_def insert_checkpoint_ledger_def modify_def split: sum.splits if_splits)
  have "0 < cd_epoch r'" using collab_ok_epoch [OF ok r(1)] r r' by simp
  note f = fresh_room [OF ok this r'(3,4)]
  have "drafts_of content d (pd_music b) = Some (pd_epoch b, content (cd_update r) \<union> log_content content (pd_music b) (pd_epoch b) d)"
    using r by (simp add: drafts_of_row)
  then show thesis using that [OF _ u(2,1) f(2)] f(1) [of content] r' by simp
qed

lemma next_epoch_pos: "0 \<le> e \<Longrightarrow> 0 < next_epoch e"
  by (simp add: next_epoch_def maxEpoch_def)

lemma next_epoch_readable: "\<not> maxEpoch < e \<Longrightarrow> \<not> maxEpoch < next_epoch e" "cd_epoch r = next_epoch e \<Longrightarrow> \<not> maxEpoch < e \<Longrightarrow> \<not> unreadable r"
  by (auto simp: next_epoch_def unreadable_def maxEpoch_def)

lemma replace_draft:
  assumes ok: "collab_ok sha256 d" and s: "replace_from_authoritative fate sha256 encode now lyrics in_catalog m d = (d', Inr rooms)"
  obtains doc u where "authoritative_document lyrics in_catalog m = Inr doc" "document_update encode doc = Inr u" "collab_ok sha256 d'"
    "drafts_of content d' = (drafts_of content d)(m \<mapsto>
       (case drafts_of content d m of None \<Rightarrow> 1 | Some (e, _) \<Rightarrow> next_epoch e, content u))"
proof -
  obtain doc u where u: "authoritative_document lyrics in_catalog m = Inr doc" "document_update encode doc = Inr u"
    using s by (auto simp: replace_from_authoritative_def split: sum.splits)
  let ?old = "case row (documents d) m of None \<Rightarrow> 0 | Some r \<Rightarrow> cd_epoch r"
  define r' where "r' = the (row (documents d') m)"
  have r': "cd_epoch r' = next_epoch ?old" "cd_update r' = u" "documents d' = put m r' (documents d)"
    "update_log d' = del (\<lambda>(m', _, _). m' = m) (update_log d)"
    using s u by (auto simp: r'_def replace_from_authoritative_def Let_def split: sum.splits if_splits)
  have "0 \<le> ?old" using collab_ok_epoch [OF ok] by (force split: option.splits)
  then have "0 < cd_epoch r'" by (simp add: r' next_epoch_pos)
  note f = fresh_room [OF ok this r'(3,4)]
  have "next_epoch ?old = (case drafts_of content d m of None \<Rightarrow> 1 | Some (e, _) \<Rightarrow> next_epoch e)"
    by (simp add: drafts_of_row next_epoch_def maxEpoch_def split: option.splits)
  then show thesis using that [OF u f(2)] f(1) [of content] r' by simp
qed

lemma open_room_draft:
  assumes ok: "collab_ok sha256 d" and s: "open_room fate sha256 encode now lyrics in_catalog m d = (d', err)"
  obtains "d' = d" "err = None \<longrightarrow> drafts_of content d m \<noteq> None"
  | doc u where "err = None" "drafts_of content d m = None" "authoritative_document lyrics in_catalog m = Inr doc"
    "document_update encode doc = Inr u" "collab_ok sha256 d'" "drafts_of content d' = (drafts_of content d)(m \<mapsto> (1, content u))"
proof (cases "err = None \<and> row (documents d) m = None")
  case False
  then show thesis using s that(1) by (auto simp: open_room_def drafts_of_row split: sum.splits if_splits)
next
  case None: True
  obtain doc u where u: "authoritative_document lyrics in_catalog m = Inr doc" "document_update encode doc = Inr u"
    using s None by (auto simp: open_room_def split: sum.splits if_splits)
  define r' where "r' = the (row (documents d') m)"
  have r': "cd_epoch r' = 1" "cd_update r' = u" "documents d' = put m r' (documents d)" "update_log d' = update_log d"
    using s None u by (auto simp: r'_def open_room_def Let_def split: sum.splits if_splits)
  note none = collab_ok_no_doc [OF ok conjunct2 [OF None]]
  then have "log_content content m e d' = {}" for e using ok by (auto simp: log_content_row r')
  then have "drafts_of content d' = (drafts_of content d)(m \<mapsto> (cd_epoch r', content u))"
    by (intro drafts_of_upd) (use ok in \<open>auto simp: r'\<close>)
  moreover have "collab_ok sha256 d'"
    by (rule collab_ok_upd [OF ok, where m = m and r = r']) (use ok none in \<open>auto simp: r' split: if_splits\<close>)
  ultimately show thesis using that(2) [OF _ _ u] None by (simp add: drafts_of_row r')
qed

lemma ensure_room_draft:
  assumes ok: "collab_ok sha256 d" and s: "ensure_room fate sha256 encode now lyrics in_catalog again m d = (d', res)"
  obtains "d' = d" "isl res \<or> drafts_of content d m \<noteq> None"
  | doc u where "drafts_of content d m = None" "authoritative_document lyrics in_catalog m = Inr doc" "document_update encode doc = Inr u"
    "collab_ok sha256 d'" "drafts_of content d' = (drafts_of content d)(m \<mapsto> (1, content u))"
proof (cases "m \<le> 0 \<or> read_room fate sha256 lyrics in_catalog m d \<noteq> None")
  case True
  then show thesis using s that(1) by (auto simp: ensure_room_def read_room_def drafts_of_row split: if_splits)
next
  case False
  obtain d1 err where o: "open_room fate sha256 encode now lyrics in_catalog m d = (d1, err)" by fastforce
  have d': "d' = d1" "err \<noteq> None \<longrightarrow> isl res"
    using s False o opened_room_read [of fate sha256 encode now lyrics in_catalog m d d1]
    by (auto simp: ensure_room_def Let_def split: option.splits prod.splits)
  from ok o show thesis
    by (cases rule: open_room_draft [where content = content]) (use that d' in auto)
qed

lemma bump_all_epochs_draft:
  assumes ok: "collab_ok sha256 d" and s: "bump_all_epochs fate now d = (d', Inr rooms)"
  shows "case drafts_of content d m of None \<Rightarrow> drafts_of content d' m = None
         | Some (e, S) \<Rightarrow> \<exists>S'. drafts_of content d' m = Some (e + 1, S') \<and> S' \<subseteq> S"
    and "collab_ok sha256 d'"
proof -
  have d': "documents d' = map (\<lambda>(m, r). (m, (r\<lparr>cd_epoch := cd_epoch r + 1, cd_updated_at := now\<rparr>))) (documents d)"
    "update_log d' = update_log d"
    using s by (auto simp: bump_all_epochs_def split: if_splits)
  have rows: "row (documents d') m = map_option (\<lambda>r. r\<lparr>cd_epoch := cd_epoch r + 1, cd_updated_at := now\<rparr>) (row (documents d) m)" for m
    unfolding d' by (rule row_map_rows)
  have "log_content content m (cd_epoch r + 1) d' = {}" if "row (documents d) m = Some r" for r m
    using ok collab_ok_ahead [OF ok _ that, of "cd_epoch r + 1"] by (auto simp: log_content_row d'(2))
  then show "case drafts_of content d m of None \<Rightarrow> drafts_of content d' m = None
         | Some (e, S) \<Rightarrow> \<exists>S'. drafts_of content d' m = Some (e + 1, S') \<and> S' \<subseteq> S"
    by (auto simp: drafts_of_row rows split: option.splits)
  have "map fst (documents d') = map fst (documents d)" by (simp add: d' comp_def case_prod_beta)
  then have "table_ok (documents d')" using ok by (simp add: table_ok_def collab_ok_def)
  moreover have "0 < cd_epoch r" if "row (documents d') m = Some r" for m r
    using that collab_ok_epoch [OF ok] by (fastforce simp: rows)
  moreover have "validate_persisted_update sha256 u = None \<and> (\<exists>r. row (documents d') m = Some r \<and> e \<le> cd_epoch r)"
    if u: "row (update_log d') (m, e, q) = Some u" for m e q u
    using collab_ok_log [OF ok, of m e q u] collab_ok_ahead [OF ok, of m e q u] collab_ok_no_doc [OF ok, of m e q] u
    by (cases "row (documents d) m") (auto simp: rows d'(2))
  ultimately show "collab_ok sha256 d'"
    using ok unfolding collab_ok_def [of _ d'] by (simp add: d'(2))
qed

section \<open>The store refines its specification\<close>

fun ensures :: "collab_op \<Rightarrow> bool" where
  "ensures (EnsureRoom _ _ _ _ _ _) = True"
| "ensures _ = False"

lemma run_collab_refused: "run_collab sha256 merge encode opr d = (d', False) \<Longrightarrow> \<not> ensures opr \<Longrightarrow> d' = d"
  by (cases opr)
    (auto simp: store_update_def compact_def commit_checkpoint_def reseed_checkpoint_def replace_from_authoritative_def
      open_room_def bump_all_epochs_def Let_def split: option.splits sum.splits prod.splits if_splits)

lemma succeeded: "(let (d', r) = p in (d', isl r = False)) = (x, True) \<Longrightarrow> \<exists>v. p = (x, Inr v)"
  by (cases p; cases "snd p") auto

lemma run_collab_done:
  assumes ok: "collab_ok sha256 d" and j: "merge_joins merge content" and run: "run_collab sha256 merge encode opr d = (d', True)"
  shows "collab_ok sha256 d' \<and> draft_step content encode opr True (drafts_of content d) (drafts_of content d')"
proof (cases opr)
  case (StoreUpdate fate now room u)
  then have "store_update fate sha256 now room u d = (d', None)" using run by (auto split: prod.splits)
  from store_update_draft [OF ok this, of content] show ?thesis by (metis StoreUpdate stored)
next
  case (Compact fate now room)
  then have "compact fate sha256 merge now room d = (d', None)" using run by (auto split: prod.splits)
  from compact_draft [OF ok j this] show ?thesis by (simp add: Compact compacted)
next
  case (Checkpoint fate now b u revision authority actor changed)
  then have "commit_checkpoint fate sha256 merge now b u revision authority actor changed d = (d', None)"
    using run by (auto split: prod.splits)
  from commit_checkpoint_draft [OF ok j this] show ?thesis by (metis Checkpoint checkpointed)
next
  case (Reseed fate now b doc actor changed)
  then obtain rooms where "reseed_checkpoint fate sha256 encode now b doc actor changed d = (d', Inr rooms)"
    using run succeeded by fastforce
  from reseed_checkpoint_draft [OF ok this, of content] show ?thesis by (metis Reseed reseeded)
next
  case (Replace fate now lyrics in_catalog m)
  then obtain rooms where "replace_from_authoritative fate sha256 encode now lyrics in_catalog m d = (d', Inr rooms)"
    using run succeeded by fastforce
  then obtain doc u where "authoritative_document lyrics in_catalog m = Inr doc" "document_update encode doc = Inr u"
    "collab_ok sha256 d'" "drafts_of content d' = (drafts_of content d)(m \<mapsto>
       (case drafts_of content d m of None \<Rightarrow> 1 | Some (e, _) \<Rightarrow> next_epoch e, content u))"
    using replace_draft [OF ok] by metis
  then show ?thesis using replaced [of lyrics in_catalog m doc encode u content fate now "drafts_of content d"] by (simp add: Replace)
next
  case (OpenRoom fate now lyrics in_catalog m)
  then have "open_room fate sha256 encode now lyrics in_catalog m d = (d', None)" using run by (auto split: prod.splits)
  with ok show ?thesis
    by (cases rule: open_room_draft [where content = content]) (use OpenRoom ok in \<open>auto intro: there inserted\<close>)
next
  case (EnsureRoom fate now lyrics in_catalog again m)
  then obtain p where "ensure_room fate sha256 encode now lyrics in_catalog again m d = (d', Inr p)"
    using run succeeded by fastforce
  with ok show ?thesis
    by (cases rule: ensure_room_draft [where content = content]) (use EnsureRoom ok in \<open>auto intro: ensured opened\<close>)
next
  case (BumpAll fate now)
  then obtain rooms where "bump_all_epochs fate now d = (d', Inr rooms)"
    using run succeeded by fastforce
  note b = bump_all_epochs_draft [OF ok this]
  have "draft_step content encode (BumpAll fate now) True (drafts_of content d) (drafts_of content d')"
    by (rule bumped) (use b(1) in blast)
  then show ?thesis using b(2) by (simp add: BumpAll)
qed

lemma run_collab_step:
  assumes "collab_ok sha256 d" "merge_joins merge content" "run_collab sha256 merge encode opr d = (d', done_ok)"
  shows "collab_ok sha256 d' \<and> draft_step content encode opr done_ok (drafts_of content d) (drafts_of content d')"
proof (cases done_ok)
  case False
  show ?thesis
  proof (cases "ensures opr")
    case True
    then obtain fate now lyrics in_catalog again m where opr: "opr = EnsureRoom fate now lyrics in_catalog again m"
      by (cases opr) auto
    then obtain res where "ensure_room fate sha256 encode now lyrics in_catalog again m d = (d', res)"
      using assms(3) by (auto split: prod.splits)
    with assms(1) show ?thesis
      by (cases rule: ensure_room_draft [where content = content]) (use opr False assms(1) in \<open>auto intro: refused opened\<close>)
  next
    case n: False
    then have "d' = d" using run_collab_refused [of sha256 merge encode opr d d'] assms(3) False by simp
    then show ?thesis using False assms(1) by (simp add: refused)
  qed
qed (use run_collab_done [OF assms(1,2)] assms(3) in simp)

text \<open>
  C5:
  Every operation of the store keeps the constraints of its tables, and does to the drafts what
  the specification says of it: a refused operation changes nothing, except that opening a room may
  report an error after it has created it; a stored update joins its room, compaction does not change what any room holds, a checkpoint adds its merged document,
  and reseeding, replacing, opening and bumping move rooms to their new epoch.
\<close>

theorem collab_store_refines:
  assumes "collab_ok sha256 d" "merge_joins merge content" "run_collab sha256 merge encode opr d = (d', done_ok)"
  shows "collab_ok sha256 d' \<and> draft_step content encode opr done_ok (drafts_of content d) (drafts_of content d')"
  using assms by (rule run_collab_step)

section \<open>Rooms over time\<close>

fun run_collabs ::
  "(string \<Rightarrow> string) \<Rightarrow> (string list \<Rightarrow> string option) \<Rightarrow> (string \<Rightarrow> string option) \<Rightarrow> collab_op list \<Rightarrow> collab_db \<Rightarrow> collab_db" where
  "run_collabs sha256 merge encode [] d = d"
| "run_collabs sha256 merge encode (opr # ops) d = run_collabs sha256 merge encode ops (fst (run_collab sha256 merge encode opr d))"

text \<open>A song is at an epoch from \<open>e\<close> to \<open>k\<close>, and while it is at \<open>e\<close> it holds \<open>U\<close>.\<close>

definition room_since :: "int \<Rightarrow> int \<Rightarrow> int \<Rightarrow> 'c set \<Rightarrow> 'c drafts \<Rightarrow> bool" where
  "room_since m e k U s \<longleftrightarrow> (\<exists>e' S. s m = Some (e', S) \<and> e \<le> e' \<and> e' \<le> k \<and> (e' = e \<longrightarrow> U \<subseteq> S))"

inductive_cases draft_stepE: "draft_step content encode opr done_ok s s'"

lemma room_since_step:
  assumes "draft_step content encode opr done_ok s s'" "room_since m e k U s" "k < maxEpoch"
  shows "room_since m e (k + 1) U s'"
  using assms(1)
proof (cases rule: draft_step.cases)
  case (bumped fate now)
  obtain e' S where s: "s m = Some (e', S)" "e \<le> e'" "e' \<le> k" "e' = e \<longrightarrow> U \<subseteq> S" using assms(2) by (auto simp: room_since_def)
  then obtain S' where "s' m = Some (e' + 1, S')" using bumped(3) [rule_format, of m] by auto
  then show ?thesis using s by (auto simp: room_since_def)
qed (use assms(2,3) in \<open>auto simp: room_since_def next_epoch_def\<close>)

lemma room_since_run:
  assumes "collab_ok sha256 d" "merge_joins merge content" "room_since m e k U (drafts_of content d)" "k + int (length ops) \<le> maxEpoch"
  shows "collab_ok sha256 (run_collabs sha256 merge encode ops d) \<and>
    room_since m e (k + int (length ops)) U (drafts_of content (run_collabs sha256 merge encode ops d))"
  using assms
proof (induction ops arbitrary: d k)
  case (Cons opr ops)
  obtain d' b where d': "run_collab sha256 merge encode opr d = (d', b)" by fastforce
  note s = run_collab_step [OF Cons.prems(1,2) d']
  have "room_since m e (k + 1) U (drafts_of content d')"
    by (rule room_since_step [OF conjunct2 [OF s] Cons.prems(3)]) (use Cons.prems(4) in simp)
  then show ?case using Cons.IH [of d' "k + 1"] s Cons.prems by (simp add: d' algebra_simps)
qed simp

text \<open>
  C6:
  An accepted update is not lost: after the store has accepted an update to a room, whatever
  operations follow, fewer than the epochs that are left, each load of that room that succeeds
  returns a document that contains it.
\<close>

theorem accepted_update_survives:
  assumes "collab_ok sha256 d" "merge_joins merge content" "parse_room room = Some (m, e)"
    and "store_update fate sha256 now room u d = (d1, None)" "e + int (length ops) \<le> maxEpoch"
    and "load_doc fate' sha256 merge room (run_collabs sha256 merge encode ops d1) = Inr v"
  shows "content u \<subseteq> content v"
proof -
  have "collab_ok sha256 d1 \<and> room_since m e e (content u) (drafts_of content d1)"
    by (rule store_update_draft [OF assms(1,4), of content]) (use assms(3) in \<open>auto simp: room_since_def\<close>)
  from room_since_run [OF conjunct1 [OF this] assms(2) conjunct2 [OF this] assms(5), of encode] load_doc_draft [OF assms(2,6,3)]
  show ?thesis by (auto simp: room_since_def)
qed

text \<open>
  C27:
  A room whose epoch has passed stays retired: whatever operations follow, fewer than the epochs
  that are left, the room can be neither read, nor written, nor compacted.
\<close>

theorem retired_room_stays_retired:
  assumes "collab_ok sha256 d" "parse_room room = Some (m, e)" "current_epoch DbWorks m d = Inr e'" "e < e'"
    and "e' + int (length ops) \<le> maxEpoch" "d' = run_collabs sha256 merge encode ops d"
  shows "isl (load_doc fate sha256 merge room d') \<and> snd (store_update fate sha256 now room u d') \<noteq> None \<and>
    snd (compact fate sha256 merge now room d') \<noteq> None"
proof -
  let ?c = "\<lambda>_ :: string. {} :: unit set"
  have j: "merge_joins merge ?c" by (simp add: merge_joins_def)
  obtain r where r: "row (documents d) m = Some r" "cd_epoch r = e'"
    using assms(3) by (auto simp: current_epoch_def split: option.splits if_splits)
  have "room_since m e' e' {} (drafts_of ?c d)" using r by (simp add: room_since_def drafts_of_row)
  from conjunct2 [OF room_since_run [OF assms(1) j this assms(5), of encode]]
  obtain r' where "row (documents d') m = Some r'" "e < cd_epoch r'"
    using assms(4) unfolding assms(6) by (auto simp: room_since_def drafts_of_row)
  then show ?thesis
    using assms(2) by (simp_all add: load_doc_def store_update_def compact_def)
qed

text \<open>
  The rooms that the server accepts are exactly the names it makes, for songs up to the largest
  int32 and epochs up to the largest int64.
\<close>

theorem room_names_roundtrip:
  "parse_room room = Some (m, e) \<longleftrightarrow> room = room_name m e \<and> 0 < m \<and> m < 2 ^ 31 \<and> 0 < e \<and> e < 2 ^ 63"
  using room_name_parse [of room m e] parse_room_name [of m e] by blast

section \<open>Witnesses\<close>

lemma readable_small [simp]: "cd_epoch r \<le> 1000 \<Longrightarrow> \<not> unreadable r"
  by (simp add: unreadable_def maxEpoch_def)

text \<open>Documents as byte strings that are merged by concatenation, and a store with one room.\<close>

definition one_room :: collab_db where
  "one_room = \<lparr>documents = [(3, \<lparr>cd_epoch = 1, cd_update = ''a'', cd_base_revision = 0, cd_authority = ''h'', cd_updated_at = 0,
     cd_checkpointed_at = 0, cd_checkpointed_by = []\<rparr>)], update_log = [], checkpoints = []\<rparr>"

lemma one_room_ok: "collab_ok sha256 one_room"
  by (auto simp: collab_ok_def one_room_def table_ok_def row_def)

lemma concat_joins: "merge_joins (\<lambda>us. Some (concat us)) set"
  by (auto simp: merge_joins_def)

lemma digit_1: "format_uint 1 = ''1''" "format_uint 2 = ''2''" "format_uint 3 = ''3''"
  by code_simp+

lemma rooms_3: "room_name 3 1 = ''lyrics-3-e1''" "room_name 3 2 = ''lyrics-3-e2''"
  by (simp_all add: room_name_def format_int_def digit_1 digit_1(1) [unfolded One_nat_def])

lemma room_3_1: "parse_room ''lyrics-3-e1'' = Some (3, 1)" and room_3_2: "parse_room ''lyrics-3-e2'' = Some (3, 2)"
  using parse_room_name [of 3 1] parse_room_name [of 3 2] by (simp_all add: rooms_3)

lemma store_3_1: "\<exists>d'. store_update DbWorks (\<lambda>s. s) 7 ''lyrics-3-e1'' ''b'' one_room = (d', None)"
  by (simp add: store_update_def room_3_1 one_room_def maxUpdateBytes_def maxDocumentUpdateBytes_def row_def)

theorem collab_store_refines_witness:
  "\<exists>d'. run_collab (\<lambda>s. s) (\<lambda>us. Some (concat us)) Some (StoreUpdate DbWorks 7 ''lyrics-3-e1'' ''b'') one_room = (d', True) \<and>
     collab_ok (\<lambda>s. s) d' \<and>
     draft_step set Some (StoreUpdate DbWorks 7 ''lyrics-3-e1'' ''b'') True (drafts_of set one_room) (drafts_of set d')"
proof -
  obtain d' where "run_collab (\<lambda>s. s) (\<lambda>us. Some (concat us)) Some (StoreUpdate DbWorks 7 ''lyrics-3-e1'' ''b'') one_room = (d', True)"
    using store_3_1 by auto
  with collab_store_refines [OF one_room_ok concat_joins this] show ?thesis by blast
qed

lemma stored_value:
  "fst (store_update DbWorks (\<lambda>s. s) 7 ''lyrics-3-e1'' ''b'' one_room) =
     \<lparr>documents = [(3, \<lparr>cd_epoch = 1, cd_update = ''a'', cd_base_revision = 0, cd_authority = ''h'', cd_updated_at = 7,
        cd_checkpointed_at = 0, cd_checkpointed_by = []\<rparr>)],
      update_log = [((3, 1, 1), \<lparr>cu_update = ''b'', cu_sha = ''b'', cu_size = 1, cu_created_at = 7\<rparr>)], checkpoints = []\<rparr>"
  by (simp add: store_update_def room_3_1 one_room_def maxUpdateBytes_def maxDocumentUpdateBytes_def row_def modify_def put_def
    next_seq_def log_rows_def)

lemma compacted_value:
  "load_doc DbWorks (\<lambda>s. s) (\<lambda>us. Some (concat us)) ''lyrics-3-e1''
     (run_collabs (\<lambda>s. s) (\<lambda>us. Some (concat us)) Some [Compact DbWorks 8 ''lyrics-3-e1'']
       (fst (store_update DbWorks (\<lambda>s. s) 7 ''lyrics-3-e1'' ''b'' one_room))) = Inr ''ab''"
  unfolding stored_value
  by (simp add: compact_def load_doc_def room_3_1 maxUpdateBytes_def maxDocumentUpdateBytes_def row_def modify_def put_def del_def
    log_rows_def validate_persisted_update_def merge_document_updates_def)

theorem accepted_update_survives_witness:
  "\<exists>v. load_doc DbWorks (\<lambda>s. s) (\<lambda>us. Some (concat us)) ''lyrics-3-e1''
     (run_collabs (\<lambda>s. s) (\<lambda>us. Some (concat us)) Some [Compact DbWorks 8 ''lyrics-3-e1'']
       (fst (store_update DbWorks (\<lambda>s. s) 7 ''lyrics-3-e1'' ''b'' one_room))) = Inr v \<and> set ''b'' \<subseteq> set v"
proof -
  obtain d1 where d1: "store_update DbWorks (\<lambda>s. s) 7 ''lyrics-3-e1'' ''b'' one_room = (d1, None)" using store_3_1 by blast
  have "load_doc DbWorks (\<lambda>s. s) (\<lambda>us. Some (concat us)) ''lyrics-3-e1''
     (run_collabs (\<lambda>s. s) (\<lambda>us. Some (concat us)) Some [Compact DbWorks 8 ''lyrics-3-e1''] d1) = Inr ''ab''"
    using compacted_value by (simp only: d1 fst_conv)
  from accepted_update_survives [OF one_room_ok concat_joins room_3_1 d1 _ this]
  show ?thesis unfolding compacted_value by (simp add: maxEpoch_def)
qed

text \<open>The catalog document of the song replaces the room: the old one is retired, also after an update to the new one.\<close>

lemma replaced_room:
  "snd (replace_from_authoritative DbWorks (\<lambda>s. s) Some 8 LyricsNotFound (Some True) 3 one_room) = Inr (''lyrics-3-e1'', ''lyrics-3-e2'')"
  "current_epoch DbWorks 3 (fst (replace_from_authoritative DbWorks (\<lambda>s. s) Some 8 LyricsNotFound (Some True) 3 one_room)) = Inr 2"
  by (simp_all add: replace_from_authoritative_def authoritative_document_def document_update_def canonical_document_def blank_lyrics_def
    doc_row_ok_def one_room_def row_def put_def del_def next_epoch_def maxEpoch_def current_epoch_def rooms_3)

theorem retired_room_stays_retired_witness:
  "let d' = run_collabs (\<lambda>s. s) (\<lambda>us. Some (concat us)) Some [StoreUpdate DbWorks 9 ''lyrics-3-e2'' ''c'']
      (fst (replace_from_authoritative DbWorks (\<lambda>s. s) Some 8 LyricsNotFound (Some True) 3 one_room)) in
   isl (load_doc DbWorks (\<lambda>s. s) (\<lambda>us. Some (concat us)) ''lyrics-3-e1'' d') \<and>
   snd (store_update DbWorks (\<lambda>s. s) 10 ''lyrics-3-e1'' ''b'' d') \<noteq> None \<and>
   snd (compact DbWorks (\<lambda>s. s) (\<lambda>us. Some (concat us)) 10 ''lyrics-3-e1'' d') \<noteq> None"
proof -
  let ?r = "replace_from_authoritative DbWorks (\<lambda>s. s) Some 8 LyricsNotFound (Some True) 3 one_room"
  obtain d rooms where r: "?r = (d, Inr rooms)" using replaced_room(1) by (metis prod.collapse)
  have ok: "collab_ok (\<lambda>s. s) (fst ?r)"
    by (rule replace_draft [OF one_room_ok r, of set]) (simp add: r)
  have e: "(1 :: int) < 2" "2 + int (length [StoreUpdate DbWorks 9 ''lyrics-3-e2'' ''c'']) \<le> maxEpoch" by (simp_all add: maxEpoch_def)
  show ?thesis unfolding Let_def by (rule retired_room_stays_retired [OF ok room_3_1 replaced_room(2) e refl])
qed

end
