(* ===== verification/CollabService.thy ===== *)
theory CollabService
  imports EditorGate Accounts CollabStore
begin

text \<open>
  The collaboration service (\<open>collab/service.go\<close>): tickets, the admission of a connection by a
  ticket, and the registries of connections and resident rooms. A connection is admitted by the
  accounts (\<open>Accounts\<close>), the editor gate (\<open>EditorGate\<close>) and the draft store (\<open>CollabStore\<close>).
  Times are in nanoseconds. The WebSocket server of the rooms is a library: what it answers when
  it is asked to close a room is a parameter.
\<close>

section \<open>State\<close>

record ticket_grant =
  tg_user :: string
  tg_role :: string
  tg_version :: int
  tg_bearer :: string
  tg_music :: int
  tg_epoch :: int
  tg_room :: string
  tg_producer :: gate_status
  tg_expires :: int

text \<open>
  The order of the lists stands for the order of an iteration over the Go maps. \<open>resident\<close> and
  \<open>retiring\<close> are maps used as sets.
\<close>

record collab_service =
  tickets :: "(string, ticket_grant) table"
  retiring :: "string list"
  active :: "(string, int) table"
  user_rooms :: "(string, (string, int) table) table"
  resident :: "string list"

definition new_service :: collab_service where
  "new_service = \<lparr>tickets = [], retiring = [], active = [], user_rooms = [], resident = []\<rparr>"

definition ticketTTL :: int where "ticketTTL = 45 * 10 ^ 9"
definition maxTickets :: nat where "maxTickets = 1024"

datatype service_error = TicketInvalid | TicketCapacity | NoRandomness | RoomNotClosed | StoreFailed collab_error

text \<open>What the database and the lyrics store answer in one call of the draft store.\<close>

record store_answers =
  an_fate :: db_fate
  an_now :: int
  an_lyrics :: lyrics_read
  an_in_catalog :: "bool option"
  an_again :: "db_fate \<times> lyrics_read \<times> bool option"

datatype close_answer = CloseDone | CloseNotFound | CloseFails

section \<open>Registries\<close>

definition map_get :: "('k, int) table \<Rightarrow> 'k \<Rightarrow> int" where
  "map_get t k = (case row t k of None \<Rightarrow> 0 | Some n \<Rightarrow> n)"

definition map_lower :: "'k \<Rightarrow> ('k, int) table \<Rightarrow> ('k, int) table" where
  "map_lower k t = (if map_get t k \<le> 1 then del (\<lambda>k'. k' = k) t else put k (map_get t k - 1) t)"

definition track :: "string \<Rightarrow> string \<Rightarrow> collab_service \<Rightarrow> collab_service" where
  "track room username s =
     (let rooms = (case row (user_rooms s) username of None \<Rightarrow> [] | Some rooms \<Rightarrow> rooms) in
      s\<lparr>active := put room (map_get (active s) room + 1) (active s),
        user_rooms := put username (put room (map_get rooms room + 1) rooms) (user_rooms s)\<rparr>)"

definition untrack :: "string \<Rightarrow> string \<Rightarrow> collab_service \<Rightarrow> collab_service" where
  "untrack room username s =
     (let s' = s\<lparr>active := map_lower room (active s)\<rparr> in
      case row (user_rooms s) username of None \<Rightarrow> s'
      | Some rooms \<Rightarrow>
          let rooms' = map_lower room rooms in
          s'\<lparr>user_rooms := (if rooms' = [] then del (\<lambda>u. u = username) (user_rooms s) else put username rooms' (user_rooms s))\<rparr>)"

definition unmark_resident :: "string \<Rightarrow> collab_service \<Rightarrow> collab_service" where
  "unmark_resident room s = s\<lparr>resident := removeAll room (resident s)\<rparr>"

definition mark_resident :: "string \<Rightarrow> collab_service \<Rightarrow> collab_service \<times> bool" where
  "mark_resident room s =
     (if room \<in> set (retiring s) then (s, False) else (s\<lparr>resident := List.insert room (resident s)\<rparr>, True))"

definition close_retired_room :: "(string \<Rightarrow> close_answer) \<Rightarrow> string \<Rightarrow> collab_service \<Rightarrow> collab_service \<times> bool" where
  "close_retired_room close room s =
     (if room = [] then (s, True)
      else if close room = CloseFails then (s, False)
      else (unmark_resident room s, True))"

text \<open>Closing a list of rooms; True when one could not be closed.\<close>

fun close_rooms :: "(string \<Rightarrow> close_answer) \<Rightarrow> string list \<Rightarrow> collab_service \<Rightarrow> collab_service \<times> bool" where
  "close_rooms close [] s = (s, False)"
| "close_rooms close (room # rooms) s =
     (let (s', closed) = close_retired_room close room s; (s'', failed) = close_rooms close rooms s' in (s'', \<not> closed \<or> failed))"

definition known_rooms :: "collab_service \<Rightarrow> string list" where
  "known_rooms s = remdups (map fst (active s) @ resident s)"

definition music_rooms :: "int \<Rightarrow> string \<Rightarrow> collab_service \<Rightarrow> string list" where
  "music_rooms m extra s =
     filter (\<lambda>room. case parse_room room of None \<Rightarrow> False | Some (m', _) \<Rightarrow> m' = m)
       (remdups (known_rooms s @ (if extra = [] then [] else [extra])))"

text \<open>The rooms that a revocation closes.\<close>

definition revoked_rooms :: "string \<Rightarrow> collab_service \<Rightarrow> string list" where
  "revoked_rooms username s =
     (if trim_space username = [] then []
      else case row (user_rooms s) username of None \<Rightarrow> [] | Some rooms \<Rightarrow> map fst rooms)"

definition revoke_collab_user :: "(string \<Rightarrow> close_answer) \<Rightarrow> string \<Rightarrow> collab_service \<Rightarrow> collab_service" where
  "revoke_collab_user close username s = fst (close_rooms close (revoked_rooms username s) s)"

section \<open>Retiring rooms\<close>

definition invalidate_tickets :: "int \<Rightarrow> collab_service \<Rightarrow> collab_service" where
  "invalidate_tickets m s = s\<lparr>tickets := filter (\<lambda>(_, g). tg_music g \<noteq> m) (tickets s)\<rparr>"

definition begin_retiring :: "string \<Rightarrow> int \<Rightarrow> collab_service \<Rightarrow> collab_service" where
  "begin_retiring room m s = (invalidate_tickets m s)\<lparr>retiring := List.insert room (retiring s)\<rparr>"

definition end_retiring :: "string \<Rightarrow> collab_service \<Rightarrow> collab_service" where
  "end_retiring room s = s\<lparr>retiring := removeAll room (retiring s)\<rparr>"

definition replace_locked ::
  "(string \<Rightarrow> string) \<Rightarrow> (string \<Rightarrow> string option) \<Rightarrow> (string \<Rightarrow> close_answer) \<Rightarrow> store_answers \<Rightarrow> int \<Rightarrow>
   collab_service \<times> collab_db \<Rightarrow> (collab_service \<times> collab_db) \<times> service_error option" where
  "replace_locked sha256 encode close a m sd =
     (let (s, d) = sd in
      case replace_from_authoritative (an_fate a) sha256 encode (an_now a) (an_lyrics a) (an_in_catalog a) m d of
        (d', Inl e) \<Rightarrow> ((s, d'), Some (StoreFailed e))
      | (d', Inr (old_room, new_room)) \<Rightarrow>
          let s1 = invalidate_tickets m s;
              (s2, failed) = close_rooms close (filter (\<lambda>room. room \<noteq> new_room) (music_rooms m old_room s1)) s1 in
          ((s2, d'), if failed then Some RoomNotClosed else None))"

text \<open>After a restore. \<open>songs\<close> is what the query for the songs with a draft returns, None where it fails.\<close>

fun reseed_songs ::
  "(string \<Rightarrow> string) \<Rightarrow> (string \<Rightarrow> string option) \<Rightarrow> (string \<Rightarrow> close_answer) \<Rightarrow> (int \<Rightarrow> store_answers) \<Rightarrow> int list \<Rightarrow>
   collab_service \<times> collab_db \<Rightarrow> (collab_service \<times> collab_db) \<times> service_error option" where
  "reseed_songs sha256 encode close a [] sd = (sd, None)"
| "reseed_songs sha256 encode close a (m # ms) sd =
     (let (s, d) = sd in
      case replace_from_authoritative (an_fate (a m)) sha256 encode (an_now (a m)) (an_lyrics (a m)) (an_in_catalog (a m)) m d of
        (d', Inl e) \<Rightarrow> ((s, d'), Some (StoreFailed e))
      | (d', Inr (old_room, _)) \<Rightarrow> reseed_songs sha256 encode close a ms (fst (close_retired_room close old_room s), d'))"

definition retire_all ::
  "(string \<Rightarrow> string) \<Rightarrow> (string \<Rightarrow> string option) \<Rightarrow> (string \<Rightarrow> close_answer) \<Rightarrow> (int \<Rightarrow> store_answers) \<Rightarrow> int list option \<Rightarrow>
   collab_service \<times> collab_db \<Rightarrow> (collab_service \<times> collab_db) \<times> service_error option" where
  "retire_all sha256 encode close a songs sd =
     (let (s, d) = sd; s1 = s\<lparr>tickets := []\<rparr>; s2 = fst (close_rooms close (known_rooms s1) s1) in
      case songs of None \<Rightarrow> ((s2, d), Some (StoreFailed CollabDbFailed))
      | Some ms \<Rightarrow> reseed_songs sha256 encode close a ms (s2, d))"

section \<open>Tickets\<close>

text \<open>\<open>verify\<close> is \<open>VerifyToken\<close> at the time of the call.\<close>

definition grant_current :: "(string \<Rightarrow> auth_error + claims) \<Rightarrow> ticket_grant \<Rightarrow> bool" where
  "grant_current verify g =
     (case verify (tg_bearer g) of Inl _ \<Rightarrow> False
      | Inr c \<Rightarrow> c_name c = tg_user g \<and> c_role c = tg_role g \<and> c_version c = tg_version g)"

text \<open>The last section of \<open>IssueTicket\<close>: \<open>now\<close> is read once for the grant and once, later, for the clean-up.\<close>

definition put_ticket :: "int \<Rightarrow> string \<Rightarrow> ticket_grant \<Rightarrow> collab_service \<Rightarrow> collab_service \<times> bool" where
  "put_ticket now value g s =
     (let t = filter (\<lambda>(_, g). now < tg_expires g) (tickets s) in
      if maxTickets \<le> length t then (s\<lparr>tickets := t\<rparr>, False)
      else (s\<lparr>tickets := put value g t\<rparr>, True))"

text \<open>
  The room of a ticket: \<open>a1\<close> are the answers to the first \<open>ensureRoom\<close>, \<open>a2\<close> to the replacement
  after a drift and \<open>a3\<close> to the second \<open>ensureRoom\<close>.
\<close>

definition ensure_answered ::
  "(string \<Rightarrow> string) \<Rightarrow> (string \<Rightarrow> string option) \<Rightarrow> store_answers \<Rightarrow> int \<Rightarrow> collab_db \<Rightarrow> collab_db \<times> (collab_error + persisted)" where
  "ensure_answered sha256 encode a m d = ensure_room (an_fate a) sha256 encode (an_now a) (an_lyrics a) (an_in_catalog a) (an_again a) m d"

definition room_for_ticket ::
  "(string \<Rightarrow> string) \<Rightarrow> (string \<Rightarrow> string option) \<Rightarrow> (string \<Rightarrow> close_answer) \<Rightarrow> store_answers \<Rightarrow> store_answers \<Rightarrow> store_answers \<Rightarrow> int \<Rightarrow>
   collab_service \<times> collab_db \<Rightarrow> (collab_service \<times> collab_db) \<times> (service_error + persisted)" where
  "room_for_ticket sha256 encode close a1 a2 a3 m sd =
     (let (s, d) = sd; (d1, r1) = ensure_answered sha256 encode a1 m d in
      if r1 = Inl AuthorityDrift
      then (case replace_locked sha256 encode close a2 m (s, d1) of
              (sd', Some e) \<Rightarrow> (sd', Inl e)
            | ((s', d'), None) \<Rightarrow>
                let (d3, r3) = ensure_answered sha256 encode a3 m d' in ((s', d3), map_sum StoreFailed (\<lambda>b. b) r3))
      else ((s, d1), map_sum StoreFailed (\<lambda>b. b) r1))"

text \<open>\<open>random\<close> is the ticket value, None where there is no randomness.\<close>

definition issue_ticket ::
  "(string \<Rightarrow> auth_error + claims) \<Rightarrow> (string \<Rightarrow> string) \<Rightarrow> (string \<Rightarrow> string option) \<Rightarrow> (string \<Rightarrow> close_answer) \<Rightarrow>
   store_answers \<Rightarrow> store_answers \<Rightarrow> store_answers \<Rightarrow> string option \<Rightarrow> int \<Rightarrow> int \<Rightarrow>
   claims option \<Rightarrow> string \<Rightarrow> int \<Rightarrow> gate_status list \<Rightarrow> gate \<Rightarrow> collab_service \<times> collab_db \<Rightarrow>
   (collab_service \<times> collab_db) \<times> (service_error + string \<times> string \<times> int)" where
  "issue_ticket verify sha256 encode close a1 a2 a3 random now now' claimed bearer m accepted g sd =
     (case claimed of None \<Rightarrow> (sd, Inl TicketInvalid)
      | Some c \<Rightarrow>
      if trim_space bearer = [] \<or> m \<le> 0 then (sd, Inl TicketInvalid)
      else if \<not> (case verify bearer of Inl _ \<Rightarrow> False
                  | Inr v \<Rightarrow> c_name v = c_name c \<and> c_role v = c_role c \<and> c_version v = c_version c) then (sd, Inl TicketInvalid)
      else if length accepted \<noteq> 1 \<or> st_running (hd accepted) then (sd, Inl TicketInvalid)
      else if status g \<noteq> hd accepted then (sd, Inl TicketInvalid)
      else let (sd2, r2) = room_for_ticket sha256 encode close a1 a2 a3 m sd in
        (case r2 of Inl e \<Rightarrow> (sd2, Inl e)
         | Inr b \<Rightarrow>
             (case random of None \<Rightarrow> (sd2, Inl NoRandomness)
              | Some value \<Rightarrow>
                  let room = room_name m (pd_epoch b); expires = now + ticketTTL;
                      (s', put_ok) = put_ticket now' value \<lparr>tg_user = c_name c, tg_role = c_role c, tg_version = c_version c, tg_bearer = bearer,
                        tg_music = m, tg_epoch = pd_epoch b, tg_room = room, tg_producer = hd accepted, tg_expires = expires\<rparr> (fst sd2) in
                  ((s', snd sd2), if put_ok then Inr (value, room, expires) else Inl TicketCapacity))))"

section \<open>Admission\<close>

text \<open>\<open>fmt.Sscanf\<close> with the verb d on a string without signs and ASCII blanks: blanks are skipped, then digits are read.\<close>

definition sscanf_int :: "string \<Rightarrow> int option" where
  "sscanf_int s =
     (let digits = takeWhile is_digit (trim_space s) in
      if digits = [] \<or> 2 ^ 63 \<le> decimal_value digits then None else Some (int (decimal_value digits)))"

definition parse_positive_int :: "string \<Rightarrow> int option" where
  "parse_positive_int value =
     (if value = [] \<or> list_ex (\<lambda>c. c \<in> {CHR ''+'', CHR ''-'', CHR '' '', CHR 0x09, CHR 0x0D, CHR 0x0A}) value then None
      else case sscanf_int value of None \<Rightarrow> None
      | Some n \<Rightarrow> if n \<le> 0 \<or> format_int n \<noteq> value then None else Some n)"

text \<open>The request: the parsed query, whether parsing it failed, and the song of the path.\<close>

record ticket_request =
  rq_error :: bool
  rq_query :: "(string \<times> string list) list"
  rq_music :: string

text \<open>Every ticket of the request is used up, also where the request is refused.\<close>

fun take_tickets :: "bool \<Rightarrow> string list \<Rightarrow> collab_service \<Rightarrow> collab_service \<times> ticket_grant option" where
  "take_tickets single [] s = (s, None)"
| "take_tickets single (c # cs) s =
     (if c = [] then take_tickets single cs s
      else case row (tickets s) c of None \<Rightarrow> take_tickets single cs s
      | Some g \<Rightarrow>
          let (s', g') = take_tickets single cs (s\<lparr>tickets := del (\<lambda>k. k = c) (tickets s)\<rparr>) in
          (s', case g' of Some g' \<Rightarrow> Some g' | None \<Rightarrow> if single then Some g else None))"

definition ticket_values :: "ticket_request \<Rightarrow> string list" where
  "ticket_values r = (case map_of (rq_query r) ''ticket'' of None \<Rightarrow> [] | Some vs \<Rightarrow> vs)"

definition well_formed_request :: "ticket_request \<Rightarrow> bool" where
  "well_formed_request r \<longleftrightarrow>
     \<not> (rq_error r \<or> length (rq_query r) \<noteq> 1 \<or> map_of (rq_query r) ''ticket'' = None \<or> length (ticket_values r) \<noteq> 1 \<or>
        hd (ticket_values r) = [] \<or> list_ex (\<lambda>c. c \<in> {CHR '' '', CHR 0x09, CHR 0x0D, CHR 0x0A}) (hd (ticket_values r)))"

text \<open>The first critical section of \<open>authorize\<close>.\<close>

definition take_grant :: "int \<Rightarrow> ticket_request \<Rightarrow> collab_service \<Rightarrow> collab_service \<times> ticket_grant option" where
  "take_grant now r s =
     (let (s', found) = take_tickets (length (ticket_values r) = 1) (ticket_values r) s in
      (s', if \<not> well_formed_request r then None
           else case found of None \<Rightarrow> None
           | Some g \<Rightarrow> if now < tg_expires g \<and> parse_positive_int (rq_music r) = Some (tg_music g) then Some g else None))"

text \<open>
  The rest, under \<open>opMu\<close>. \<open>captured\<close>: the request comes through \<open>ServeHTTP\<close>, which releases the
  slot of the gate at the end of the connection; otherwise the slot is released at once. The
  result is the grant of the admitted connection.
\<close>

definition admit_grant ::
  "(string \<Rightarrow> auth_error + claims) \<Rightarrow> (string \<Rightarrow> string) \<Rightarrow> (string \<Rightarrow> string option) \<Rightarrow> store_answers \<Rightarrow> bool \<Rightarrow> ticket_grant \<Rightarrow>
   gate \<Rightarrow> collab_service \<times> collab_db \<Rightarrow> (gate \<times> collab_service \<times> collab_db) \<times> ticket_grant option" where
  "admit_grant verify sha256 encode a captured tg g sd =
     (let (s, d) = sd in
      if tg_room tg \<in> set (retiring s) then ((g, s, d), None)
      else if \<not> grant_current verify tg then ((g, s, d), None)
      else if status g \<noteq> tg_producer tg then ((g, s, d), None)
      else let ((accepted, current), g1) = begin_strict_editor (st_instance (tg_producer tg)) (st_revision (tg_producer tg))
                 (st_completed (tg_producer tg)) g in
        if \<not> current \<or> accepted \<noteq> tg_producer tg then ((g1, s, d), None)
        else let (d', r) = ensure_answered sha256 encode a (tg_music tg) d in
          (case r of Inl _ \<Rightarrow> ((the (editor_release g1), s, d'), None)
           | Inr b \<Rightarrow>
               if pd_epoch b \<noteq> tg_epoch tg \<or> room_name (tg_music tg) (pd_epoch b) \<noteq> tg_room tg
               then ((the (editor_release g1), s, d'), None)
               else ((if captured then g1 else the (editor_release g1), track (tg_room tg) (tg_user tg) s, d'), Some tg)))"

text \<open>The end of \<open>ServeHTTP\<close> for an admitted connection.\<close>

definition finish_connection :: "ticket_grant \<Rightarrow> gate \<times> collab_service \<Rightarrow> gate option \<times> collab_service" where
  "finish_connection tg gs = (editor_release (fst gs), if tg_room tg = [] then snd gs else untrack (tg_room tg) (tg_user tg) (snd gs))"

text \<open>One tick of \<open>revalidateConnection\<close>: whether the room of the connection is closed.\<close>

definition revalidation_fails ::
  "(string \<Rightarrow> auth_error + claims) \<Rightarrow> db_fate \<Rightarrow> ticket_grant \<Rightarrow> gate \<Rightarrow> collab_db \<Rightarrow> bool" where
  "revalidation_fails verify fate tg g d \<longleftrightarrow>
     \<not> grant_current verify tg \<or> status g \<noteq> tg_producer tg \<or> current_epoch fate (tg_music tg) d \<noteq> Inr (tg_epoch tg)"

section \<open>The service over time\<close>

text \<open>
  \<open>conns\<close> are the admitted connections whose request has not ended, \<open>pending\<close> the requests between
  the two critical sections of \<open>authorize\<close>; \<open>issued\<close> and \<open>honoured\<close> record ticket values.
\<close>

record collab_world =
  cw_service :: collab_service
  cw_db :: collab_db
  cw_gate :: gate
  pending :: "ticket_grant list"
  conns :: "ticket_grant list"
  issued :: "string list"
  honoured :: "string list"

inductive collab_step :: "(string \<Rightarrow> string) \<Rightarrow> (string \<Rightarrow> string option) \<Rightarrow> collab_world \<Rightarrow> collab_world \<Rightarrow> bool"
  for sha256 encode where
  issue: "issue_ticket verify sha256 encode close a1 a2 a3 random now now' claimed bearer m accepted (cw_gate w) (cw_service w, cw_db w) = ((s, d), r) \<Longrightarrow>
    collab_step sha256 encode w (w\<lparr>cw_service := s, cw_db := d, issued := (case r of Inl _ \<Rightarrow> issued w | Inr (value, _, _) \<Rightarrow> value # issued w)\<rparr>)"
| take_one: "take_grant now rq (cw_service w) = (s, found) \<Longrightarrow>
    collab_step sha256 encode w (case found of None \<Rightarrow> w\<lparr>cw_service := s\<rparr>
      | Some tg \<Rightarrow> w\<lparr>cw_service := s, pending := tg # pending w, honoured := hd (ticket_values rq) # honoured w\<rparr>)"
| admit: "tg \<in> set (pending w) \<Longrightarrow>
    admit_grant verify sha256 encode a True tg (cw_gate w) (cw_service w, cw_db w) = ((g, s, d), r) \<Longrightarrow>
    collab_step sha256 encode w (w\<lparr>cw_service := s, cw_db := d, cw_gate := g, pending := remove1 tg (pending w),
      conns := (case r of None \<Rightarrow> conns w | Some tg \<Rightarrow> tg # conns w)\<rparr>)"
| finish: "tg \<in> set (conns w) \<Longrightarrow> finish_connection tg (cw_gate w, cw_service w) = (Some g, s) \<Longrightarrow>
    collab_step sha256 encode w (w\<lparr>cw_service := s, cw_gate := g, conns := remove1 tg (conns w)\<rparr>)"
| revoke: "collab_step sha256 encode w (w\<lparr>cw_service := revoke_collab_user close u (cw_service w)\<rparr>)"
| load: "collab_step sha256 encode w (w\<lparr>cw_service := fst (mark_resident room (cw_service w))\<rparr>)"
| unload: "collab_step sha256 encode w (w\<lparr>cw_service := unmark_resident room (cw_service w)\<rparr>)"
| replace: "replace_locked sha256 encode close a m (cw_service w, cw_db w) = ((s, d), e) \<Longrightarrow>
    collab_step sha256 encode w (w\<lparr>cw_service := s, cw_db := d\<rparr>)"
| retire: "retire_all sha256 encode close as songs (cw_service w, cw_db w) = ((s, d), e) \<Longrightarrow>
    collab_step sha256 encode w (w\<lparr>cw_service := s, cw_db := d\<rparr>)"
| freeze: "collab_step sha256 encode w (w\<lparr>cw_service := begin_retiring room m (cw_service w)\<rparr>)"
| thaw: "collab_step sha256 encode w (w\<lparr>cw_service := end_retiring room (cw_service w)\<rparr>)"
| drafts: "collab_step sha256 encode w (w\<lparr>cw_db := d\<rparr>)"
| others: "length (conns w) \<le> editors g \<Longrightarrow> collab_step sha256 encode w (w\<lparr>cw_gate := g\<rparr>)"

text \<open>The last two: the rest of the system writes drafts, and uses the gate without releasing slots of connections.\<close>

inductive collab_reachable :: "(string \<Rightarrow> string) \<Rightarrow> (string \<Rightarrow> string option) \<Rightarrow> collab_world \<Rightarrow> bool" for sha256 encode where
  start: "collab_reachable sha256 encode \<lparr>cw_service = new_service, cw_db = d, cw_gate = g, pending = [], conns = [], issued = [], honoured = []\<rparr>"
| more: "collab_reachable sha256 encode w \<Longrightarrow> collab_step sha256 encode w w' \<Longrightarrow> collab_reachable sha256 encode w'"

section \<open>The registry counts the connections\<close>

definition counted :: "('a \<Rightarrow> bool) \<Rightarrow> 'a list \<Rightarrow> int option" where
  "counted p xs = (let n = length (filter p xs) in if n = 0 then None else Some (int n))"

definition user_exact :: "(string \<times> string) list \<Rightarrow> string \<Rightarrow> (string, int) table option \<Rightarrow> bool" where
  "user_exact cs u r =
     (case r of None \<Rightarrow> u \<notin> snd ` set cs
      | Some rooms \<Rightarrow> rooms \<noteq> [] \<and> table_ok rooms \<and> (\<forall>room. row rooms room = counted (\<lambda>c. c = (room, u)) cs))"

definition registry_exact :: "(string \<times> string) list \<Rightarrow> collab_service \<Rightarrow> bool" where
  "registry_exact cs s \<longleftrightarrow>
     (\<forall>room. row (active s) room = counted (\<lambda>c. fst c = room) cs) \<and> (\<forall>u. user_exact cs u (row (user_rooms s) u))"

lemma counted_Nil [simp]: "counted p [] = None"
  by (simp add: counted_def)

lemma counted_none: "counted p xs = None \<longleftrightarrow> filter p xs = []"
  by (simp add: counted_def Let_def)

lemma map_get_counted: "row t k = counted p xs \<Longrightarrow> map_get t k = int (length (filter p xs))"
  by (auto simp: map_get_def counted_def Let_def split: if_splits option.splits)

lemma row_raise:
  "row t k = counted p xs \<Longrightarrow> p x \<Longrightarrow> row (put k (map_get t k + 1) t) k = counted p (x # xs)"
  by (simp add: map_get_counted) (simp add: counted_def)

lemma row_lower:
  assumes "row t k = counted p xs" "x \<in> set xs" "p x"
  shows "row (map_lower k t) k = counted p (remove1 x xs)"
proof -
  have "length (filter p xs) = length (filter p (remove1 x xs)) + 1"
    using assms(2,3) length_pos_if_in_set [of x "filter p xs"] by (simp add: filter_remove1 length_remove1)
  then show ?thesis by (simp add: map_lower_def map_get_counted [OF assms(1)]) (simp add: counted_def)
qed

lemma counted_skip: "\<not> p x \<Longrightarrow> counted p (x # xs) = counted p xs" "\<not> p x \<Longrightarrow> counted p (remove1 x xs) = counted p xs"
  by (simp_all add: counted_def filter_remove1 remove1_idem)

lemma row_map_lower_other: "k' \<noteq> k \<Longrightarrow> row (map_lower k t) k' = row t k'"
  by (simp add: map_lower_def)

lemma table_ok_map_lower: "table_ok t \<Longrightarrow> table_ok (map_lower k t)"
  by (simp add: map_lower_def)

lemma empty_rows: "t = [] \<longleftrightarrow> (\<forall>k. row t k = None)"
  by (cases t) (auto simp: row_def)

lemma in_snd_image: "v \<in> snd ` A \<longleftrightarrow> (\<exists>r. (r, v) \<in> A)"
  by force

lemma user_exact_skip:
  assumes "v \<noteq> u"
  shows "user_exact ((room, u) # cs) v r = user_exact cs v r" "user_exact (remove1 (room, u) cs) v r = user_exact cs v r"
proof -
  have "v \<in> snd ` set (remove1 (room, u) cs) \<longleftrightarrow> v \<in> snd ` set cs"
    using assms by (simp add: in_snd_image)
  then show "user_exact ((room, u) # cs) v r = user_exact cs v r" "user_exact (remove1 (room, u) cs) v r = user_exact cs v r"
    using assms by (simp_all add: user_exact_def counted_skip split: option.split)
qed

text \<open>The rooms of a user, without the distinction of absent and empty.\<close>

lemma user_exact_rooms:
  assumes "user_exact cs u r" "rooms = (case r of None \<Rightarrow> [] | Some rooms \<Rightarrow> rooms)"
  shows "table_ok rooms" "row rooms room = counted (\<lambda>c. c = (room, u)) cs"
proof -
  have "counted (\<lambda>c. c = (room, u)) cs = None" if "u \<notin> snd ` set cs"
    using that by (force simp: counted_none filter_empty_conv)
  then show "table_ok rooms" "row rooms room = counted (\<lambda>c. c = (room, u)) cs"
    using assms by (auto simp: user_exact_def split: option.splits)
qed

lemma user_exactI:
  assumes "table_ok rooms" "\<And>room. row rooms room = counted (\<lambda>c. c = (room, u)) cs"
  shows "user_exact cs u (if rooms = [] then None else Some rooms)"
proof -
  have "u \<notin> snd ` set cs" if "rooms = []"
  proof
    assume "u \<in> snd ` set cs"
    then obtain room where "(room, u) \<in> set cs" by auto
    then have "counted (\<lambda>c. c = (room, u)) cs \<noteq> None" by (auto simp: counted_none filter_empty_conv)
    then show False using assms(2) [of room] that by simp
  qed
  then show ?thesis using assms by (simp add: user_exact_def)
qed

lemma registry_mset:
  assumes "mset cs = mset cs'"
  shows "registry_exact cs s = registry_exact cs' s"
proof -
  have "counted p cs = counted p cs'" for p
    using arg_cong [OF assms, of "\<lambda>m. size (filter_mset p m)"] by (simp add: counted_def flip: mset_filter)
  moreover from this have "user_exact cs u r = user_exact cs' u r" for u r
    using mset_eq_setD [OF assms] by (cases r) (simp_all add: user_exact_def)
  ultimately show ?thesis by (simp add: registry_exact_def)
qed

lemma registry_track:
  assumes "registry_exact cs s"
  shows "registry_exact ((room, u) # cs) (track room u s)"
proof -
  define rooms where "rooms = (case row (user_rooms s) u of None \<Rightarrow> [] | Some rooms \<Rightarrow> rooms)"
  let ?rooms = "put room (map_get rooms room + 1) rooms"
  have a: "\<forall>room. row (active s) room = counted (\<lambda>c. fst c = room) cs" and us: "\<And>u. user_exact cs u (row (user_rooms s) u)"
    using assms by (auto simp: registry_exact_def)
  note r0 = user_exact_rooms [OF us rooms_def]
  have "row (active (track room u s)) r = counted (\<lambda>c. fst c = r) ((room, u) # cs)" for r
    using a row_raise [of "active s" room "\<lambda>c. fst c = room" cs "(room, u)"]
    by (cases "r = room") (simp_all add: track_def Let_def counted_skip)
  moreover have "row ?rooms r = counted (\<lambda>c. c = (r, u)) ((room, u) # cs)" for r
    using r0 row_raise [of rooms room "\<lambda>c. c = (room, u)" cs "(room, u)"] by (cases "r = room") (simp_all add: counted_skip)
  from user_exactI [OF table_ok_put [OF r0(1)] this]
  have "user_exact ((room, u) # cs) u (Some ?rooms)" unfolding empty_rows by (auto split: if_splits)
  ultimately show ?thesis
    using us by (simp add: registry_exact_def track_def Let_def user_exact_skip flip: rooms_def)
qed

lemma registry_untrack:
  assumes "registry_exact cs s" "(room, u) \<in> set cs"
  shows "registry_exact (remove1 (room, u) cs) (untrack room u s)"
proof -
  have a: "\<forall>room. row (active s) room = counted (\<lambda>c. fst c = room) cs" and us: "\<And>u. user_exact cs u (row (user_rooms s) u)"
    using assms by (auto simp: registry_exact_def)
  obtain rooms where r: "row (user_rooms s) u = Some rooms"
    using us [of u] assms(2) by (cases "row (user_rooms s) u") (force simp: user_exact_def)+
  have r0: "table_ok rooms" "row rooms r = counted (\<lambda>c. c = (r, u)) cs" for r
    using user_exact_rooms [OF us, of rooms u] by (simp_all add: r)
  let ?rooms = "map_lower room rooms"
  have active: "row (active (untrack room u s)) r = counted (\<lambda>c. fst c = r) (remove1 (room, u) cs)" for r
    using a row_lower [of "active s" room "\<lambda>c. fst c = room" cs "(room, u)"] assms(2)
    by (cases "r = room") (simp_all add: untrack_def Let_def r counted_skip row_map_lower_other)
  have "row ?rooms r = counted (\<lambda>c. c = (r, u)) (remove1 (room, u) cs)" for r
  proof (cases "r = room")
    case True
    show ?thesis unfolding True by (rule row_lower) (use r0 assms(2) in simp_all)
  qed (use r0 in \<open>simp add: counted_skip row_map_lower_other\<close>)
  from user_exactI [OF table_ok_map_lower [OF r0(1)] this]
  have "user_exact (remove1 (room, u) cs) v (row (user_rooms (untrack room u s)) v)" for v
    using us [of v] by (cases "v = u") (auto simp: untrack_def Let_def r user_exact_skip split: if_splits)
  with active show ?thesis by (simp add: registry_exact_def)
qed

section \<open>What the operations leave alone\<close>

text \<open>The registries stay, and no ticket is added.\<close>

definition keeps :: "collab_service \<Rightarrow> collab_service \<Rightarrow> bool" where
  "keeps s s' \<longleftrightarrow> active s' = active s \<and> user_rooms s' = user_rooms s \<and> (\<exists>p. tickets s' = filter p (tickets s))"

lemma keeps_refl [simp]: "keeps s s"
  by (auto simp: keeps_def intro: exI [of _ "\<lambda>_. True"])

lemma keeps_trans: "keeps s s' \<Longrightarrow> keeps s' s'' \<Longrightarrow> keeps s s''"
  by (auto simp: keeps_def)

lemma keepsI: "active s' = active s \<Longrightarrow> user_rooms s' = user_rooms s \<Longrightarrow> tickets s' = filter p (tickets s) \<Longrightarrow> keeps s s'"
  by (auto simp: keeps_def)

lemma keeps_retiring_resident [simp]:
  "keeps s (s\<lparr>retiring := x\<rparr>)" "keeps s (s\<lparr>resident := y\<rparr>)"
  by (rule keepsI [where p = "\<lambda>_. True"]; simp)+

lemma keeps_tickets [simp]: "keeps s (s\<lparr>tickets := filter p (tickets s)\<rparr>)" "keeps s (s\<lparr>tickets := del q (tickets s)\<rparr>)" "keeps s (s\<lparr>tickets := []\<rparr>)"
  by (rule keepsI [where p = p], simp_all) (rule keepsI, simp_all add: del_def, rule keepsI [where p = "\<lambda>_. False"], simp_all)

lemma keeps_close: "keeps s (fst (close_retired_room close room s))"
  by (simp add: close_retired_room_def unmark_resident_def)

lemma keeps_close_rooms: "keeps s (fst (close_rooms close rooms s))"
  by (induction rooms arbitrary: s) (auto simp: case_prod_beta Let_def intro: keeps_trans [OF keeps_close])

lemma keeps_invalidate [simp]: "keeps s (invalidate_tickets m s)"
  by (simp add: invalidate_tickets_def)

lemma keeps_replace: "keeps s (fst (fst (replace_locked sha256 encode close a m (s, d))))"
  by (auto simp: replace_locked_def Let_def case_prod_beta split: sum.splits
      intro: keeps_trans [OF keeps_invalidate keeps_close_rooms])

lemma keeps_reseed: "keeps s (fst (fst (reseed_songs sha256 encode close a ms (s, d))))"
  by (induction ms arbitrary: s d)
    (auto simp: Let_def case_prod_beta split: sum.splits intro: keeps_trans [OF keeps_close])

lemma keeps_retire_all: "keeps s (fst (fst (retire_all sha256 encode close a songs (s, d))))"
proof -
  have "keeps s (fst (close_rooms close (known_rooms (s\<lparr>tickets := []\<rparr>)) (s\<lparr>tickets := []\<rparr>)))"
    by (rule keeps_trans [OF keeps_tickets(3) keeps_close_rooms])
  then show ?thesis by (auto simp: retire_all_def Let_def split: option.split intro: keeps_trans [OF _ keeps_reseed])
qed

lemma keeps_take: "keeps s (fst (take_tickets single vs s))"
  by (induction vs arbitrary: s) (auto simp: Let_def case_prod_beta split: option.split intro: keeps_trans [OF keeps_tickets(2)])

lemma keeps_mark: "keeps s (fst (mark_resident room s))"
  by (simp add: mark_resident_def)

text \<open>An issued ticket is put into what the service kept.\<close>

lemma keeps_room_for_ticket:
  assumes "room_for_ticket sha256 encode close a1 a2 a3 m (s, d) = ((s', d'), r)"
  shows "keeps s s'"
  using assms keeps_replace [of s sha256 encode close a2 m "fst (ensure_answered sha256 encode a1 m d)"]
  by (auto simp: room_for_ticket_def Let_def split: prod.splits if_splits option.splits)

lemma keeps_no_ticket: "put_ticket now v tg s = (s', False) \<Longrightarrow> keeps s s'"
  by (auto simp: put_ticket_def Let_def split: if_splits)

lemma issue_ticket_cases:
  assumes "issue_ticket verify sha256 encode close a1 a2 a3 random now now' claimed bearer m accepted g (s, d) = ((s', d'), r)"
  obtains "keeps s s'" "isl r"
  | v tg e s1 where "keeps s s1" "put_ticket now' v tg s1 = (s', True)" "r = Inr (v, e)"
proof -
  obtain s1 d1 r1 where b: "room_for_ticket sha256 encode close a1 a2 a3 m (s, d) = ((s1, d1), r1)" by (metis prod.collapse)
  note k = keeps_room_for_ticket [OF b]
  have "keeps s s' \<and> isl r \<or> (\<exists>v tg e. put_ticket now' v tg s1 = (s', True) \<and> r = Inr (v, e))"
    using assms k by (auto simp: issue_ticket_def b Let_def split: option.splits sum.splits if_splits prod.splits
        intro: keeps_trans [OF k keeps_no_ticket])
  then show thesis using that k by blast
qed

section \<open>Invariants\<close>

definition world_registry :: "collab_world \<Rightarrow> bool" where
  "world_registry w \<longleftrightarrow> registry_exact (map (\<lambda>tg. (tg_room tg, tg_user tg)) (conns w)) (cw_service w) \<and>
     length (conns w) \<le> editors (cw_gate w) \<and> (\<forall>tg \<in> set (conns w). tg_room tg \<noteq> [])"

definition world_tickets :: "collab_world \<Rightarrow> bool" where
  "world_tickets w \<longleftrightarrow> table_ok (tickets (cw_service w)) \<and> length (tickets (cw_service w)) \<le> maxTickets \<and>
     (distinct (issued w) \<longrightarrow> distinct (honoured w) \<and> set (honoured w) \<subseteq> set (issued w) \<and>
        fst ` set (tickets (cw_service w)) \<subseteq> set (issued w) - set (honoured w))"

lemma registry_keeps: "keeps s s' \<Longrightarrow> registry_exact cs s \<Longrightarrow> registry_exact cs s'"
  by (simp add: keeps_def registry_exact_def)

lemma tickets_keeps:
  assumes "keeps (cw_service w) s'" "world_tickets w"
  shows "table_ok (tickets s')" "length (tickets s') \<le> maxTickets" "fst ` set (tickets s') \<subseteq> fst ` set (tickets (cw_service w))"
proof -
  obtain p where p: "tickets s' = filter p (tickets (cw_service w))" using assms(1) by (auto simp: keeps_def)
  show "table_ok (tickets s')" using assms(2) by (simp add: world_tickets_def p table_ok_def distinct_map_filter)
  show "length (tickets s') \<le> maxTickets"
    using assms(2) length_filter_le [of p "tickets (cw_service w)"] unfolding p world_tickets_def by linarith
  show "fst ` set (tickets s') \<subseteq> fst ` set (tickets (cw_service w))" by (auto simp: p)
qed

lemma length_put:
  assumes "table_ok t"
  shows "length (put k r t) \<le> length t + 1"
proof -
  have c: "length u = card (fst ` set u)" if "table_ok u" for u :: "('a \<times> 'b) list"
    using that distinct_card [of "map fst u"] by (simp add: table_ok_def)
  show ?thesis using c [OF assms] c [OF table_ok_put [OF assms]] card_insert_le_m1 [of "card (fst ` set t) + 1" "fst ` set t" k]
    by (simp add: keys_put)
qed

lemma put_ticket_table:
  assumes "put_ticket now v tg s = (s', True)" "table_ok (tickets s)"
  shows "table_ok (tickets s')" "length (tickets s') \<le> maxTickets" "fst ` set (tickets s') \<subseteq> insert v (fst ` set (tickets s))"
    "active s' = active s" "user_rooms s' = user_rooms s"
proof -
  let ?t = "filter (\<lambda>(_, g). now < tg_expires g) (tickets s)"
  have s': "s' = s\<lparr>tickets := put v tg ?t\<rparr>" "length ?t < maxTickets"
    using assms(1) by (auto simp: put_ticket_def Let_def split: if_splits)
  have t: "table_ok ?t" using assms(2) by (simp add: table_ok_def distinct_map_filter)
  show "table_ok (tickets s')" "active s' = active s" "user_rooms s' = user_rooms s" using t by (simp_all add: s'(1))
  show "length (tickets s') \<le> maxTickets" using length_put [OF t, of v tg] s'(2) by (simp add: s'(1))
  show "fst ` set (tickets s') \<subseteq> insert v (fst ` set (tickets s))" by (auto simp: s'(1) keys_put)
qed

lemma take_grant_some:
  assumes "take_grant now rq s = (s', Some tg)"
  shows "keeps s s'" "row (tickets s) (hd (ticket_values rq)) = Some tg" "hd (ticket_values rq) \<notin> fst ` set (tickets s')"
    "now < tg_expires tg"
proof -
  have wf: "well_formed_request rq" and now: "now < tg_expires tg"
    and tk: "take_tickets (length (ticket_values rq) = 1) (ticket_values rq) s = (s', Some tg)"
    using assms by (auto simp: take_grant_def split: prod.splits if_splits option.splits)
  obtain v where v: "ticket_values rq = [v]" "v \<noteq> []"
    using wf by (cases "ticket_values rq") (auto simp: well_formed_request_def)
  show "keeps s s'" using keeps_take [of s "length (ticket_values rq) = 1" "ticket_values rq"] tk by simp
  show "row (tickets s) (hd (ticket_values rq)) = Some tg" "hd (ticket_values rq) \<notin> fst ` set (tickets s')"
    using tk v by (auto simp: del_def split: option.splits)
  show "now < tg_expires tg" by (rule now)
qed

lemma keeps_take_grant: "take_grant now rq s = (s', found) \<Longrightarrow> keeps s s'"
  using keeps_take [of s "length (ticket_values rq) = 1" "ticket_values rq"] by (auto simp: take_grant_def split: prod.splits)

lemma admit_grant_cases:
  assumes "admit_grant verify sha256 encode a captured tg g (s, d) = ((g', s', d'), r)"
  obtains "r = None" "s' = s" "editors g \<le> editors g'"
  | b where "r = Some tg" "s' = track (tg_room tg) (tg_user tg) s" "g' = (if captured then g\<lparr>editors := editors g + 1\<rparr> else g)"
    "tg_room tg \<notin> set (retiring s)" "grant_current verify tg" "status g = tg_producer tg" "\<not> st_running (status g)"
    "ensure_answered sha256 encode a (tg_music tg) d = (d', Inr b)" "pd_epoch b = tg_epoch tg" "tg_room tg = room_name (tg_music tg) (pd_epoch b)"
proof (cases "tg_room tg \<in> set (retiring s) \<or> \<not> grant_current verify tg \<or> status g \<noteq> tg_producer tg \<or> st_running (status g)")
  case True
  then have "r = None \<and> s' = s \<and> g' = g"
    using assms by (auto simp: admit_grant_def begin_strict_editor_def split: if_splits)
  then show thesis using that(1) by simp
next
  case False
  obtain d1 r1 where e: "ensure_answered sha256 encode a (tg_music tg) d = (d1, r1)" by fastforce
  let ?g = "g\<lparr>editors := Suc (editors g)\<rparr>"
  have b: "begin_strict_editor (st_instance (tg_producer tg)) (st_revision (tg_producer tg)) (st_completed (tg_producer tg)) g = ((tg_producer tg, True), ?g)"
    using False by (simp add: begin_strict_editor_def)
  have rel: "editor_release ?g = Some g" by (simp add: editor_release_def)
  show thesis
  proof (cases r1)
    case (Inl x)
    then show thesis using that(1) assms False by (simp add: admit_grant_def b e rel)
  next
    case (Inr x)
    show thesis
    proof (cases "pd_epoch x \<noteq> tg_epoch tg \<or> room_name (tg_music tg) (pd_epoch x) \<noteq> tg_room tg")
      case True
      then show thesis using that(1) assms False Inr by (simp add: admit_grant_def b e rel)
    next
      case ok: False
      have r: "r = Some tg" "s' = track (tg_room tg) (tg_user tg) s" "d' = d1"
        using assms False ok Inr by (simp_all add: admit_grant_def b e)
      have "g' = (if captured then ?g else g)"
        using assms False ok Inr by (cases captured) (simp_all add: admit_grant_def b e rel)
      with r show thesis by (intro that(2) [of x]) (use False ok e Inr in simp_all)
    qed
  qed
qed

lemma room_name_nonempty [simp]: "room_name m e \<noteq> []"
  by (simp add: room_name_def)

lemma registry_step:
  assumes "collab_step sha256 encode w w'" "world_registry w"
  shows "world_registry w'"
  using assms
proof (cases rule: collab_step.cases)
  case (issue verify close a1 a2 a3 random now now' claimed bearer m accepted s d r)
  have "registry_exact (map (\<lambda>tg. (tg_room tg, tg_user tg)) (conns w)) s" if "keeps (cw_service w) s"
    using registry_keeps [OF that] assms(2) by (simp add: world_registry_def)
  moreover have "keeps (cw_service w) s \<or> active s = active (cw_service w) \<and> user_rooms s = user_rooms (cw_service w)"
    by (rule issue_ticket_cases [OF issue(2)])
      (auto simp: keeps_def put_ticket_def Let_def split: if_splits)
  ultimately have "registry_exact (map (\<lambda>tg. (tg_room tg, tg_user tg)) (conns w)) s"
    using assms(2) by (auto simp: world_registry_def registry_exact_def)
  then show ?thesis using assms(2) by (simp add: issue(1) world_registry_def)
next
  case (take_one now rq s found)
  from registry_keeps [OF keeps_take_grant [OF take_one(2)]] assms(2) show ?thesis
    by (auto simp: take_one(1) world_registry_def split: option.split)
next
  case (admit tg verify a g s d r)
  show ?thesis using admit(3)
  proof (cases rule: admit_grant_cases)
    case 1
    then show ?thesis using assms(2) by (simp add: admit(1) world_registry_def)
  next
    case (2 b)
    then show ?thesis using assms(2) registry_track by (simp add: admit(1) world_registry_def)
  qed
next
  case (finish tg g s)
  have room: "tg_room tg \<noteq> []" using finish(2) assms(2) by (simp add: world_registry_def)
  let ?p = "\<lambda>tg. (tg_room tg, tg_user tg)"
  have s: "s = untrack (tg_room tg) (tg_user tg) (cw_service w)" "editors (cw_gate w) \<noteq> 0" "editors g = editors (cw_gate w) - 1"
    using finish(3) room by (auto simp: finish_connection_def editor_release_def split: if_splits)
  have "mset (map ?p (remove1 tg (conns w))) = mset (remove1 (?p tg) (map ?p (conns w)))"
    using finish(2) by (simp add: image_mset_Diff)
  from registry_mset [OF this] registry_untrack [of "map ?p (conns w)" "cw_service w" "tg_room tg" "tg_user tg"] finish(2) assms(2)
  have "registry_exact (map ?p (remove1 tg (conns w))) s" by (simp add: world_registry_def s(1))
  moreover have "length (remove1 tg (conns w)) \<le> editors g" using assms(2) finish(2) s by (simp add: world_registry_def length_remove1 diff_le_mono)
  ultimately show ?thesis using assms(2) set_remove1_subset [of tg "conns w"] by (auto simp: finish(1) world_registry_def)
next
  case (revoke close u)
  have "keeps (cw_service w) (revoke_collab_user close u (cw_service w))" unfolding revoke_collab_user_def by (rule keeps_close_rooms)
  from registry_keeps [OF this] show ?thesis using assms(2) by (simp add: revoke world_registry_def)
next
  case (load room)
  from registry_keeps [OF keeps_mark] assms(2) show ?thesis by (simp add: load world_registry_def)
next
  case (replace close a m s d e)
  from registry_keeps [OF keeps_replace [of "cw_service w" sha256 encode close a m "cw_db w"]] assms(2) show ?thesis
    by (simp add: replace world_registry_def)
next
  case (retire close as songs s d e)
  from registry_keeps [OF keeps_retire_all [of "cw_service w" sha256 encode close as songs "cw_db w"]] assms(2) show ?thesis
    by (simp add: retire world_registry_def)
qed (use assms(2) in \<open>auto simp: world_registry_def registry_exact_def unmark_resident_def begin_retiring_def end_retiring_def invalidate_tickets_def\<close>)

lemma tickets_step:
  assumes "collab_step sha256 encode w w'" "world_tickets w"
  shows "world_tickets w'"
proof -
  have kept: "world_tickets (w\<lparr>cw_service := s, cw_db := d\<rparr>)" if "keeps (cw_service w) s" for s d
    using tickets_keeps [OF that assms(2)] assms(2) by (auto simp: world_tickets_def)
  have kept0: "world_tickets (w\<lparr>cw_service := s\<rparr>)" if "keeps (cw_service w) s" for s
    using tickets_keeps [OF that assms(2)] assms(2) by (auto simp: world_tickets_def)
  show ?thesis
    using assms(1)
  proof (cases rule: collab_step.cases)
    case (issue verify close a1 a2 a3 random now now' claimed bearer m accepted s d r)
    show ?thesis
    proof (rule issue_ticket_cases [OF issue(2)])
      assume "keeps (cw_service w) s" "isl r"
      then show ?thesis using kept [of s d] by (auto simp: issue(1) isl_def)
    next
      fix v tg e s1 assume k: "keeps (cw_service w) s1" and p: "put_ticket now' v tg s1 = (s, True)" and r: "r = Inr (v, e)"
      note t = tickets_keeps [OF k assms(2)] and p = put_ticket_table [OF p]
      show ?thesis using assms(2) p(1,2) [OF t(1)] subset_trans [OF p(3) [OF t(1)] insert_mono [OF t(3)]]
        by (auto simp: issue(1) r world_tickets_def split: prod.splits)
    qed
  next
    case (take_one now rq s found)
    show ?thesis
    proof (cases found)
      case None
      then show ?thesis using kept0 [OF keeps_take_grant [OF take_one(2)]] by (simp add: take_one(1))
    next
      case (Some tg)
      note t = take_grant_some [OF take_one(2) [unfolded Some]] 
      let ?v = "hd (ticket_values rq)"
      have v: "?v \<in> fst ` set (tickets (cw_service w))" using row_in [OF t(2)] by force
      have move: "A \<subseteq> I - insert x H \<and> insert x H \<subseteq> I \<and> x \<notin> H" if "A \<subseteq> B" "B \<subseteq> I - H" "H \<subseteq> I" "x \<in> B" "x \<notin> A" for A B I H and x :: string
        using that by blast
      show ?thesis
        using tickets_keeps [OF t(1) assms(2)] assms(2) move [OF tickets_keeps(3) [OF t(1) assms(2)] _ _ v t(3), where I = "set (issued w)" and H = "set (honoured w)"]
        by (simp add: take_one(1) Some world_tickets_def)
    qed
  next
    case (admit tg verify a g s d r)
    have "tickets s = tickets (cw_service w)"
      using admit(3) by (rule admit_grant_cases) (simp_all add: track_def Let_def)
    then show ?thesis using assms(2) by (simp add: admit(1) world_tickets_def)
  next
    case (finish tg g s)
    have "tickets s = tickets (cw_service w)"
      using finish(3) by (auto simp: finish_connection_def untrack_def Let_def split: option.splits if_splits)
    then show ?thesis using assms(2) by (simp add: finish(1) world_tickets_def)
  next
    case (revoke close u)
    show ?thesis unfolding revoke revoke_collab_user_def by (rule kept0 [OF keeps_close_rooms])
  next
    case (load room)
    show ?thesis unfolding load by (rule kept0 [OF keeps_mark])
  next
    case (replace close a m s d e)
    then show ?thesis using kept keeps_replace [of "cw_service w" sha256 encode close a m "cw_db w"] by simp
  next
    case (retire close as songs s d e)
    then show ?thesis using kept keeps_retire_all [of "cw_service w" sha256 encode close as songs "cw_db w"] by simp
  next
    case (freeze room m)
    show ?thesis unfolding freeze begin_retiring_def
      by (rule kept0 [OF keeps_trans [OF keeps_invalidate [of _ m]]])
        (rule keepsI [where p = "\<lambda>_. True"], simp_all)
  qed (use assms(2) kept0 in \<open>simp_all add: world_tickets_def unmark_resident_def end_retiring_def\<close>)
qed

lemma reachable_invariants:
  assumes "collab_reachable sha256 encode w"
  shows "world_registry w" "world_tickets w"
  using assms
proof (induction)
  case (start d g)
  {
    case 1
    show ?case by (simp add: world_registry_def registry_exact_def user_exact_def new_service_def)
  next
    case 2
    show ?case by (simp add: world_tickets_def new_service_def)
  }
qed (auto intro: registry_step tickets_step)

text \<open>
  C28:
  The registries are exact. In every reachable state of the service the count of a room is the
  number of its open connections, a revocation of a user closes exactly the rooms in which the
  user has one, and every open connection holds a slot of the editor gate.
\<close>

theorem registries_count_connections:
  assumes "collab_reachable sha256 encode w" "trim_space u \<noteq> []"
  shows "map_get (active (cw_service w)) room = int (length (filter (\<lambda>tg. tg_room tg = room) (conns w))) \<and>
    set (revoked_rooms u (cw_service w)) = tg_room ` {tg \<in> set (conns w). tg_user tg = u} \<and>
    length (conns w) \<le> editors (cw_gate w)"
proof -
  let ?cs = "map (\<lambda>tg. (tg_room tg, tg_user tg)) (conns w)"
  have r: "registry_exact ?cs (cw_service w)" "length (conns w) \<le> editors (cw_gate w)"
    using reachable_invariants(1) [OF assms(1)] by (auto simp: world_registry_def)
  have "map_get (active (cw_service w)) room = int (length (filter (\<lambda>c. fst c = room) ?cs))"
    by (rule map_get_counted) (use r(1) in \<open>simp add: registry_exact_def\<close>)
  moreover
  define rooms where "rooms = (case row (user_rooms (cw_service w)) u of None \<Rightarrow> [] | Some rooms \<Rightarrow> rooms)"
  have "user_exact ?cs u (row (user_rooms (cw_service w)) u)" using r(1) by (simp add: registry_exact_def)
  note e = user_exact_rooms [OF this rooms_def]
  have "x \<in> set (revoked_rooms u (cw_service w)) \<longleftrightarrow> row rooms x \<noteq> None" for x
    using assms(2) row_None_iff [of rooms x] by (auto simp: revoked_rooms_def rooms_def split: option.split)
  then have "x \<in> set (revoked_rooms u (cw_service w)) \<longleftrightarrow> (x, u) \<in> set ?cs" for x
    by (auto simp: e(2) counted_none filter_empty_conv)
  then have "set (revoked_rooms u (cw_service w)) = tg_room ` {tg \<in> set (conns w). tg_user tg = u}" by auto
  ultimately show ?thesis using r(2) by (simp add: filter_map comp_def)
qed

text \<open>
  C29:
  Tickets are used at most once. In every reachable state in which the random ticket values did
  not repeat, every honoured ticket was issued and none was honoured twice; and there are never
  more than 1024 tickets.
\<close>

theorem tickets_are_single_use:
  assumes "collab_reachable sha256 encode w" "distinct (issued w)"
  shows "distinct (honoured w) \<and> set (honoured w) \<subseteq> set (issued w) \<and> length (tickets (cw_service w)) \<le> 1024"
  using reachable_invariants(2) [OF assms(1)] assms(2) by (simp add: world_tickets_def maxTickets_def)

section \<open>Admitted connections\<close>

lemma ensure_room_epoch:
  assumes "ensure_room fate sha256 encode now lyrics in_catalog again m d = (d', Inr b)"
  shows "current_epoch DbWorks m d' = Inr (pd_epoch b)"
  using assms
  by (auto simp: ensure_room_def read_room_def check_room_def current_epoch_def Let_def split: option.splits sum.splits prod.splits if_splits)

text \<open>
  C2:
  A connection is admitted only by a ticket that the service holds and that has not expired, for
  the song of the path, while the token of its user still verifies with the role and version the
  ticket was issued for, while the producer state is the one the user had loaded and no producer
  runs, and only to the current room of the song, which is not being retired. The ticket is used
  up, and the connection takes one slot of the editor gate.
\<close>

theorem admission_is_current:
  assumes "take_grant now rq s0 = (s1, Some tg)"
    and "admit_grant verify sha256 encode a True tg g (s, d) = ((g', s', d'), Some tg')"
  shows "tg' = tg \<and> now < tg_expires tg \<and> parse_positive_int (rq_music rq) = Some (tg_music tg) \<and>
    row (tickets s0) (hd (ticket_values rq)) = Some tg \<and> row (tickets s1) (hd (ticket_values rq)) = None \<and>
    (\<exists>c. verify (tg_bearer tg) = Inr c \<and> c_name c = tg_user tg \<and> c_role c = tg_role tg \<and> c_version c = tg_version tg) \<and>
    status g = tg_producer tg \<and> \<not> st_running (status g) \<and> g' = g\<lparr>editors := editors g + 1\<rparr> \<and>
    current_epoch DbWorks (tg_music tg) d' = Inr (tg_epoch tg) \<and> tg_room tg = room_name (tg_music tg) (tg_epoch tg) \<and>
    tg_room tg \<notin> set (retiring s) \<and> s' = track (tg_room tg) (tg_user tg) s"
proof -
  note t = take_grant_some [OF assms(1)]
  have m: "parse_positive_int (rq_music rq) = Some (tg_music tg)"
    using assms(1) by (auto simp: take_grant_def split: prod.splits if_splits option.splits)
  show ?thesis using assms(2)
  proof (cases rule: admit_grant_cases)
    case (2 b)
    have "\<exists>c. verify (tg_bearer tg) = Inr c \<and> c_name c = tg_user tg \<and> c_role c = tg_role tg \<and> c_version c = tg_version tg"
      using 2(5) by (auto simp: grant_current_def split: sum.splits)
    then show ?thesis using 2 m t ensure_room_epoch [OF 2(8) [unfolded ensure_answered_def]] row_None_iff [of "tickets s1"] by simp
  qed simp
qed

lemma close_rooms_ok:
  assumes "close_rooms close rooms s = (s', False)"
  shows "set (resident s') = set (resident s) - set rooms \<union> (set (resident s) \<inter> {[]})" "tickets s' = tickets s"
proof -
  have "set (resident s') = set (resident s) - set rooms \<union> (set (resident s) \<inter> {[]}) \<and> tickets s' = tickets s"
    using assms
    by (induction rooms arbitrary: s)
      (auto simp: close_retired_room_def unmark_resident_def Let_def split: prod.splits if_splits)
  then show "set (resident s') = set (resident s) - set rooms \<union> (set (resident s) \<inter> {[]})" "tickets s' = tickets s" by simp_all
qed

lemma parse_room_Nil [simp]: "parse_room [] = None"
  by (simp add: parse_room_def)

text \<open>
  When a room is replaced, by an external save or a restored catalog row, and every close works,
  no ticket of the song is left and no room of the song is resident but the new one, whose epoch
  is the current one.
\<close>

theorem replacement_retires_rooms:
  assumes "replace_locked sha256 encode close a m (s, d) = ((s', d'), None)"
  shows "\<exists>e. current_epoch DbWorks m d' = Inr e \<and> (\<forall>g \<in> snd ` set (tickets s'). tg_music g \<noteq> m) \<and>
    (\<forall>room \<in> set (resident s'). \<forall>e'. parse_room room = Some (m, e') \<longrightarrow> e' = e)"
proof -
  obtain old_room new_room where r: "replace_from_authoritative (an_fate a) sha256 encode (an_now a) (an_lyrics a) (an_in_catalog a) m d =
      (d', Inr (old_room, new_room))"
    and c: "close_rooms close (filter (\<lambda>room. room \<noteq> new_room) (music_rooms m old_room (invalidate_tickets m s))) (invalidate_tickets m s) = (s', False)"
    using assms by (auto simp: replace_locked_def Let_def split: prod.splits sum.splits if_splits)
  obtain e where e: "current_epoch DbWorks m d' = Inr e" "new_room = room_name m e"
    using r by (auto simp: replace_from_authoritative_def current_epoch_def Let_def next_epoch_readable split: sum.splits if_splits)
  note cr = close_rooms_ok [OF c]
  have "e' = e" if "room \<in> set (resident s')" "parse_room room = Some (m, e')" for room e'
  proof -
    have "room \<in> set (music_rooms m old_room (invalidate_tickets m s))"
      using that cr(1) by (auto simp: music_rooms_def known_rooms_def)
    then have "room = new_room" using that cr(1) by auto
    then have "room_name m e = room_name m e'" using room_name_parse(1) [OF that(2)] e(2) by simp
    then show ?thesis by (simp add: room_name_def format_int_inj)
  qed
  moreover have "\<forall>g \<in> snd ` set (tickets s'). tg_music g \<noteq> m" by (auto simp: cr(2) invalidate_tickets_def)
  ultimately show ?thesis using e(1) by blast
qed

section \<open>Witnesses\<close>

text \<open>A song of the catalog without lyrics: a ticket is issued, taken and its connection admitted.\<close>

definition ann :: claims where
  "ann = \<lparr>c_uid = 1, c_name = ''ann'', c_role = ''editor'', c_version = 1, c_expires = 100, c_issued = 0\<rparr>"

definition idle_gate :: gate where
  "idle_gate = \<lparr>status = \<lparr>st_version = 1, st_instance = ''i'', st_revision = 0, st_generation = 0, st_completed = 0, st_running = False,
     st_last_run = []\<rparr>, editors = 0, draining = False, hooks = [], calls = []\<rparr>"

definition listed :: store_answers where
  "listed = \<lparr>an_fate = DbWorks, an_now = 1, an_lyrics = LyricsNotFound, an_in_catalog = Some True,
     an_again = (DbWorks, LyricsNotFound, Some True)\<rparr>"

definition ann_grant :: ticket_grant where
  "ann_grant = \<lparr>tg_user = ''ann'', tg_role = ''editor'', tg_version = 1, tg_bearer = ''B'', tg_music = 3, tg_epoch = 1,
     tg_room = ''lyrics-3-e1'', tg_producer = status idle_gate, tg_expires = ticketTTL\<rparr>"

definition no_drafts :: collab_db where
  "no_drafts = \<lparr>documents = [], update_log = [], checkpoints = []\<rparr>"

definition song_draft :: collab_db where
  "song_draft = no_drafts\<lparr>documents := [(3, \<lparr>cd_epoch = 1, cd_update = ''u'', cd_base_revision = 0, cd_authority = ''h'', cd_updated_at = 1,
     cd_checkpointed_at = 0, cd_checkpointed_by = []\<rparr>)]\<rparr>"

definition ann_request :: ticket_request where
  "ann_request = \<lparr>rq_error = False, rq_query = [(''ticket'', [''T''])], rq_music = ''3''\<rparr>"

lemma blank_parts: "document_update (\<lambda>_. Some ''u'') (blank_lyrics m) = Inr ''u''"
  "\<exists>body. canonical_document (\<lambda>_. ''h'') (blank_lyrics m) = Inr (body, ''h'', 0, DocumentLegacy)"
  by (simp_all add: document_update_def canonical_document_def blank_lyrics_def)

lemma ensured_first: "ensure_answered (\<lambda>_. ''h'') (\<lambda>_. Some ''u'') listed 3 no_drafts =
    (song_draft, Inr \<lparr>pd_music = 3, pd_epoch = 1, pd_update = ''u'', pd_base_revision = 0, pd_authority = ''h'', pd_kind = DocumentLegacy\<rparr>)"
  using blank_parts [of 3]
  by (auto simp: ensure_answered_def listed_def ensure_room_def read_room_def open_room_def unreadable_def maxEpoch_def no_drafts_def song_draft_def authoritative_document_def
      doc_row_ok_def check_room_def put_def Let_def row_def)

lemma ensured_again: "ensure_answered (\<lambda>_. ''h'') (\<lambda>_. Some ''u'') listed 3 song_draft =
    (song_draft, Inr \<lparr>pd_music = 3, pd_epoch = 1, pd_update = ''u'', pd_base_revision = 0, pd_authority = ''h'', pd_kind = DocumentLegacy\<rparr>)"
  using blank_parts [of 3]
  by (auto simp: ensure_answered_def listed_def ensure_room_def read_room_def open_room_def unreadable_def maxEpoch_def no_drafts_def song_draft_def authoritative_document_def
      check_room_def row_def)

lemma ann_issued:
  "issue_ticket (\<lambda>_. Inr ann) (\<lambda>_. ''h'') (\<lambda>_. Some ''u'') (\<lambda>_. CloseDone) listed listed listed (Some ''T'') 0 0 (Some ann) ''B'' 3
     [status idle_gate] idle_gate (new_service, no_drafts) =
   ((new_service\<lparr>tickets := [(''T'', ann_grant)]\<rparr>, song_draft), Inr (''T'', ''lyrics-3-e1'', ticketTTL))"
proof -
  have t: "trim_space ''B'' = ''B''" by code_simp
  have r: "room_for_ticket (\<lambda>_. ''h'') (\<lambda>_. Some ''u'') (\<lambda>_. CloseDone) listed listed listed 3 (new_service, no_drafts) =
      ((new_service, song_draft), Inr \<lparr>pd_music = 3, pd_epoch = 1, pd_update = ''u'', pd_base_revision = 0, pd_authority = ''h'', pd_kind = DocumentLegacy\<rparr>)"
    by (simp add: room_for_ticket_def ensured_first)
  show ?thesis
    by (simp add: issue_ticket_def t r) (simp add: put_ticket_def new_service_def maxTickets_def put_def ann_def ann_grant_def rooms_3 idle_gate_def Let_def)
qed

lemma three: "parse_positive_int ''3'' = Some 3"
proof -
  have t: "trim_space ''3'' = ''3''" by code_simp
  show ?thesis by (simp add: parse_positive_int_def sscanf_int_def t is_digit_def decimal_value_def digit_val_def format_int_def digit_1)
qed

lemma ann_taken: "take_grant 5 ann_request (new_service\<lparr>tickets := [(''T'', ann_grant)]\<rparr>) = (new_service, Some ann_grant)"
  by (simp add: take_grant_def ticket_values_def well_formed_request_def ann_request_def new_service_def row_def del_def
      ann_grant_def ticketTTL_def three)

lemma ann_admitted:
  "admit_grant (\<lambda>_. Inr ann) (\<lambda>_. ''h'') (\<lambda>_. Some ''u'') listed True ann_grant idle_gate (new_service, song_draft) =
     ((idle_gate\<lparr>editors := 1\<rparr>, track ''lyrics-3-e1'' ''ann'' new_service, song_draft), Some ann_grant)"
  by (simp add: admit_grant_def begin_strict_editor_def grant_current_def ensured_again ann_grant_def ann_def idle_gate_def
      new_service_def rooms_3 Let_def)

lemma ann_connected:
  "collab_reachable (\<lambda>_. ''h'') (\<lambda>_. Some ''u'')
     \<lparr>cw_service = track ''lyrics-3-e1'' ''ann'' new_service, cw_db = song_draft, cw_gate = idle_gate\<lparr>editors := 1\<rparr>,
      pending = [], conns = [ann_grant], issued = [''T''], honoured = [''T'']\<rparr>"
proof -
  let ?w = "\<lambda>s d g p c i h. \<lparr>cw_service = s, cw_db = d, cw_gate = g, pending = p, conns = c, issued = i, honoured = h\<rparr>"
  let ?r = "collab_reachable (\<lambda>_. ''h'') (\<lambda>_. Some ''u'')"
  have "?r (?w new_service no_drafts idle_gate [] [] [] [])" by (rule start)
  from more [OF this issue] ann_issued
  have "?r (?w (new_service\<lparr>tickets := [(''T'', ann_grant)]\<rparr>) song_draft idle_gate [] [] [''T''] [])" by fastforce
  from more [OF this take_one [where rq = ann_request and now = 5]] ann_taken
  have "?r (?w new_service song_draft idle_gate [ann_grant] [] [''T''] [''T''])"
    by (fastforce simp: ann_request_def ticket_values_def)
  from more [OF this admit [where tg = ann_grant]] ann_admitted show ?thesis by fastforce
qed

theorem registries_count_connections_witness:
  "set (revoked_rooms ''ann'' (track ''lyrics-3-e1'' ''ann'' new_service)) = {''lyrics-3-e1''}"
proof -
  have t: "trim_space ''ann'' \<noteq> []" by code_simp
  have "{tg \<in> set [ann_grant]. tg_user tg = ''ann''} = {ann_grant}" by (auto simp: ann_grant_def)
  then show ?thesis using registries_count_connections [OF ann_connected t] by (simp add: ann_grant_def [THEN arg_cong, of tg_room])
qed

theorem tickets_are_single_use_witness:
  "distinct [''T''] \<and> length (tickets (track ''lyrics-3-e1'' ''ann'' new_service)) \<le> 1024"
  using tickets_are_single_use [OF ann_connected] by simp

theorem admission_is_current_witness:
  "current_epoch DbWorks 3 song_draft = Inr 1 \<and> tg_room ann_grant = room_name 3 1"
  using admission_is_current [OF ann_taken ann_admitted] by (simp add: ann_grant_def)

theorem replacement_retires_rooms_witness:
  "\<exists>s' d'. replace_locked (\<lambda>_. ''h'') (\<lambda>_. Some ''u'') (\<lambda>_. CloseDone) listed 3
      (new_service\<lparr>tickets := [(''T'', ann_grant)], resident := [''lyrics-3-e1'']\<rparr>, song_draft) = ((s', d'), None) \<and>
     (\<exists>e. current_epoch DbWorks 3 d' = Inr e \<and> (\<forall>g \<in> snd ` set (tickets s'). tg_music g \<noteq> 3) \<and>
       (\<forall>room \<in> set (resident s'). \<forall>e'. parse_room room = Some (3, e') \<longrightarrow> e' = e))"
proof -
  let ?p = "replace_locked (\<lambda>_. ''h'') (\<lambda>_. Some ''u'') (\<lambda>_. CloseDone) listed 3
      (new_service\<lparr>tickets := [(''T'', ann_grant)], resident := [''lyrics-3-e1'']\<rparr>, song_draft)"
  have "close_rooms (\<lambda>_. CloseDone) rooms s = (fst (close_rooms (\<lambda>_. CloseDone) rooms s), False)" for rooms s
    by (induction rooms arbitrary: s) (auto simp: close_retired_room_def Let_def split: prod.splits)
  then have n: "snd (close_rooms (\<lambda>_. CloseDone) rooms s) = False" for rooms s by (metis snd_conv)
  have "snd ?p = None"
    using blank_parts [of 3]
    by (auto simp: replace_locked_def replace_from_authoritative_def authoritative_document_def listed_def doc_row_ok_def n Let_def case_prod_beta
        song_draft_def row_def maxEpoch_def)
  then obtain s' d' where p: "?p = ((s', d'), None)" by (metis prod.collapse)
  from replacement_retires_rooms [OF p] p show ?thesis by blast
qed

end
