(* ===== verification/EventTables.thy ===== *)
theory EventTables
  imports ContentModel GoText GoConv
begin

text \<open>
  Event stories (\<open>store/event_store.go\<close>, \<open>store/event_scenario.go\<close>, \<open>store/event_translate.go\<close>,
  \<open>store/event_locale.go\<close>): the tables, the identity of a segment and the shared queries. A story
  has the older rows (episodes with a Chinese title, talk lines under their Japanese text) and,
  beside them, segments with one localization per locale. SHA-256 in hexadecimal is the
  parameter \<open>digest\<close>.
\<close>

section \<open>Tables\<close>

text \<open>A line is keyed by its Japanese text.\<close>

type_synonym jp_key = string
type_synonym segment_id = string
type_synonym source_name = string

record event_row =
  es_source :: string
  es_version :: string
  es_updated :: int

record event_episode_row =
  ee_scenario :: string
  ee_title :: string
  ee_title_source :: string
  ee_position :: int

record event_line_row =
  el_text :: string
  el_source :: string
  el_speaker :: string
  el_position :: int

record segment_row =
  sg_event :: int
  sg_episode :: string
  sg_scenario :: string
  sg_kind :: string
  sg_position :: int
  sg_jp :: string
  sg_text :: string
  sg_hash :: string

record segment_loc =
  lo_text :: string
  lo_source :: string
  lo_updated :: int
  lo_by :: string
  lo_revision :: int

record scenario_row =
  sn_scenario :: string
  sn_json :: string
  sn_sha :: string

text \<open>
  Episodes are keyed by event and number, lines by event, number and Japanese text, segments by
  their id, localizations by segment and locale, scenarios by event and number.
\<close>

record event_db =
  events :: "(int, event_row) table"
  event_episodes :: "(int \<times> string, event_episode_row) table"
  event_lines :: "(int \<times> string \<times> string, event_line_row) table"
  segments :: "(string, segment_row) table"
  segment_locs :: "(string \<times> string, segment_loc) table"
  locale_meta :: "(int \<times> string, int) table"
  scenarios :: "(int \<times> string, scenario_row) table"
  event_audit :: "(int \<times> string \<times> string \<times> string) list"

datatype event_error =
    EventSourceInvalid | EventLocaleReadOnly | EventSourceConflict | EventRevisionConflict
  | EventNotFound | EventScenarioConflict | EventScenarioInvalid | EventDbFailed | EventSegmentGone

section \<open>Identity\<close>

definition hash_text :: "(string \<Rightarrow> string) \<Rightarrow> string \<Rightarrow> string" where
  "hash_text digest t = (if t = [] then [] else digest t)"

definition event_segment_id :: "int \<Rightarrow> string \<Rightarrow> string \<Rightarrow> string \<Rightarrow> int \<Rightarrow> string \<Rightarrow> string" where
  "event_segment_id event scenario episode kind position field =
     ''event:'' @ format_int event @ '':'' @ scenario @ '':'' @ episode @ '':'' @ kind @ '':'' @ format_int position @
     (if field = [] then [] else CHR '':'' # field)"

definition is_deterministic_segment :: "string \<Rightarrow> segment_row \<Rightarrow> bool" where
  "is_deterministic_segment i s \<longleftrightarrow>
     (if sg_kind s = ''title'' then i = event_segment_id (sg_event s) (sg_scenario s) (sg_episode s) ''title'' (- 1) []
      else list_ex (\<lambda>field. i = event_segment_id (sg_event s) (sg_scenario s) (sg_episode s) ''talk'' (sg_position s) field)
             [[], ''body'', ''speaker'', ''legacy''])"

text \<open>
  Segments whose scenario is that of their episode: the join the queries share. The others are
  left-overs of a previous scenario.
\<close>

definition in_current_episode :: "event_db \<Rightarrow> segment_row \<Rightarrow> bool" where
  "in_current_episode d s \<longleftrightarrow>
     (case row (event_episodes d) (sg_event s, sg_episode s) of None \<Rightarrow> False | Some ep \<Rightarrow> ee_scenario ep = sg_scenario s)"

definition current_segments :: "int \<Rightarrow> event_db \<Rightarrow> (string \<times> segment_row) list" where
  "current_segments event d = filter (\<lambda>(i, s). sg_event s = event \<and> in_current_episode d s) (segments d)"

definition protected_source :: "string \<Rightarrow> bool" where
  "protected_source source \<longleftrightarrow> source = SourceHuman \<or> source = SourcePinned"

definition has_protected_translations :: "int \<Rightarrow> event_db \<Rightarrow> bool" where
  "has_protected_translations event d \<longleftrightarrow>
     (case row (events d) event of None \<Rightarrow> False | Some r \<Rightarrow> protected_source (es_source r)) \<or>
     list_ex (\<lambda>((e, _), ep). e = event \<and> protected_source (ee_title_source ep)) (event_episodes d) \<or>
     list_ex (\<lambda>((e, _, _), l). e = event \<and> protected_source (el_source l)) (event_lines d)"

text \<open>\<open>ON CONFLICT(segment_id, locale) DO UPDATE\<close> with the next revision.\<close>

definition upsert_segment_loc :: "string \<Rightarrow> string \<Rightarrow> string \<Rightarrow> string \<Rightarrow> int \<Rightarrow> string \<Rightarrow> event_db \<Rightarrow> event_db" where
  "upsert_segment_loc i lc text source now by d =
     (let rev = (case row (segment_locs d) (i, lc) of None \<Rightarrow> 1 | Some l \<Rightarrow> lo_revision l + 1) in
      d\<lparr>segment_locs := put (i, lc) \<lparr>lo_text = text, lo_source = source, lo_updated = now, lo_by = by, lo_revision = rev\<rparr> (segment_locs d)\<rparr>)"

definition touch_locale_meta :: "int \<Rightarrow> string \<Rightarrow> int \<Rightarrow> event_db \<Rightarrow> event_db" where
  "touch_locale_meta event lc now d = d\<lparr>locale_meta := put (event, lc) now (locale_meta d)\<rparr>"

definition touch_event :: "int \<Rightarrow> int \<Rightarrow> event_db \<Rightarrow> event_db" where
  "touch_event event now d = d\<lparr>events := modify event (\<lambda>r. r\<lparr>es_updated := now\<rparr>) (events d)\<rparr>"

text \<open>\<open>UPDATE\<close> of a Chinese title or line; the number of rows it changed.\<close>

definition update_title :: "int \<Rightarrow> string \<Rightarrow> string \<Rightarrow> string \<Rightarrow> event_db \<Rightarrow> event_db \<times> nat" where
  "update_title event episode text source d =
     (d\<lparr>event_episodes := modify (event, episode) (\<lambda>r. r\<lparr>ee_title := text, ee_title_source := source\<rparr>) (event_episodes d)\<rparr>,
      case row (event_episodes d) (event, episode) of None \<Rightarrow> 0 | Some _ \<Rightarrow> 1)"

definition update_talk :: "int \<Rightarrow> string \<Rightarrow> string \<Rightarrow> string \<Rightarrow> string \<Rightarrow> event_db \<Rightarrow> event_db \<times> nat" where
  "update_talk event episode jp text source d =
     (d\<lparr>event_lines := modify (event, episode, jp) (\<lambda>r. r\<lparr>el_text := text, el_source := source\<rparr>) (event_lines d)\<rparr>,
      case row (event_lines d) (event, episode, jp) of None \<Rightarrow> 0 | Some _ \<Rightarrow> 1)"

end
