(* ===== verification/EventScenario.thy ===== *)
theory EventScenario
  imports EventTables
begin

text \<open>
  The scenarios of event stories (\<open>store/event_scenario.go\<close>): the validation of a stored scenario,
  the segments it defines, and which stored segments are canonical. The JSON library is the
  parameter \<open>canonicalize\<close>, which decodes a scenario, checks its id and its five fields and encodes
  them again, and the parameter \<open>talks\<close>, which decodes the body and the speaker of every talk.
\<close>

section \<open>Validation\<close>

record scenario_record =
  sr_event :: int
  sr_episode :: string
  sr_scenario :: string
  sr_json :: string
  sr_sha :: string

definition validate_scenario_record ::
  "(string \<Rightarrow> string) \<Rightarrow> (string \<Rightarrow> string \<Rightarrow> event_error + string) \<Rightarrow> scenario_record \<Rightarrow> event_error option" where
  "validate_scenario_record digest canonicalize r =
     (if sr_event r \<le> 0 \<or> trim_space (sr_episode r) = [] \<or> trim_space (sr_scenario r) = [] then Some EventScenarioInvalid
      else if digest (sr_json r) \<noteq> sr_sha r then Some EventScenarioInvalid
      else case canonicalize (sr_json r) (sr_scenario r) of Inl e \<Rightarrow> Some e
      | Inr c \<Rightarrow> if c \<noteq> sr_json r \<or> digest c \<noteq> sr_sha r then Some EventScenarioInvalid else None)"

definition maxValidatedScenarioCacheItems :: nat where "maxValidatedScenarioCacheItems = 4096"

text \<open>With the cache of validated scenarios, a list of digests and scenario ids.\<close>

definition validate_scenario_cached ::
  "(string \<Rightarrow> string) \<Rightarrow> (string \<Rightarrow> string \<Rightarrow> event_error + string) \<Rightarrow> scenario_record \<Rightarrow> (string \<times> string) list \<Rightarrow>
   (string \<times> string) list \<times> event_error option" where
  "validate_scenario_cached digest canonicalize r cache =
     (if sr_event r \<le> 0 \<or> trim_space (sr_episode r) = [] \<or> trim_space (sr_scenario r) = [] then (cache, Some EventScenarioInvalid)
      else if digest (sr_json r) \<noteq> sr_sha r then (cache, Some EventScenarioInvalid)
      else let k = (digest (sr_json r), sr_scenario r) in
        if k \<in> set cache then (cache, None)
        else (case canonicalize (sr_json r) (sr_scenario r) of Inl e \<Rightarrow> (cache, Some e)
          | Inr c \<Rightarrow> if c \<noteq> sr_json r \<or> digest c \<noteq> sr_sha r then (cache, Some EventScenarioInvalid)
              else (List.insert k (if maxValidatedScenarioCacheItems \<le> length cache then [] else cache), None)))"

section \<open>Segments of a scenario\<close>

text \<open>A definition is a segment with its id.\<close>

definition talk_definition ::
  "(string \<Rightarrow> string) \<Rightarrow> scenario_record \<Rightarrow> int \<Rightarrow> string \<Rightarrow> string \<Rightarrow> string \<times> segment_row" where
  "talk_definition digest r pos field text =
     (event_segment_id (sr_event r) (sr_scenario r) (sr_episode r) ''talk'' pos field,
      \<lparr>sg_event = sr_event r, sg_episode = sr_episode r, sg_scenario = sr_scenario r, sg_kind = ''talk'', sg_position = pos,
       sg_jp = text, sg_text = text, sg_hash = hash_text digest text\<rparr>)"

definition segment_definitions ::
  "(string \<Rightarrow> string) \<Rightarrow> (string \<Rightarrow> (string \<times> string) list option) \<Rightarrow> scenario_record \<Rightarrow> string \<Rightarrow>
   event_error + (string \<times> segment_row) list" where
  "segment_definitions digest talks r title =
     (case talks (sr_json r) of None \<Rightarrow> Inl EventScenarioInvalid
      | Some ts \<Rightarrow> Inr (
          (event_segment_id (sr_event r) (sr_scenario r) (sr_episode r) ''title'' (- 1) [],
           \<lparr>sg_event = sr_event r, sg_episode = sr_episode r, sg_scenario = sr_scenario r, sg_kind = ''title'', sg_position = - 1,
            sg_jp = [], sg_text = title, sg_hash = hash_text digest title\<rparr>) #
          concat (map (\<lambda>(p, (body, speaker)).
            [talk_definition digest r (int p * 2) ''body'' (trim_space body),
             talk_definition digest r (int p * 2 + 1) ''speaker'' (trim_space speaker)]) (enumerate 0 ts))))"

text \<open>The title of a definition is that of the stored segment.\<close>

fun verify_canonical ::
  "(string \<Rightarrow> string) \<Rightarrow> (string \<times> segment_row) list \<Rightarrow> (string, segment_row) table \<Rightarrow> (string, segment_row) table \<Rightarrow>
   (string, segment_row) table \<times> bool" where
  "verify_canonical digest [] stored canonical = (canonical, True)"
| "verify_canonical digest ((i, df) # dfs) stored canonical =
     (case row stored i of None \<Rightarrow> (canonical, False)
      | Some s \<Rightarrow>
          let df = (if sg_kind df = ''title'' then df\<lparr>sg_text := sg_text s, sg_hash := hash_text digest (sg_text s)\<rparr> else df) in
          if s \<noteq> df then (canonical, False) else verify_canonical digest dfs stored (put i df canonical))"

definition verify_canonical_segments ::
  "(string \<Rightarrow> string) \<Rightarrow> (string \<times> segment_row) list \<Rightarrow> (string, segment_row) table \<Rightarrow> (string, segment_row) table \<times> bool" where
  "verify_canonical_segments digest dfs stored =
     (let (canonical, covered) = verify_canonical digest dfs stored [] in (canonical, covered \<and> length canonical = length dfs))"

definition stored_segments :: "int \<Rightarrow> string \<Rightarrow> string \<Rightarrow> event_db \<Rightarrow> (string, segment_row) table" where
  "stored_segments event episode scenario d =
     filter (\<lambda>(i, s). sg_event s = event \<and> sg_episode s = episode \<and> sg_scenario s = scenario) (segments d)"

definition canonical_segments ::
  "(string \<Rightarrow> string) \<Rightarrow> (string \<Rightarrow> (string \<times> string) list option) \<Rightarrow> scenario_record \<Rightarrow> event_db \<Rightarrow>
   event_error + ((string, segment_row) table \<times> bool)" where
  "canonical_segments digest talks r d =
     (case segment_definitions digest talks r [] of Inl e \<Rightarrow> Inl e
      | Inr dfs \<Rightarrow> Inr (verify_canonical_segments digest dfs (stored_segments (sr_event r) (sr_episode r) (sr_scenario r) d)))"

definition record_of :: "int \<Rightarrow> string \<Rightarrow> scenario_row \<Rightarrow> scenario_record" where
  "record_of event episode s = \<lparr>sr_event = event, sr_episode = episode, sr_scenario = sn_scenario s, sr_json = sn_json s, sr_sha = sn_sha s\<rparr>"

text \<open>The scenarios of the current episodes of an event.\<close>

definition current_scenarios :: "int \<Rightarrow> event_db \<Rightarrow> scenario_record list" where
  "current_scenarios event d =
     map (\<lambda>((e, n), s). record_of e n s)
       (filter (\<lambda>((e, n), s). e = event \<and>
          (case row (event_episodes d) (e, n) of None \<Rightarrow> False | Some ep \<Rightarrow> ee_scenario ep = sn_scenario s)) (scenarios d))"

fun first_invalid ::
  "(string \<Rightarrow> string) \<Rightarrow> (string \<Rightarrow> string \<Rightarrow> event_error + string) \<Rightarrow> scenario_record list \<Rightarrow> event_error option" where
  "first_invalid digest canonicalize [] = None"
| "first_invalid digest canonicalize (r # rs) =
     (case validate_scenario_record digest canonicalize r of Some e \<Rightarrow> Some e | None \<Rightarrow> first_invalid digest canonicalize rs)"

fun collect_canonical ::
  "(string \<Rightarrow> string) \<Rightarrow> (string \<Rightarrow> (string \<times> string) list option) \<Rightarrow> event_db \<Rightarrow> scenario_record list \<Rightarrow> (string, string list) table \<Rightarrow>
   event_error + (string, string list) table" where
  "collect_canonical digest talks d [] result = Inr result"
| "collect_canonical digest talks d (r # rs) result =
     (case canonical_segments digest talks r d of Inl e \<Rightarrow> Inl e
      | Inr (canonical, covered) \<Rightarrow>
          if \<not> covered then Inl EventScenarioConflict
          else collect_canonical digest talks d rs (put (sr_episode r) (map fst canonical) result))"

text \<open>The ids of the canonical segments, by episode.\<close>

definition current_canonical_ids ::
  "(string \<Rightarrow> string) \<Rightarrow> (string \<Rightarrow> string \<Rightarrow> event_error + string) \<Rightarrow> (string \<Rightarrow> (string \<times> string) list option) \<Rightarrow>
   int \<Rightarrow> event_db \<Rightarrow> event_error + (string, string list) table" where
  "current_canonical_ids digest canonicalize talks event d =
     (case first_invalid digest canonicalize (current_scenarios event d) of Some e \<Rightarrow> Inl e
      | None \<Rightarrow> collect_canonical digest talks d (current_scenarios event d) [])"

end
