(* ===== verification/EventEdit.thy ===== *)
theory EventEdit
  imports EventScenario "HOL-Library.Char_ord" "HOL-Library.List_Lexorder" "HOL-Library.Product_Lexorder"
begin

text \<open>
  Editing event stories: the edit of a Chinese line or title, the promotion of a story, the order
  of the lines of an episode (\<open>store/event_store.go\<close>, \<open>store/event_translate.go\<close>), and the edit of
  a segment in a locale with the view it is based on (\<open>store/event_locale.go\<close>).
\<close>

section \<open>Edits by the older interface\<close>

definition upsert_all :: "string \<Rightarrow> string \<Rightarrow> string \<Rightarrow> int \<Rightarrow> string \<Rightarrow> (string \<times> segment_row) list \<Rightarrow> event_db \<Rightarrow> event_db" where
  "upsert_all lc text source now by ss d = fold (\<lambda>(i, s). upsert_segment_loc i lc text source now by) ss d"

definition event_update_line ::
  "db_fate \<Rightarrow> int \<Rightarrow> int \<Rightarrow> string \<Rightarrow> jp_key \<Rightarrow> string \<Rightarrow> source_name \<Rightarrow> string \<Rightarrow> event_db \<Rightarrow> event_db \<times> event_error option" where
  "event_update_line fate now event episode jp text source entry_type d =
     (if \<not> is_valid_source source then (d, Some EventSourceInvalid)
      else if fate = DbNoBegin \<or> fate = DbNoExec then (d, Some EventDbFailed)
      else let (d1, n) = (if entry_type = ''title'' then update_title event episode text source d
                          else update_talk event episode jp text source d) in
        if n = 0 then (d, Some EventNotFound)
        else let d2 = touch_locale_meta event LocaleChinese now (touch_event event now d1);
                 kind = (if entry_type = ''title'' then ''title'' else ''talk'');
                 jp = (if entry_type = ''title'' then [] else jp);
                 d3 = upsert_all LocaleChinese text source now ''legacy-api''
                        (filter (\<lambda>(i, s). sg_episode s = episode \<and> sg_kind s = kind \<and> (jp = [] \<or> sg_jp s = jp)) (current_segments event d2)) d2 in
          if fate = DbNoCommit then (d, Some EventDbFailed) else (d3, None))"

definition change_rows :: "('k \<Rightarrow> bool) \<Rightarrow> ('r \<Rightarrow> 'r) \<Rightarrow> ('k, 'r) table \<Rightarrow> ('k, 'r) table" where
  "change_rows p f t = map (\<lambda>(k, r). (k, if p k then f r else r)) t"

definition promote_human :: "db_fate \<Rightarrow> int \<Rightarrow> int \<Rightarrow> event_db \<Rightarrow> event_db \<times> event_error option" where
  "promote_human fate now event d =
     (if fate = DbNoBegin \<or> fate = DbNoExec then (d, Some EventDbFailed)
      else let ids = fst ` set (current_segments event d);
               d1 = d\<lparr>event_episodes := change_rows (\<lambda>(e, _). e = event) (\<lambda>r. r\<lparr>ee_title_source := ''human''\<rparr>) (event_episodes d),
                      event_lines := change_rows (\<lambda>(e, _, _). e = event) (\<lambda>r. r\<lparr>el_source := ''human''\<rparr>) (event_lines d),
                      segment_locs := change_rows (\<lambda>(i, lc). lc = LocaleChinese \<and> i \<in> ids)
                        (\<lambda>l. l\<lparr>lo_source := ''human'', lo_updated := now, lo_by := ''promote-human'', lo_revision := lo_revision l + 1\<rparr>)
                        (segment_locs d)\<rparr> in
        case row (events d) event of None \<Rightarrow> (d, Some EventNotFound)
        | Some r \<Rightarrow>
            if fate = DbNoCommit then (d, Some EventDbFailed)
            else (touch_locale_meta event LocaleChinese now
                   (d1\<lparr>events := put event (r\<lparr>es_source := ''human'', es_updated := now\<rparr>) (events d1)\<rparr>), None))"

section \<open>The order of the lines of an episode\<close>

definition ordered_lines :: "int \<Rightarrow> string \<Rightarrow> event_db \<Rightarrow> (string \<times> event_line_row) list" where
  "ordered_lines event episode d =
     sort_key (\<lambda>(_, l). el_position l)
       (map (\<lambda>((_, _, jp), l). (jp, l)) (filter (\<lambda>((e, n, _), _). e = event \<and> n = episode) (event_lines d)))"

definition set_position :: "int \<Rightarrow> string \<Rightarrow> string \<Rightarrow> int \<Rightarrow> event_db \<Rightarrow> event_db" where
  "set_position event episode jp pos d = d\<lparr>event_lines := modify (event, episode, jp) (\<lambda>l. l\<lparr>el_position := pos\<rparr>) (event_lines d)\<rparr>"

text \<open>Keys without a line take no position.\<close>

fun place_lines :: "int \<Rightarrow> string \<Rightarrow> int \<Rightarrow> string list \<Rightarrow> event_db \<Rightarrow> event_db \<times> int" where
  "place_lines event episode pos [] d = (d, pos)"
| "place_lines event episode pos (jp # jps) d =
     (case row (event_lines d) (event, episode, jp) of None \<Rightarrow> place_lines event episode pos jps d
      | Some _ \<Rightarrow> place_lines event episode (pos + 1) jps (set_position event episode jp pos d))"

definition reorder_episode_lines :: "db_fate \<Rightarrow> int \<Rightarrow> string \<Rightarrow> string list \<Rightarrow> event_db \<Rightarrow> event_db \<times> event_error option" where
  "reorder_episode_lines fate event episode ordered d =
     (if fate = DbNoBegin \<or> fate = DbNoExec then (d, Some EventDbFailed)
      else let (d1, pos) = place_lines event episode 0 ordered d;
               seen = filter (\<lambda>jp. row (event_lines d) (event, episode, jp) \<noteq> None) ordered;
               rest = filter (\<lambda>jp. jp \<notin> set seen) (map fst (ordered_lines event episode d1));
               (d2, _) = place_lines event episode pos rest d1 in
        if fate = DbNoCommit then (d, Some EventDbFailed) else (d2, None))"

section \<open>Segments in a locale\<close>

text \<open>
  What a detail shows of a segment: it is there when its scenario is that of its episode and it is
  canonical, where the episode has canonical segments; its text and source, where the locale has
  none, are those of the source or of the older row.
\<close>

record segment_view =
  sv_text :: string
  sv_source :: string
  sv_revision :: int

definition segment_visible :: "(string, string list) table \<Rightarrow> event_db \<Rightarrow> string \<Rightarrow> segment_row \<Rightarrow> bool" where
  "segment_visible canonical d i s \<longleftrightarrow>
     in_current_episode d s \<and>
     (case row canonical (sg_episode s) of None \<Rightarrow> True | Some ids \<Rightarrow> i \<in> set ids)"

definition show_segment :: "string \<Rightarrow> event_db \<Rightarrow> string \<Rightarrow> segment_row \<Rightarrow> segment_view" where
  "show_segment lc d i s =
     (let loc = row (segment_locs d) (i, lc); rev = (case loc of None \<Rightarrow> 0 | Some l \<Rightarrow> lo_revision l);
          (text, source) =
            (if lc = LocaleJapanese then (sg_text s, SourceUnknown)
             else case loc of Some l \<Rightarrow> (lo_text l, lo_source l)
             | None \<Rightarrow>
                 if lc = LocaleChinese
                 then (if sg_kind s = ''title''
                       then (case row (event_episodes d) (sg_event s, sg_episode s) of None \<Rightarrow> ([], []) | Some ep \<Rightarrow> (ee_title ep, ee_title_source ep))
                       else (case row (event_lines d) (sg_event s, sg_episode s, sg_jp s) of None \<Rightarrow> ([], []) | Some l \<Rightarrow> (el_text l, el_source l)))
                 else ([], SourceUnknown)) in
      \<lparr>sv_text = text, sv_source = source, sv_revision = rev\<rparr>)"

text \<open>The segments of a detail, \<open>ORDER BY episode_no, position\<close> (byte order).\<close>

definition detail_segments :: "(string, string list) table \<Rightarrow> string \<Rightarrow> int \<Rightarrow> event_db \<Rightarrow> (string \<times> segment_row \<times> segment_view) list" where
  "detail_segments canonical lc event d =
     map (\<lambda>(i, s). (i, s, show_segment lc d i s))
       (filter (\<lambda>(i, s). segment_visible canonical d i s)
         (sort_key (\<lambda>(i, s). (sg_episode s, sg_position s)) (filter (\<lambda>(i, s). sg_event s = event) (segments d))))"

text \<open>
  The checks of an edit of one segment, with its current revision. \<open>expected\<close> is the revision the
  client saw, None where it does not say.
\<close>

definition segment_edit_check ::
  "int \<Rightarrow> string \<Rightarrow> jp_key \<Rightarrow> segment_id \<Rightarrow> string \<Rightarrow> string \<Rightarrow> string \<Rightarrow> int option \<Rightarrow> event_db \<Rightarrow> event_error + int" where
  "segment_edit_check event episode jp i hash entry_type lc expected d =
     (case row (segments d) i of None \<Rightarrow> Inl EventSourceConflict
      | Some s \<Rightarrow>
        (case row (event_episodes d) (sg_event s, sg_episode s) of None \<Rightarrow> Inl EventSourceConflict
        | Some ep \<Rightarrow>
          if sg_event s \<noteq> event then Inl EventSourceConflict
          else if sg_episode s \<noteq> episode \<or> sg_scenario s \<noteq> ee_scenario ep \<or> sg_kind s \<noteq> entry_type \<or> sg_hash s \<noteq> hash \<or>
            (entry_type = ''talk'' \<and> sg_jp s \<noteq> jp) \<or> (entry_type = ''title'' \<and> jp \<noteq> []) then Inl EventSourceConflict
          else let current = (case row (segment_locs d) (i, lc) of None \<Rightarrow> 0 | Some l \<Rightarrow> lo_revision l) in
            if expected \<noteq> None \<and> expected \<noteq> Some current then Inl EventRevisionConflict else Inr current))"

text \<open>A Chinese edit also sets the older row; the number of rows that it set.\<close>

definition write_old_row :: "int \<Rightarrow> int \<Rightarrow> string \<Rightarrow> jp_key \<Rightarrow> string \<Rightarrow> source_name \<Rightarrow> string \<Rightarrow> string \<Rightarrow> event_db \<Rightarrow> event_db \<times> nat" where
  "write_old_row now event episode jp text source entry_type lc d =
     (if lc \<noteq> LocaleChinese then (d, 1)
      else let (d1, n) = (if entry_type = ''title'' then update_title event episode text source d
                          else update_talk event episode jp text source d) in
        (touch_event event now d1, n))"

definition update_line_locale ::
  "db_fate \<Rightarrow> int \<Rightarrow> int \<Rightarrow> string \<Rightarrow> jp_key \<Rightarrow> segment_id \<Rightarrow> string \<Rightarrow> string \<Rightarrow> source_name \<Rightarrow> string \<Rightarrow> string \<Rightarrow> string \<Rightarrow> int option \<Rightarrow>
   event_db \<Rightarrow> event_db \<times> event_error option" where
  "update_line_locale fate now event episode jp i hash text source entry_type lc user expected d =
     (if \<not> is_valid_source source then (d, Some EventSourceInvalid)
      else if lc = LocaleJapanese then (d, Some EventLocaleReadOnly)
      else if entry_type \<noteq> ''title'' \<and> entry_type \<noteq> ''talk'' then (d, Some EventSourceConflict)
      else if fate = DbNoBegin then (d, Some EventDbFailed)
      else if i = [] then (d, Some EventSourceConflict)
      else if fate = DbNoExec then (d, Some EventDbFailed)
      else case segment_edit_check event episode jp i hash entry_type lc expected d of Inl e \<Rightarrow> (d, Some e)
      | Inr current \<Rightarrow>
          let (d1, n) = write_old_row now event episode jp text source entry_type lc d in
          if n = 0 then (d, Some EventNotFound)
          else if current = 0 \<and> row (segment_locs d) (i, lc) \<noteq> None then (d, Some EventDbFailed)
          else let d2 = touch_locale_meta event lc now (upsert_segment_loc i lc text source now user d1) in
            if fate = DbNoCommit then (d, Some EventDbFailed)
            else (d2\<lparr>event_audit := event_audit d2 @ [(now, user, ''event.locale.update'',
                      ''locale='' @ lc @ '' eventId='' @ format_int event @ '' entryType='' @ entry_type)]\<rparr>, None))"

section \<open>An edit of a segment\<close>

lemma upsert_segment_loc_row:
  "row (segment_locs (upsert_segment_loc i lc text source now by d)) k =
     (if k = (i, lc)
      then Some \<lparr>lo_text = text, lo_source = source, lo_updated = now, lo_by = by,
             lo_revision = (case row (segment_locs d) (i, lc) of None \<Rightarrow> 1 | Some l \<Rightarrow> lo_revision l + 1)\<rparr>
      else row (segment_locs d) k)"
  by (simp add: upsert_segment_loc_def Let_def)

lemma upsert_segment_loc_others [simp]:
  "events (upsert_segment_loc i lc text source now by d) = events d"
  "event_episodes (upsert_segment_loc i lc text source now by d) = event_episodes d"
  "event_lines (upsert_segment_loc i lc text source now by d) = event_lines d"
  "segments (upsert_segment_loc i lc text source now by d) = segments d"
  "scenarios (upsert_segment_loc i lc text source now by d) = scenarios d"
  "locale_meta (upsert_segment_loc i lc text source now by d) = locale_meta d"
  "event_audit (upsert_segment_loc i lc text source now by d) = event_audit d"
  by (simp_all add: upsert_segment_loc_def Let_def)

lemma segment_edit_check_ok:
  assumes "segment_edit_check event episode jp i hash entry_type lc expected d = Inr current"
  obtains s where "row (segments d) i = Some s" "in_current_episode d s" "sg_event s = event" "sg_episode s = episode"
    "sg_kind s = entry_type" "sg_hash s = hash" "entry_type = ''talk'' \<longrightarrow> sg_jp s = jp"
    "current = (case row (segment_locs d) (i, lc) of None \<Rightarrow> 0 | Some l \<Rightarrow> lo_revision l)" "expected = None \<or> expected = Some current"
  using assms by (auto simp: segment_edit_check_def Let_def in_current_episode_def split: option.splits if_splits)

lemma write_old_row_same:
  assumes "write_old_row now event episode jp text source entry_type lc d = (d', n)"
  shows "segments d' = segments d" "segment_locs d' = segment_locs d" "event_audit d' = event_audit d" "locale_meta d' = locale_meta d"
    "scenarios d' = scenarios d"
  using assms by (auto simp: write_old_row_def Let_def touch_event_def update_title_def update_talk_def split: if_splits)

lemma write_old_row_rows:
  assumes "write_old_row now event episode jp text source entry_type lc d = (d', n)"
  shows "row (event_lines d') k = (if lc = LocaleChinese \<and> entry_type \<noteq> ''title'' \<and> k = (event, episode, jp)
       then map_option (\<lambda>l. l\<lparr>el_text := text, el_source := source\<rparr>) (row (event_lines d) k) else row (event_lines d) k)"
    "row (event_episodes d') k' = (if lc = LocaleChinese \<and> entry_type = ''title'' \<and> k' = (event, episode)
       then map_option (\<lambda>r. r\<lparr>ee_title := text, ee_title_source := source\<rparr>) (row (event_episodes d) k') else row (event_episodes d) k')"
  using assms by (auto simp: write_old_row_def Let_def touch_event_def update_title_def update_talk_def split: if_splits)

lemma write_old_row_events:
  assumes "write_old_row now event episode jp text source entry_type lc d = (d', n)"
  shows "row (events d') k = (if lc = LocaleChinese \<and> k = event then map_option (\<lambda>r. r\<lparr>es_updated := now\<rparr>) (row (events d) k) else row (events d) k)"
  using assms by (auto simp: write_old_row_def Let_def touch_event_def update_title_def update_talk_def split: if_splits)

text \<open>
  C34:
  A localized edit of an event story goes through only for a segment of the current scenario with
  the source the client saw and, where the client names one, the revision it saw; a refused edit
  changes nothing. Then the segment shows the text, the source and the next revision in that locale
  and no other localization changes; a Chinese edit also sets the older row of the title or line and
  the time of the story, and nothing else of the older rows; the locale of the story has the time of
  the edit; segments and scenarios stay, and exactly one record with the user, the locale, the story
  and the kind of entry is added to the audit log.
\<close>

theorem update_line_locale_effect:
  assumes "update_line_locale fate now event episode jp i hash text source entry_type lc user expected d = (d', err)"
  shows "case err of Some e \<Rightarrow> d' = d
   | None \<Rightarrow> \<exists>s. row (segments d) i = Some s \<and> sg_hash s = hash \<and> in_current_episode d s \<and>
    segments d' = segments d \<and> scenarios d' = scenarios d \<and>
    expected \<in> {None, Some (sv_revision (show_segment lc d i s))} \<and>
    show_segment lc d' i s = \<lparr>sv_text = text, sv_source = source, sv_revision = sv_revision (show_segment lc d i s) + 1\<rparr> \<and>
    (\<forall>k. row (segment_locs d') k = (if k = (i, lc)
       then Some \<lparr>lo_text = text, lo_source = source, lo_updated = now, lo_by = user, lo_revision = sv_revision (show_segment lc d i s) + 1\<rparr>
       else row (segment_locs d) k)) \<and>
    (\<forall>k. row (event_lines d') k = (if lc = LocaleChinese \<and> entry_type \<noteq> ''title'' \<and> k = (event, episode, jp)
       then map_option (\<lambda>l. l\<lparr>el_text := text, el_source := source\<rparr>) (row (event_lines d) k) else row (event_lines d) k)) \<and>
    (\<forall>k. row (event_episodes d') k = (if lc = LocaleChinese \<and> entry_type = ''title'' \<and> k = (event, episode)
       then map_option (\<lambda>r. r\<lparr>ee_title := text, ee_title_source := source\<rparr>) (row (event_episodes d) k) else row (event_episodes d) k)) \<and>
    (\<forall>k. row (events d') k = (if lc = LocaleChinese \<and> k = event
       then map_option (\<lambda>r. r\<lparr>es_updated := now\<rparr>) (row (events d) k) else row (events d) k)) \<and>
    (\<forall>k. row (locale_meta d') k = (if k = (event, lc) then Some now else row (locale_meta d) k)) \<and>
    event_audit d' = event_audit d @ [(now, user, ''event.locale.update'',
       ''locale='' @ lc @ '' eventId='' @ format_int event @ '' entryType='' @ entry_type)]"
proof (cases err)
  case (Some e)
  then show ?thesis using assms by (auto simp: update_line_locale_def Let_def split: if_splits sum.splits prod.splits)
next
  case None
  let ?a = "(now, user, ''event.locale.update'', ''locale='' @ lc @ '' eventId='' @ format_int event @ '' entryType='' @ entry_type)"
  obtain current d1 n where ck: "segment_edit_check event episode jp i hash entry_type lc expected d = Inr current"
    and old: "write_old_row now event episode jp text source entry_type lc d = (d1, n)"
    and lc: "lc \<noteq> LocaleJapanese" and c: "current = 0 \<longrightarrow> row (segment_locs d) (i, lc) = None"
    and d': "d' = (touch_locale_meta event lc now (upsert_segment_loc i lc text source now user d1))\<lparr>event_audit := event_audit d1 @ [?a]\<rparr>"
    using assms None by (auto simp: update_line_locale_def Let_def touch_locale_meta_def split: if_splits sum.splits prod.splits)
  obtain s where s: "row (segments d) i = Some s" "in_current_episode d s" "sg_hash s = hash"
    and cur: "current = (case row (segment_locs d) (i, lc) of None \<Rightarrow> 0 | Some l \<Rightarrow> lo_revision l)" "expected = None \<or> expected = Some current"
    by (rule segment_edit_check_ok [OF ck])
  note keep = write_old_row_same [OF old] and rows = write_old_row_rows [OF old] write_old_row_events [OF old]
  have rev: "sv_revision (show_segment lc d i s) = current" by (simp add: show_segment_def cur(1) Let_def split: prod.split)
  have view: "show_segment lc d' i s = \<lparr>sv_text = text, sv_source = source, sv_revision = current + 1\<rparr>"
    using lc by (simp add: d' show_segment_def touch_locale_meta_def upsert_segment_loc_row keep cur(1) split: option.split)
  have loc: "row (segment_locs d') k = (if k = (i, lc) then Some \<lparr>lo_text = text, lo_source = source, lo_updated = now, lo_by = user,
      lo_revision = current + 1\<rparr> else row (segment_locs d) k)" for k
    by (simp add: d' keep touch_locale_meta_def upsert_segment_loc_row cur(1) split: option.split)
  have "segments d' = segments d" "scenarios d' = scenarios d" "event_audit d' = event_audit d @ [?a]" "event_lines d' = event_lines d1"
    "event_episodes d' = event_episodes d1" "events d' = events d1"
    "row (locale_meta d') k = (if k = (event, lc) then Some now else row (locale_meta d) k)" for k
    by (simp_all add: d' keep touch_locale_meta_def)
  then show ?thesis using s cur(2) None unfolding None option.simps
    by (intro exI [of _ s] conjI) (simp_all add: rev view rows loc)
qed

section \<open>The new order of an episode\<close>

definition has_line :: "int \<Rightarrow> string \<Rightarrow> event_db \<Rightarrow> string \<Rightarrow> bool" where
  "has_line event episode d jp \<longleftrightarrow> row (event_lines d) (event, episode, jp) \<noteq> None"

definition place_of :: "int \<Rightarrow> string \<Rightarrow> event_db \<Rightarrow> string \<Rightarrow> int" where
  "place_of event episode d jp = el_position (the (row (event_lines d) (event, episode, jp)))"

definition without_position :: "event_db \<Rightarrow> int \<times> string \<times> string \<Rightarrow> event_line_row option" where
  "without_position d k = map_option (\<lambda>l. l\<lparr>el_position := 0\<rparr>) (row (event_lines d) k)"

lemma set_position_facts:
  "has_line event episode (set_position event episode jp pos d) = has_line event episode d"
  "without_position (set_position event episode jp pos d) = without_position d"
  "jp' \<noteq> jp \<Longrightarrow> place_of event episode (set_position event episode jp pos d) jp' = place_of event episode d jp'"
  "has_line event episode d jp \<Longrightarrow> place_of event episode (set_position event episode jp pos d) jp = pos"
  by (auto simp: has_line_def place_of_def without_position_def set_position_def fun_eq_iff option.map_comp comp_def split: option.split)

lemma place_lines_same:
  assumes "place_lines event episode pos jps d = (d', pos')"
  shows "has_line event episode d' = has_line event episode d" "without_position d' = without_position d"
    "jp \<notin> set jps \<Longrightarrow> place_of event episode d' jp = place_of event episode d jp"
proof -
  have "has_line event episode d' = has_line event episode d \<and> without_position d' = without_position d \<and>
    (jp \<notin> set jps \<longrightarrow> place_of event episode d' jp = place_of event episode d jp)"
    using assms by (induction event episode pos jps d rule: place_lines.induct) (auto simp: set_position_facts split: option.splits)
  then show "has_line event episode d' = has_line event episode d" "without_position d' = without_position d"
    "jp \<notin> set jps \<Longrightarrow> place_of event episode d' jp = place_of event episode d jp" by simp_all
qed

lemma place_lines_order:
  assumes "place_lines event episode pos jps d = (d', pos')"
  defines "ys \<equiv> filter (has_line event episode d) jps" and "p \<equiv> place_of event episode d'"
  shows "sorted_wrt (\<lambda>a b. p a < p b) (remdups ys) \<and> (\<forall>y \<in> set ys. pos \<le> p y \<and> p y < pos') \<and> pos \<le> pos'"
  using assms(1) unfolding ys_def p_def
proof (induction event episode pos jps d rule: place_lines.induct)
  case (2 event episode pos jp jps d)
  show ?case
  proof (cases "row (event_lines d) (event, episode, jp)")
    case None
    then show ?thesis using 2 by (simp add: has_line_def)
  next
    case (Some l)
    then have h: "has_line event episode d jp" by (simp add: has_line_def)
    have run: "place_lines event episode (pos + 1) jps (set_position event episode jp pos d) = (d', pos')" using 2(3) Some by simp
    note ih = 2(2) [OF Some run, unfolded set_position_facts]
    have "jp \<notin> set jps \<Longrightarrow> place_of event episode d' jp = pos"
      using place_lines_same(3) [OF run] by (simp add: set_position_facts h)
    then show ?thesis using ih h by fastforce
  qed
qed simp

lemma sorted_by_position:
  assumes "table_ok (event_lines d)" "distinct js" "\<And>jp. jp \<in> set js \<longleftrightarrow> has_line event episode d jp"
    and "sorted_wrt (\<lambda>a b. place_of event episode d a < place_of event episode d b) js"
  shows "map fst (ordered_lines event episode d) = js"
proof -
  let ?rows = "map (\<lambda>((_, _, jp), l). (jp, l)) (filter (\<lambda>((e, n, _), _). e = event \<and> n = episode) (event_lines d))"
  let ?line = "\<lambda>jp. (jp, the (row (event_lines d) (event, episode, jp)))"
  have mem: "(jp, l) \<in> set ?rows \<longleftrightarrow> row (event_lines d) (event, episode, jp) = Some l" for jp l
    using row_in [of "event_lines d" "(event, episode, jp)" l] in_row [OF assms(1), of "(event, episode, jp)" l] by force
  have "distinct (map fst ?rows)"
  proof -
    let ?ks = "map fst (filter (\<lambda>((e, n, _), _). e = event \<and> n = episode) (event_lines d))"
    have "distinct ?ks" using assms(1) by (simp add: table_ok_def distinct_map_filter)
    moreover have "inj_on (\<lambda>(_, _, jp). jp) (set ?ks)" by (auto simp: inj_on_def)
    moreover have "map fst ?rows = map (\<lambda>(_, _, jp). jp) ?ks" by (simp add: case_prod_beta comp_def)
    ultimately show ?thesis by (simp only: distinct_map)
  qed
  then have d1: "distinct ?rows" unfolding distinct_map by blast
  have seteq: "set ?rows = set (map ?line js)"
  proof (rule set_eqI)
    fix x :: "string \<times> event_line_row"
    obtain jp l where x: "x = (jp, l)" by fastforce
    show "x \<in> set ?rows \<longleftrightarrow> x \<in> set (map ?line js)"
      unfolding x mem using assms(3) [of jp] by (auto simp: has_line_def)
  qed
  have d2: "distinct (map ?line js)" using assms(2) by (simp add: distinct_map inj_on_def)
  have m: "mset ?rows = mset (map ?line js)" by (rule set_eq_iff_mset_eq_distinct [OF d1 d2, THEN iffD1, OF seteq])
  have s: "sorted_wrt (<) (map (\<lambda>(_, l). el_position l) (map ?line js))"
    using assms(4) by (simp add: sorted_wrt_map place_of_def)
  have d: "distinct (map (\<lambda>(_, l). el_position l) (map ?line js))" and so: "sorted (map (\<lambda>(_, l). el_position l) (map ?line js))"
    using s unfolding strict_sorted_iff by blast+
  have "inj_on (\<lambda>(_, l). el_position l) (set ?rows)"
    using d unfolding distinct_map [of "\<lambda>(_, l). el_position l"] mset_eq_setD [OF m] by blast
  then have "sort_key (\<lambda>(_, l). el_position l) ?rows = map ?line js"
    by (rule sort_key_inj_key_eq [OF m _ so])
  then show ?thesis by (simp add: ordered_lines_def comp_def)
qed

lemma put_other_rows: "row t k \<noteq> None \<Longrightarrow> \<not> p k \<Longrightarrow> filter (\<lambda>(k, _). p k) (put k r t) = filter (\<lambda>(k, _). p k) t"
  by (induction t) (auto simp: put_def row_def)

lemma unlisted_lines:
  assumes "place_lines event episode pos jps d = (d', pos')" "set jps \<subseteq> S"
  shows "filter (\<lambda>(jp, _). jp \<notin> S) (ordered_lines event episode d') = filter (\<lambda>(jp, _). jp \<notin> S) (ordered_lines event episode d)"
proof -
  have t: "filter (\<lambda>(k, _). snd (snd k) \<notin> S) (event_lines d') = filter (\<lambda>(k, _). snd (snd k) \<notin> S) (event_lines d)"
    using assms
  proof (induction event episode pos jps d rule: place_lines.induct)
    case (2 event episode pos jp jps d)
    show ?case
    proof (cases "row (event_lines d) (event, episode, jp)")
      case (Some l)
      have "filter (\<lambda>(k, _). snd (snd k) \<notin> S) (event_lines (set_position event episode jp pos d)) =
          filter (\<lambda>(k, _). snd (snd k) \<notin> S) (event_lines d)"
        using put_other_rows [of "event_lines d" "(event, episode, jp)" "\<lambda>k. snd (snd k) \<notin> S"] Some 2(4)
        by (simp add: set_position_def modify_def)
      then show ?thesis using 2 Some by simp
    qed (use 2 in simp)
  qed simp
  have "filter (\<lambda>(jp, _). jp \<notin> S) (ordered_lines event episode e) =
      sort_key (\<lambda>(_, l). el_position l) (map (\<lambda>((_, _, jp), l). (jp, l)) (filter (\<lambda>((e, n, _), _). e = event \<and> n = episode)
        (filter (\<lambda>(k, _). snd (snd k) \<notin> S) (event_lines e))))" for e
    unfolding ordered_lines_def filter_sort filter_map filter_filter
    by (intro arg_cong [where f = "sort_key _"] arg_cong [where f = "map _"] filter_cong) auto
  then show ?thesis by (simp only: t)
qed

lemma ordered_lines_keys: "table_ok (event_lines d) \<Longrightarrow> jp \<in> set (map fst (ordered_lines event episode d)) \<longleftrightarrow> has_line event episode d jp"
  by (force simp: ordered_lines_def has_line_def dest: row_in intro: in_row)

lemma ordered_lines_distinct:
  assumes "table_ok (event_lines d)"
  shows "distinct (map fst (ordered_lines event episode d))"
proof -
  let ?ks = "map fst (filter (\<lambda>((e, n, _), _). e = event \<and> n = episode) (event_lines d))"
  let ?rows = "map (\<lambda>((_, _, jp), l). (jp, l)) (filter (\<lambda>((e, n, _), _). e = event \<and> n = episode) (event_lines d))"
  have "distinct ?ks" using assms by (simp add: table_ok_def distinct_map_filter)
  moreover have "inj_on (\<lambda>(_, _, jp). jp) (set ?ks)" by (auto simp: inj_on_def)
  moreover have "map fst ?rows = map (\<lambda>(_, _, jp). jp) ?ks" by (simp add: case_prod_beta comp_def)
  ultimately have "distinct (map fst ?rows)" by (simp only: distinct_map)
  moreover have "mset (map fst (ordered_lines event episode d)) = mset (map fst ?rows)"
    unfolding ordered_lines_def mset_map mset_sort ..
  ultimately show ?thesis by (metis mset_eq_imp_distinct_iff)
qed

lemma place_lines_table: "place_lines event episode pos jps d = (d', pos') \<Longrightarrow> table_ok (event_lines d) \<Longrightarrow> table_ok (event_lines d')"
  by (induction event episode pos jps d rule: place_lines.induct) (auto simp: set_position_def split: option.splits)

text \<open>
  Reordering an episode puts its listed lines first, in the order of the list (of a key that is
  listed twice the last place counts), and the others after them in the order they had; keys
  without a line are ignored. Nothing of a line changes but its position.
\<close>

theorem reorder_episode_lines_order:
  assumes "table_ok (event_lines d)" "reorder_episode_lines fate event episode ordered d = (d', None)"
  shows "map fst (ordered_lines event episode d') = remdups (filter (has_line event episode d) ordered) @
      filter (\<lambda>jp. jp \<notin> set ordered) (map fst (ordered_lines event episode d)) \<and>
    (\<forall>k. without_position d' k = without_position d k)"
proof -
  obtain d1 pos pos' where p1: "place_lines event episode 0 ordered d = (d1, pos)" by fastforce
  let ?seen = "filter (\<lambda>jp. row (event_lines d) (event, episode, jp) \<noteq> None) ordered"
  let ?rest = "filter (\<lambda>jp. jp \<notin> set ?seen) (map fst (ordered_lines event episode d1))"
  obtain pos' where p2: "place_lines event episode pos ?rest d1 = (d', pos')"
    using assms(2) by (auto simp: reorder_episode_lines_def p1 Let_def split: if_splits prod.splits)
  note same1 = place_lines_same [OF p1]
  have t1: "table_ok (event_lines d1)" by (rule place_lines_table [OF p1 assms(1)])
  have "filter (\<lambda>jp. jp \<notin> set ordered) (map fst (ordered_lines event episode e)) =
      map fst (filter (\<lambda>(jp, _). jp \<notin> set ordered) (ordered_lines event episode e))" for e
    by (simp add: filter_map comp_def case_prod_beta')
  then have unl: "filter (\<lambda>jp. jp \<notin> set ordered) (map fst (ordered_lines event episode d1)) =
      filter (\<lambda>jp. jp \<notin> set ordered) (map fst (ordered_lines event episode d))"
    using unlisted_lines [OF p1 order.refl] by simp
  define R where "R = filter (\<lambda>jp. jp \<notin> set ordered) (map fst (ordered_lines event episode d))"
  have rest: "?rest = R"
    unfolding R_def unl [symmetric] using ordered_lines_keys [OF t1] same1(1) by (intro filter_cong) (auto simp: has_line_def fun_eq_iff)
  note p2 = p2 [unfolded rest]
  note same2 = place_lines_same [OF p2]
  have t2: "table_ok (event_lines d')" by (rule place_lines_table [OF p2 t1])
  define ys where "ys = filter (has_line event episode d) ordered"
  let ?p = "place_of event episode d'"
  have dis: "distinct R" unfolding R_def by (rule distinct_filter [OF ordered_lines_distinct [OF assms(1)]])
  have hasr: "filter (has_line event episode d1) R = R"
    by (rule filter_True) (use ordered_lines_keys [OF assms(1)] same1(1) in \<open>auto simp: R_def\<close>)
  note o2 = place_lines_order [OF p2, unfolded hasr distinct_remdups_id [OF dis]]
  note o1 = place_lines_order [OF p1, folded ys_def]
  have disj: "y \<notin> set R" if "y \<in> set ys" for y using that by (simp add: R_def ys_def)
  have keep: "?p y = place_of event episode d1 y" if "y \<in> set ys" for y
    by (rule same2(3) [OF disj [OF that]])
  have srt: "sorted_wrt (\<lambda>a b. ?p a < ?p b) (remdups ys)"
    using conjunct1 [OF o1] by (rule sorted_wrt_mono_rel [rotated]) (simp add: keep)
  have "?p a < ?p b" if "a \<in> set ys" "b \<in> set R" for a b
    using o1 o2 that keep [OF that(1)] by fastforce
  then have "sorted_wrt (\<lambda>a b. ?p a < ?p b) (remdups ys @ R)"
    using srt o2 by (simp add: sorted_wrt_append)
  moreover have "distinct (remdups ys @ R)" using dis disj by auto
  moreover have "jp \<in> set (remdups ys @ R) \<longleftrightarrow> has_line event episode d' jp" for jp
    using ordered_lines_keys [OF assms(1), of jp event episode] same1(1) same2(1) by (auto simp: R_def ys_def)
  ultimately have "map fst (ordered_lines event episode d') = remdups ys @ R"
    by (intro sorted_by_position [OF t2])
  then show ?thesis using same1(2) same2(2) by (simp add: R_def ys_def)
qed


section \<open>Examples\<close>

definition demo_line :: "string \<Rightarrow> int \<Rightarrow> event_line_row" where
  "demo_line text pos = \<lparr>el_text = text, el_source = ''unknown'', el_speaker = [], el_position = pos\<rparr>"

definition demo_segment :: segment_row where
  "demo_segment = \<lparr>sg_event = 1, sg_episode = ''1'', sg_scenario = ''sc'', sg_kind = ''talk'', sg_position = 0, sg_jp = ''a'',
     sg_text = ''a'', sg_hash = ''a''\<rparr>"

definition demo_story :: event_db where
  "demo_story = \<lparr>events = [(1, \<lparr>es_source = ''unknown'', es_version = [], es_updated = 0\<rparr>)],
     event_episodes = [((1, ''1''), \<lparr>ee_scenario = ''sc'', ee_title = ''t'', ee_title_source = ''unknown'', ee_position = 0\<rparr>)],
     event_lines = [((1, ''1'', ''a''), demo_line [] 0), ((1, ''1'', ''b''), demo_line [] 1), ((1, ''1'', ''c''), demo_line [] 2)],
     segments = [(event_segment_id 1 ''sc'' ''1'' ''talk'' 0 [], demo_segment)], segment_locs = [], locale_meta = [], scenarios = [], event_audit = []\<rparr>"

lemma update_line_locale_effect_witness:
  "map_option el_text (row (event_lines (fst (update_line_locale DbWorks 5 1 ''1'' ''a'' (event_segment_id 1 ''sc'' ''1'' ''talk'' 0 []) ''a''
     ''text'' ''human'' ''talk'' LocaleChinese ''editor'' (Some 0) demo_story))) (1, ''1'', ''a'')) = Some ''text'' \<and>
   event_audit (fst (update_line_locale DbWorks 5 1 ''1'' ''a'' (event_segment_id 1 ''sc'' ''1'' ''talk'' 0 []) ''a''
     ''text'' ''human'' ''talk'' LocaleChinese ''editor'' (Some 0) demo_story)) =
     [(5, ''editor'', ''event.locale.update'', ''locale='' @ LocaleChinese @ '' eventId='' @ format_int 1 @ '' entryType='' @ ''talk'')]"
proof -
  let ?i = "event_segment_id 1 ''sc'' ''1'' ''talk'' 0 []"
  let ?r = "update_line_locale DbWorks 5 1 ''1'' ''a'' ?i ''a'' ''text'' ''human'' ''talk'' LocaleChinese ''editor'' (Some 0) demo_story"
  have "snd ?r = None" by code_simp
  then have "?r = (fst ?r, None)" by (cases ?r) simp
  note e = update_line_locale_effect [OF this, unfolded option.case]
  have a: "event_audit demo_story = []" by (simp add: demo_story_def)
  have audit: "event_audit (fst ?r) = event_audit demo_story @
      [(5, ''editor'', ''event.locale.update'', ''locale='' @ LocaleChinese @ '' eventId='' @ format_int 1 @ '' entryType='' @ ''talk'')]"
    using e by (elim exE conjE)
  from e
  have "\<forall>k. row (event_lines (fst ?r)) k = (if LocaleChinese = LocaleChinese \<and> ''talk'' \<noteq> ''title'' \<and> k = (1, ''1'', ''a'')
      then map_option (\<lambda>l. l\<lparr>el_text := ''text'', el_source := ''human''\<rparr>) (row (event_lines demo_story) k) else row (event_lines demo_story) k)"
    by (elim exE conjE)
  then have "row (event_lines (fst ?r)) (1, ''1'', ''a'') =
      map_option (\<lambda>l. l\<lparr>el_text := ''text'', el_source := ''human''\<rparr>) (row (event_lines demo_story) (1, ''1'', ''a''))"
    by simp
  moreover have "row (event_lines demo_story) (1, ''1'', ''a'') = Some (demo_line [] 0)" by (simp add: demo_story_def row_def)
  ultimately show ?thesis using audit a by simp
qed

lemma reorder_episode_lines_order_witness:
  "map fst (ordered_lines 1 ''1'' (fst (reorder_episode_lines DbWorks 1 ''1'' [''c'', ''x'', ''a'', ''c''] demo_story))) = [''a'', ''c'', ''b'']"
proof -
  let ?o = "[''c'', ''x'', ''a'', ''c'']"
  let ?r = "reorder_episode_lines DbWorks 1 ''1'' ?o demo_story"
  have "snd ?r = None" by code_simp
  then have r: "?r = (fst ?r, None)" by (cases ?r) simp
  have ok: "table_ok (event_lines demo_story)" by (simp add: demo_story_def table_ok_def)
  have "remdups (filter (has_line 1 ''1'' demo_story) ?o) @ filter (\<lambda>jp. jp \<notin> set ?o) (map fst (ordered_lines 1 ''1'' demo_story)) =
      [''a'', ''c'', ''b'']"
    by code_simp
  with reorder_episode_lines_order [OF ok r] show ?thesis by simp
qed

end
