(* ===== verification/EventTranslate.thy ===== *)
theory EventTranslate
  imports EventEdit
begin

text \<open>
  Automatic translation of event stories (\<open>store/event_translate.go\<close>): the targets, read by
  separate queries, and their translations, written later in one transaction.
\<close>

section \<open>Targets\<close>

record translate_target =
  tt_episode :: string
  tt_type :: string
  tt_jp :: string
  tt_segments :: "string list"
  tt_hash :: string
  tt_original :: string

definition jp_pending :: string where "jp_pending = ''jp_pending''"

text \<open>The segments that can be translated, \<open>ORDER BY episode.position, segment.position, segment_id\<close>.\<close>

definition translatable_segments ::
  "(string \<Rightarrow> string) \<Rightarrow> (string, string list) table \<Rightarrow> int \<Rightarrow> event_db \<Rightarrow> (string \<times> segment_row) list" where
  "translatable_segments digest canonical event d =
     filter (\<lambda>(i, s).
         (case row canonical (sg_episode s) of None \<Rightarrow> is_deterministic_segment i s | Some ids \<Rightarrow> i \<in> set ids) \<and>
         (sg_kind s = ''title'' \<or> sg_text s = sg_jp s) \<and> sg_hash s = hash_text digest (sg_text s))
       (sort_key (\<lambda>(i, s). ((case row (event_episodes d) (event, sg_episode s) of None \<Rightarrow> 0 | Some ep \<Rightarrow> ee_position ep), sg_position s, i))
         (current_segments event d))"

definition title_segment :: "(string \<times> segment_row) list \<Rightarrow> string \<Rightarrow> (string \<times> segment_row) option" where
  "title_segment ss episode = map_of (map (\<lambda>(i, s). (sg_episode s, (i, s))) (rev (filter (\<lambda>(i, s). sg_kind s = ''title'') ss))) episode"

text \<open>Talks are collected under the episode, a zero byte and the Japanese text.\<close>

definition talk_key :: "string \<Rightarrow> string \<Rightarrow> string" where
  "talk_key episode jp = episode @ CHR 0x00 # jp"

definition talk_segments :: "(string \<times> segment_row) list \<Rightarrow> string \<Rightarrow> (string \<times> segment_row) list" where
  "talk_segments ss k = filter (\<lambda>(i, s). sg_kind s = ''talk'' \<and> sg_text s \<noteq> [] \<and> talk_key (sg_episode s) (sg_jp s) = k) ss"

definition title_targets ::
  "(string \<Rightarrow> string) \<Rightarrow> (string \<times> segment_row) list \<Rightarrow> int \<Rightarrow> event_db \<Rightarrow> translate_target list" where
  "title_targets digest ss event d =
     concat (map (\<lambda>((_, n), ep).
         (case title_segment ss n of None \<Rightarrow> []
          | Some (i, s) \<Rightarrow>
              if ee_title ep \<noteq> [] \<and> sg_text s = ee_title ep \<and> sg_hash s = hash_text digest (ee_title ep) \<and>
                 (ee_title_source ep = [] \<or> ee_title_source ep = ''unknown'' \<or> ee_title_source ep = jp_pending)
              then [\<lparr>tt_episode = n, tt_type = ''title'', tt_jp = ee_title ep, tt_segments = [i], tt_hash = sg_hash s,
                     tt_original = ee_title_source ep\<rparr>] else []))
       (sort_key (\<lambda>(_, ep). ee_position ep) (filter (\<lambda>((e, _), _). e = event) (event_episodes d))))"

definition talk_targets ::
  "(string \<Rightarrow> string) \<Rightarrow> (string \<times> segment_row) list \<Rightarrow> int \<Rightarrow> event_db \<Rightarrow> translate_target list" where
  "talk_targets digest ss event d =
     concat (map (\<lambda>((_, n, jp), l).
         (case talk_segments ss (talk_key n jp) of [] \<Rightarrow> []
          | t \<Rightarrow> [\<lparr>tt_episode = n, tt_type = ''talk'', tt_jp = jp, tt_segments = map fst t, tt_hash = hash_text digest jp,
                   tt_original = el_source l\<rparr>]))
       (sort_key (\<lambda>((_, n, _), l). (n, el_position l))
         (filter (\<lambda>((e, _, _), l). e = event \<and> el_text l = [] \<and> \<not> protected_source (el_source l)) (event_lines d))))"

text \<open>
  The queries run one after the other and outside a transaction: the canonical segments are read in
  \<open>dc\<close>, the segments in \<open>ds\<close>, the episodes in \<open>de\<close> and the lines in \<open>dl\<close>.
\<close>

definition untranslated_targets ::
  "(string \<Rightarrow> string) \<Rightarrow> (string \<Rightarrow> string \<Rightarrow> event_error + string) \<Rightarrow> (string \<Rightarrow> (string \<times> string) list option) \<Rightarrow>
   int \<Rightarrow> event_db \<Rightarrow> event_db \<Rightarrow> event_db \<Rightarrow> event_db \<Rightarrow> event_error + translate_target list" where
  "untranslated_targets digest canonicalize talks event dc ds de dl =
     (case current_canonical_ids digest canonicalize talks event dc of Inl e \<Rightarrow> Inl e
      | Inr canonical \<Rightarrow>
          let ss = translatable_segments digest canonical event ds in
          Inr (title_targets digest ss event de @ talk_targets digest ss event dl))"

section \<open>Writing translations\<close>

definition segment_fits_target :: "event_db \<Rightarrow> int \<Rightarrow> translate_target \<Rightarrow> string \<Rightarrow> bool" where
  "segment_fits_target d event t i =
     (case row (segments d) i of None \<Rightarrow> False
      | Some s \<Rightarrow>
          sg_event s = event \<and>
          (case row (event_episodes d) (sg_event s, sg_episode s) of None \<Rightarrow> False
           | Some ep \<Rightarrow>
               let want = (if tt_type t = ''title'' then ''title'' else ''talk'') in
               \<not> (sg_episode s \<noteq> tt_episode t \<or> sg_scenario s \<noteq> ee_scenario ep \<or> sg_kind s \<noteq> want \<or> sg_text s \<noteq> tt_jp t \<or>
                  sg_hash s \<noteq> tt_hash t \<or> \<not> is_deterministic_segment i s \<or> (want = ''talk'' \<and> sg_jp s \<noteq> tt_jp t) \<or>
                  (want = ''title'' \<and> (sg_position s \<noteq> - 1 \<or> sg_jp s \<noteq> [])))))"

definition target_valid :: "(string \<Rightarrow> string) \<Rightarrow> event_db \<Rightarrow> int \<Rightarrow> translate_target \<Rightarrow> bool" where
  "target_valid digest d event t \<longleftrightarrow>
     tt_segments t \<noteq> [] \<and> tt_hash t = hash_text digest (tt_jp t) \<and> (tt_type t = ''title'' \<longrightarrow> length (tt_segments t) = 1) \<and>
     list_all (segment_fits_target d event t) (tt_segments t)"

text \<open>The update of the older row, only where it is as the target was read; whether it changed.\<close>

definition translate_row :: "int \<Rightarrow> translate_target \<Rightarrow> string \<Rightarrow> string \<Rightarrow> event_db \<Rightarrow> event_db \<times> bool" where
  "translate_row event t cn source d =
     (if tt_type t = ''title''
      then (case row (event_episodes d) (event, tt_episode t) of None \<Rightarrow> (d, False)
        | Some ep \<Rightarrow> if ee_title ep = tt_jp t \<and> ee_title_source ep = tt_original t
            then (fst (update_title event (tt_episode t) cn source d), True) else (d, False))
      else (case row (event_lines d) (event, tt_episode t, tt_jp t) of None \<Rightarrow> (d, False)
        | Some l \<Rightarrow> if el_text l = [] \<and> el_source l = tt_original t
            then (fst (update_talk event (tt_episode t) (tt_jp t) cn source d), True) else (d, False)))"

text \<open>None where a segment of the target is gone.\<close>

fun translate_segments ::
  "int \<Rightarrow> int \<Rightarrow> translate_target \<Rightarrow> string \<Rightarrow> string \<Rightarrow> string list \<Rightarrow> event_db \<Rightarrow> event_db option" where
  "translate_segments now event t cn source [] d = Some d"
| "translate_segments now event t cn source (i # is) d =
     (case row (segments d) i of None \<Rightarrow> None
      | Some s \<Rightarrow>
          if in_current_episode d s \<and> sg_event s = event \<and> sg_episode s = tt_episode t \<and> sg_text s = tt_jp t \<and> sg_hash s = tt_hash t
          then translate_segments now event t cn source is (upsert_segment_loc i LocaleChinese cn source now ''ai'' d) else None)"

fun translate_targets ::
  "(string \<Rightarrow> string) \<Rightarrow> int \<Rightarrow> int \<Rightarrow> string \<Rightarrow> (translate_target \<times> string) list \<Rightarrow> event_db \<Rightarrow> nat \<Rightarrow> event_error + (event_db \<times> nat)" where
  "translate_targets digest now event source [] d changed = Inr (d, changed)"
| "translate_targets digest now event source ((t, cn) # ts) d changed =
     (if cn = [] \<or> \<not> target_valid digest d event t then translate_targets digest now event source ts d changed
      else let (d1, hit) = translate_row event t cn source d in
        if \<not> hit then translate_targets digest now event source ts d changed
        else case translate_segments now event t cn source (tt_segments t) d1 of None \<Rightarrow> Inl EventSegmentGone
        | Some d2 \<Rightarrow> translate_targets digest now event source ts d2 (changed + 1))"

text \<open>
  The count and whether a protected edit stopped the batch. Titles and lines beyond the end of
  the shorter list are left out.
\<close>

definition apply_event_translations ::
  "db_fate \<Rightarrow> (string \<Rightarrow> string) \<Rightarrow> int \<Rightarrow> bool \<Rightarrow> int \<Rightarrow> translate_target list \<Rightarrow> string list \<Rightarrow> string \<Rightarrow> event_db \<Rightarrow>
   event_db \<times> (event_error + nat \<times> bool)" where
  "apply_event_translations fate digest now protect_local event ts cns source d =
     (if fate = DbNoBegin \<or> fate = DbNoExec then (d, Inl EventDbFailed)
      else if protect_local \<and> has_protected_translations event d then (d, Inr (0, True))
      else case translate_targets digest now event source (zip ts cns) d 0 of Inl e \<Rightarrow> (d, Inl e)
      | Inr (d1, changed) \<Rightarrow>
          if changed = 0 then (d, Inr (0, False))
          else if fate = DbNoCommit then (d, Inl EventDbFailed)
          else (touch_locale_meta event LocaleChinese now (touch_event event now d1), Inr (changed, False)))"

definition set_story_source :: "db_fate \<Rightarrow> int \<Rightarrow> int \<Rightarrow> string \<Rightarrow> event_db \<Rightarrow> event_db \<times> event_error option" where
  "set_story_source fate now event source d =
     (if fate \<noteq> DbWorks then (d, Some EventDbFailed)
      else (d\<lparr>events := modify event (\<lambda>r. r\<lparr>es_source := source, es_updated := now\<rparr>) (events d)\<rparr>, None))"

definition set_story_source_for_sync :: "db_fate \<Rightarrow> int \<Rightarrow> int \<Rightarrow> string \<Rightarrow> event_db \<Rightarrow> event_db \<times> (event_error + bool)" where
  "set_story_source_for_sync fate now event source d =
     (if fate = DbNoBegin \<or> fate = DbNoExec then (d, Inl EventDbFailed)
      else if has_protected_translations event d then (d, Inr False)
      else if fate = DbNoCommit then (d, Inl EventDbFailed)
      else (d\<lparr>events := modify event (\<lambda>r. r\<lparr>es_source := source, es_updated := now\<rparr>) (events d)\<rparr>, Inr True))"

section \<open>What a translation run writes\<close>

text \<open>
  The progress of a run from \<open>d0\<close> with targets whose original sources satisfy \<open>ol\<close> and \<open>ot\<close>: which
  rows it may have changed, and how many.
\<close>

definition changed_rows :: "('k, 'r) table \<Rightarrow> ('k, 'r) table \<Rightarrow> 'k set" where
  "changed_rows t0 t = {k. row t k \<noteq> row t0 k}"

definition line_filled :: "event_db \<Rightarrow> event_db \<Rightarrow> (string \<Rightarrow> bool) \<Rightarrow> int \<times> string \<times> string \<Rightarrow> bool" where
  "line_filled d0 d ol k \<longleftrightarrow>
     (case (row (event_lines d0) k, row (event_lines d) k) of
        (Some l0, Some l) \<Rightarrow> el_text l0 = [] \<and> ol (el_source l0) \<and> el_text l \<noteq> [] \<and> el_position l = el_position l0 | _ \<Rightarrow> False)"

definition title_replaced :: "event_db \<Rightarrow> event_db \<Rightarrow> (string \<Rightarrow> bool) \<Rightarrow> string \<Rightarrow> int \<times> string \<Rightarrow> bool" where
  "title_replaced d0 d ot source k \<longleftrightarrow>
     (case (row (event_episodes d0) k, row (event_episodes d) k) of
        (Some r0, Some r) \<Rightarrow> ot (ee_title_source r0) \<and> ee_title_source r = source \<and> ee_scenario r = ee_scenario r0 | _ \<Rightarrow> False)"

definition run_progress ::
  "int \<Rightarrow> string \<Rightarrow> (string \<Rightarrow> bool) \<Rightarrow> (string \<Rightarrow> bool) \<Rightarrow> event_db \<Rightarrow> event_db \<Rightarrow> nat \<Rightarrow> bool" where
  "run_progress event source ol ot d0 d n \<longleftrightarrow>
     finite (changed_rows (event_lines d0) (event_lines d)) \<and> finite (changed_rows (event_episodes d0) (event_episodes d)) \<and>
     n = card (changed_rows (event_lines d0) (event_lines d)) + card (changed_rows (event_episodes d0) (event_episodes d)) \<and>
     (\<forall>k \<in> changed_rows (event_lines d0) (event_lines d). fst k = event \<and> line_filled d0 d ol k) \<and>
     (\<forall>k \<in> changed_rows (event_episodes d0) (event_episodes d). fst k = event \<and> title_replaced d0 d ot source k) \<and>
     (\<forall>k. snd k \<noteq> LocaleChinese \<longrightarrow> row (segment_locs d) k = row (segment_locs d0) k)"

lemma run_progress_start: "run_progress event source ol ot d d 0"
  by (simp add: run_progress_def changed_rows_def)

lemma translate_segments_same:
  assumes "translate_segments now event t cn source is d = Some d'"
  shows "event_lines d' = event_lines d" "event_episodes d' = event_episodes d" "segments d' = segments d" "events d' = events d"
    "snd k \<noteq> LocaleChinese \<Longrightarrow> row (segment_locs d') k = row (segment_locs d) k"
proof -
  have "event_lines d' = event_lines d \<and> event_episodes d' = event_episodes d \<and> segments d' = segments d \<and> events d' = events d \<and>
    (snd k \<noteq> LocaleChinese \<longrightarrow> row (segment_locs d') k = row (segment_locs d) k)"
    using assms
  proof (induction "is" arbitrary: d)
    case (Cons i "is")
    let ?d = "upsert_segment_loc i LocaleChinese cn source now ''ai'' d"
    have run: "translate_segments now event t cn source is ?d = Some d'"
      using Cons.prems by (simp split: option.splits if_splits)
    have "snd k \<noteq> LocaleChinese \<longrightarrow> row (segment_locs ?d) k = row (segment_locs d) k" by (auto simp: upsert_segment_loc_row)
    then show ?case using Cons.IH [OF run] by simp
  qed simp
  then show "event_lines d' = event_lines d" "event_episodes d' = event_episodes d" "segments d' = segments d" "events d' = events d"
    "snd k \<noteq> LocaleChinese \<Longrightarrow> row (segment_locs d') k = row (segment_locs d) k" by simp_all
qed

lemma translate_row_hit:
  assumes "translate_row event t cn source d = (d', True)"
  obtains ep where "tt_type t = ''title''" "row (event_episodes d) (event, tt_episode t) = Some ep" "ee_title_source ep = tt_original t"
    "d' = d\<lparr>event_episodes := put (event, tt_episode t) (ep\<lparr>ee_title := cn, ee_title_source := source\<rparr>) (event_episodes d)\<rparr>"
  | l where "tt_type t \<noteq> ''title''" "row (event_lines d) (event, tt_episode t, tt_jp t) = Some l" "el_text l = []" "el_source l = tt_original t"
    "d' = d\<lparr>event_lines := put (event, tt_episode t, tt_jp t) (l\<lparr>el_text := cn, el_source := source\<rparr>) (event_lines d)\<rparr>"
  using assms by (auto simp: translate_row_def update_title_def update_talk_def modify_def split: if_splits option.splits)

lemma changed_rows_put:
  "row t k \<noteq> Some r \<Longrightarrow> row t k = row t0 k \<Longrightarrow> changed_rows t0 (put k r t) = insert k (changed_rows t0 t)"
  "row t k = row t0 k \<Longrightarrow> k \<notin> changed_rows t0 t"
  by (auto simp: changed_rows_def)

lemma run_progress_title:
  assumes p: "run_progress event source ol ot d0 d n" and ep: "row (event_episodes d) (event, n') = Some ep"
    and o: "ot (ee_title_source ep)" "ee_title_source ep \<noteq> source"
    and d': "event_episodes d' = put (event, n') (ep\<lparr>ee_title := cn, ee_title_source := source\<rparr>) (event_episodes d)"
      "event_lines d' = event_lines d" "\<And>k. snd k \<noteq> LocaleChinese \<Longrightarrow> row (segment_locs d') k = row (segment_locs d) k"
  shows "run_progress event source ol ot d0 d' (n + 1)"
proof -
  let ?k = "(event, n')" and ?c = "changed_rows (event_episodes d0) (event_episodes d)"
  note p' = p [unfolded run_progress_def]
  have "?k \<notin> ?c" using p' ep o(2) by (auto simp: title_replaced_def split: option.splits)
  then have k: "row (event_episodes d) ?k = row (event_episodes d0) ?k" by (simp add: changed_rows_def)
  have "row (event_episodes d) ?k \<noteq> Some (ep\<lparr>ee_title := cn, ee_title_source := source\<rparr>)"
    using ep o(2) by (metis event_episode_row.select_convs(3) event_episode_row.surjective event_episode_row.update_convs(3) option.inject)
  then have c: "changed_rows (event_episodes d0) (event_episodes d') = insert ?k ?c" "?k \<notin> ?c"
    using changed_rows_put(1) [OF _ k] changed_rows_put(2) [OF k] by (simp_all add: d'(1))
  have k0: "row (event_episodes d0) ?k = Some ep" using k ep by simp
  have "title_replaced d0 d' ot source j" if "j \<in> insert ?k ?c" for j
    using that p' k0 o(1) by (cases "j = ?k") (auto simp: title_replaced_def d'(1))
  moreover have "line_filled d0 d' ol = line_filled d0 d ol" by (simp add: line_filled_def d'(2) fun_eq_iff)
  ultimately show ?thesis using p' c(2) d'(3) unfolding run_progress_def c(1) d'(2) by simp
qed

lemma run_progress_line:
  assumes p: "run_progress event source ol ot d0 d n" and l: "row (event_lines d) (event, n', jp) = Some l"
    and o: "ol (el_source l)" "el_text l = []" "cn \<noteq> []"
    and d': "event_lines d' = put (event, n', jp) (l\<lparr>el_text := cn, el_source := source\<rparr>) (event_lines d)"
      "event_episodes d' = event_episodes d" "\<And>k. snd k \<noteq> LocaleChinese \<Longrightarrow> row (segment_locs d') k = row (segment_locs d) k"
  shows "run_progress event source ol ot d0 d' (n + 1)"
proof -
  let ?k = "(event, n', jp)" and ?c = "changed_rows (event_lines d0) (event_lines d)"
  note p' = p [unfolded run_progress_def]
  have "?k \<notin> ?c" using p' l o(2) by (auto simp: line_filled_def split: option.splits)
  then have k: "row (event_lines d) ?k = row (event_lines d0) ?k" by (simp add: changed_rows_def)
  have "el_text (l\<lparr>el_text := cn, el_source := source\<rparr>) \<noteq> el_text l" using o by simp
  then have "row (event_lines d) ?k \<noteq> Some (l\<lparr>el_text := cn, el_source := source\<rparr>)"
    unfolding l option.inject by (metis (no_types))
  then have c: "changed_rows (event_lines d0) (event_lines d') = insert ?k ?c" "?k \<notin> ?c"
    using changed_rows_put(1) [OF _ k] changed_rows_put(2) [OF k] by (simp_all add: d'(1))
  have k0: "row (event_lines d0) ?k = Some l" using k l by simp
  have "line_filled d0 d' ol j" if "j \<in> insert ?k ?c" for j
    using that p' k0 o by (cases "j = ?k") (auto simp: line_filled_def d'(1))
  moreover have "title_replaced d0 d' ot source = title_replaced d0 d ot source" by (simp add: title_replaced_def d'(2) fun_eq_iff)
  ultimately show ?thesis using p' c(2) d'(3) unfolding run_progress_def c(1) d'(2) by simp
qed

text \<open>A target whose row had a source a run may replace.\<close>

definition target_open :: "(string \<Rightarrow> bool) \<Rightarrow> (string \<Rightarrow> bool) \<Rightarrow> string \<Rightarrow> translate_target \<Rightarrow> bool" where
  "target_open ol ot source t \<longleftrightarrow>
     (if tt_type t = ''title'' then ot (tt_original t) \<and> tt_original t \<noteq> source else ol (tt_original t))"

lemma run_progress_hit:
  assumes p: "run_progress event source ol ot d0 d n" and hit: "translate_row event t cn source d = (d1, True)" and cn: "cn \<noteq> []"
    and seg: "translate_segments now event t cn source (tt_segments t) d1 = Some d2"
    and o: "target_open ol ot source t"
  shows "run_progress event source ol ot d0 d2 (n + 1)"
  using hit
proof (cases rule: translate_row_hit)
  case (1 ep)
  show ?thesis by (rule run_progress_title [OF p 1(2)]) (use 1 o in \<open>simp_all add: target_open_def translate_segments_same [OF seg]\<close>)
next
  case (2 l)
  show ?thesis by (rule run_progress_line [OF p 2(2)]) (use 2 o cn in \<open>simp_all add: target_open_def translate_segments_same [OF seg]\<close>)
qed

lemma translate_targets_progress:
  assumes "translate_targets digest now event source ts d n = Inr (d', n')" "run_progress event source ol ot d0 d n"
    and "\<forall>(t, cn) \<in> set ts. target_open ol ot source t"
  shows "run_progress event source ol ot d0 d' n'"
  using assms
proof (induction digest now event source ts d n rule: translate_targets.induct)
  case (2 digest now event source t cn ts d n)
  have o: "target_open ol ot source t"
    using "2.prems"(3) by simp
  have os: "\<forall>(t, cn) \<in> set ts. target_open ol ot source t"
    using "2.prems"(3) by simp
  obtain d1 hit where hit: "translate_row event t cn source d = (d1, hit)" by fastforce
  show ?case
  proof (cases "cn = [] \<or> \<not> target_valid digest d event t")
    case True
    then show ?thesis using "2.IH"(1) [OF True _ "2.prems"(2) os] "2.prems"(1) by simp
  next
    case valid: False
    show ?thesis
    proof (cases hit)
      case False
      then show ?thesis using "2.IH"(2) [OF valid hit [symmetric] refl _ _ "2.prems"(2) os] "2.prems"(1) valid hit by simp
    next
      case True
      then obtain d2 where seg: "translate_segments now event t cn source (tt_segments t) d1 = Some d2"
        and run: "translate_targets digest now event source ts d2 (n + 1) = Inr (d', n')"
        using "2.prems"(1) valid hit by (auto split: option.splits)
      have "run_progress event source ol ot d0 d2 (n + 1)"
        using run_progress_hit [OF "2.prems"(2) _ _ seg o] hit True valid by simp
      then show ?thesis using "2.IH"(3) [OF valid hit [symmetric] refl _ seg run _ os] True by simp
    qed
  qed
qed simp

definition open_title :: "string \<Rightarrow> bool" where
  "open_title source \<longleftrightarrow> source = [] \<or> source = ''unknown'' \<or> source = jp_pending"

lemma untranslated_targets_open:
  assumes "untranslated_targets digest canonicalize talks event dc ds de dl = Inr ts" "t \<in> set ts"
  shows "target_open (\<lambda>s. \<not> protected_source s) open_title SourceLLM t"
proof -
  obtain ss where "t \<in> set (title_targets digest ss event de) \<or> t \<in> set (talk_targets digest ss event dl)"
    using assms by (auto simp: untranslated_targets_def Let_def split: sum.splits)
  then show ?thesis
  proof
    assume "t \<in> set (title_targets digest ss event de)"
    then have "tt_type t = ''title'' \<and> open_title (tt_original t)"
      by (auto simp: title_targets_def open_title_def split: option.splits if_splits)
    then show ?thesis by (auto simp: target_open_def open_title_def jp_pending_def SourceLLM_def)
  next
    assume "t \<in> set (talk_targets digest ss event dl)"
    then have "tt_type t = ''talk'' \<and> \<not> protected_source (tt_original t)"
      by (auto simp: talk_targets_def split: list.splits)
    then show ?thesis by (simp add: target_open_def)
  qed
qed

lemma apply_event_translations_progress:
  assumes "apply_event_translations fate digest now protect event ts cns source d = (d', Inr (n, stopped))"
    and "\<forall>t \<in> set ts. target_open ol ot source t"
  shows "run_progress event source ol ot d d' n \<and> (stopped \<longrightarrow> d' = d)"
proof (cases "n = 0 \<and> d' = d")
  case True
  then show ?thesis by (simp add: run_progress_start)
next
  case False
  then obtain d1 where run: "translate_targets digest now event source (zip ts cns) d 0 = Inr (d1, n)"
    and d': "d' = touch_locale_meta event LocaleChinese now (touch_event event now d1)" "\<not> stopped"
    using assms(1) by (auto simp: apply_event_translations_def split: if_splits sum.splits)
  have "\<forall>(t, cn) \<in> set (zip ts cns). target_open ol ot source t" using assms(2) by (auto dest: set_zip_leftD)
  then have "run_progress event source ol ot d d1 n" by (rule translate_targets_progress [OF run run_progress_start])
  then show ?thesis using d'
    by (simp add: run_progress_def touch_locale_meta_def touch_event_def line_filled_def title_replaced_def)
qed

text \<open>
  C33:
  A translation run over targets read earlier, however the story was edited while they were read and
  since: the lines
  it changed had an empty text and a source that is neither human nor pinned, the titles it changed
  had no source, an unknown one or that of a pending Japanese title, nothing is added or removed,
  localizations other than the Chinese ones stay, and the count is that of the rows it changed. A
  run that stopped at a protected edit changed nothing.
\<close>

theorem event_ai_protects:
  assumes "untranslated_targets digest canonicalize talks event dc ds de dl = Inr targets" "set ts \<subseteq> set targets"
    and "apply_event_translations fate digest now protect event ts cns SourceLLM d = (d', Inr (n, stopped))"
  defines "lines \<equiv> changed_rows (event_lines d) (event_lines d')"
    and "titles \<equiv> changed_rows (event_episodes d) (event_episodes d')"
  shows "(\<forall>k \<in> lines. fst k = event \<and> line_filled d d' (\<lambda>s. \<not> protected_source s) k) \<and>
    (\<forall>k \<in> titles. fst k = event \<and> title_replaced d d' open_title SourceLLM k) \<and>
    (\<forall>k. snd k \<noteq> LocaleChinese \<longrightarrow> row (segment_locs d') k = row (segment_locs d) k) \<and>
    n = card lines + card titles \<and> (stopped \<longrightarrow> d' = d)"
proof -
  have "\<forall>t \<in> set ts. target_open (\<lambda>s. \<not> protected_source s) open_title SourceLLM t"
    using untranslated_targets_open [OF assms(1)] assms(2) by blast
  from apply_event_translations_progress [OF assms(3) this] show ?thesis
    by (simp add: run_progress_def lines_def titles_def)
qed


lemma event_ai_protects_witness:
  "\<exists>targets. untranslated_targets (\<lambda>s. s) (\<lambda>_ _. Inl EventScenarioInvalid) (\<lambda>_. None) 1 demo_story demo_story demo_story demo_story = Inr targets \<and>
    (let r = apply_event_translations DbWorks (\<lambda>s. s) 5 True 1 targets [''cn''] SourceLLM demo_story in
      snd r = Inr (1, False) \<and>
      (\<forall>k \<in> changed_rows (event_lines demo_story) (event_lines (fst r)). fst k = 1 \<and> line_filled demo_story (fst r) (\<lambda>s. \<not> protected_source s) k))"
proof -
  let ?id = "\<lambda>s. s :: string"
  let ?u = "untranslated_targets ?id (\<lambda>_ _. Inl EventScenarioInvalid) (\<lambda>_. None) 1 demo_story demo_story demo_story demo_story"
  have "?u = Inr (projr ?u)" by code_simp
  then obtain targets where u: "?u = Inr targets" by blast
  let ?r = "apply_event_translations DbWorks ?id 5 True 1 targets [''cn''] SourceLLM demo_story"
  have "snd (apply_event_translations DbWorks ?id 5 True 1 (projr ?u) [''cn''] SourceLLM demo_story) = Inr (1, False)" by code_simp
  then have s: "snd ?r = Inr (1, False)" unfolding u by simp
  then have r: "?r = (fst ?r, Inr (1, False))" by (cases ?r) simp
  show ?thesis using u s event_ai_protects [OF u order.refl r] by (auto simp: Let_def)
qed

end
