(* ===== verification/LyricsQueue.thy ===== *)
theory LyricsQueue
  imports GoText GoConv Prelude "HOL-Library.Product_Lexorder"
begin

text \<open>
  The queue of lyrics discovery jobs (\<open>store/lyrics_discovery_jobs.go\<close>, and the lease tokens and
  the terminal failure of \<open>store/lyrics_discovery_adapter.go\<close>): jobs are enqueued once per target,
  claimed under a lease that a worker has until it expires, and finished, retried, failed or
  cancelled under their version. Instants of Go are nanoseconds since 1970, columns milliseconds;
  every operation gets the readings of the clock it makes. Enqueueing is modelled for jobs without
  a fixed candidate, which are all kinds but fetch jobs; whether the stored JSON of a fixed
  candidate decodes and passes the triggers over it is the parameter \<open>loadable\<close>. The requests
  all have a context.
\<close>

section \<open>Vocabulary\<close>

definition KindDiscover :: string where "KindDiscover = ''discover''"
definition KindFetchRevision :: string where "KindFetchRevision = ''fetch_revision''"
definition KindRevalidatePinned :: string where "KindRevalidatePinned = ''revalidate_pinned''"
definition KindRevalidateHead :: string where "KindRevalidateHead = ''revalidate_head''"

definition is_valid_job_kind :: "string \<Rightarrow> bool" where
  "is_valid_job_kind k \<longleftrightarrow> k = KindDiscover \<or> k = KindFetchRevision \<or> k = KindRevalidatePinned \<or> k = KindRevalidateHead"

definition ProviderVocaloidFandom :: string where "ProviderVocaloidFandom = ''vocaloid_fandom''"
definition ProviderMoegirl :: string where "ProviderMoegirl = ''moegirl''"
definition ProviderMoegirlPublicExact :: string where "ProviderMoegirlPublicExact = ''moegirl_public_exact''"
definition ProviderSekaipedia :: string where "ProviderSekaipedia = ''sekaipedia''"

definition is_valid_provider :: "string \<Rightarrow> bool" where
  "is_valid_provider p \<longleftrightarrow>
     p = ProviderVocaloidFandom \<or> p = ProviderMoegirl \<or> p = ProviderMoegirlPublicExact \<or> p = ProviderSekaipedia"

datatype job_state = JobQueued | JobLeased | JobRetryWait | JobSucceeded | JobDeadLetter | JobCancelled

definition is_terminal_state :: "job_state \<Rightarrow> bool" where
  "is_terminal_state s \<longleftrightarrow> s = JobSucceeded \<or> s = JobDeadLetter \<or> s = JobCancelled"

definition DefaultMaxAttempts :: int where "DefaultMaxAttempts = 8"
definition maxJobAttempts :: int where "maxJobAttempts = 100"
definition maxLeaseOwnerBytes :: nat where "maxLeaseOwnerBytes = 128"
definition maxErrorCodeBytes :: nat where "maxErrorCodeBytes = 64"
definition maxFingerprintBytes :: nat where "maxFingerprintBytes = 64"
definition maxPolicyVersionBytes :: nat where "maxPolicyVersionBytes = 64"
definition Second :: int where "Second = 1000000000"
definition Hour :: int where "Hour = 3600 * Second"
definition maxLeaseDuration :: int where "maxLeaseDuration = 24 * Hour"
definition maxRetryDelay :: int where "maxRetryDelay = 30 * 24 * Hour"
definition maxClockSkew :: int where "maxClockSkew = 60 * Second"

datatype queue_error =
    JobNotFound | JobLeaseNotOwned | JobTerminal job_state | JobRequestInvalid | JobIdentityConflict | JobDbFailed

section \<open>Time\<close>

text \<open>The zero \<open>time.Time\<close>, and \<open>canonicalLyricsDiscoveryTime\<close> as the milliseconds of a column.\<close>

definition zero_time :: int where "zero_time = - 62135596800 * Second"

definition unix_milli :: "int \<Rightarrow> int" where "unix_milli t = t div 1000000"

definition from_milli :: "int \<Rightarrow> int" where "from_milli m = m * 1000000"

section \<open>Jobs\<close>

text \<open>A page, revision or artifact of 0 is NULL in the table.\<close>

record job_target =
  jt_music :: int
  jt_page :: int
  jt_revision :: int
  jt_artifact :: int
  jt_fingerprint :: string
  jt_policy :: string
  jt_sha1 :: string

record job_row =
  jb_key :: string
  jb_kind :: string
  jb_state :: job_state
  jb_target :: job_target
  jb_attempts :: int
  jb_max :: int
  jb_next :: int
  jb_owner :: "string option"
  jb_expires :: "int option"
  jb_error :: "string option"
  jb_created :: int
  jb_updated :: int
  jb_completed :: "int option"
  jb_version :: int
  jb_provider :: string
  jb_candidate :: string
  jb_identity :: string
  jb_provenance :: string

record queue_db =
  jobs :: "(int, job_row) table"
  job_seq :: int

text \<open>\<open>length\<close> of SQLite: the characters before the first zero byte.\<close>

function sql_length :: "string \<Rightarrow> nat" where
  "sql_length [] = 0"
| "sql_length (c # cs) =
     (if byte c = 0 then 0 else Suc (sql_length (if 192 \<le> byte c then dropWhile (\<lambda>b. 128 \<le> byte b \<and> byte b < 192) cs else cs)))"
  by pat_completeness auto
termination by (relation "measure length") (auto simp: le_imp_less_Suc length_dropWhile_le)

definition lower_hex :: "char \<Rightarrow> bool" where
  "lower_hex c \<longleftrightarrow> is_digit c \<or> (97 \<le> byte c \<and> byte c \<le> 102)"

definition code_char :: "char \<Rightarrow> bool" where
  "code_char c \<longleftrightarrow> is_digit c \<or> (97 \<le> byte c \<and> byte c \<le> 122) \<or> c = CHR ''_''"

definition sql_trimmed :: "string \<Rightarrow> bool" where
  "sql_trimmed s \<longleftrightarrow> s = [] \<or> (hd s \<noteq> CHR '' '' \<and> last s \<noteq> CHR '' '')"

text \<open>The \<open>CHECK\<close> constraints of the table, and what its triggers say of jobs without a fixed candidate.\<close>

definition job_checks :: "job_row \<Rightarrow> bool" where
  "job_checks r \<longleftrightarrow>
     length (jb_key r) = 64 \<and> list_all lower_hex (jb_key r) \<and>
     is_valid_job_kind (jb_kind r) \<and> 0 < jt_music (jb_target r) \<and>
     0 \<le> jt_page (jb_target r) \<and> 0 \<le> jt_revision (jb_target r) \<and> 0 \<le> jt_artifact (jb_target r) \<and>
     0 \<le> jb_attempts r \<and> jb_attempts r \<le> jb_max r \<and>
     (jb_state r = JobLeased \<longrightarrow> 0 < jb_attempts r) \<and>
     (jb_state r = JobDeadLetter \<longrightarrow> jb_attempts r = jb_max r) \<and>
     1 \<le> jb_max r \<and> jb_max r \<le> 100 \<and> 0 \<le> jb_next r \<and>
     (if jb_state r = JobLeased then jb_owner r \<noteq> None \<and> jb_expires r \<noteq> None else jb_owner r = None \<and> jb_expires r = None) \<and>
     (case jb_owner r of None \<Rightarrow> True | Some w \<Rightarrow> 1 \<le> sql_length w \<and> sql_length w \<le> 128 \<and> sql_trimmed w) \<and>
     (case jb_expires r of None \<Rightarrow> True | Some t \<Rightarrow> 0 < t) \<and>
     (case jb_error r of None \<Rightarrow> True | Some e \<Rightarrow> e \<noteq> [] \<and> length e \<le> 64 \<and> list_all code_char e) \<and>
     0 \<le> jb_created r \<and> jb_created r \<le> jb_updated r \<and>
     is_terminal_state (jb_state r) = (jb_completed r \<noteq> None) \<and>
     (case jb_completed r of None \<Rightarrow> True | Some t \<Rightarrow> jb_created r \<le> t) \<and>
     0 < jb_version r \<and>
     (if jb_kind r = KindDiscover then jt_page (jb_target r) = 0 \<and> jt_revision (jb_target r) = 0 \<and> jt_artifact (jb_target r) = 0
      else if jb_kind r = KindFetchRevision then jt_page (jb_target r) \<noteq> 0 \<and> jt_revision (jb_target r) \<noteq> 0
      else if jb_kind r = KindRevalidatePinned then jt_page (jb_target r) \<noteq> 0 \<and> jt_artifact (jb_target r) \<noteq> 0
      else jt_page (jb_target r) \<noteq> 0 \<and> jt_revision (jb_target r) = 0) \<and>
     (jb_provider r = ProviderVocaloidFandom \<or> jb_provider r = ProviderMoegirl \<or> jb_provider r = ProviderSekaipedia) \<and>
     jb_provenance r \<in> {''not_applicable'', ''candidate_complete'', ''complete'', ''rebuild_required''} \<and>
     (if jb_kind r = KindFetchRevision then length (jt_sha1 (jb_target r)) = 40 \<and> list_all lower_hex (jt_sha1 (jb_target r))
      else jt_sha1 (jb_target r) = [] \<and> jb_candidate r = [] \<and> jb_identity r = [] \<and> jb_provenance r = ''not_applicable'')"


section \<open>Requests\<close>

text \<open>Error codes: lower-case letters, digits and single underscores between them, at most 64.\<close>

definition lower_rune :: "nat \<Rightarrow> nat" where
  "lower_rune r = (if 65 \<le> r \<and> r \<le> 90 then r + 32 else if r = 0x212A then 107 else if r = 0x130 then 105 else r)"

definition code_rune :: "nat \<Rightarrow> bool" where
  "code_rune r \<longleftrightarrow> (97 \<le> r \<and> r \<le> 122) \<or> (48 \<le> r \<and> r \<le> 57)"

text \<open>
  The loop of the code, over the text written so far. Of the lower-case forms of letters beyond
  ASCII only those that are in ASCII matter (the Kelvin sign and the dotted capital I).
\<close>

fun sanitize_loop :: "nat list \<Rightarrow> string \<Rightarrow> bool \<Rightarrow> string" where
  "sanitize_loop [] out last_underscore = out"
| "sanitize_loop (r # rs) out last_underscore =
     (let (out, last_underscore) =
        (if code_rune r then (out @ [char_of r], False)
         else if \<not> last_underscore \<and> out \<noteq> [] then (out @ ''_'', True) else (out, last_underscore)) in
      if maxErrorCodeBytes \<le> length out then out else sanitize_loop rs out last_underscore)"

definition trim_underscores :: "string \<Rightarrow> string" where
  "trim_underscores s = rev (dropWhile (\<lambda>c. c = CHR ''_'') (rev (dropWhile (\<lambda>c. c = CHR ''_'') s)))"

definition trim_right_underscores :: "string \<Rightarrow> string" where
  "trim_right_underscores s = rev (dropWhile (\<lambda>c. c = CHR ''_'') (rev s))"

definition sanitize_error_code :: "string \<Rightarrow> string" where
  "sanitize_error_code code =
     (let code = trim_space code in
      if code = [] then ''unknown_error''
      else let result = trim_underscores (sanitize_loop (map lower_rune (runes code)) [] False) in
        if result = [] then ''unknown_error''
        else let result = (if maxErrorCodeBytes < length result then trim_right_underscores (take maxErrorCodeBytes result) else result) in
          if result = [] then ''unknown_error'' else result)"

definition canonical_provider :: "string \<Rightarrow> string option" where
  "canonical_provider p =
     (let p = (if p = [] then ProviderVocaloidFandom else p) in if is_valid_provider p then Some p else None)"

text \<open>\<open>validateLyricsDiscoveryJobTargetForProvider\<close> without a fixed candidate: a fetch job needs one.\<close>

definition valid_job_target :: "string \<Rightarrow> string \<Rightarrow> job_target \<Rightarrow> bool" where
  "valid_job_target provider kind t \<longleftrightarrow>
     is_valid_provider provider \<and> is_valid_job_kind kind \<and> \<not> jt_music t \<le> 0 \<and>
     \<not> (jt_page t < 0 \<or> jt_revision t < 0 \<or> jt_artifact t < 0) \<and>
     \<not> (maxFingerprintBytes < length (jt_fingerprint t) \<or> maxPolicyVersionBytes < length (jt_policy t)) \<and>
     (if kind = KindDiscover then
        \<not> (jt_page t \<noteq> 0 \<or> jt_revision t \<noteq> 0 \<or> jt_artifact t \<noteq> 0 \<or> jt_fingerprint t = [] \<or> jt_policy t = [] \<or> jt_sha1 t \<noteq> [])
      else if kind = KindFetchRevision then False
      else if kind = KindRevalidatePinned then \<not> (jt_page t = 0 \<or> jt_artifact t = 0 \<or> jt_sha1 t \<noteq> [])
      else \<not> (jt_page t = 0 \<or> jt_revision t \<noteq> 0 \<or> jt_sha1 t \<noteq> []))"

definition nul :: string where "nul = [CHR 0x00]"

definition job_canonical :: "string \<Rightarrow> string \<Rightarrow> job_target \<Rightarrow> string" where
  "job_canonical provider kind t =
     (if provider \<noteq> ProviderVocaloidFandom then ''v4'' @ nul @ provider @ nul @ nul @ nul else ''v3'' @ nul) @
     kind @ nul @ format_int (jt_music t) @ nul @ format_int (jt_page t) @ nul @ format_int (jt_revision t) @ nul @
     format_int (jt_artifact t) @ nul @ jt_fingerprint t @ nul @ jt_policy t @ nul @ jt_sha1 t"

definition job_idempotency_key :: "(string \<Rightarrow> string) \<Rightarrow> string \<Rightarrow> string \<Rightarrow> job_target \<Rightarrow> string option" where
  "job_idempotency_key digest provider kind t =
     (if \<not> valid_job_target provider kind t then None else Some (digest (job_canonical provider kind t)))"

section \<open>Enqueueing\<close>

definition job_by_key :: "string \<Rightarrow> queue_db \<Rightarrow> (int \<times> job_row) option" where
  "job_by_key k d = find (\<lambda>(_, r). jb_key r = k) (jobs d)"

definition queued_row :: "string \<Rightarrow> string \<Rightarrow> string \<Rightarrow> job_target \<Rightarrow> int \<Rightarrow> int \<Rightarrow> int \<Rightarrow> job_row" where
  "queued_row key provider kind t max_attempts not_before now =
     \<lparr>jb_key = key, jb_kind = kind, jb_state = JobQueued, jb_target = t, jb_attempts = 0, jb_max = max_attempts,
      jb_next = not_before, jb_owner = None, jb_expires = None, jb_error = None, jb_created = now, jb_updated = now,
      jb_completed = None, jb_version = 1, jb_provider = provider, jb_candidate = [], jb_identity = [],
      jb_provenance = ''not_applicable''\<rparr>"

text \<open>\<open>INSERT ... ON CONFLICT(idempotency_key) DO NOTHING\<close>, the id of the job, and whether it is new.\<close>

definition insert_job :: "job_row \<Rightarrow> queue_db \<Rightarrow> queue_error + (queue_db \<times> int \<times> bool)" where
  "insert_job r d =
     (case job_by_key (jb_key r) d of Some (i, _) \<Rightarrow> Inr (d, i, False)
      | None \<Rightarrow>
          if \<not> job_checks r then Inl JobDbFailed
          else let i = job_seq d + 1 in Inr (d\<lparr>jobs := put i r (jobs d), job_seq := i\<rparr>, i, True))"

definition enqueue_job ::
  "db_fate \<Rightarrow> (string \<Rightarrow> string) \<Rightarrow> (job_row \<Rightarrow> bool) \<Rightarrow> int \<Rightarrow> string \<Rightarrow> string \<Rightarrow> job_target \<Rightarrow> int \<Rightarrow> int \<Rightarrow> queue_db \<Rightarrow>
   queue_db \<times> (queue_error + int \<times> job_row \<times> bool)" where
  "enqueue_job fate digest loadable now provider kind t max_attempts not_before d =
     (if fate = DbNoBegin then (d, Inl JobDbFailed)
      else case canonical_provider provider of None \<Rightarrow> (d, Inl JobRequestInvalid)
      | Some provider \<Rightarrow>
        (case job_idempotency_key digest provider kind t of None \<Rightarrow> (d, Inl JobRequestInvalid)
        | Some key \<Rightarrow>
            let max_attempts = (if max_attempts = 0 then DefaultMaxAttempts else max_attempts) in
            if max_attempts < 1 \<or> max_attempts > maxJobAttempts then (d, Inl JobRequestInvalid)
            else if fate = DbNoExec then (d, Inl JobDbFailed)
            else let not_before = unix_milli (if not_before = zero_time then now else not_before) in
              (case insert_job (queued_row key provider kind t max_attempts not_before (unix_milli now)) d of
                 Inl e \<Rightarrow> (d, Inl e)
               | Inr (d1, i, created) \<Rightarrow>
                   (case row (jobs d1) i of None \<Rightarrow> (d, Inl JobNotFound)
                    | Some r \<Rightarrow>
                        if \<not> loadable r then (d, Inl JobDbFailed)
                        else if jb_provider r \<noteq> provider \<or> jb_identity r \<noteq> [] \<or> jb_provenance r \<noteq> ''not_applicable'' \<or>
                          jb_candidate r \<noteq> [] \<or> jb_target r \<noteq> t then (d, Inl JobIdentityConflict)
                        else if fate = DbNoCommit then (d, Inl JobDbFailed)
                        else (d1, Inr (i, r, created))))))"


section \<open>Claiming\<close>

definition valid_owner :: "string \<Rightarrow> string option" where
  "valid_owner owner =
     (let w = trim_space owner in if w = [] \<or> maxLeaseOwnerBytes < length w then None else Some w)"

text \<open>The jobs of a claim: of its provider and, where it names one, its kind.\<close>

definition claim_scope :: "string \<Rightarrow> string \<Rightarrow> job_row \<Rightarrow> bool" where
  "claim_scope provider kind r \<longleftrightarrow> jb_provider r = provider \<and> (kind = [] \<or> jb_kind r = kind)"

definition lease_over :: "int \<Rightarrow> job_row \<Rightarrow> bool" where
  "lease_over now r \<longleftrightarrow> jb_state r = JobLeased \<and> (case jb_expires r of None \<Rightarrow> False | Some t \<Rightarrow> t \<le> now)"

definition expired_row :: "int \<Rightarrow> job_row \<Rightarrow> job_row" where
  "expired_row now r =
     r\<lparr>jb_state := if jb_max r \<le> jb_attempts r then JobDeadLetter else JobRetryWait, jb_next := now, jb_owner := None,
       jb_expires := None, jb_error := Some ''lease_expired'', jb_updated := now,
       jb_completed := if jb_max r \<le> jb_attempts r then Some now else None, jb_version := jb_version r + 1\<rparr>"

definition expire_leases :: "int \<Rightarrow> string \<Rightarrow> string \<Rightarrow> queue_db \<Rightarrow> queue_db option" where
  "expire_leases now provider kind d =
     (let new = map (\<lambda>(i, r). (i, if lease_over now r \<and> claim_scope provider kind r then expired_row now r else r)) (jobs d) in
      if list_all2 (\<lambda>(_, r) (_, r'). r' = r \<or> job_checks r') (jobs d) new then Some (d\<lparr>jobs := new\<rparr>) else None)"

definition claimable :: "int \<Rightarrow> string \<Rightarrow> string \<Rightarrow> job_row \<Rightarrow> bool" where
  "claimable now provider kind r \<longleftrightarrow>
     (jb_state r = JobQueued \<or> jb_state r = JobRetryWait) \<and> jb_next r \<le> now \<and> jb_attempts r < jb_max r \<and>
     claim_scope provider kind r"

definition due_jobs :: "int \<Rightarrow> string \<Rightarrow> string \<Rightarrow> queue_db \<Rightarrow> (int \<times> job_row) list" where
  "due_jobs now provider kind d =
     sort_key (\<lambda>(i, r). (jb_next r, i)) (filter (\<lambda>(i, r). claimable now provider kind r) (jobs d))"

definition leased_row :: "string \<Rightarrow> int \<Rightarrow> int \<Rightarrow> job_row \<Rightarrow> job_row" where
  "leased_row owner now expires r =
     r\<lparr>jb_state := JobLeased, jb_attempts := jb_attempts r + 1, jb_owner := Some owner, jb_expires := Some expires,
       jb_updated := now, jb_completed := None, jb_version := jb_version r + 1\<rparr>"

definition claim_job ::
  "db_fate \<Rightarrow> (job_row \<Rightarrow> bool) \<Rightarrow> string \<Rightarrow> int \<Rightarrow> string \<Rightarrow> string \<Rightarrow> int \<Rightarrow> queue_db \<Rightarrow> queue_db \<times> (queue_error + int \<times> job_row)" where
  "claim_job fate loadable owner duration provider kind now d =
     (case valid_owner owner of None \<Rightarrow> (d, Inl JobRequestInvalid)
      | Some w \<Rightarrow>
        if duration \<le> 0 \<or> maxLeaseDuration < duration \<or> (kind \<noteq> [] \<and> \<not> is_valid_job_kind kind) then (d, Inl JobRequestInvalid)
        else (case canonical_provider provider of None \<Rightarrow> (d, Inl JobRequestInvalid)
        | Some provider \<Rightarrow>
          let now = unix_milli now; expires = unix_milli (from_milli now + duration) in
          if fate = DbNoBegin \<or> fate = DbNoExec then (d, Inl JobDbFailed)
          else (case expire_leases now provider kind d of None \<Rightarrow> (d, Inl JobDbFailed)
          | Some d1 \<Rightarrow>
            (case due_jobs now provider kind d1 of
               [] \<Rightarrow> if fate = DbNoCommit then (d, Inl JobDbFailed) else (d1, Inl JobNotFound)
             | (i, r) # _ \<Rightarrow>
                 let r' = leased_row w now expires r in
                 if \<not> job_checks r' \<or> \<not> loadable r' then (d, Inl JobDbFailed)
                 else if fate = DbNoCommit then (d, Inl JobDbFailed)
                 else (d1\<lparr>jobs := put i r' (jobs d1)\<rparr>, Inr (i, r'))))))"

section \<open>Finishing\<close>

text \<open>What an \<open>UPDATE\<close> of the job of a lease that hit no row reports.\<close>

definition no_transition :: "int \<Rightarrow> queue_db \<Rightarrow> queue_error" where
  "no_transition i d =
     (case row (jobs d) i of None \<Rightarrow> JobNotFound
      | Some r \<Rightarrow> if is_terminal_state (jb_state r) then JobTerminal (jb_state r) else JobLeaseNotOwned)"

definition lease_held :: "string \<Rightarrow> int \<Rightarrow> int \<Rightarrow> job_row \<Rightarrow> bool" where
  "lease_held owner version now r \<longleftrightarrow>
     jb_state r = JobLeased \<and> jb_owner r = Some owner \<and> jb_version r = version \<and>
     (case jb_expires r of None \<Rightarrow> False | Some t \<Rightarrow> now < t)"

text \<open>\<open>UPDATE\<close> of the job where the row is as expected, the job read back, and the commit.\<close>

definition transition_job ::
  "db_fate \<Rightarrow> (job_row \<Rightarrow> bool) \<Rightarrow> int \<Rightarrow> (job_row \<Rightarrow> bool) \<Rightarrow> (job_row \<Rightarrow> job_row) \<Rightarrow> queue_db \<Rightarrow>
   queue_db \<times> (queue_error + job_row)" where
  "transition_job fate loadable i expected change d =
     (if fate = DbNoExec then (d, Inl JobDbFailed)
      else case row (jobs d) i of None \<Rightarrow> (d, Inl JobNotFound)
      | Some r \<Rightarrow>
          if \<not> expected r then (d, Inl (no_transition i d))
          else if \<not> job_checks (change r) \<or> \<not> loadable (change r) \<or> fate = DbNoCommit then (d, Inl JobDbFailed)
          else (d\<lparr>jobs := put i (change r) (jobs d)\<rparr>, Inr (change r)))"

definition finished_row :: "job_state \<Rightarrow> int \<Rightarrow> string option \<Rightarrow> int \<Rightarrow> int option \<Rightarrow> job_row \<Rightarrow> job_row" where
  "finished_row s next err updated completed r =
     r\<lparr>jb_state := s, jb_next := next, jb_owner := None, jb_expires := None, jb_error := err, jb_updated := updated,
       jb_completed := completed, jb_version := jb_version r + 1\<rparr>"


text \<open>
  \<open>transitionLeasedLyricsDiscoveryJob\<close>: an attempt of 0 is any attempt. \<open>checked\<close> is the reading of
  the clock the lease is compared with, \<open>at\<close> the instant of the transition.
\<close>

definition transition_leased ::
  "db_fate \<Rightarrow> (job_row \<Rightarrow> bool) \<Rightarrow> int \<Rightarrow> int \<Rightarrow> string \<Rightarrow> int \<Rightarrow> int \<Rightarrow> job_state \<Rightarrow> int \<Rightarrow> int \<Rightarrow> string \<Rightarrow> queue_db \<Rightarrow>
   queue_db \<times> (queue_error + job_row)" where
  "transition_leased fate loadable checked i owner version attempt s at not_before code d =
     (if i \<le> 0 \<or> version \<le> 0 \<or> attempt < 0 then (d, Inl JobRequestInvalid)
      else case valid_owner owner of None \<Rightarrow> (d, Inl JobRequestInvalid)
      | Some w \<Rightarrow>
        if s \<noteq> JobSucceeded \<and> s \<noteq> JobRetryWait \<and> s \<noteq> JobDeadLetter then (d, Inl JobRequestInvalid)
        else if s \<noteq> JobSucceeded \<and> trim_space code = [] then (d, Inl JobRequestInvalid)
        else let code = (if s = JobSucceeded then [] else sanitize_error_code code) in
          if s \<noteq> JobSucceeded \<and> \<not> (code \<noteq> [] \<and> list_all code_char code) then (d, Inl JobRequestInvalid)
          else let at = unix_milli at; next = (if s = JobRetryWait then not_before else at);
                   completed = (if s = JobRetryWait then None else Some at); checked = unix_milli checked in
            if fate = DbNoBegin then (d, Inl JobDbFailed)
            else if from_milli at = zero_time \<or> from_milli at > from_milli checked + maxClockSkew then (d, Inl JobRequestInvalid)
            else transition_job fate loadable i (\<lambda>r. lease_held w version checked r \<and> (attempt = 0 \<or> jb_attempts r = attempt))
                   (finished_row s next (if code = [] then None else Some code) at completed) d)"

definition complete_job ::
  "db_fate \<Rightarrow> (job_row \<Rightarrow> bool) \<Rightarrow> int \<Rightarrow> int \<Rightarrow> int \<Rightarrow> string \<Rightarrow> int \<Rightarrow> queue_db \<Rightarrow> queue_db \<times> (queue_error + job_row)" where
  "complete_job fate loadable now checked i owner version d =
     transition_leased fate loadable checked i owner version 0 JobSucceeded now zero_time [] d"

definition retry_job ::
  "db_fate \<Rightarrow> (job_row \<Rightarrow> bool) \<Rightarrow> int \<Rightarrow> int \<Rightarrow> int \<Rightarrow> string \<Rightarrow> int \<Rightarrow> int \<Rightarrow> int \<Rightarrow> int \<Rightarrow> string \<Rightarrow> queue_db \<Rightarrow>
   queue_db \<times> (queue_error + job_row)" where
  "retry_job fate loadable now checked i owner version attempt failed_at not_before code d =
     (if failed_at = zero_time \<or> failed_at > now + maxClockSkew then (d, Inl JobRequestInvalid)
      else if not_before = zero_time then (d, Inl JobRequestInvalid)
      else if \<not> unix_milli not_before > unix_milli failed_at then (d, Inl JobRequestInvalid)
      else if from_milli (unix_milli not_before) > from_milli (unix_milli failed_at) + maxRetryDelay then (d, Inl JobRequestInvalid)
      else transition_leased fate loadable checked i owner version attempt JobRetryWait failed_at (unix_milli not_before) code d)"

definition fail_job ::
  "db_fate \<Rightarrow> (job_row \<Rightarrow> bool) \<Rightarrow> int \<Rightarrow> int \<Rightarrow> string \<Rightarrow> int \<Rightarrow> string \<Rightarrow> queue_db \<Rightarrow> queue_db \<times> (queue_error + job_row)" where
  "fail_job fate loadable now i owner version code d =
     (if i \<le> 0 \<or> version \<le> 0 then (d, Inl JobRequestInvalid)
      else case valid_owner owner of None \<Rightarrow> (d, Inl JobRequestInvalid)
      | Some w \<Rightarrow>
        if trim_space code = [] then (d, Inl JobRequestInvalid)
        else if fate = DbNoBegin then (d, Inl JobDbFailed)
        else let code = sanitize_error_code code; now = unix_milli now in
          transition_job fate loadable i (lease_held w version now)
            (\<lambda>r. if jb_max r \<le> jb_attempts r then finished_row JobDeadLetter now (Some code) now (Some now) r
                  else finished_row JobRetryWait now (Some code) now None r) d)"

definition cancel_job ::
  "db_fate \<Rightarrow> (job_row \<Rightarrow> bool) \<Rightarrow> int \<Rightarrow> int \<Rightarrow> int \<Rightarrow> queue_db \<Rightarrow> queue_db \<times> (queue_error + job_row)" where
  "cancel_job fate loadable now i version d =
     (if i \<le> 0 \<or> version \<le> 0 then (d, Inl JobRequestInvalid)
      else if fate = DbNoBegin then (d, Inl JobDbFailed)
      else let now = unix_milli now in
        transition_job fate loadable i
          (\<lambda>r. jb_version r = version \<and> (jb_state r = JobQueued \<or> jb_state r = JobRetryWait))
          (\<lambda>r. finished_row JobCancelled (jb_next r) None now (Some now) r) d)"

definition terminal_fail_job ::
  "db_fate \<Rightarrow> (job_row \<Rightarrow> bool) \<Rightarrow> int \<Rightarrow> int \<Rightarrow> int \<Rightarrow> string \<Rightarrow> int \<Rightarrow> int \<Rightarrow> int \<Rightarrow> string \<Rightarrow> queue_db \<Rightarrow>
   queue_db \<times> (queue_error + job_row)" where
  "terminal_fail_job fate loadable now checked i owner version attempt failed_at code d =
     (case valid_owner owner of None \<Rightarrow> (d, Inl JobRequestInvalid)
      | Some w \<Rightarrow>
        if i \<le> 0 \<or> version \<le> 0 \<or> attempt \<le> 0 then (d, Inl JobRequestInvalid)
        else if failed_at = zero_time \<or> failed_at > now + maxClockSkew then (d, Inl JobRequestInvalid)
        else if trim_space code = [] then (d, Inl JobRequestInvalid)
        else if fate = DbNoBegin then (d, Inl JobDbFailed)
        else let code = sanitize_error_code code; at = unix_milli failed_at in
          transition_job fate loadable i (\<lambda>r. lease_held w version (unix_milli checked) r \<and> jb_attempts r = attempt)
            (\<lambda>r. (finished_row JobDeadLetter at (Some code) at (Some at) r)\<lparr>jb_attempts := jb_max r\<rparr>) d)"

section \<open>Lease tokens\<close>

definition encode_lease_token :: "int \<Rightarrow> string" where
  "encode_lease_token version = CHR ''v'' # format_int version"

text \<open>\<open>strconv.ParseInt\<close> in base 10 with 64 bits.\<close>

definition parse_int64 :: "string \<Rightarrow> int option" where
  "parse_int64 s =
     (let (neg, ds) = (case s of [] \<Rightarrow> (False, []) | c # cs \<Rightarrow>
         if c = CHR ''-'' then (True, cs) else if c = CHR ''+'' then (False, cs) else (False, s)) in
      case parse_uint ds of None \<Rightarrow> None
      | Some n \<Rightarrow>
          if \<not> neg \<and> 2 ^ 63 \<le> n then None else if neg \<and> 2 ^ 63 < n then None
          else Some (if neg then - int n else int n))"

definition parse_discovery_lease :: "string \<Rightarrow> string \<Rightarrow> string \<Rightarrow> (int \<times> int) option" where
  "parse_discovery_lease job_id token worker =
     (case parse_int64 job_id of None \<Rightarrow> None
      | Some i \<Rightarrow>
        if i \<le> 0 \<or> format_int i \<noteq> job_id then None
        else if \<not> has_prefix token ''v'' \<or> length token < 2 then None
        else case parse_int64 (tl token) of None \<Rightarrow> None
        | Some v \<Rightarrow>
          if v \<le> 0 \<or> encode_lease_token v \<noteq> token \<or> trim_space worker = [] then None else Some (i, v))"

end
