(* ===== verification/LyricsJobs.thy ===== *)
theory LyricsJobs
  imports LyricsQueue
begin

text \<open>
  Runs of the queue of lyrics discovery jobs: the life of one job as a step relation, which every
  operation of the queue follows; leases end at most once, attempts are bounded, final states are
  final, and what a claim and an enqueueing do.
\<close>

section \<open>Runs\<close>

datatype queue_op =
    Enqueue db_fate int string string job_target int int
  | Claim db_fate string int string string int
  | Complete db_fate int int int string int
  | Retry db_fate int int int string int int int int string
  | FailJob db_fate int int string int string
  | Cancel db_fate int int int
  | TerminalFail db_fate int int int string int int int string

text \<open>The answer is the job with its id, where the operation has one.\<close>

fun queue_step :: "(string \<Rightarrow> string) \<Rightarrow> (job_row \<Rightarrow> bool) \<Rightarrow> queue_op \<Rightarrow> queue_db \<Rightarrow> queue_db \<times> (queue_error + int \<times> job_row)" where
  "queue_step digest loadable (Enqueue fate now p k t m nb) d =
     apsnd (map_sum id (\<lambda>(i, r, _). (i, r))) (enqueue_job fate digest loadable now p k t m nb d)"
| "queue_step digest loadable (Claim fate w dur p k now) d = claim_job fate loadable w dur p k now d"
| "queue_step digest loadable (Complete fate now ck i w v) d = apsnd (map_sum id (Pair i)) (complete_job fate loadable now ck i w v d)"
| "queue_step digest loadable (Retry fate now ck i w v a fa nb code) d =
     apsnd (map_sum id (Pair i)) (retry_job fate loadable now ck i w v a fa nb code d)"
| "queue_step digest loadable (FailJob fate now i w v code) d = apsnd (map_sum id (Pair i)) (fail_job fate loadable now i w v code d)"
| "queue_step digest loadable (Cancel fate now i v) d = apsnd (map_sum id (Pair i)) (cancel_job fate loadable now i v d)"
| "queue_step digest loadable (TerminalFail fate now ck i w v a fa code) d =
     apsnd (map_sum id (Pair i)) (terminal_fail_job fate loadable now ck i w v a fa code d)"

fun run_queue :: "(string \<Rightarrow> string) \<Rightarrow> (job_row \<Rightarrow> bool) \<Rightarrow> queue_op list \<Rightarrow> queue_db \<Rightarrow> queue_db" where
  "run_queue digest loadable [] d = d"
| "run_queue digest loadable (op # ops) d = run_queue digest loadable ops (fst (queue_step digest loadable op d))"

text \<open>The life of one job.\<close>

inductive job_step :: "job_row \<Rightarrow> job_row \<Rightarrow> bool" where
  step_expire: "lease_over now r \<Longrightarrow> job_step r (expired_row now r)"
| step_lease: "jb_state r = JobQueued \<or> jb_state r = JobRetryWait \<Longrightarrow> jb_attempts r < jb_max r \<Longrightarrow>
    job_step r (leased_row w now e r)"
| step_finish: "jb_state r = JobLeased \<Longrightarrow> s \<noteq> JobLeased \<Longrightarrow> s \<noteq> JobQueued \<Longrightarrow> job_step r (finished_row s n err u c r)"
| step_give_up: "jb_state r = JobLeased \<Longrightarrow> job_step r ((finished_row JobDeadLetter n err u c r)\<lparr>jb_attempts := jb_max r\<rparr>)"
| step_cancel: "jb_state r = JobQueued \<or> jb_state r = JobRetryWait \<Longrightarrow> job_step r (finished_row JobCancelled n err u c r)"

definition same_identity :: "job_row \<Rightarrow> job_row \<Rightarrow> bool" where
  "same_identity r r' \<longleftrightarrow>
     jb_key r' = jb_key r \<and> jb_kind r' = jb_kind r \<and> jb_target r' = jb_target r \<and> jb_max r' = jb_max r \<and>
     jb_created r' = jb_created r \<and> jb_provider r' = jb_provider r \<and> jb_candidate r' = jb_candidate r \<and>
     jb_identity r' = jb_identity r \<and> jb_provenance r' = jb_provenance r"

lemma job_step_facts:
  assumes "job_step r r'"
  shows "jb_version r' = jb_version r + 1" "same_identity r r'" "\<not> is_terminal_state (jb_state r)"
    "jb_attempts r \<le> jb_max r \<Longrightarrow> jb_attempts r \<le> jb_attempts r'" "jb_state r' \<noteq> JobQueued"
  using assms
  by (auto elim!: job_step.cases simp: expired_row_def leased_row_def finished_row_def same_identity_def lease_over_def is_terminal_state_def
      split: if_splits)

section \<open>Every operation is steps of the jobs\<close>

definition queue_ok :: "queue_db \<Rightarrow> bool" where
  "queue_ok d \<longleftrightarrow>
     table_ok (jobs d) \<and> (\<forall>i \<in> set (map fst (jobs d)). 0 < i \<and> i \<le> job_seq d) \<and> (\<forall>(i, r) \<in> set (jobs d). job_checks r) \<and> 0 \<le> job_seq d \<and>
     distinct (map (\<lambda>(_, r). jb_key r) (jobs d))"

lemma transition_job_cases:
  assumes "transition_job fate loadable i expected change d = (d', x)"
  obtains e where "d' = d" "x = Inl e"
  | r where "row (jobs d) i = Some r" "expected r" "job_checks (change r)" "loadable (change r)"
      "d' = d\<lparr>jobs := put i (change r) (jobs d)\<rparr>" "x = Inr (change r)"
proof (cases "row (jobs d) i")
  case None
  with assms that(1) show ?thesis by (cases "fate = DbNoExec") (auto simp: transition_job_def)
next
  case (Some r)
  show ?thesis
  proof (cases "fate = DbNoExec \<or> \<not> expected r \<or> \<not> job_checks (change r) \<or> \<not> loadable (change r) \<or> fate = DbNoCommit")
    case True
    with assms Some that(1) show ?thesis by (cases "fate = DbNoExec"; cases "expected r") (auto simp: transition_job_def)
  next
    case False
    with assms Some have "d\<lparr>jobs := put i (change r) (jobs d)\<rparr> = d'" "Inr (change r) = x" by (simp_all add: transition_job_def)
    with Some False that(2) show ?thesis by simp
  qed
qed

text \<open>The operations that end a lease, with the lease they name and the clock they compare it with.\<close>

fun finisher :: "queue_op \<Rightarrow> (int \<times> string \<times> int \<times> int) option" where
  "finisher (Complete fate now ck i w v) = Some (i, w, v, unix_milli ck)"
| "finisher (Retry fate now ck i w v a fa nb code) = Some (i, w, v, unix_milli ck)"
| "finisher (FailJob fate now i w v code) = Some (i, w, v, unix_milli now)"
| "finisher (TerminalFail fate now ck i w v a fa code) = Some (i, w, v, unix_milli ck)"
| "finisher _ = None"

definition lease_ended :: "int \<Rightarrow> string \<Rightarrow> int \<Rightarrow> int \<Rightarrow> queue_db \<Rightarrow> queue_db \<Rightarrow> queue_error + int \<times> job_row \<Rightarrow> bool" where
  "lease_ended i w v now d d' x \<longleftrightarrow>
     (\<exists>r r' ow. row (jobs d) i = Some r \<and> valid_owner w = Some ow \<and> lease_held ow v now r \<and> job_step r r' \<and>
        jb_state r' \<noteq> JobLeased \<and> job_checks r' \<and> d' = d\<lparr>jobs := put i r' (jobs d)\<rparr> \<and> x = Inr (i, r'))"

definition refused :: "queue_db \<Rightarrow> queue_db \<Rightarrow> queue_error + 'a \<Rightarrow> bool" where
  "refused d d' x \<longleftrightarrow> d' = d \<and> isl x"

lemma lease_heldD: "lease_held ow v now r \<Longrightarrow> jb_state r = JobLeased"
  by (simp add: lease_held_def)

lemma transition_ends:
  assumes run: "transition_job fate loadable i expected change d = (d', x)" and w: "valid_owner w = Some ow"
    and e: "\<And>r. expected r \<Longrightarrow> lease_held ow v now r"
    and c: "\<And>r. jb_state r = JobLeased \<Longrightarrow> job_step r (change r) \<and> jb_state (change r) \<noteq> JobLeased"
  shows "refused d d' x \<or> lease_ended i w v now d d' (map_sum id (Pair i) x)"
  using run
proof (cases rule: transition_job_cases)
  case (1 e)
  then show ?thesis by (simp add: refused_def)
next
  case (2 r)
  have "lease_held ow v now r" by (rule e [OF 2(2)])
  moreover note c [OF lease_heldD [OF this]]
  ultimately show ?thesis using 2 w unfolding lease_ended_def
    by (intro disjI2 exI [of _ r] exI [of _ "change r"] exI [of _ ow]) simp
qed

lemma finish_step:
  "jb_state r = JobLeased \<Longrightarrow> s \<noteq> JobLeased \<Longrightarrow> s \<noteq> JobQueued \<Longrightarrow>
   job_step r (finished_row s n err u c r) \<and> jb_state (finished_row s n err u c r) \<noteq> JobLeased"
  by (auto intro: step_finish) (simp add: finished_row_def)

lemma refused_Inl [simp]: "refused d d (Inl e)"
  by (simp add: refused_def)

lemma transition_leased_cases:
  assumes "transition_leased fate loadable ck i w v a s at nb code d = (d', x)"
  shows "refused d d' x \<or> lease_ended i w v (unix_milli ck) d d' (map_sum id (Pair i) x)"
proof (cases "(s \<noteq> JobSucceeded \<and> s \<noteq> JobRetryWait \<and> s \<noteq> JobDeadLetter) \<or> valid_owner w = None")
  case True
  then show ?thesis using assms by (auto simp: transition_leased_def split: if_splits option.splits)
next
  case False
  then obtain ow where w: "valid_owner w = Some ow" by auto
  from False have s: "s \<noteq> JobLeased" "s \<noteq> JobQueued" by auto
  have "refused d d' x \<or> (\<exists>p n err u c. transition_job fate loadable i (\<lambda>r. lease_held ow v (unix_milli ck) r \<and> p r)
      (finished_row s n err u c) d = (d', x))"
    using assms unfolding transition_leased_def Let_def w option.simps by (force split: if_splits)
  then show ?thesis
  proof (elim disjE exE)
    fix p n err u c
    assume run: "transition_job fate loadable i (\<lambda>r. lease_held ow v (unix_milli ck) r \<and> p r) (finished_row s n err u c) d = (d', x)"
    show ?thesis by (rule transition_ends [OF run w]) (erule conjunct1, rule finish_step [OF _ s])
  qed simp
qed

lemma fail_job_cases:
  assumes "fail_job fate loadable now i w v code d = (d', x)"
  shows "refused d d' x \<or> lease_ended i w v (unix_milli now) d d' (map_sum id (Pair i) x)"
proof (cases "i \<le> 0 \<or> v \<le> 0 \<or> valid_owner w = None \<or> trim_space code = [] \<or> fate = DbNoBegin")
  case True
  then show ?thesis using assms by (auto simp: fail_job_def split: if_splits option.splits)
next
  case False
  then obtain ow where w: "valid_owner w = Some ow" by auto
  have run: "transition_job fate loadable i (lease_held ow v (unix_milli now))
      (\<lambda>r. if jb_max r \<le> jb_attempts r
            then finished_row JobDeadLetter (unix_milli now) (Some (sanitize_error_code code)) (unix_milli now) (Some (unix_milli now)) r
            else finished_row JobRetryWait (unix_milli now) (Some (sanitize_error_code code)) (unix_milli now) None r) d = (d', x)"
    using assms False w by (simp add: fail_job_def Let_def)
  show ?thesis by (rule transition_ends [OF run w]) (simp_all add: finish_step)
qed

lemma terminal_fail_job_cases:
  assumes "terminal_fail_job fate loadable now ck i w v a fa code d = (d', x)"
  shows "refused d d' x \<or> lease_ended i w v (unix_milli ck) d d' (map_sum id (Pair i) x)"
proof (cases "valid_owner w")
  case None
  then show ?thesis using assms by (auto simp: terminal_fail_job_def)
next
  case (Some ow)
  then have "refused d d' x \<or> transition_job fate loadable i (\<lambda>r. lease_held ow v (unix_milli ck) r \<and> jb_attempts r = a)
      (\<lambda>r. (finished_row JobDeadLetter (unix_milli fa) (Some (sanitize_error_code code)) (unix_milli fa) (Some (unix_milli fa)) r)
        \<lparr>jb_attempts := jb_max r\<rparr>) d = (d', x)"
    using assms by (auto simp: terminal_fail_job_def Let_def split: if_splits)
  then show ?thesis
  proof
    assume run: "transition_job fate loadable i (\<lambda>r. lease_held ow v (unix_milli ck) r \<and> jb_attempts r = a)
      (\<lambda>r. (finished_row JobDeadLetter (unix_milli fa) (Some (sanitize_error_code code)) (unix_milli fa) (Some (unix_milli fa)) r)
        \<lparr>jb_attempts := jb_max r\<rparr>) d = (d', x)"
    show ?thesis by (rule transition_ends [OF run Some]) (erule conjunct1, rule conjI, rule step_give_up, assumption, simp add: finished_row_def)
  qed simp
qed

lemma retry_job_cases:
  assumes "retry_job fate loadable now ck i w v a fa nb code d = (d', x)"
  shows "refused d d' x \<or> lease_ended i w v (unix_milli ck) d d' (map_sum id (Pair i) x)"
proof -
  have "refused d d' x \<or> transition_leased fate loadable ck i w v a JobRetryWait fa (unix_milli nb) code d = (d', x)"
    using assms by (auto simp: retry_job_def split: if_splits)
  then show ?thesis using transition_leased_cases by blast
qed

lemma refused_map_sum [simp]: "refused d d' (map_sum id f x) = refused d d' x"
  by (cases x) (simp_all add: refused_def)

lemma apsnd_eqD: "apsnd f p = (a, b) \<Longrightarrow> \<exists>y. p = (a, y) \<and> b = f y"
  by (cases p) auto

lemma finish_cases:
  assumes "queue_step digest loadable op d = (d', x)" "finisher op = Some (i, w, v, t)"
  shows "refused d d' x \<or> lease_ended i w v t d d' x"
proof (cases op)
  case (Complete fate now ck i' w' v')
  then show ?thesis
    using assms by (auto simp: complete_job_def dest!: apsnd_eqD intro: transition_leased_cases [THEN disjE])
next
  case (Retry fate now ck i' w' v' a fa nb code)
  then show ?thesis using assms by (auto dest!: apsnd_eqD intro: retry_job_cases [THEN disjE])
next
  case (FailJob fate now i' w' v' code)
  then show ?thesis using assms by (auto dest!: apsnd_eqD intro: fail_job_cases [THEN disjE])
next
  case (TerminalFail fate now ck i' w' v' a fa code)
  then show ?thesis using assms by (auto dest!: apsnd_eqD intro: terminal_fail_job_cases [THEN disjE])
qed (use assms(2) in auto)

lemma cancel_cases:
  assumes "cancel_job fate loadable now i v d = (d', x)"
  shows "refused d d' x \<or> (\<exists>r r'. row (jobs d) i = Some r \<and> job_step r r' \<and> job_checks r' \<and> jb_state r \<noteq> JobLeased \<and>
    jb_state r' = JobCancelled \<and> d' = d\<lparr>jobs := put i r' (jobs d)\<rparr> \<and> x = Inr r')"
proof (cases "i \<le> 0 \<or> v \<le> 0 \<or> fate = DbNoBegin")
  case True
  then show ?thesis using assms by (auto simp: cancel_job_def split: if_splits)
next
  case False
  then have "transition_job fate loadable i (\<lambda>r. jb_version r = v \<and> (jb_state r = JobQueued \<or> jb_state r = JobRetryWait))
      (\<lambda>r. finished_row JobCancelled (jb_next r) None (unix_milli now) (Some (unix_milli now)) r) d = (d', x)"
    using assms by (simp add: cancel_job_def Let_def)
  then show ?thesis
  proof (cases rule: transition_job_cases)
    case (2 r)
    have "job_step r (finished_row JobCancelled (jb_next r) None (unix_milli now) (Some (unix_milli now)) r)"
      by (rule step_cancel) (use 2(2) in simp)
    moreover have "jb_state (finished_row JobCancelled n err u c r) = JobCancelled" for n err u c by (simp add: finished_row_def)
    ultimately show ?thesis using 2 by (intro disjI2 exI [of _ r] exI conjI) auto
  qed simp
qed

section \<open>What a claim does\<close>

lemma expire_leases_facts:
  assumes "expire_leases now p k d = Some d1"
  shows "row (jobs d1) i = map_option (\<lambda>r. if lease_over now r \<and> claim_scope p k r then expired_row now r else r) (row (jobs d) i)"
    "map fst (jobs d1) = map fst (jobs d)" "job_seq d1 = job_seq d"
    "map (\<lambda>(_, r). jb_key r) (jobs d1) = map (\<lambda>(_, r). jb_key r) (jobs d)"
    "\<forall>(i, r) \<in> set (jobs d). job_checks r \<Longrightarrow> \<forall>(i, r) \<in> set (jobs d1). job_checks r"
proof -
  let ?f = "\<lambda>r. if lease_over now r \<and> claim_scope p k r then expired_row now r else r"
  have j: "jobs d1 = map (\<lambda>(i, r). (i, ?f r)) (jobs d)" "job_seq d1 = job_seq d"
    and ok: "list_all2 (\<lambda>(_, r) (_, r'). r' = r \<or> job_checks r') (jobs d) (map (\<lambda>(i, r). (i, ?f r)) (jobs d))"
    using assms by (auto simp: expire_leases_def Let_def split: if_splits)
  show "row (jobs d1) i = map_option ?f (row (jobs d) i)" unfolding j row_map_rows ..
  show "map fst (jobs d1) = map fst (jobs d)" unfolding j by (simp add: case_prod_beta comp_def)
  show "job_seq d1 = job_seq d" by (rule j)
  show "map (\<lambda>(_, r). jb_key r) (jobs d1) = map (\<lambda>(_, r). jb_key r) (jobs d)"
    unfolding j by (auto simp: expired_row_def)
  show "\<forall>(i, r) \<in> set (jobs d). job_checks r \<Longrightarrow> \<forall>(i, r) \<in> set (jobs d1). job_checks r"
    using ok unfolding j list.rel_map list_all2_same by fastforce
qed

lemma put_fresh: "row t k = None \<Longrightarrow> put k r t = t @ [(k, r)]"
  by (induction t) (auto simp: put_def row_def split: if_splits)

lemma put_same_keys: "row t k = Some r0 \<Longrightarrow> map fst (put k r t) = map fst t"
  by (induction t) (auto simp: put_def row_def split: if_splits)

lemma put_same_column: "row t k = Some r0 \<Longrightarrow> f r = f r0 \<Longrightarrow> map (\<lambda>(_, r). f r) (put k r t) = map (\<lambda>(_, r). f r) t"
  by (induction t) (auto simp: put_def row_def split: if_splits)

lemma in_put: "(j, r') \<in> set (put k r t) \<Longrightarrow> (j, r') = (k, r) \<or> (j, r') \<in> set t"
  using set_put by fast

lemma sort_key_head:
  assumes "sort_key f (filter p xs) = y # ys"
  shows "y \<in> set xs" "p y" "\<And>z. z \<in> set xs \<Longrightarrow> p z \<Longrightarrow> f y \<le> f z"
proof -
  have s: "set (y # ys) = set (filter p xs)" by (metis assms set_sort)
  then show "y \<in> set xs" "p y" by auto
  have "sorted (map f (y # ys))" by (metis assms sorted_sort_key)
  then show "f y \<le> f z" if "z \<in> set xs" "p z" for z using s that by (auto simp: set_eq_iff)
qed

lemma due_jobs_Cons:
  assumes "due_jobs now p k d = (i, r) # rest" "table_ok (jobs d)"
  shows "row (jobs d) i = Some r" "claimable now p k r"
    "\<And>j s. row (jobs d) j = Some s \<Longrightarrow> claimable now p k s \<Longrightarrow> (jb_next r, i) \<le> (jb_next s, j)"
proof -
  note h = sort_key_head [OF assms(1) [unfolded due_jobs_def]]
  show "row (jobs d) i = Some r" using h(1) by (rule in_row [OF assms(2)])
  show "claimable now p k r" using h(2) by simp
  show "(jb_next r, i) \<le> (jb_next s, j)" if "row (jobs d) j = Some s" "claimable now p k s" for j s
    using h(3) [of "(j, s)"] row_in [OF that(1)] that(2) by simp
qed


lemma claim_cases:
  assumes "claim_job fate loadable w dur p k now d = (d', x)"
  obtains "refused d d' x"
  | p' where "canonical_provider p = Some p'" "expire_leases (unix_milli now) p' k d = Some d'"
      "due_jobs (unix_milli now) p' k d' = []" "x = Inl JobNotFound"
  | p' ow d1 i r rest where "canonical_provider p = Some p'" "valid_owner w = Some ow" "expire_leases (unix_milli now) p' k d = Some d1"
      "due_jobs (unix_milli now) p' k d1 = (i, r) # rest"
      "job_checks (leased_row ow (unix_milli now) (unix_milli (from_milli (unix_milli now) + dur)) r)"
      "d' = d1\<lparr>jobs := put i (leased_row ow (unix_milli now) (unix_milli (from_milli (unix_milli now) + dur)) r) (jobs d1)\<rparr>"
      "x = Inr (i, leased_row ow (unix_milli now) (unix_milli (from_milli (unix_milli now) + dur)) r)"
proof (cases "valid_owner w")
  case None
  then show ?thesis using assms that(1) by (auto simp: claim_job_def)
next
  case (Some ow)
  show ?thesis
  proof (cases "dur \<le> 0 \<or> maxLeaseDuration < dur \<or> (k \<noteq> [] \<and> \<not> is_valid_job_kind k) \<or> canonical_provider p = None \<or>
      fate = DbNoBegin \<or> fate = DbNoExec")
    case True
    then show ?thesis using assms Some that(1) by (auto simp: claim_job_def Let_def refused_def split: if_splits option.splits)
  next
    case False
    then obtain p' where p: "canonical_provider p = Some p'" by auto
    show ?thesis
    proof (cases "expire_leases (unix_milli now) p' k d")
      case None
      then show ?thesis using assms Some False p that(1) by (auto simp: claim_job_def Let_def refused_def)
    next
      case exp: (Some d1)
      note s = assms [unfolded claim_job_def Let_def Some p option.simps exp]
      show ?thesis
      proof (cases "due_jobs (unix_milli now) p' k d1")
        case Nil
        then show ?thesis using s False that(1,2) p exp by (auto simp: refused_def split: if_splits)
      next
        case (Cons y rest)
        then obtain i r where y: "due_jobs (unix_milli now) p' k d1 = (i, r) # rest" by (cases y) auto
        show ?thesis
          using s False that(1) that(3) [OF p Some exp y] unfolding y by (auto simp: refused_def split: if_splits)
      qed
    qed
  qed
qed

section \<open>What enqueueing does\<close>

lemma enqueue_cases:
  assumes "enqueue_job fate digest loadable now p k t m nb d = (d', x)"
  obtains "refused d d' x"
  | p' key i r0 r where "canonical_provider p = Some p'" "job_idempotency_key digest p' k t = Some key"
      "job_by_key key d = Some (i, r0)" "row (jobs d) i = Some r" "d' = d" "x = Inr (i, r, False)" "jb_target r = t" "jb_provider r = p'"
  | p' key r where "canonical_provider p = Some p'" "job_idempotency_key digest p' k t = Some key"
      "job_by_key key d = None" "r = queued_row key p' k t (if m = 0 then DefaultMaxAttempts else m)
        (unix_milli (if nb = zero_time then now else nb)) (unix_milli now)" "job_checks r"
      "d' = \<lparr>jobs = put (job_seq d + 1) r (jobs d), job_seq = job_seq d + 1\<rparr>" "x = Inr (job_seq d + 1, r, True)"
proof (cases "canonical_provider p")
  case None
  then show ?thesis using assms that(1) by (auto simp: enqueue_job_def split: if_splits)
next
  case p: (Some p')
  show ?thesis
  proof (cases "job_idempotency_key digest p' k t")
    case None
    then show ?thesis using assms that(1) p by (auto simp: enqueue_job_def split: if_splits)
  next
    case key: (Some key)
    let ?m = "if m = 0 then DefaultMaxAttempts else m"
    let ?r = "queued_row key p' k t ?m (unix_milli (if nb = zero_time then now else nb)) (unix_milli now)"
    show ?thesis
    proof (cases "fate = DbNoBegin \<or> ?m < 1 \<or> ?m > maxJobAttempts \<or> fate = DbNoExec")
      case True
      then show ?thesis using assms that(1) p key by (auto simp: enqueue_job_def Let_def split: if_splits)
    next
      case False
      note s = assms [unfolded enqueue_job_def Let_def p key option.simps insert_job_def]
      show ?thesis
      proof (cases "job_by_key key d")
        case None
        then show ?thesis
          using s False that(1) that(3) [OF p key None refl]
          by (auto simp: queued_row_def refused_def split: if_splits)
      next
        case (Some y)
        then obtain i r where y: "job_by_key key d = Some (i, r)" by (cases y) auto
        have "jb_key r = key" using y by (auto simp: job_by_key_def find_Some_iff)
        show ?thesis
        proof (cases "row (jobs d) i")
          case None
          then show ?thesis using s False that(1) y by (auto simp: queued_row_def refused_def split: if_splits)
        next
          case (Some r')
          then show ?thesis using s False that(1) that(2) [OF p key, of i r r'] y
            by (auto simp: queued_row_def refused_def split: if_splits)
        qed
      qed
    qed
  qed
qed

section \<open>Every operation follows the life of the jobs\<close>

definition job_moves :: "queue_db \<Rightarrow> queue_db \<Rightarrow> bool" where
  "job_moves d d' \<longleftrightarrow> (\<forall>i r. row (jobs d) i = Some r \<longrightarrow> (\<exists>r'. row (jobs d') i = Some r' \<and> job_step\<^sup>*\<^sup>* r r'))"

lemma job_moves_refl [simp]: "job_moves d d"
  by (simp add: job_moves_def)

lemma job_moves_trans: "job_moves d d1 \<Longrightarrow> job_moves d1 d2 \<Longrightarrow> job_moves d d2"
  unfolding job_moves_def by (meson rtranclp_trans)

lemma job_moves_put: "row (jobs d) i = Some r \<Longrightarrow> job_step r r' \<Longrightarrow> job_moves d (d\<lparr>jobs := put i r' (jobs d)\<rparr>)"
  by (auto simp: job_moves_def)

lemma job_moves_expire: "expire_leases now p k d = Some d1 \<Longrightarrow> job_moves d d1"
  by (auto simp: job_moves_def expire_leases_facts(1) intro: step_expire)

lemma job_steps_facts:
  assumes "job_step\<^sup>*\<^sup>* r r'"
  shows "r' = r \<or> jb_version r < jb_version r'" "same_identity r r'" "is_terminal_state (jb_state r) \<Longrightarrow> r' = r"
proof -
  have "(r' = r \<or> jb_version r < jb_version r' \<and> \<not> is_terminal_state (jb_state r)) \<and> same_identity r r'"
    using assms
  proof (induction rule: rtranclp_induct)
    case base
    show ?case by (simp add: same_identity_def)
  next
    case (step y z)
    then show ?case using job_step_facts [OF step(2)] by (auto simp: same_identity_def)
  qed
  then show "r' = r \<or> jb_version r < jb_version r'" "same_identity r r'" "is_terminal_state (jb_state r) \<Longrightarrow> r' = r" by auto
qed

lemma queue_ok_put:
  assumes "queue_ok d" "row (jobs d) i = Some r" "job_checks r'" "jb_key r' = jb_key r"
  shows "queue_ok (d\<lparr>jobs := put i r' (jobs d)\<rparr>)"
  using assms row_in [OF assms(2)]
  by (auto simp: queue_ok_def put_same_column [OF assms(2), where f = jb_key] put_same_keys [OF assms(2)] simp del: set_map dest!: in_put)

lemma queue_ok_expire:
  assumes "queue_ok d" "expire_leases now p k d = Some d1"
  shows "queue_ok d1"
  using assms(1) expire_leases_facts(2-5) [OF assms(2)] unfolding queue_ok_def table_ok_def by metis

lemma queue_ok_row: "queue_ok d \<Longrightarrow> row (jobs d) i = Some r \<Longrightarrow> 0 < i \<and> i \<le> job_seq d \<and> job_checks r"
  by (force simp: queue_ok_def dest: row_in)

lemma job_by_key_facts:
  "job_by_key key d = None \<Longrightarrow> key \<notin> (\<lambda>(_, r). jb_key r) ` set (jobs d)"
  "job_by_key key d = Some (i, r) \<Longrightarrow> (i, r) \<in> set (jobs d) \<and> jb_key r = key"
  by (auto simp: job_by_key_def find_None_iff find_Some_iff) (metis nth_mem)

lemma queue_ok_insert:
  assumes "queue_ok d" "job_by_key (jb_key r) d = None" "job_checks r"
  shows "queue_ok \<lparr>jobs = put (job_seq d + 1) r (jobs d), job_seq = job_seq d + 1\<rparr>" "row (jobs d) (job_seq d + 1) = None"
proof -
  show n: "row (jobs d) (job_seq d + 1) = None"
    using queue_ok_row [OF assms(1), of "job_seq d + 1"] by (cases "row (jobs d) (job_seq d + 1)") auto
  show "queue_ok \<lparr>jobs = put (job_seq d + 1) r (jobs d), job_seq = job_seq d + 1\<rparr>"
    using assms job_by_key_facts(1) [OF assms(2)] unfolding queue_ok_def
    by (auto simp: put_fresh [OF n] table_ok_put dest: in_put) (auto simp: put_fresh [OF n, symmetric])
qed

lemma same_identity_key: "job_step r r' \<Longrightarrow> jb_key r' = jb_key r"
  using job_step_facts(2) by (simp add: same_identity_def)

lemma put_step:
  assumes "queue_ok d" "row (jobs d) i = Some r" "job_step r r'" "job_checks r'"
  shows "queue_ok (d\<lparr>jobs := put i r' (jobs d)\<rparr>) \<and> job_moves d (d\<lparr>jobs := put i r' (jobs d)\<rparr>)"
  using assms by (blast intro: queue_ok_put job_moves_put same_identity_key)

lemma claim_moves:
  assumes "queue_ok d" "claim_job fate loadable w dur p k now d = (d', x)"
  shows "queue_ok d' \<and> job_moves d d'"
  using assms(2)
proof (cases rule: claim_cases)
  case 1
  then show ?thesis using assms(1) by (simp add: refused_def)
next
  case (2 p')
  then show ?thesis using queue_ok_expire [OF assms(1)] job_moves_expire by blast
next
  case (3 p' ow d1 i r rest)
  have ok: "queue_ok d1" by (rule queue_ok_expire [OF assms(1) 3(3)])
  then have t: "table_ok (jobs d1)" by (simp add: queue_ok_def)
  note due = due_jobs_Cons [OF 3(4) t]
  have "job_step r (leased_row ow (unix_milli now) (unix_milli (from_milli (unix_milli now) + dur)) r)"
    by (rule step_lease) (use due(2) in \<open>simp_all add: claimable_def\<close>)
  from put_step [OF ok due(1) this 3(5)] show ?thesis
    unfolding 3(6) using job_moves_trans [OF job_moves_expire [OF 3(3)]] by blast
qed

lemma enqueue_moves:
  assumes "queue_ok d" "enqueue_job fate digest loadable now p k t m nb d = (d', x)"
  shows "queue_ok d' \<and> job_moves d d'"
  using assms(2)
proof (cases rule: enqueue_cases)
  case 1
  then show ?thesis using assms(1) by (simp add: refused_def)
next
  case (2 p' key i r0 r)
  then show ?thesis using assms(1) by simp
next
  case (3 p' key r)
  have "jb_key r = key" by (simp add: 3(4) queued_row_def)
  then have n: "job_by_key (jb_key r) d = None" using 3(3) by simp
  note ins = queue_ok_insert [OF assms(1) n 3(5)]
  then show ?thesis unfolding 3(6) by (auto simp: job_moves_def)
qed

lemma lease_ended_moves: "queue_ok d \<Longrightarrow> refused d d' x \<or> lease_ended i w v t d d' x \<Longrightarrow> queue_ok d' \<and> job_moves d d'"
  using put_step by (auto simp: lease_ended_def refused_def)

lemma queue_step_moves:
  assumes "queue_ok d" "queue_step digest loadable op d = (d', x)"
  shows "queue_ok d' \<and> job_moves d d'"
proof (cases "finisher op")
  case (Some f)
  obtain i w v t where "finisher op = Some (i, w, v, t)" using Some by (cases f) auto
  then show ?thesis using finish_cases [OF assms(2)] lease_ended_moves [OF assms(1)] by blast
next
  case None
  then consider fate now p k t m nb where "op = Enqueue fate now p k t m nb" | fate w dur p k now where "op = Claim fate w dur p k now"
    | fate now i v where "op = Cancel fate now i v"
    by (cases op) auto
  then show ?thesis
  proof cases
    case 1
    then show ?thesis using assms enqueue_moves by (auto dest!: apsnd_eqD)
  next
    case 2
    then show ?thesis using assms claim_moves by auto
  next
    case 3
    then obtain y where "cancel_job fate loadable now i v d = (d', y)" using assms(2) by (auto dest!: apsnd_eqD)
    from cancel_cases [OF this] show ?thesis using assms(1) put_step by (auto simp: refused_def)
  qed
qed

lemma run_queue_moves: "queue_ok d \<Longrightarrow> queue_ok (run_queue digest loadable ops d) \<and> job_moves d (run_queue digest loadable ops d)"
proof (induction ops arbitrary: d)
  case (Cons op ops)
  obtain d1 x where s: "queue_step digest loadable op d = (d1, x)" by fastforce
  note m = queue_step_moves [OF Cons.prems s]
  with Cons.IH [of d1] show ?case using job_moves_trans by (auto simp: s)
qed simp

lemma empty_queue_ok: "queue_ok \<lparr>jobs = [], job_seq = 0\<rparr>"
  by (simp add: queue_ok_def)

lemma run_queue_row:
  assumes "queue_ok d" "row (jobs d) i = Some r"
  obtains r' where "row (jobs (run_queue digest loadable ops d)) i = Some r'" "job_step\<^sup>*\<^sup>* r r'"
  using run_queue_moves [OF assms(1), of digest loadable ops] assms(2) unfolding job_moves_def by blast

section \<open>Leases\<close>

lemma claimed_row: "claim_job fate loadable w dur p k now d = (d1, Inr (i, r)) \<Longrightarrow> row (jobs d1) i = Some r"
  by (erule claim_cases) (auto simp: refused_def)

lemma lease_endedE:
  assumes "queue_step digest loadable op d = (d', Inr y)" "finisher op = Some (i, w, v, t)"
  obtains r r' ow where "row (jobs d) i = Some r" "valid_owner w = Some ow" "lease_held ow v t r" "job_step r r'"
    "d' = d\<lparr>jobs := put i r' (jobs d)\<rparr>"
  using finish_cases [OF assms] by (auto simp: refused_def lease_ended_def)

lemma later_version:
  "job_step\<^sup>*\<^sup>* r r' \<Longrightarrow> jb_version r' \<le> jb_version r \<Longrightarrow> r' = r"
  using job_steps_facts(1) [of r r'] by auto

text \<open>
  C9:
  A lease ends once. Whatever happens to the queue after a claim, an operation that ends the lease
  of that claim succeeds only while nothing at all happened to the job since, for the owner of the
  claim and before the lease expires; and after it, whatever happens, no operation ends that lease
  again.
\<close>

theorem lease_ends_once:
  assumes "queue_ok d" "claim_job fate loadable w dur p k now d = (d1, Inr (i, r))"
    and "d2 = run_queue digest loadable ops d1" "finisher fin = Some (i, w', jb_version r, t)"
    and "queue_step digest loadable fin d2 = (d3, Inr done)"
  shows "row (jobs d2) i = Some r \<and> valid_owner w' = jb_owner r \<and> (\<exists>e. jb_expires r = Some e \<and> t < e) \<and>
    (\<forall>ops' fin' w'' t'. finisher fin' = Some (i, w'', jb_version r, t') \<longrightarrow>
       isl (snd (queue_step digest loadable fin' (run_queue digest loadable ops' d3))))"
proof -
  have ok1: "queue_ok d1" using claim_moves [OF assms(1,2)] by simp
  obtain r2' where r2': "row (jobs d2) i = Some r2'" "job_step\<^sup>*\<^sup>* r r2'"
    using run_queue_row [OF ok1 claimed_row [OF assms(2)]] assms(3) by blast
  have ok2: "queue_ok d2" using run_queue_moves [OF ok1] assms(3) by blast
  obtain r2 r3 ow where e: "row (jobs d2) i = Some r2" "valid_owner w' = Some ow" "lease_held ow (jb_version r) t r2"
      "job_step r2 r3" "d3 = d2\<lparr>jobs := put i r3 (jobs d2)\<rparr>"
    by (rule lease_endedE [OF assms(5,4)])
  have "r2 = r" using later_version [OF r2'(2)] r2'(1) e(1,3) by (simp add: lease_held_def)
  have ok3: "queue_ok d3" using queue_step_moves [OF ok2 assms(5)] by simp
  have r3: "row (jobs d3) i = Some r3" "jb_version r3 = jb_version r + 1"
    using job_step_facts(1) [OF e(4)] \<open>r2 = r\<close> by (simp_all add: e(5))
  have "isl (snd (queue_step digest loadable fin' (run_queue digest loadable ops' d3)))"
    if f: "finisher fin' = Some (i, w'', jb_version r, t')" for ops' fin' w'' t'
  proof (rule ccontr)
    let ?d = "run_queue digest loadable ops' d3"
    assume "\<not> ?thesis"
    then obtain d5 y where "queue_step digest loadable fin' ?d = (d5, Inr y)"
      by (metis isl_def old.sum.exhaust prod.collapse)
    then obtain r5 ow5 where r5: "row (jobs ?d) i = Some r5" "jb_version r5 = jb_version r"
      by (rule lease_endedE [OF _ f]) (auto simp: lease_held_def)
    obtain r5' where "row (jobs ?d) i = Some r5'" "job_step\<^sup>*\<^sup>* r3 r5'" by (rule run_queue_row [OF ok3 r3(1)])
    then show False using later_version [of r3 r5] r5 r3(2) by auto
  qed
  then show ?thesis using e(1,2,3) \<open>r2 = r\<close> by (auto simp: lease_held_def split: option.splits)
qed

section \<open>The life of a job\<close>

text \<open>
  How often a run changes a job: an operation changes its row once or not at all, except that a claim
  may expire the lease of a job and hand the same job out again.
\<close>

fun hands_out :: "int \<Rightarrow> queue_op \<Rightarrow> queue_error + int \<times> job_row \<Rightarrow> bool" where
  "hands_out i (Claim fate w dur p k now) (Inr (j, r)) \<longleftrightarrow> j = i"
| "hands_out i _ _ \<longleftrightarrow> False"

definition op_changes :: "int \<Rightarrow> queue_op \<Rightarrow> queue_error + int \<times> job_row \<Rightarrow> job_row option \<Rightarrow> job_row option \<Rightarrow> nat" where
  "op_changes i op x before after =
     (if after = before then 0 else if hands_out i op x \<and> map_option jb_state before = Some JobLeased then 2 else 1)"

fun changes :: "(string \<Rightarrow> string) \<Rightarrow> (job_row \<Rightarrow> bool) \<Rightarrow> int \<Rightarrow> queue_op list \<Rightarrow> queue_db \<Rightarrow> nat" where
  "changes digest loadable i [] d = 0"
| "changes digest loadable i (op # ops) d =
     (let (d1, x) = queue_step digest loadable op d in
      op_changes i op x (row (jobs d) i) (row (jobs d1) i) + changes digest loadable i ops d1)"

lemma hands_out_claim: "hands_out i op x \<Longrightarrow> finisher op = None \<and> (\<exists>fate w dur p k now r. op = Claim fate w dur p k now \<and> x = Inr (i, r))"
  by (cases "(i, op, x)" rule: hands_out.cases) auto

lemma one_change:
  assumes "r' = r \<or> job_step r r'" "\<not> hands_out i op x \<or> jb_state r \<noteq> JobLeased"
  shows "jb_version r' = jb_version r + int (op_changes i op x (Some r) (Some r'))"
  using assms job_step_facts(1) [of r r'] by (auto simp: op_changes_def)

lemma put_change:
  assumes "row (jobs d) i = Some r" "row (jobs d) j = Some s" "job_step s s'" "\<not> hands_out i op x \<or> jb_state r \<noteq> JobLeased"
  obtains r' where "row (jobs (d\<lparr>jobs := put j s' (jobs d)\<rparr>)) i = Some r'" "jb_version r' = jb_version r + int (op_changes i op x (Some r) (Some r'))"
proof (rule that)
  show "row (jobs (d\<lparr>jobs := put j s' (jobs d)\<rparr>)) i = Some (if i = j then s' else r)" using assms(1) by simp
  show "jb_version (if i = j then s' else r) = jb_version r + int (op_changes i op x (Some r) (Some (if i = j then s' else r)))"
    by (rule one_change [OF _ assms(4)]) (use assms(1-3) in auto)
qed

lemma claim_changes:
  assumes "queue_ok d" "row (jobs d) i = Some r" "claim_job fate loadable w dur p k now d = (d', x)"
  obtains r' where "row (jobs d') i = Some r'" "jb_version r' = jb_version r + int (op_changes i (Claim fate w dur p k now) x (Some r) (Some r'))"
  using assms(3)
proof (cases rule: claim_cases)
  case 1
  then show thesis using that [of r] assms(2) by (simp add: refused_def op_changes_def)
next
  case (2 p')
  let ?r = "if lease_over (unix_milli now) r \<and> claim_scope p' k r then expired_row (unix_milli now) r else r"
  have "row (jobs d') i = Some ?r" using expire_leases_facts(1) [OF 2(2)] assms(2) by simp
  moreover have "?r = r \<or> job_step r ?r" by (auto intro: step_expire)
  ultimately show thesis using that one_change [where r = r and r' = ?r] 2(4) by simp
next
  case (3 p' ow d1 j s rest)
  let ?s = "leased_row ow (unix_milli now) (unix_milli (from_milli (unix_milli now) + dur)) s"
  let ?r = "if lease_over (unix_milli now) r \<and> claim_scope p' k r then expired_row (unix_milli now) r else r"
  have r: "row (jobs d1) i = Some ?r" "?r = r \<or> job_step r ?r"
    using expire_leases_facts(1) [OF 3(3)] assms(2) by (auto intro: step_expire)
  have "table_ok (jobs d1)" using queue_ok_expire [OF assms(1) 3(3)] by (simp add: queue_ok_def)
  note due = due_jobs_Cons [OF 3(4) this]
  have s: "job_step s ?s" by (rule step_lease) (use due(2) in \<open>simp_all add: claimable_def\<close>)
  show thesis
  proof (cases "i = j")
    case False
    then have "\<not> hands_out i (Claim fate w dur p k now) x" by (simp add: 3(7))
    then show thesis using that [of ?r] r False one_change [where r = r and r' = ?r] by (simp add: 3(6))
  next
    case True
    then have sr: "s = ?r" using due(1) r(1) by simp
    have v: "jb_version ?s = jb_version ?r + 1" using job_step_facts(1) [OF s] sr by simp
    have "jb_state s \<noteq> JobLeased" using due(2) by (auto simp: claimable_def)
    then have "?r = r \<longrightarrow> jb_state r \<noteq> JobLeased" "?r \<noteq> r \<longrightarrow> jb_state r = JobLeased" using sr by (auto simp: lease_over_def)
    then have "jb_version ?s = jb_version r + int (op_changes i (Claim fate w dur p k now) x (Some r) (Some ?s))"
      using v r(2) job_step_facts(1) [of r ?r] True by (auto simp: op_changes_def 3(7))
    then show thesis using that [of ?s] True by (simp add: 3(6))
  qed
qed

lemma queue_step_changes:
  assumes "queue_ok d" "queue_step digest loadable op d = (d', x)" "row (jobs d) i = Some r"
  obtains r' where "row (jobs d') i = Some r'" "jb_version r' = jb_version r + int (op_changes i op x (Some r) (Some r'))"
proof -
  note result = that
  have same: thesis if "d' = d" using that assms(3) by (intro result [of r]) (simp_all add: op_changes_def)
  show thesis
  proof (cases "finisher op")
    case (Some f)
    obtain j w v t where f: "finisher op = Some (j, w, v, t)" using Some by (cases f) auto
    then have n: "\<not> hands_out i op x" using hands_out_claim by fastforce
    show thesis using finish_cases [OF assms(2) f]
    proof
      assume "lease_ended j w v t d d' x"
      then obtain s s' where "row (jobs d) j = Some s" "job_step s s'" "d' = d\<lparr>jobs := put j s' (jobs d)\<rparr>" by (auto simp: lease_ended_def)
      then show thesis using put_change [OF assms(3), of j s s'] n that by blast
    qed (simp add: refused_def same)
  next
    case None
    then consider fate now p k t m nb where "op = Enqueue fate now p k t m nb" | fate w dur p k now where "op = Claim fate w dur p k now"
      | fate now j v where "op = Cancel fate now j v"
      by (cases op) auto
    then show thesis
    proof cases
      case 1
      then obtain y where "enqueue_job fate digest loadable now p k t m nb d = (d', y)" using assms(2) by (auto dest!: apsnd_eqD)
      then show thesis
      proof (cases rule: enqueue_cases)
        case (3 p' key s)
        have "i \<noteq> job_seq d + 1" using queue_ok_row [OF assms(1,3)] by simp
        then show thesis using that [of r] assms(3) by (simp add: 3(6) op_changes_def)
      qed (simp_all add: same refused_def)
    next
      case 2
      then have c: "claim_job fate loadable w dur p k now d = (d', x)" using assms(2) by simp
      show thesis by (rule claim_changes [OF assms(1,3) c]) (use that 2 in auto)
    next
      case 3
      then obtain y where y: "cancel_job fate loadable now j v d = (d', y)" using assms(2) by (auto dest!: apsnd_eqD)
      from cancel_cases [OF y] show thesis
      proof
        assume "\<exists>s s'. row (jobs d) j = Some s \<and> job_step s s' \<and> job_checks s' \<and> jb_state s \<noteq> JobLeased \<and>
          jb_state s' = JobCancelled \<and> d' = d\<lparr>jobs := put j s' (jobs d)\<rparr> \<and> y = Inr s'"
        then obtain s s' where s: "row (jobs d) j = Some s" "job_step s s'" "d' = d\<lparr>jobs := put j s' (jobs d)\<rparr>" by blast
        have "\<not> hands_out i op x" using 3 by simp
        then show thesis using put_change [OF assms(3) s(1,2)] s(3) that by blast
      qed (simp add: refused_def same)
    qed
  qed
qed

lemma run_queue_changes:
  assumes "queue_ok d" "row (jobs d) i = Some r" "row (jobs (run_queue digest loadable ops d)) i = Some r'"
  shows "jb_version r' = jb_version r + int (changes digest loadable i ops d)"
  using assms
proof (induction ops arbitrary: d r)
  case (Cons op ops)
  obtain d1 x where s: "queue_step digest loadable op d = (d1, x)" by fastforce
  obtain r1 where r1: "row (jobs d1) i = Some r1" "jb_version r1 = jb_version r + int (op_changes i op x (Some r) (Some r1))"
    by (rule queue_step_changes [OF Cons.prems(1) s Cons.prems(2)])
  have "queue_ok d1" using queue_step_moves [OF Cons.prems(1) s] by simp
  from Cons.IH [OF this r1(1)] Cons.prems(2,3) r1 s show ?case by simp
qed simp

text \<open>
  C10:
  From the empty queue, whatever operations run: the table keeps its constraints and unique keys,
  a job that is there stays there, what it is about never changes, its version grows by exactly one
  with every change of its row, and in a final state nothing of it changes any more.
\<close>

theorem jobs_are_kept:
  assumes "d = run_queue digest loadable ops \<lparr>jobs = [], job_seq = 0\<rparr>" "row (jobs d) i = Some r"
  shows "queue_ok d \<and> job_checks r \<and> (\<exists>r'. row (jobs (run_queue digest loadable ops' d)) i = Some r' \<and> job_checks r' \<and>
    same_identity r r' \<and> (is_terminal_state (jb_state r) \<longrightarrow> r' = r) \<and>
    jb_version r' = jb_version r + int (changes digest loadable i ops' d))"
proof -
  have ok: "queue_ok d" using run_queue_moves [OF empty_queue_ok] assms(1) by simp
  obtain r' where r': "row (jobs (run_queue digest loadable ops' d)) i = Some r'" "job_step\<^sup>*\<^sup>* r r'"
    by (rule run_queue_row [OF ok assms(2)])
  have ok': "queue_ok (run_queue digest loadable ops' d)" using run_queue_moves [OF ok] by blast
  show ?thesis
    using ok r'(1) queue_ok_row [OF ok assms(2)] queue_ok_row [OF ok' r'(1)] job_steps_facts(2,3) [OF r'(2)]
      run_queue_changes [OF ok assms(2) r'(1)] by auto
qed

text \<open>How often a run hands out a job.\<close>

fun handed_out :: "(string \<Rightarrow> string) \<Rightarrow> (job_row \<Rightarrow> bool) \<Rightarrow> int \<Rightarrow> queue_op list \<Rightarrow> queue_db \<Rightarrow> nat" where
  "handed_out digest loadable i [] d = 0"
| "handed_out digest loadable i (op # ops) d =
     (let (d1, x) = queue_step digest loadable op d in
      (if hands_out i op x then 1 else 0) + handed_out digest loadable i ops d1)"

lemma attempts_mono:
  assumes "job_step\<^sup>*\<^sup>* r r'" "jb_attempts r \<le> jb_max r" "jb_attempts r' \<le> jb_max r'"
  shows "jb_attempts r \<le> jb_attempts r'"
proof -
  have "jb_attempts r \<le> jb_attempts r' \<and> (jb_attempts r' \<le> jb_max r')"
    using assms(1)
  proof (induction rule: rtranclp_induct)
    case (step y z)
    have "jb_attempts z \<le> jb_max z"
      using step(2,3) by (cases rule: job_step.cases) (auto simp: expired_row_def leased_row_def finished_row_def)
    then show ?case using job_step_facts(4) [OF step(2)] step(3) by simp
  qed (simp add: assms(2))
  then show ?thesis by simp
qed

lemma checks_attempts: "job_checks r \<Longrightarrow> 0 \<le> jb_attempts r \<and> jb_attempts r \<le> jb_max r"
  by (simp add: job_checks_def)

lemma hands_out_attempts:
  assumes ok: "queue_ok d" and s: "queue_step digest loadable op d = (d', x)" and h: "hands_out i op x"
    and r: "row (jobs d) i = Some r" "row (jobs d') i = Some r'"
  shows "jb_attempts r + 1 \<le> jb_attempts r'"
proof -
  obtain fate w dur p k now y where op: "op = Claim fate w dur p k now" and x: "x = Inr (i, y)"
    using h by (cases op; cases x) auto
  have "claim_job fate loadable w dur p k now d = (d', Inr (i, y))" using s op x by simp
  then show ?thesis
  proof (cases rule: claim_cases)
    case (3 p' ow d1 j z rest)
    have "table_ok (jobs d1)" using queue_ok_expire [OF ok 3(3)] by (simp add: queue_ok_def)
    then have "row (jobs d1) i = Some z" using due_jobs_Cons(1) [OF 3(4)] 3(7) by simp
    then have "jb_attempts z = jb_attempts r"
      using r(1) by (auto simp: expire_leases_facts(1) [OF 3(3)] expired_row_def)
    then show ?thesis using 3 r(2) by (auto simp: leased_row_def)
  qed (auto simp: refused_def)
qed

lemma handed_out_attempts:
  assumes "queue_ok d" "row (jobs d) i = Some r" "row (jobs (run_queue digest loadable ops d)) i = Some r'"
  shows "int (handed_out digest loadable i ops d) + jb_attempts r \<le> jb_attempts r'"
  using assms
proof (induction ops arbitrary: d r)
  case Nil
  then show ?case by simp
next
  case (Cons op ops)
  obtain d1 x where s: "queue_step digest loadable op d = (d1, x)" by fastforce
  have ok1: "queue_ok d1" and m: "job_moves d d1" using queue_step_moves [OF Cons.prems(1) s] by auto
  obtain r1 where r1: "row (jobs d1) i = Some r1" "job_step\<^sup>*\<^sup>* r r1" using m Cons.prems(2) unfolding job_moves_def by blast
  have "row (jobs (run_queue digest loadable ops d1)) i = Some r'" using Cons.prems(3) s by simp
  note ih = Cons.IH [OF ok1 r1(1) this]
  have "jb_attempts r \<le> jb_attempts r1"
    by (rule attempts_mono [OF r1(2)]) (use queue_ok_row [OF Cons.prems(1,2)] queue_ok_row [OF ok1 r1(1)] checks_attempts in auto)
  then show ?case using ih hands_out_attempts [OF Cons.prems(1) s _ Cons.prems(2) r1(1)] by (auto simp: s)
qed

text \<open>
  C11:
  However long the queue runs, a job is handed out at most as often as it has attempts left.
\<close>

theorem claims_are_bounded:
  assumes "queue_ok d" "row (jobs d) i = Some r"
  shows "int (handed_out digest loadable i ops d) \<le> jb_max r - jb_attempts r"
proof -
  obtain r' where r': "row (jobs (run_queue digest loadable ops d)) i = Some r'" "job_step\<^sup>*\<^sup>* r r'"
    by (rule run_queue_row [OF assms])
  have "queue_ok (run_queue digest loadable ops d)" using run_queue_moves [OF assms(1)] by blast
  then have "jb_attempts r' \<le> jb_max r'" using queue_ok_row r'(1) checks_attempts by blast
  then show ?thesis
    using handed_out_attempts [OF assms r'(1)] job_steps_facts(2) [OF r'(2)] by (simp add: same_identity_def)
qed



text \<open>
  Enqueueing is idempotent: once a target is enqueued, whatever happens to the queue, enqueueing it
  again for the same provider and kind succeeds only with the same job, which is about that target,
  and changes nothing.
\<close>

theorem enqueue_is_idempotent:
  assumes "queue_ok d" "enqueue_job fate digest loadable now p k t m nb d = (d1, Inr (i, r, created))"
    and "d2 = run_queue digest loadable ops d1"
    and "enqueue_job fate' digest loadable now' p k t m' nb' d2 = (d3, Inr (i', r', created'))"
  shows "i' = i \<and> \<not> created' \<and> d3 = d2 \<and> jb_target r' = t \<and> jb_target r = t"
proof -
  have ok1: "queue_ok d1" using enqueue_moves [OF assms(1,2)] by simp
  obtain q key where k: "canonical_provider p = Some q" "job_idempotency_key digest q k t = Some key"
    and r: "row (jobs d1) i = Some r" "jb_key r = key" "jb_target r = t"
    using assms(2)
  proof (cases rule: enqueue_cases)
    case (2 q key j r0 r1)
    have "table_ok (jobs d)" using assms(1) by (simp add: queue_ok_def)
    then have "r0 = r1" using in_row job_by_key_facts(2) [OF 2(3)] 2(4) by force
    then show ?thesis using that [OF 2(1,2)] 2 job_by_key_facts(2) [OF 2(3)] by simp
  next
    case (3 q key r1)
    then show ?thesis using that [OF 3(1,2)] by (simp add: queued_row_def)
  qed (simp add: refused_def)
  obtain r2 where r2: "row (jobs d2) i = Some r2" "job_step\<^sup>*\<^sup>* r r2" using run_queue_row [OF ok1 r(1)] assms(3) by blast
  have ok2: "queue_ok d2" using run_queue_moves [OF ok1] assms(3) by blast
  have key2: "jb_key r2 = key" using job_steps_facts(2) [OF r2(2)] r(2) by (simp add: same_identity_def)
  show ?thesis using assms(4)
  proof (cases rule: enqueue_cases)
    case (2 q' key' j r0 r1)
    have kk: "key' = key" using 2(1,2) k by simp
    note in_d2 = job_by_key_facts(2) [OF 2(3)] row_in [OF r2(1)]
    have "distinct (map (\<lambda>(_, r). jb_key r) (jobs d2))" using ok2 by (simp add: queue_ok_def)
    then have "inj_on (\<lambda>(_, r). jb_key r) (set (jobs d2))" by (simp add: distinct_map)
    then have "(j, r0) = (i, r2)" by (rule inj_onD) (use in_d2 kk key2 in simp_all)
    then show ?thesis using 2(5-7) r(3) by simp
  next
    case (3 q' key' r1)
    have "key' = key" using 3(1,2) k by simp
    then show ?thesis using job_by_key_facts(1) [OF 3(3)] row_in [OF r2(1)] key2 by force
  qed (simp add: refused_def)
qed

section \<open>A job that waits for ever\<close>

fun cancels :: "int \<Rightarrow> queue_op \<Rightarrow> bool" where
  "cancels i (Cancel fate now j v) \<longleftrightarrow> j = i"
| "cancels i _ \<longleftrightarrow> False"

definition exhausted :: "job_row \<Rightarrow> bool" where
  "exhausted r \<longleftrightarrow> jb_state r = JobRetryWait \<and> jb_attempts r = jb_max r"

lemma exhausted_stays:
  assumes ok: "queue_ok d" and r: "row (jobs d) i = Some r" "exhausted r" and s: "queue_step digest loadable op d = (d', x)"
    and c: "\<not> cancels i op"
  shows "row (jobs d') i = Some r"
proof (cases "finisher op")
  case (Some f)
  obtain j w v t where "finisher op = Some (j, w, v, t)" using Some by (cases f) auto
  then show ?thesis using finish_cases [OF s] r by (auto simp: refused_def lease_ended_def lease_held_def exhausted_def)
next
  case None
  then consider fate now p k t m nb where "op = Enqueue fate now p k t m nb" | fate w dur p k now where "op = Claim fate w dur p k now"
    | fate now j v where "op = Cancel fate now j v"
    by (cases op) auto
  then show ?thesis
  proof cases
    case 1
    then obtain y where "enqueue_job fate digest loadable now p k t m nb d = (d', y)" using s by (auto dest!: apsnd_eqD)
    then show ?thesis
    proof (cases rule: enqueue_cases)
      case (3 q key z)
      have "jb_key z = key" by (simp add: 3(4) queued_row_def)
      then have "row (jobs d) (job_seq d + 1) = None" using queue_ok_insert(2) [OF ok _ 3(5)] 3(3) by simp
      then show ?thesis using r(1) by (auto simp: 3(6))
    qed (use r in \<open>simp_all add: refused_def\<close>)
  next
    case 2
    then have "claim_job fate loadable w dur p k now d = (d', x)" using s by simp
    then show ?thesis
    proof (cases rule: claim_cases)
      case (2 q)
      then show ?thesis using r by (simp add: expire_leases_facts(1) [OF 2(2)] lease_over_def exhausted_def)
    next
      case (3 q ow d1 j z rest)
      have r1: "row (jobs d1) i = Some r" using r by (simp add: expire_leases_facts(1) [OF 3(3)] lease_over_def exhausted_def)
      have "table_ok (jobs d1)" using queue_ok_expire [OF ok 3(3)] by (simp add: queue_ok_def)
      then have "j \<noteq> i" using due_jobs_Cons(1,2) [OF 3(4)] r1 r(2) by (auto simp: claimable_def exhausted_def)
      then show ?thesis using r1 by (simp add: 3(6))
    qed (use r in \<open>simp add: refused_def\<close>)
  next
    case 3
    then obtain y where "cancel_job fate loadable now j v d = (d', y)" using s by (auto dest!: apsnd_eqD)
    from cancel_cases [OF this] show ?thesis using r 3 c by (auto simp: refused_def)
  qed
qed

text \<open>
  C13:
  A job whose last attempt was put back for a retry is never handed out, failed or finished again:
  whatever runs, short of cancelling it, it waits for the retry as it is.
\<close>

theorem exhausted_retry_waits_forever:
  assumes "queue_ok d" "row (jobs d) i = Some r" "jb_state r = JobRetryWait" "jb_attempts r = jb_max r"
    and "list_all (\<lambda>op. \<not> cancels i op) ops"
  shows "row (jobs (run_queue digest loadable ops d)) i = Some r \<and> handed_out digest loadable i ops d = 0"
proof -
  have "row (jobs (run_queue digest loadable ops d)) i = Some r" using assms
  proof (induction ops arbitrary: d)
    case (Cons op ops)
    obtain d1 x where s: "queue_step digest loadable op d = (d1, x)" by fastforce
    have "row (jobs d1) i = Some r"
      by (rule exhausted_stays [OF Cons.prems(1,2) _ s]) (use Cons.prems in \<open>simp_all add: exhausted_def\<close>)
    then show ?case using Cons.IH [of d1] Cons.prems queue_step_moves [OF Cons.prems(1) s] by (simp add: s)
  qed simp
  moreover have "int (handed_out digest loadable i ops d) \<le> jb_attempts r - jb_attempts r"
    using handed_out_attempts [OF assms(1,2) calculation] by simp
  ultimately show ?thesis by simp
qed

section \<open>Codes and tokens\<close>

lemma char_of_code: "code_rune n \<Longrightarrow> code_char (char_of n) \<and> char_of n \<noteq> CHR ''_''"
proof -
  assume "code_rune n"
  then have n: "n < 256" "byte (char_of n) = n" by (auto simp: code_rune_def)
  moreover have "char_of n \<noteq> CHR ''_''"
  proof
    assume "char_of n = CHR ''_''"
    then have "byte (char_of n) = 95" by simp
    then show False using n \<open>code_rune n\<close> by (auto simp: code_rune_def)
  qed
  ultimately show ?thesis using \<open>code_rune n\<close> by (auto simp: code_rune_def code_char_def is_digit_def)
qed

definition code_text :: "string \<Rightarrow> bool" where
  "code_text s \<longleftrightarrow> list_all code_char s \<and> (s = [] \<or> hd s \<noteq> CHR ''_'') \<and> length s \<le> maxErrorCodeBytes"

lemma sanitize_loop_facts:
  "code_text out \<Longrightarrow> length out < maxErrorCodeBytes \<Longrightarrow> code_text (sanitize_loop rs out l)"
proof (induction rs out l rule: sanitize_loop.induct)
  case (2 r rs out l)
  define y where "y = (if code_rune r then (out @ [char_of r], False)
      else if \<not> l \<and> out \<noteq> [] then (out @ ''_'', True) else (out, l))"
  have step: "sanitize_loop (r # rs) out l = (if maxErrorCodeBytes \<le> length (fst y) then fst y else sanitize_loop rs (fst y) (snd y))"
    by (simp add: y_def Let_def)
  have y: "code_text (fst y)"
    using 2(2,3) char_of_code [of r] by (auto simp: y_def code_text_def code_char_def hd_append)
  show ?case
  proof (cases "maxErrorCodeBytes \<le> length (fst y)")
    case False
    then have "code_text (sanitize_loop rs (fst y) (snd y))"
      using 2(1) [OF y_def, of "fst y" "snd y"] y by simp
    then show ?thesis using False step by simp
  qed (use y step in simp)
qed simp

lemma trim_underscores_facts:
  assumes "code_text s"
  shows "trim_underscores s = rev (dropWhile (\<lambda>c. c = CHR ''_'') (rev s))" "code_text (trim_underscores s)"
    "trim_underscores s \<noteq> [] \<Longrightarrow> last (trim_underscores s) \<noteq> CHR ''_''"
proof -
  have d: "dropWhile (\<lambda>c. c = CHR ''_'') s = s" using assms by (cases s) (auto simp: code_text_def)
  show t: "trim_underscores s = rev (dropWhile (\<lambda>c. c = CHR ''_'') (rev s))" by (simp add: trim_underscores_def d)
  let ?t = "dropWhile (\<lambda>c. c = CHR ''_'') (rev s)"
  show "trim_underscores s \<noteq> [] \<Longrightarrow> last (trim_underscores s) \<noteq> CHR ''_''"
    unfolding t using hd_dropWhile [of "\<lambda>c. c = CHR ''_''" "rev s"] by (simp add: last_rev)
  define q where "q = trim_underscores s"
  have "s = rev ?t @ rev (takeWhile (\<lambda>c. c = CHR ''_'') (rev s))" by (metis rev_append rev_rev_ident takeWhile_dropWhile_id)
  then obtain u where u: "s = q @ u" unfolding q_def t by blast
  show "code_text (trim_underscores s)" unfolding q_def [symmetric]
    using assms unfolding u code_text_def by (cases q) auto
qed

text \<open>
  A sanitised code is one that the column takes: lower-case letters, digits and underscores, none at
  the ends, from 1 to 64 of them.
\<close>

lemma sanitize_error_code_ok:
  fixes code :: string
  defines "s \<equiv> sanitize_error_code code"
  shows "s \<noteq> [] \<and> length s \<le> 64 \<and> list_all code_char s \<and> hd s \<noteq> CHR ''_'' \<and> last s \<noteq> CHR ''_''"
proof -
  let ?t = "trim_underscores (sanitize_loop (map lower_rune (runes (trim_space code))) [] False)"
  have l: "code_text (sanitize_loop (map lower_rune (runes (trim_space code))) [] False)"
    by (rule sanitize_loop_facts) (simp_all add: code_text_def maxErrorCodeBytes_def)
  note t = trim_underscores_facts(2,3) [OF l]
  have u: "''unknown_error'' \<noteq> [] \<and> length ''unknown_error'' \<le> 64 \<and> list_all code_char ''unknown_error'' \<and>
      hd ''unknown_error'' \<noteq> CHR ''_'' \<and> last ''unknown_error'' \<noteq> CHR ''_''"
    by (simp add: code_char_def is_digit_def)
  have "s = ''unknown_error'' \<or> s = ?t \<and> ?t \<noteq> []"
    using t(1) unfolding s_def sanitize_error_code_def Let_def by (auto simp: code_text_def)
  then show ?thesis using u t by (auto simp: code_text_def maxErrorCodeBytes_def)
qed

lemma parse_int64_format: "- (2 ^ 63) \<le> i \<Longrightarrow> i < 2 ^ 63 \<Longrightarrow> parse_int64 (format_int i) = Some i"
proof -
  assume b: "- (2 ^ 63) \<le> i" "i < 2 ^ 63"
  have d: "hd (format_uint n) \<noteq> CHR ''-'' \<and> hd (format_uint n) \<noteq> CHR ''+''" for n
  proof -
    have "CHR ''-'' \<notin> set (format_uint n)" "CHR ''+'' \<notin> set (format_uint n)"
      using format_uint_no_char [of "CHR ''-''" n] format_uint_no_char [of "CHR ''+''" n] by (simp_all add: is_digit_def)
    then show ?thesis using hd_in_set [OF format_uint_ne [of n]] by metis
  qed
  show ?thesis
  proof (cases "i < 0")
    case True
    then have "nat (- i) \<le> 2 ^ 63" using b(1) by simp
    then show ?thesis using True by (simp add: parse_int64_def format_int_def parse_format_uint)
  next
    case False
    then have n: "nat i < 2 ^ 63" using b(2) by (simp add: nat_less_iff)
    obtain c cs where f: "format_uint (nat i) = c # cs" by (metis format_uint_ne list.exhaust)
    have "parse_uint (c # cs) = Some (nat i)" unfolding f [symmetric] by (rule parse_format_uint) (use n in simp)
    then show ?thesis using False n d [of "nat i"] by (simp add: parse_int64_def format_int_def f)
  qed
qed

text \<open>The lease token of a claim and the id of its job read back.\<close>

lemma lease_token_roundtrip:
  assumes "0 < i" "i < 2 ^ 63" "0 < v" "v < 2 ^ 63" "trim_space worker \<noteq> []"
  shows "parse_discovery_lease (format_int i) (encode_lease_token v) worker = Some (i, v)"
proof -
  have "format_int v \<noteq> []" using assms(3) by (simp add: format_int_def)
  moreover from this have "2 \<le> length (encode_lease_token v)" by (cases "format_int v") (simp_all add: encode_lease_token_def)
  ultimately show ?thesis
    using assms parse_int64_format [of i] parse_int64_format [of v]
    by (simp add: parse_discovery_lease_def encode_lease_token_def has_prefix_def)
qed

lemma lease_token_canonical: "parse_discovery_lease j token worker = Some (i, v) \<Longrightarrow> j = format_int i \<and> token = encode_lease_token v"
  by (auto simp: parse_discovery_lease_def split: option.splits if_splits)

section \<open>Examples\<close>

definition demo_digest :: "string \<Rightarrow> string" where
  "demo_digest s = replicate 64 CHR ''0''"

definition demo_job_target :: job_target where
  "demo_job_target = \<lparr>jt_music = 1, jt_page = 0, jt_revision = 0, jt_artifact = 0, jt_fingerprint = ''f'', jt_policy = ''p'', jt_sha1 = []\<rparr>"

definition demo_enqueue :: queue_op where
  "demo_enqueue = Enqueue DbWorks 5000000 [] ''discover'' demo_job_target 1 zero_time"

definition demo_claim :: queue_op where
  "demo_claim = Claim DbWorks ''worker'' 60000000000 [] ''discover'' 6000000"

definition demo_retry :: queue_op where
  "demo_retry = Retry DbWorks 7000000 7000000 1 ''worker'' 2 1 7000000 8000000 ''timeout''"

definition demo_row :: job_row where
  "demo_row = queued_row (demo_digest []) ProviderVocaloidFandom ''discover'' demo_job_target 1 5 5"

definition demo_queue :: queue_db where
  "demo_queue = run_queue demo_digest (\<lambda>_. True) [demo_enqueue] \<lparr>jobs = [], job_seq = 0\<rparr>"

lemma demo_queue_ok: "queue_ok demo_queue"
  unfolding demo_queue_def using run_queue_moves [OF empty_queue_ok] by blast

lemma demo_queue_row: "row (jobs demo_queue) 1 = Some demo_row"
  by code_simp

lemma jobs_are_kept_witness:
  "\<exists>r'. row (jobs (run_queue demo_digest (\<lambda>_. True) [demo_claim, demo_retry] demo_queue)) 1 = Some r' \<and> same_identity demo_row r' \<and>
     jb_version r' = jb_version demo_row + 2"
proof -
  have "changes demo_digest (\<lambda>_. True) 1 [demo_claim, demo_retry] demo_queue = 2" by code_simp
  then show ?thesis
    using jobs_are_kept [OF demo_queue_def demo_queue_row, of "[demo_claim, demo_retry]"] by auto
qed

lemma claims_are_bounded_witness:
  "int (handed_out demo_digest (\<lambda>_. True) 1 [demo_claim, demo_retry, demo_claim] demo_queue) \<le> 1"
proof -
  have "jb_max demo_row - jb_attempts demo_row = 1" by code_simp
  then show ?thesis using claims_are_bounded [OF demo_queue_ok demo_queue_row, of demo_digest "\<lambda>_. True" "[demo_claim, demo_retry, demo_claim]"] by simp
qed

lemma exhausted_retry_waits_forever_witness:
  "\<exists>r. row (jobs (run_queue demo_digest (\<lambda>_. True) [demo_enqueue, demo_claim, demo_retry] \<lparr>jobs = [], job_seq = 0\<rparr>)) 1 = Some r \<and>
     row (jobs (run_queue demo_digest (\<lambda>_. True) [demo_claim, demo_enqueue] (run_queue demo_digest (\<lambda>_. True) [demo_enqueue, demo_claim, demo_retry] \<lparr>jobs = [], job_seq = 0\<rparr>))) 1 = Some r"
proof -
  let ?d = "run_queue demo_digest (\<lambda>_. True) [demo_enqueue, demo_claim, demo_retry] \<lparr>jobs = [], job_seq = 0\<rparr>"
  have "map_option (\<lambda>r. (jb_state r, jb_attempts r, jb_max r)) (row (jobs ?d) 1) = Some (JobRetryWait, 1, 1)" by code_simp
  then obtain r where r: "row (jobs ?d) 1 = Some r" "jb_state r = JobRetryWait" "jb_attempts r = jb_max r" by auto
  have ok: "queue_ok ?d" using run_queue_moves [OF empty_queue_ok] by blast
  have "list_all (\<lambda>op. \<not> cancels 1 op) [demo_claim, demo_enqueue]" by (simp add: demo_claim_def demo_enqueue_def)
  from exhausted_retry_waits_forever [OF ok r this] r(1) show ?thesis by blast
qed

lemma answer_Inr: "map_sum id f (snd p) = Inr y \<Longrightarrow> \<exists>d z. p = (d, Inr z) \<and> f z = y"
  by (cases p; cases "snd p") auto


lemma enqueue_is_idempotent_witness:
  "\<exists>i r d3 i' r' created'.
     enqueue_job DbWorks demo_digest (\<lambda>_. True) 9000000 [] ''discover'' demo_job_target 3 zero_time
       (run_queue demo_digest (\<lambda>_. True) [demo_claim] demo_queue) = (d3, Inr (i', r', created')) \<and>
     \<not> created' \<and> jb_target r' = demo_job_target"
proof -
  let ?e = "enqueue_job DbWorks demo_digest (\<lambda>_. True) 5000000 [] ''discover'' demo_job_target 1 zero_time \<lparr>jobs = [], job_seq = 0\<rparr>"
  let ?f = "enqueue_job DbWorks demo_digest (\<lambda>_. True) 9000000 [] ''discover'' demo_job_target 3 zero_time
       (run_queue demo_digest (\<lambda>_. True) [demo_claim] demo_queue)"
  have "\<not> isl (snd ?e)" "\<not> isl (snd ?f)" by code_simp+
  then obtain d1 i r c d3 i' r' c' where e: "?e = (d1, Inr (i, r, c))" and f: "?f = (d3, Inr (i', r', c'))"
    by (metis isl_def old.prod.exhaust old.sum.exhaust snd_conv)
  have "demo_queue = d1" using e by (simp add: demo_queue_def demo_enqueue_def)
  then show ?thesis using enqueue_is_idempotent [OF empty_queue_ok e refl, of DbWorks 9000000 3 zero_time "[demo_claim]" d3 i' r' c'] f by blast
qed

lemma lease_ends_once_witness:
  "\<exists>d1 r d3 done. claim_job DbWorks (\<lambda>_. True) ''worker'' 60000000000 [] ''discover'' 6000000 demo_queue = (d1, Inr (1, r)) \<and>
     queue_step demo_digest (\<lambda>_. True) (Complete DbWorks 7000000 7000000 1 ''worker'' 2) d1 = (d3, Inr done) \<and>
     isl (snd (queue_step demo_digest (\<lambda>_. True) (Complete DbWorks 8000000 8000000 1 ''worker'' 2) d3))"
proof -
  let ?c = "claim_job DbWorks (\<lambda>_. True) ''worker'' 60000000000 [] ''discover'' 6000000 demo_queue"
  let ?f = "\<lambda>t. Complete DbWorks t t 1 ''worker'' 2"
  have "map_sum id (\<lambda>(i, r). (i, jb_version r)) (snd ?c) = Inr (1, 2)" by code_simp
  from answer_Inr [OF this] obtain d1 r where c: "?c = (d1, Inr (1, r))" and v: "jb_version r = 2" by auto
  have "\<not> isl (snd (queue_step demo_digest (\<lambda>_. True) (?f 7000000) (fst ?c)))" by code_simp
  then obtain d3 don where f: "queue_step demo_digest (\<lambda>_. True) (?f 7000000) d1 = (d3, Inr don)"
    unfolding c by (metis isl_def old.prod.exhaust old.sum.exhaust fst_conv snd_conv)
  have d2: "d1 = run_queue demo_digest (\<lambda>_. True) [] d1" by simp
  have fin: "finisher (?f t) = Some (1, ''worker'', jb_version r, unix_milli t)" for t by (simp add: v)
  from lease_ends_once [OF demo_queue_ok c d2 fin f]
  have "isl (snd (queue_step demo_digest (\<lambda>_. True) (?f 8000000) (run_queue demo_digest (\<lambda>_. True) [] d3)))"
    using fin by blast
  then show ?thesis using c f by auto
qed

end
