(* ===== verification/LyricsContract.thy ===== *)
theory LyricsContract
  imports LyricsJobs
begin

text \<open>
  What the discovery worker and its queue agree on (\<open>lyricsdiscovery/contract.go\<close>), the delay
  before a retry (\<open>retryDelay\<close> of \<open>lyricsdiscovery/worker.go\<close>), and the adapter between them
  (\<open>store/lyrics_discovery_adapter.go\<close>): its claims, retries and failures as operations of the
  queue. Durations are nanoseconds. The scan and the completion with its artifact are not modelled.
\<close>

section \<open>Errors\<close>

definition CodeCanceled :: string where "CodeCanceled = ''canceled''"
definition CodeQueueUnavailable :: string where "CodeQueueUnavailable = ''queue_unavailable''"
definition CodeSourceUnavailable :: string where "CodeSourceUnavailable = ''source_unavailable''"
definition CodeRateLimited :: string where "CodeRateLimited = ''rate_limited''"
definition CodeTimeout :: string where "CodeTimeout = ''timeout''"
definition CodeTemporary :: string where "CodeTemporary = ''temporary''"
definition CodeInternal :: string where "CodeInternal = ''internal''"
definition CodeInvalidJob :: string where "CodeInvalidJob = ''invalid_job''"
definition CodeInvalidResult :: string where "CodeInvalidResult = ''invalid_result''"
definition CodeNoMatch :: string where "CodeNoMatch = ''no_match''"
definition CodeAmbiguous :: string where "CodeAmbiguous = ''ambiguous''"
definition CodeRestricted :: string where "CodeRestricted = ''restricted''"
definition CodeUnsupported :: string where "CodeUnsupported = ''unsupported''"
definition CodeSourceDrift :: string where "CodeSourceDrift = ''source_drift''"

lemmas code_defs = CodeCanceled_def CodeQueueUnavailable_def CodeSourceUnavailable_def CodeRateLimited_def
  CodeTimeout_def CodeTemporary_def CodeInternal_def CodeInvalidJob_def CodeInvalidResult_def CodeNoMatch_def
  CodeAmbiguous_def CodeRestricted_def CodeUnsupported_def CodeSourceDrift_def

text \<open>
  An error as \<open>errors.Is\<close> and \<open>errors.As\<close> see it: the two errors of a context, the \<open>Error\<close> of the
  package with its code and cause, and any other error with the errors it wraps.
\<close>

datatype discovery_error =
    ErrCanceled | ErrDeadline | ErrCoded string "discovery_error option" | ErrOther "discovery_error list"

fun is_canceled :: "discovery_error \<Rightarrow> bool" where
  "is_canceled ErrCanceled = True"
| "is_canceled ErrDeadline = False"
| "is_canceled (ErrCoded c None) = False"
| "is_canceled (ErrCoded c (Some e)) = is_canceled e"
| "is_canceled (ErrOther es) = list_ex is_canceled es"

fun is_deadline :: "discovery_error \<Rightarrow> bool" where
  "is_deadline ErrCanceled = False"
| "is_deadline ErrDeadline = True"
| "is_deadline (ErrCoded c None) = False"
| "is_deadline (ErrCoded c (Some e)) = is_deadline e"
| "is_deadline (ErrOther es) = list_ex is_deadline es"

text \<open>The code of the first \<open>Error\<close> in the tree.\<close>

fun as_coded :: "discovery_error \<Rightarrow> string option" where
  "as_coded ErrCanceled = None"
| "as_coded ErrDeadline = None"
| "as_coded (ErrCoded c e) = Some c"
| "as_coded (ErrOther es) = (case filter (\<lambda>c. c \<noteq> None) (map as_coded es) of [] \<Rightarrow> None | c # _ \<Rightarrow> c)"

definition retryable :: "string \<Rightarrow> bool" where
  "retryable c \<longleftrightarrow> c \<in> set [CodeQueueUnavailable, CodeSourceUnavailable, CodeRateLimited, CodeTimeout, CodeTemporary, CodeInternal]"

definition valid_code :: "string \<Rightarrow> bool" where
  "valid_code c \<longleftrightarrow> c \<in> set [CodeCanceled, CodeQueueUnavailable, CodeSourceUnavailable, CodeRateLimited, CodeTimeout,
     CodeTemporary, CodeInternal, CodeInvalidJob, CodeInvalidResult, CodeNoMatch, CodeAmbiguous,
     CodeRestricted, CodeUnsupported, CodeSourceDrift]"

definition safe_message :: "string \<Rightarrow> string" where
  "safe_message c =
     (if c = CodeCanceled then ''discovery work canceled''
      else if c = CodeQueueUnavailable then ''discovery queue unavailable''
      else if c = CodeSourceUnavailable then ''lyrics source unavailable''
      else if c = CodeRateLimited then ''lyrics source rate limited''
      else if c = CodeTimeout then ''lyrics discovery timed out''
      else if c = CodeTemporary then ''temporary lyrics discovery failure''
      else if c = CodeInvalidJob then ''invalid discovery job''
      else if c = CodeInvalidResult then ''invalid discovery result''
      else if c = CodeNoMatch then ''no acceptable source match''
      else if c = CodeAmbiguous then ''source match is ambiguous''
      else if c = CodeRestricted then ''source cannot be used''
      else if c = CodeUnsupported then ''source format is unsupported''
      else if c = CodeSourceDrift then ''source identity changed''
      else ''lyrics discovery failed'')"

record classified_error =
  ce_code :: string
  ce_retryable :: bool
  ce_message :: string

definition classified :: "string \<Rightarrow> classified_error" where
  "classified c = \<lparr>ce_code = c, ce_retryable = retryable c, ce_message = safe_message c\<rparr>"

definition classify :: "discovery_error option \<Rightarrow> classified_error" where
  "classify err =
     (case err of None \<Rightarrow> \<lparr>ce_code = [], ce_retryable = False, ce_message = []\<rparr>
      | Some e \<Rightarrow>
          if is_canceled e then classified CodeCanceled
          else if is_deadline e then classified CodeTimeout
          else (case as_coded e of
              Some c \<Rightarrow> if valid_code c then classified c else classified CodeInternal
            | None \<Rightarrow> classified CodeInternal))"

lemma classify_valid: "valid_code (ce_code (classify (Some e)))"
  by (auto simp: classify_def classified_def valid_code_def split: option.split)

text \<open>Only the code decides what happens to a failure, and its message holds nothing of the error.\<close>

lemma classify_classified: "classify (Some e) = classified (ce_code (classify (Some e)))"
  by (auto simp: classify_def classified_def split: option.split)

section \<open>Options\<close>

record worker_options =
  op_scan :: int
  op_lease :: int
  op_timeout :: int
  op_idle :: int
  op_retry_min :: int
  op_retry_max :: int
  op_concurrency :: int

definition maxWorkerConcurrency :: int where "maxWorkerConcurrency = 16"

definition validate_options :: "worker_options \<Rightarrow> string option" where
  "validate_options opts =
     (if op_scan opts \<le> 0 then Some ''scan interval must be positive''
      else if op_lease opts \<le> 0 then Some ''lease duration must be positive''
      else if op_timeout opts \<le> 0 then Some ''job timeout must be positive''
      else if op_lease opts \<le> op_timeout opts then Some ''job timeout must be shorter than lease duration''
      else if op_idle opts \<le> 0 then Some ''idle wait must be positive''
      else if op_retry_min opts \<le> 0 then Some ''retry minimum must be positive''
      else if op_retry_max opts < op_retry_min opts then Some ''retry maximum must be at least retry minimum''
      else if op_concurrency opts < 1 \<or> maxWorkerConcurrency < op_concurrency opts then Some ''concurrency must be between 1 and 16''
      else None)"

section \<open>The delay before a retry\<close>

text \<open>The loop that doubles the delay, with the steps that are left; nothing exceeds the maximum.\<close>

fun retry_doubling :: "int \<Rightarrow> nat \<Rightarrow> int \<Rightarrow> int" where
  "retry_doubling rmax 0 base = base"
| "retry_doubling rmax (Suc n) base =
     (if \<not> base < rmax then base else if rmax div 2 < base then rmax else retry_doubling rmax n (base * 2))"

definition add_jitter :: "int \<Rightarrow> (int \<Rightarrow> int) \<Rightarrow> int \<Rightarrow> int" where
  "add_jitter rmax jitter base =
     (let bound = base div 2 in
      if bound \<le> 0 then base
      else let remaining = rmax - base; bound = (if remaining < bound then remaining else bound) in
        if bound \<le> 0 then base
        else let j = jitter bound; j = (if j < 0 then 0 else j); j = (if bound < j then bound else j) in
          base + j)"

definition retry_delay :: "worker_options \<Rightarrow> (int \<Rightarrow> int) \<Rightarrow> int \<Rightarrow> int" where
  "retry_delay opts jitter attempt =
     (let rmax = op_retry_max opts;
          attempt = (if attempt < 1 then 1 else attempt);
          base = retry_doubling rmax (nat (attempt - 1)) (op_retry_min opts) in
      add_jitter rmax jitter (if rmax < base then rmax else base))"

lemma retry_doubling_closed: "0 < base \<Longrightarrow> base \<le> rmax \<Longrightarrow> retry_doubling rmax n base = min rmax (base * 2 ^ n)"
proof (induction n arbitrary: base)
  case (Suc n)
  show ?case
  proof (cases "base < rmax \<and> \<not> rmax div 2 < base")
    case True
    then have "base * 2 \<le> rmax" by auto
    with True Suc.IH [of "base * 2"] Suc.prems show ?thesis by (simp add: mult.assoc)
  next
    case False
    have "base * 2 * 1 \<le> base * 2 * 2 ^ n" using Suc.prems by (intro mult_left_mono) auto
    moreover have "rmax \<le> base * 2" using False Suc.prems by auto
    ultimately have "rmax \<le> base * 2 ^ Suc n" by (simp add: mult.assoc)
    moreover have "retry_doubling rmax (Suc n) base = rmax" using False Suc.prems by auto
    ultimately show ?thesis by (simp only: min.absorb1)
  qed
qed simp

lemma add_jitter_bounds:
  assumes "0 < base" "base \<le> rmax"
  shows "base \<le> add_jitter rmax jitter base" "add_jitter rmax jitter base \<le> rmax" "2 * add_jitter rmax jitter base \<le> 3 * base"
proof -
  obtain B where B: "B = base div 2" by blast
  have h: "2 * B \<le> base" using B by simp
  define c where "c = min (rmax - base) B"
  have "add_jitter rmax jitter base = (if B \<le> 0 \<or> c \<le> 0 then base else base + max 0 (min c (jitter c)))"
    unfolding add_jitter_def B [symmetric] c_def Let_def by (simp add: min_def max_def)
  moreover have "c \<le> rmax - base" "c \<le> B" by (simp_all add: c_def)
  ultimately show "base \<le> add_jitter rmax jitter base" "add_jitter rmax jitter base \<le> rmax" "2 * add_jitter rmax jitter base \<le> 3 * base"
    using h assms by simp_all linarith+
qed

lemma retry_delay_closed:
  assumes "validate_options opts = None" "1 \<le> attempt"
  shows "retry_delay opts jitter attempt = add_jitter (op_retry_max opts) jitter (min (op_retry_max opts) (op_retry_min opts * 2 ^ nat (attempt - 1)))"
proof -
  have "0 < op_retry_min opts" "op_retry_min opts \<le> op_retry_max opts" using assms(1) by (auto simp: validate_options_def split: if_splits)
  then show ?thesis using assms(2) by (simp add: retry_delay_def Let_def retry_doubling_closed)
qed

text \<open>
  The delay before a retry doubles from the minimum with every attempt, up to the maximum; the
  jitter adds at most half of it and never exceeds the maximum, whatever the random source answers.
\<close>

theorem retry_delay_bounds:
  assumes "validate_options opts = None"
  shows "op_retry_min opts \<le> retry_delay opts jitter attempt \<and> retry_delay opts jitter attempt \<le> op_retry_max opts \<and>
    (1 \<le> attempt \<longrightarrow>
       (let base = min (op_retry_max opts) (op_retry_min opts * 2 ^ nat (attempt - 1)) in
        base \<le> retry_delay opts jitter attempt \<and> 2 * retry_delay opts jitter attempt \<le> 3 * base))"
proof -
  have o: "0 < op_retry_min opts" "op_retry_min opts \<le> op_retry_max opts" using assms by (auto simp: validate_options_def split: if_splits)
  define a where "a = (if attempt < 1 then 1 else attempt)"
  have eq: "retry_delay opts jitter attempt = retry_delay opts jitter a" by (simp add: retry_delay_def a_def)
  have a: "1 \<le> a" "1 \<le> attempt \<Longrightarrow> a = attempt" by (auto simp: a_def)
  have "op_retry_min opts * 1 \<le> op_retry_min opts * 2 ^ nat (a - 1)" using o by (intro mult_left_mono) auto
  then have b: "op_retry_min opts \<le> min (op_retry_max opts) (op_retry_min opts * 2 ^ nat (a - 1))" using o by simp
  let ?b = "min (op_retry_max opts) (op_retry_min opts * 2 ^ nat (a - 1))"
  have p: "0 < ?b" "?b \<le> op_retry_max opts" using b o by auto
  note d = retry_delay_closed [OF assms a(1), of jitter]
  note j = add_jitter_bounds [OF p, of jitter]
  have "op_retry_min opts \<le> retry_delay opts jitter attempt" unfolding eq d using b j(1) by linarith
  moreover have "retry_delay opts jitter attempt \<le> op_retry_max opts" unfolding eq d by (rule j(2))
  ultimately show ?thesis using j(1,3) a(2) unfolding eq d Let_def by metis
qed

section \<open>The adapter\<close>

definition is_valid_error_code :: "string \<Rightarrow> bool" where
  "is_valid_error_code c \<longleftrightarrow> ce_code (classify (Some (ErrCoded c None))) = c"

text \<open>What a worker reports of a failed job, and when it may be tried again.\<close>

record terminal_failure =
  tf_job :: string
  tf_token :: string
  tf_worker :: string
  tf_attempt :: int
  tf_failed_at :: int
  tf_failure :: classified_error

record retry_report = terminal_failure +
  rr_next :: int

datatype adapter_error = StoreFailed queue_error | CodedFailure string

definition adapter_answer :: "queue_db \<times> (queue_error + job_row) \<Rightarrow> queue_db \<times> (adapter_error + job_row)" where
  "adapter_answer p = (fst p, map_sum StoreFailed id (snd p))"

definition adapter_retry ::
  "db_fate \<Rightarrow> (job_row \<Rightarrow> bool) \<Rightarrow> int \<Rightarrow> int \<Rightarrow> retry_report \<Rightarrow> queue_db \<Rightarrow> queue_db \<times> (adapter_error + job_row)" where
  "adapter_retry fate loadable now checked f d =
     (case parse_discovery_lease (tf_job f) (tf_token f) (tf_worker f) of None \<Rightarrow> (d, Inl (CodedFailure CodeInvalidJob))
      | Some (i, v) \<Rightarrow>
          if tf_attempt f \<le> 0 \<or> tf_failed_at f = zero_time \<or> rr_next f = zero_time \<or> \<not> is_valid_error_code (ce_code (tf_failure f))
          then (d, Inl (CodedFailure CodeInvalidJob))
          else adapter_answer (retry_job fate loadable now checked i (tf_worker f) v (tf_attempt f) (tf_failed_at f) (rr_next f)
                 (ce_code (tf_failure f)) d))"

definition adapter_fail ::
  "db_fate \<Rightarrow> (job_row \<Rightarrow> bool) \<Rightarrow> int \<Rightarrow> int \<Rightarrow> terminal_failure \<Rightarrow> queue_db \<Rightarrow> queue_db \<times> (adapter_error + job_row)" where
  "adapter_fail fate loadable now checked f d =
     (case parse_discovery_lease (tf_job f) (tf_token f) (tf_worker f) of None \<Rightarrow> (d, Inl (CodedFailure CodeInvalidJob))
      | Some (i, v) \<Rightarrow>
          if tf_attempt f \<le> 0 \<or> tf_failed_at f = zero_time \<or> \<not> is_valid_error_code (ce_code (tf_failure f))
          then (d, Inl (CodedFailure CodeInvalidJob))
          else adapter_answer (terminal_fail_job fate loadable now checked i (tf_worker f) v (tf_attempt f) (tf_failed_at f)
                 (ce_code (tf_failure f)) d))"

text \<open>
  A claim of the worker: a claimed job of a song that is gone from the catalog, or whose entry is no
  longer the one the job was made for, is dead-lettered at once. The argument \<open>catalog\<close> is what the
  catalog answers, \<open>fates\<close> are those of the claim and of the failure. Of the job that is handed out
  the texts of the catalog are left out.
\<close>

datatype catalog_answer = CatalogMissing | CatalogFails | CatalogIdentity string

record worker_job =
  wj_id :: string
  wj_token :: string
  wj_attempt :: int
  wj_music :: int

definition fail_claimed ::
  "db_fate \<Rightarrow> (job_row \<Rightarrow> bool) \<Rightarrow> int \<Rightarrow> int \<Rightarrow> int \<times> job_row \<Rightarrow> string \<Rightarrow> queue_db \<Rightarrow> queue_db \<times> (queue_error + job_row)" where
  "fail_claimed fate loadable now checked job code d =
     (case job of (i, r) \<Rightarrow>
        terminal_fail_job fate loadable now checked i (case jb_owner r of None \<Rightarrow> [] | Some w \<Rightarrow> w) (jb_version r) (jb_attempts r) now code d)"

definition give_up_claimed ::
  "db_fate \<Rightarrow> (job_row \<Rightarrow> bool) \<Rightarrow> int \<Rightarrow> int \<Rightarrow> int \<times> job_row \<Rightarrow> string \<Rightarrow> queue_db \<Rightarrow> queue_db \<times> (adapter_error + worker_job option)" where
  "give_up_claimed fate loadable now checked job code d =
     (case fail_claimed fate loadable now checked job code d of
        (d1, Inl e) \<Rightarrow> (d1, Inl (StoreFailed e))
      | (d1, Inr _) \<Rightarrow> (d1, Inl (CodedFailure code)))"

definition adapter_claim ::
  "db_fate \<times> db_fate \<Rightarrow> (job_row \<Rightarrow> bool) \<Rightarrow> (int \<Rightarrow> catalog_answer) \<Rightarrow> string \<Rightarrow> int \<Rightarrow> int \<Rightarrow> int \<times> int \<Rightarrow> queue_db \<Rightarrow>
   queue_db \<times> (adapter_error + worker_job option)" where
  "adapter_claim fates loadable catalog worker duration now later d =
     (case claim_job (fst fates) loadable worker duration [] KindDiscover now d of
        (d1, Inl e) \<Rightarrow> if e = JobNotFound then (d1, Inr None) else (d1, Inl (StoreFailed e))
      | (d1, Inr (i, r)) \<Rightarrow>
          let give_up = (\<lambda>code. give_up_claimed (snd fates) loadable (fst later) (snd later) (i, r) code d1) in
          if jb_kind r \<noteq> KindDiscover \<or> jt_fingerprint (jb_target r) = [] \<or> jt_policy (jb_target r) = [] then give_up CodeInvalidJob
          else (case catalog (jt_music (jb_target r)) of
              CatalogMissing \<Rightarrow> give_up CodeInvalidJob
            | CatalogFails \<Rightarrow> (d1, Inl (StoreFailed JobDbFailed))
            | CatalogIdentity fingerprint \<Rightarrow>
                if fingerprint \<noteq> jt_fingerprint (jb_target r) then give_up CodeSourceDrift
                else (d1, Inr (Some \<lparr>wj_id = format_int i, wj_token = encode_lease_token (jb_version r), wj_attempt = jb_attempts r,
                       wj_music = jt_music (jb_target r)\<rparr>))))"

text \<open>The codes of the worker pass the queue as they are.\<close>

lemma code_char_ascii: "code_char c \<Longrightarrow> byte c < 0x80 \<and> \<not> is_space (byte c)"
  by (auto simp: code_char_def is_digit_def is_space_def)

lemma trim_code:
  assumes "list_all code_char c"
  shows "trim_space c = c"
proof -
  have a: "list_all (\<lambda>c. byte c < 0x80) c" using assms by (auto simp: list_all_iff dest: code_char_ascii)
  then have "map fst (segments c) = map byte c" using runes_ascii [of c] by (simp add: runes_def)
  then have "fst ` set (segments c) = byte ` set c" by (metis list.set_map)
  moreover have "\<forall>b \<in> set c. \<not> is_space (byte b)" using assms by (auto simp: list_all_iff dest: code_char_ascii)
  ultimately have n: "\<not> is_space (fst p)" if "p \<in> set (segments c)" for p using imageI [OF that, of fst] by auto
  have d: "dropWhile (is_space \<circ> fst) xs = xs" if "set xs \<subseteq> set (segments c)" for xs
    using that n [of "hd xs"] by (cases xs) auto
  show ?thesis by (simp add: trim_space_def trim_segments_def d segments_concat)
qed

lemma valid_codes: "list_all (\<lambda>c. c \<noteq> [] \<and> list_all code_char c)
   [CodeCanceled, CodeQueueUnavailable, CodeSourceUnavailable, CodeRateLimited, CodeTimeout, CodeTemporary, CodeInternal,
    CodeInvalidJob, CodeInvalidResult, CodeNoMatch, CodeAmbiguous, CodeRestricted, CodeUnsupported, CodeSourceDrift]"
  by (simp add: code_defs code_char_def is_digit_def)

lemma valid_code_clean:
  assumes "valid_code c"
  shows "trim_space c \<noteq> []" "is_valid_error_code c"
proof -
  have "c \<noteq> [] \<and> list_all code_char c" using assms valid_codes unfolding valid_code_def list_all_iff by blast
  then show "trim_space c \<noteq> []" by (simp add: trim_code)
  show "is_valid_error_code c" using assms by (simp add: is_valid_error_code_def classify_def classified_def)
qed

lemma valid_owner_again: "valid_owner w = Some ow \<Longrightarrow> valid_owner ow = Some ow"
  using trim_space_idem [of w] by (auto simp: valid_owner_def Let_def split: if_splits)

text \<open>What a claim leaves behind.\<close>

lemma claimed_facts:
  assumes ok: "queue_ok d" and c: "claim_job fate loadable w dur p k now d = (d1, Inr (i, r))"
  obtains ow where "queue_ok d1" "row (jobs d1) i = Some r" "0 < i" "job_checks r" "0 < jb_version r" "0 < jb_attempts r"
    "valid_owner w = Some ow" "trim_space w \<noteq> []" "jb_state r = JobLeased" "jb_owner r = Some ow" "jb_updated r = unix_milli now"
    "jb_expires r = Some (unix_milli (from_milli (unix_milli now) + dur))" "jb_completed r = None" "k \<noteq> [] \<Longrightarrow> jb_kind r = k"
proof -
  have ok1: "queue_ok d1" using claim_moves [OF ok c] by simp
  note rw = claimed_row [OF c]
  note q = queue_ok_row [OF ok1 rw]
  show ?thesis
  proof (rule claim_cases [OF c], goal_cases)
    case 1
    then show ?case by (simp add: refused_def)
  next
    case (2 p')
    then show ?case by simp
  next
    case (3 p' ow d2 i2 r2 rest)
    have "(i2, r2) \<in> set (due_jobs (unix_milli now) p' k d2)" using 3(4) by simp
    then have "claim_scope p' k r2" by (simp add: due_jobs_def claimable_def)
    moreover have "trim_space w \<noteq> []" using 3(2) by (auto simp: valid_owner_def Let_def split: if_splits)
    moreover have r: "r = leased_row ow (unix_milli now) (unix_milli (from_milli (unix_milli now) + dur)) r2" using 3(7) by simp
    moreover have "0 < jb_version r" "0 < jb_attempts r" using q r by (simp_all add: job_checks_def leased_row_def)
    ultimately show ?thesis using q rw ok1 3(2) by (intro that [of ow]) (simp_all add: leased_row_def claim_scope_def)
  qed
qed

section \<open>Retries and drifted jobs\<close>

lemma unix_milli_mono: "a \<le> b \<Longrightarrow> unix_milli a \<le> unix_milli b"
  by (simp add: unix_milli_def zdiv_mono1)

lemma unix_milli_add: "1000000 \<le> b \<Longrightarrow> unix_milli a < unix_milli (a + b)"
  using zdiv_mono1 [of "a + 1000000" "a + b" 1000000] by (simp add: unix_milli_def)

lemma unix_milli_within: "b \<le> maxRetryDelay \<Longrightarrow> from_milli (unix_milli (a + b)) \<le> from_milli (unix_milli a) + maxRetryDelay"
proof -
  assume "b \<le> maxRetryDelay"
  then have "(a + b) div 1000000 \<le> (a + maxRetryDelay) div 1000000" by (intro zdiv_mono1) simp_all
  also have "(a + maxRetryDelay) div 1000000 = a div 1000000 + maxRetryDelay div 1000000"
    by (simp add: maxRetryDelay_def Hour_def Second_def)
  finally show ?thesis by (simp add: unix_milli_def from_milli_def maxRetryDelay_def Hour_def Second_def)
qed

lemma from_unix_milli: "from_milli (unix_milli t) \<le> t"
  by (simp add: unix_milli_def from_milli_def)

text \<open>The row of a leased job put back for a retry.\<close>

lemma retried_checks:
  assumes "job_checks r" "jb_state r = JobLeased" "jb_updated r \<le> at" "at < next" "list_all code_char code" "code \<noteq> []" "length code \<le> 64"
  shows "job_checks (finished_row JobRetryWait next (Some code) at None r)"
  using assms by (simp add: job_checks_def finished_row_def is_terminal_state_def)

definition retry_of :: "worker_options \<Rightarrow> (int \<Rightarrow> int) \<Rightarrow> string \<Rightarrow> string \<Rightarrow> int \<Rightarrow> worker_job \<Rightarrow> retry_report" where
  "retry_of opts jitter worker code failed_at job =
     \<lparr>tf_job = wj_id job, tf_token = wj_token job, tf_worker = worker, tf_attempt = wj_attempt job, tf_failed_at = failed_at,
      tf_failure = classified code, rr_next = failed_at + retry_delay opts jitter (wj_attempt job)\<rparr>"

text \<open>
  C17:
  A retry of the worker for a claimed job is accepted by the queue while the lease runs: the job waits
  for the delay of its attempt, with its attempts and under the next version. It needs delays of a
  millisecond to 30 days, which is what the configuration allows, and a clock that does not go back.
\<close>

theorem worker_retry_accepted:
  assumes ok: "queue_ok d" and c: "claim_job fate loadable w dur p k now d = (d1, Inr (i, r))"
    and opts: "validate_options opts = None" "1000000 \<le> op_retry_min opts" "op_retry_max opts \<le> maxRetryDelay"
    and code: "valid_code code" and time: "0 \<le> now" "now \<le> failed_at" "failed_at \<le> later" "later \<le> checked"
    and lease: "unix_milli checked < unix_milli (from_milli (unix_milli now) + dur)"
    and range: "i < 2 ^ 63" "jb_version r < 2 ^ 63" and load: "\<And>s. loadable s"
    and job: "wj_id job = format_int i" "wj_token job = encode_lease_token (jb_version r)" "wj_attempt job = jb_attempts r"
  shows "\<exists>r'. adapter_retry DbWorks loadable later checked (retry_of opts jitter w code failed_at job) d1 =
      (d1\<lparr>jobs := put i r' (jobs d1)\<rparr>, Inr r') \<and>
    jb_state r' = JobRetryWait \<and> jb_attempts r' = jb_attempts r \<and> jb_version r' = jb_version r + 1 \<and>
    jb_next r' = unix_milli (failed_at + retry_delay opts jitter (jb_attempts r)) \<and> jb_error r' = Some (sanitize_error_code code)"
proof -
  obtain ow where f: "row (jobs d1) i = Some r" "0 < i" "job_checks r" "0 < jb_version r" "0 < jb_attempts r"
    "valid_owner w = Some ow" "trim_space w \<noteq> []" "jb_state r = JobLeased" "jb_owner r = Some ow" "jb_updated r = unix_milli now"
    "jb_expires r = Some (unix_milli (from_milli (unix_milli now) + dur))" by (rule claimed_facts [OF ok c])
  let ?delay = "retry_delay opts jitter (jb_attempts r)"
  let ?next = "failed_at + ?delay"
  have delay: "1000000 \<le> ?delay" "?delay \<le> maxRetryDelay"
    using retry_delay_bounds [OF opts(1), of jitter "jb_attempts r"] opts(2,3) by auto
  have parse: "parse_discovery_lease (format_int i) (encode_lease_token (jb_version r)) w = Some (i, jb_version r)"
    by (rule lease_token_roundtrip) (use f range in auto)
  have z: "zero_time < 0" by (simp add: zero_time_def Second_def)
  have t: "failed_at \<noteq> zero_time" "?next \<noteq> zero_time" "\<not> failed_at > later + maxClockSkew"
    "0 \<le> from_milli (unix_milli failed_at)" "from_milli (unix_milli failed_at) \<le> from_milli (unix_milli checked) + maxClockSkew"
    using time delay(1) z unix_milli_mono [of failed_at checked]
    by (auto simp: maxClockSkew_def Second_def from_milli_def unix_milli_def pos_imp_zdiv_nonneg_iff)
  have s: "trim_space code \<noteq> []" "is_valid_error_code code" by (rule valid_code_clean [OF code])+
  have sc: "sanitize_error_code code \<noteq> []" "list_all code_char (sanitize_error_code code)" "length (sanitize_error_code code) \<le> 64"
    using sanitize_error_code_ok [of code] by simp_all
  let ?r = "finished_row JobRetryWait (unix_milli ?next) (Some (sanitize_error_code code)) (unix_milli failed_at) None r"
  have chk: "job_checks ?r"
    by (rule retried_checks [OF f(3,8) _ unix_milli_add [OF delay(1)] sc(2,1,3)]) (simp add: f(10) unix_milli_mono time(2))
  have held: "lease_held ow (jb_version r) (unix_milli checked) r" using f lease by (simp add: lease_held_def)
  have "adapter_retry DbWorks loadable later checked (retry_of opts jitter w code failed_at job) d1 =
    adapter_answer (retry_job DbWorks loadable later checked i w (jb_version r) (jb_attempts r) failed_at ?next code d1)"
    using f(5) t(1,2) s(2) by (simp add: adapter_retry_def retry_of_def job parse classified_def)
  also have "\<dots> = adapter_answer (transition_leased DbWorks loadable checked i w (jb_version r) (jb_attempts r) JobRetryWait failed_at (unix_milli ?next) code d1)"
    using t(1-3) unix_milli_add [OF delay(1), of failed_at] unix_milli_within [OF delay(2), of failed_at] by (simp add: retry_job_def)
  also have "\<dots> = adapter_answer (transition_job DbWorks loadable i (\<lambda>s. lease_held ow (jb_version r) (unix_milli checked) s \<and> jb_attempts s = jb_attempts r)
      (finished_row JobRetryWait (unix_milli ?next) (Some (sanitize_error_code code)) (unix_milli failed_at) None) d1)"
    using f(2,4,5,6) s(1) sc t(4,5) z by (simp add: transition_leased_def Let_def)
  also have "\<dots> = (d1\<lparr>jobs := put i ?r (jobs d1)\<rparr>, Inr ?r)"
    using f(1) held chk load by (simp add: transition_job_def adapter_answer_def)
  finally show ?thesis by (intro exI [of _ ?r]) (simp add: finished_row_def)
qed

text \<open>
  C18:
  The adapter hands a job to a worker only with its lease, and only when the catalog still has the
  song as it was when the job was made; a claimed job of a song that is gone or has changed is
  dead-lettered, with no attempts left.
\<close>

theorem adapter_hands_current_jobs:
  assumes ok: "queue_ok d" and c: "claim_job DbWorks loadable w dur [] KindDiscover now d = (d1, Inr (i, r))"
    and time: "0 \<le> now" "now \<le> later" "later \<le> checked" "unix_milli checked < unix_milli (from_milli (unix_milli now) + dur)"
    and range: "i < 2 ^ 63" "jb_version r < 2 ^ 63" and load: "\<And>s. loadable s"
    and run: "adapter_claim (DbWorks, DbWorks) loadable catalog w dur now (later, checked) d = (d', answer)"
  shows "case answer of
      Inr None \<Rightarrow> False
    | Inr (Some job) \<Rightarrow> d' = d1 \<and> parse_discovery_lease (wj_id job) (wj_token job) w = Some (i, jb_version r) \<and>
        wj_attempt job = jb_attempts r \<and> catalog (jt_music (jb_target r)) = CatalogIdentity (jt_fingerprint (jb_target r))
    | Inl e \<Rightarrow> (d' = d1 \<and> catalog (jt_music (jb_target r)) = CatalogFails) \<or>
        (\<exists>r'. row (jobs d') i = Some r' \<and> jb_state r' = JobDeadLetter \<and> jb_attempts r' = jb_max r' \<and>
           (catalog (jt_music (jb_target r)) = CatalogIdentity (jt_fingerprint (jb_target r)) \<longrightarrow>
              jt_fingerprint (jb_target r) = [] \<or> jt_policy (jb_target r) = []))"
proof -
  obtain ow where f: "row (jobs d1) i = Some r" "0 < i" "job_checks r" "0 < jb_version r" "0 < jb_attempts r"
    "valid_owner w = Some ow" "trim_space w \<noteq> []" "jb_state r = JobLeased" "jb_owner r = Some ow" "jb_updated r = unix_milli now"
    "jb_expires r = Some (unix_milli (from_milli (unix_milli now) + dur))" "jb_kind r = KindDiscover"
    by (rule claimed_facts [OF ok c]) (auto simp: KindDiscover_def)
  have parse: "parse_discovery_lease (format_int i) (encode_lease_token (jb_version r)) w = Some (i, jb_version r)"
    by (rule lease_token_roundtrip) (use f range in auto)
  have ow: "valid_owner ow = Some ow" using f(6) by (rule valid_owner_again)
  have give_up: "\<exists>r' e. give_up_claimed DbWorks loadable later checked (i, r) code d1 = (d1\<lparr>jobs := put i r' (jobs d1)\<rparr>, Inl e) \<and>
      jb_state r' = JobDeadLetter \<and> jb_attempts r' = jb_max r'" if code: "valid_code code" for code
  proof -
    let ?at = "unix_milli later"
    let ?r = "(finished_row JobDeadLetter ?at (Some (sanitize_error_code code)) ?at (Some ?at) r)\<lparr>jb_attempts := jb_max r\<rparr>"
    have sc: "sanitize_error_code code \<noteq> []" "list_all code_char (sanitize_error_code code)" "length (sanitize_error_code code) \<le> 64"
      using sanitize_error_code_ok [of code] by simp_all
    have "jb_updated r \<le> ?at" using time(2) by (simp add: f(10) unix_milli_mono)
    then have chk: "job_checks ?r" using f(3,8) sc by (simp add: job_checks_def finished_row_def is_terminal_state_def)
    have held: "lease_held ow (jb_version r) (unix_milli checked) r" using f time(4) by (simp add: lease_held_def)
    have "later \<noteq> zero_time" using time by (simp add: zero_time_def Second_def)
    then have "fail_claimed DbWorks loadable later checked (i, r) code d1 = (d1\<lparr>jobs := put i ?r (jobs d1)\<rparr>, Inr ?r)"
      using f(1,2,4,5,9) ow valid_code_clean(1) [OF code] held chk load
      by (simp add: fail_claimed_def terminal_fail_job_def transition_job_def Let_def maxClockSkew_def Second_def)
    then show ?thesis by (intro exI [of _ ?r]) (simp add: give_up_claimed_def finished_row_def)
  qed
  have codes: "valid_code CodeInvalidJob" "valid_code CodeSourceDrift" by (simp_all add: valid_code_def)
  note d = adapter_claim_def fst_conv snd_conv c prod.case sum.case Let_def
  show ?thesis
  proof (cases "jt_fingerprint (jb_target r) = [] \<or> jt_policy (jb_target r) = []")
    case True
    then show ?thesis using run give_up [OF codes(1)] f(12) unfolding d by auto
  next
    case False
    then show ?thesis using run give_up [OF codes(1)] give_up [OF codes(2)] f(12) parse f(1) unfolding d
      by (cases "catalog (jt_music (jb_target r))") (auto split: if_splits)
  qed
qed

section \<open>Examples\<close>

definition demo_options :: worker_options where
  "demo_options = \<lparr>op_scan = 6 * Hour, op_lease = 120 * Second, op_timeout = 30 * Second, op_idle = 2 * Second,
     op_retry_min = 30 * Second, op_retry_max = 1800 * Second, op_concurrency = 2\<rparr>"

lemma demo_options_valid: "validate_options demo_options = None"
  by (simp add: validate_options_def demo_options_def Hour_def Second_def maxWorkerConcurrency_def)

lemma retry_delay_bounds_witness:
  "op_retry_min demo_options \<le> retry_delay demo_options (\<lambda>b. b) 3 \<and> retry_delay demo_options (\<lambda>b. b) 3 \<le> op_retry_max demo_options"
  using retry_delay_bounds [OF demo_options_valid, of "\<lambda>b. b" 3] by blast

lemma demo_claimed:
  obtains d1 r where "claim_job DbWorks (\<lambda>_. True) ''worker'' 60000000000 [] KindDiscover 6000000 demo_queue = (d1, Inr (1, r))"
    "jb_version r = 2" "jb_target r = demo_job_target"
proof -
  let ?c = "claim_job DbWorks (\<lambda>_. True) ''worker'' 60000000000 [] KindDiscover 6000000 demo_queue"
  have "map_sum id (\<lambda>(i, r). (i, jb_version r, jb_target r)) (snd ?c) = Inr (1, 2, demo_job_target)" by code_simp
  from answer_Inr [OF this] that show ?thesis by auto
qed

lemma worker_retry_accepted_witness:
  "\<exists>d1 r r'. claim_job DbWorks (\<lambda>_. True) ''worker'' 60000000000 [] KindDiscover 6000000 demo_queue = (d1, Inr (1, r)) \<and>
     snd (adapter_retry DbWorks (\<lambda>_. True) 7000000 7000000 (retry_of demo_options (\<lambda>b. b) ''worker'' CodeTimeout 7000000
       \<lparr>wj_id = format_int 1, wj_token = encode_lease_token 2, wj_attempt = jb_attempts r, wj_music = 1\<rparr>) d1) = Inr r' \<and>
     jb_state r' = JobRetryWait"
proof -
  obtain d1 r where c: "claim_job DbWorks (\<lambda>_. True) ''worker'' 60000000000 [] KindDiscover 6000000 demo_queue = (d1, Inr (1, r))"
    and r: "jb_version r = 2" by (rule demo_claimed)
  let ?job = "\<lparr>wj_id = format_int 1, wj_token = encode_lease_token 2, wj_attempt = jb_attempts r, wj_music = 1\<rparr>"
  have o: "1000000 \<le> op_retry_min demo_options" "op_retry_max demo_options \<le> maxRetryDelay"
    by (simp_all add: demo_options_def Second_def maxRetryDelay_def Hour_def)
  have "valid_code CodeTimeout" by (simp add: valid_code_def)
  note w = worker_retry_accepted [OF demo_queue_ok c demo_options_valid o this, of 7000000 7000000 7000000 ?job "\<lambda>b. b"]
  show ?thesis using w c r by (simp add: unix_milli_def from_milli_def) (metis snd_conv)
qed

lemma adapter_hands_current_jobs_witness:
  "\<exists>d' e r'. adapter_claim (DbWorks, DbWorks) (\<lambda>_. True) (\<lambda>_. CatalogIdentity ''g'') ''worker'' 60000000000 6000000 (7000000, 7000000) demo_queue =
     (d', Inl e) \<and> row (jobs d') 1 = Some r' \<and> jb_state r' = JobDeadLetter"
proof -
  obtain d1 r where c: "claim_job DbWorks (\<lambda>_. True) ''worker'' 60000000000 [] KindDiscover 6000000 demo_queue = (d1, Inr (1, r))"
    and r: "jb_version r = 2" "jb_target r = demo_job_target" by (rule demo_claimed)
  obtain d' answer where a: "adapter_claim (DbWorks, DbWorks) (\<lambda>_. True) (\<lambda>_. CatalogIdentity ''g'') ''worker'' 60000000000 6000000
      (7000000, 7000000) demo_queue = (d', answer)" by fastforce
  note w = adapter_hands_current_jobs [OF demo_queue_ok c _ _ _ _ _ _ _ a]
  show ?thesis using w r a
    by (cases answer; cases "projr answer") (auto simp: unix_milli_def from_milli_def demo_job_target_def)
qed

end
