(* ===== verification/LyricsWorker.thy ===== *)
theory LyricsWorker
  imports LyricsContract
begin

text \<open>
  The discovery worker (\<open>lyricsdiscovery/worker.go\<close>): one scanner and its consumers over the two
  mutexes, with the calls to start, drain, cancel and wait. A step is a critical section or a call of
  the store, whose answers are arbitrary; a step that needs a mutex another thread holds cannot be
  made. How long timers run is not modelled: a waiting thread may go on at any time.
\<close>

section \<open>State\<close>

datatype lifecycle_state = StateNew | StateRunning | StateDraining | StateCanceled | StateStopped

datatype disposition = DispositionCompleted | DispositionRetry | DispositionTerminal

record work_outcome =
  wo_job :: worker_job
  wo_disposition :: disposition
  wo_error :: string
  wo_next :: "int option"
  wo_finished :: int

record worker_status =
  ws_started_at :: "int option"
  ws_drain_at :: "int option"
  ws_stopped_at :: "int option"
  ws_last_scan :: "int option"
  ws_last_claim :: "int option"
  ws_scans :: nat
  ws_scheduled :: nat
  ws_claimed :: nat
  ws_completed :: nat
  ws_retried :: nat
  ws_terminal :: nat
  ws_outcomes :: "work_outcome list"
  ws_last_error :: "classified_error option"

text \<open>
  Where a thread is. The scanner scans for the first time before it starts the consumers. A call
  of the store made with the admission mutex held is a state of its own.
\<close>

datatype run_pc =
    RunNone | RunScan bool | RunScanning bool int | RunAnswered bool int "discovery_error + int"
  | RunFailed bool discovery_error | RunLoop | RunWaiting | RunLeaving | RunOver

datatype consumer_pc =
    ConTop | ConAdmit | ConClaiming int | ConAnswered int "discovery_error + worker_job option"
  | ConDiscovering worker_job | ConStoring work_outcome | ConFailed discovery_error | ConWaiting | ConExited

text \<open>The caller of Drain that closes the channel then waits for the admission mutex.\<close>

datatype drain_pc = DrainNone | DrainMarked | DrainReturned

record worker =
  wk_state :: lifecycle_state
  wk_started :: bool
  wk_draining :: bool
  wk_canceled :: bool
  wk_drain_closed :: bool
  wk_done_closed :: bool
  wk_context_done :: bool
  wk_cancel_due :: bool
  wk_admission :: bool
  wk_drain :: drain_pc
  wk_run :: run_pc
  wk_consumers :: "consumer_pc list"
  wk_active :: nat
  wk_status :: worker_status
  wk_panicked :: bool

definition new_status :: worker_status where
  "new_status = \<lparr>ws_started_at = None, ws_drain_at = None, ws_stopped_at = None, ws_last_scan = None, ws_last_claim = None,
     ws_scans = 0, ws_scheduled = 0, ws_claimed = 0, ws_completed = 0, ws_retried = 0, ws_terminal = 0,
     ws_outcomes = [], ws_last_error = None\<rparr>"

definition new_worker :: worker where
  "new_worker = \<lparr>wk_state = StateNew, wk_started = False, wk_draining = False, wk_canceled = False,
     wk_drain_closed = False, wk_done_closed = False, wk_context_done = False, wk_cancel_due = False, wk_admission = False,
     wk_drain = DrainNone, wk_run = RunNone, wk_consumers = [], wk_active = 0, wk_status = new_status, wk_panicked = False\<rparr>"

section \<open>Starting and stopping\<close>

datatype start_error = ErrAlreadyStarted | ErrWorkerCanceled | ErrDraining

definition start_worker :: "int \<Rightarrow> worker \<Rightarrow> start_error + worker" where
  "start_worker now w =
     (if wk_started w then Inl ErrAlreadyStarted
      else if wk_canceled w then Inl ErrWorkerCanceled
      else if wk_draining w then Inl ErrDraining
      else Inr (w\<lparr>wk_started := True, wk_state := StateRunning, wk_run := RunScan True,
        wk_status := (wk_status w)\<lparr>ws_started_at := Some now\<rparr>\<rparr>))"

text \<open>Closing a channel twice panics.\<close>

definition close_drain :: "worker \<Rightarrow> worker" where
  "close_drain w = (if wk_drain_closed w then w\<lparr>wk_panicked := True\<rparr> else w\<lparr>wk_drain_closed := True\<rparr>)"

definition close_done :: "worker \<Rightarrow> worker" where
  "close_done w = (if wk_done_closed w then w\<lparr>wk_panicked := True\<rparr> else w\<lparr>wk_done_closed := True\<rparr>)"

definition drain_worker :: "int \<Rightarrow> worker \<Rightarrow> worker" where
  "drain_worker now w =
     (if wk_draining w then w
      else let w = close_drain (w\<lparr>wk_draining := True, wk_drain := DrainMarked\<rparr>) in
        if wk_state w \<noteq> StateCanceled \<and> wk_state w \<noteq> StateStopped
        then w\<lparr>wk_state := StateDraining, wk_status := (wk_status w)\<lparr>ws_drain_at := Some now\<rparr>\<rparr> else w)"

definition cancel_worker :: "int \<Rightarrow> worker \<Rightarrow> worker" where
  "cancel_worker now w =
     (if wk_canceled w then w
      else let w = w\<lparr>wk_canceled := True\<rparr>;
               w = (if \<not> wk_draining w then close_drain (w\<lparr>wk_draining := True\<rparr>) else w);
               w = w\<lparr>wk_state := StateCanceled, wk_cancel_due := wk_started w\<rparr> in
        if \<not> wk_started w then close_done (w\<lparr>wk_status := (wk_status w)\<lparr>ws_stopped_at := Some now\<rparr>\<rparr>) else w)"

definition worker_wait_returns :: "worker \<Rightarrow> bool" where
  "worker_wait_returns w \<longleftrightarrow> \<not> wk_started w \<or> wk_done_closed w"

definition admission_closed :: "worker \<Rightarrow> bool" where
  "admission_closed w \<longleftrightarrow> wk_drain_closed w \<or> wk_context_done w"

definition context_stopped :: "discovery_error \<Rightarrow> worker \<Rightarrow> bool" where
  "context_stopped e w \<longleftrightarrow> is_canceled e \<or> wk_context_done w"

section \<open>Status\<close>

definition maxStatusOutcomes :: nat where "maxStatusOutcomes = 16"

definition set_last_error :: "classified_error option \<Rightarrow> worker \<Rightarrow> worker" where
  "set_last_error e w = w\<lparr>wk_status := (wk_status w)\<lparr>ws_last_error := e\<rparr>\<rparr>"

definition record_infrastructure_error :: "discovery_error \<Rightarrow> worker \<Rightarrow> worker" where
  "record_infrastructure_error e w =
     (let failure = classify (Some e) in
      if (ce_code failure = CodeCanceled \<or> ce_code failure = CodeTimeout) \<and> wk_context_done w then w
      else let failure = (if ce_code failure = CodeInternal then classified CodeQueueUnavailable else failure) in
        set_last_error (Some failure) w)"

definition keep_outcomes :: "work_outcome list \<Rightarrow> work_outcome list" where
  "keep_outcomes os =
     (let overflow = length os - maxStatusOutcomes in
      if 0 < overflow then take maxStatusOutcomes (drop overflow os @ drop (length os - overflow) os) else os)"

definition count_outcome :: "disposition \<Rightarrow> worker_status \<Rightarrow> worker_status" where
  "count_outcome p s =
     (case p of DispositionCompleted \<Rightarrow> s\<lparr>ws_completed := ws_completed s + 1\<rparr>
      | DispositionRetry \<Rightarrow> s\<lparr>ws_retried := ws_retried s + 1\<rparr>
      | DispositionTerminal \<Rightarrow> s\<lparr>ws_terminal := ws_terminal s + 1\<rparr>)"

definition record_outcome :: "work_outcome \<Rightarrow> worker \<Rightarrow> worker" where
  "record_outcome oc w =
     (let s = count_outcome (wo_disposition oc) (wk_status w);
          s = s\<lparr>ws_outcomes := keep_outcomes (ws_outcomes s @ [oc])\<rparr> in
      set_last_error None (w\<lparr>wk_status := s\<rparr>))"

definition record_scan :: "int \<Rightarrow> int \<Rightarrow> worker \<Rightarrow> worker" where
  "record_scan now scheduled w =
     (let s = wk_status w;
          s = s\<lparr>ws_last_scan := Some now, ws_scans := ws_scans s + 1\<rparr>;
          s = (if 0 < scheduled then s\<lparr>ws_scheduled := ws_scheduled s + nat scheduled\<rparr> else s) in
      set_last_error None (w\<lparr>wk_status := s\<rparr>))"

definition record_claim :: "int \<Rightarrow> worker \<Rightarrow> worker" where
  "record_claim now w =
     (let s = wk_status w in
      set_last_error None (w\<lparr>wk_status := s\<lparr>ws_last_claim := Some now, ws_claimed := ws_claimed s + 1\<rparr>\<rparr>))"

section \<open>The threads\<close>

text \<open>What a step may get from outside: the clock, the answers of the store, and what was discovered.\<close>

record outside =
  out_now :: int
  out_scan :: "discovery_error + int"
  out_claim :: "discovery_error + worker_job option"
  out_discover :: "discovery_error option"
  out_valid :: bool
  out_store :: "discovery_error option"

definition spawn_consumers :: "worker_options \<Rightarrow> worker \<Rightarrow> worker" where
  "spawn_consumers opts w =
     w\<lparr>wk_consumers := wk_consumers w @ replicate (nat (op_concurrency opts)) ConTop,
       wk_active := wk_active w + nat (op_concurrency opts)\<rparr>"

text \<open>After a scan that was not stopped: the first starts the consumers.\<close>

definition after_scan :: "worker_options \<Rightarrow> bool \<Rightarrow> worker \<Rightarrow> worker" where
  "after_scan opts first w = (if first then spawn_consumers opts w else w)\<lparr>wk_run := RunLoop\<rparr>"

definition finish_run :: "int \<Rightarrow> worker \<Rightarrow> worker" where
  "finish_run now w =
     (let w = w\<lparr>wk_state := if wk_canceled w then StateCanceled else StateStopped,
              wk_status := (wk_status w)\<lparr>ws_stopped_at := Some now\<rparr>\<rparr> in
      (close_done w)\<lparr>wk_run := RunOver\<rparr>)"

definition run_step :: "worker_options \<Rightarrow> outside \<Rightarrow> worker \<Rightarrow> worker option" where
  "run_step opts x w =
     (case wk_run w of
        RunNone \<Rightarrow> None
      | RunScan first \<Rightarrow>
          if wk_admission w then None
          else if admission_closed w then Some (w\<lparr>wk_run := RunLeaving\<rparr>)
          else Some (w\<lparr>wk_admission := True, wk_run := RunScanning first (out_now x)\<rparr>)
      | RunScanning first now \<Rightarrow> Some (w\<lparr>wk_admission := False, wk_run := RunAnswered first now (out_scan x)\<rparr>)
      | RunAnswered first now (Inl e) \<Rightarrow>
          if context_stopped e w then Some (w\<lparr>wk_run := RunLeaving\<rparr>) else Some (w\<lparr>wk_run := RunFailed first e\<rparr>)
      | RunAnswered first now (Inr scheduled) \<Rightarrow> Some (after_scan opts first (record_scan now scheduled w))
      | RunFailed first e \<Rightarrow> Some (after_scan opts first (record_infrastructure_error e w))
      | RunLoop \<Rightarrow> Some (w\<lparr>wk_run := if admission_closed w then RunLeaving else RunWaiting\<rparr>)
      | RunWaiting \<Rightarrow> Some (w\<lparr>wk_run := if admission_closed w then RunLeaving else RunScan False\<rparr>)
      | RunLeaving \<Rightarrow> if wk_active w = 0 then Some (finish_run (out_now x) w) else None
      | RunOver \<Rightarrow> None)"

definition consumer_moves :: "nat \<Rightarrow> consumer_pc \<Rightarrow> worker \<Rightarrow> worker" where
  "consumer_moves k pc w = w\<lparr>wk_consumers := (wk_consumers w)[k := pc]\<rparr>"

text \<open>The deferred \<open>Done\<close> of the wait group panics below zero.\<close>

definition consumer_exits :: "nat \<Rightarrow> worker \<Rightarrow> worker" where
  "consumer_exits k w =
     (let w = consumer_moves k ConExited w in
      if wk_active w = 0 then w\<lparr>wk_panicked := True\<rparr> else w\<lparr>wk_active := wk_active w - 1\<rparr>)"

text \<open>
  What a discovery leads to: the report the store gets, or nothing where the worker is stopping. The
  store is called with the lease of the job.
\<close>

definition discovered :: "worker_options \<Rightarrow> (int \<Rightarrow> int) \<Rightarrow> outside \<Rightarrow> worker_job \<Rightarrow> worker \<Rightarrow> work_outcome option" where
  "discovered opts jitter x job w =
     (case (case out_discover x of Some e \<Rightarrow> Some e | None \<Rightarrow> if out_valid x then None else Some (ErrCoded CodeInvalidResult None)) of
        None \<Rightarrow> Some \<lparr>wo_job = job, wo_disposition = DispositionCompleted, wo_error = [], wo_next = None, wo_finished = out_now x\<rparr>
      | Some e \<Rightarrow>
          let failure = classify (Some e) in
          if ce_code failure = CodeCanceled \<and> admission_closed w then None
          else if ce_retryable failure
          then Some \<lparr>wo_job = job, wo_disposition = DispositionRetry, wo_error = ce_code failure,
                  wo_next = Some (out_now x + retry_delay opts jitter (wj_attempt job)), wo_finished = out_now x\<rparr>
          else Some \<lparr>wo_job = job, wo_disposition = DispositionTerminal, wo_error = ce_code failure, wo_next = None,
                  wo_finished = out_now x\<rparr>)"

definition consumer_step :: "worker_options \<Rightarrow> (int \<Rightarrow> int) \<Rightarrow> outside \<Rightarrow> nat \<Rightarrow> worker \<Rightarrow> worker option" where
  "consumer_step opts jitter x k w =
     (if length (wk_consumers w) \<le> k then None
      else case wk_consumers w ! k of
        ConTop \<Rightarrow> Some (if admission_closed w then consumer_exits k w else consumer_moves k ConAdmit w)
      | ConAdmit \<Rightarrow>
          if wk_admission w then None
          else if admission_closed w then Some (consumer_exits k w)
          else Some (consumer_moves k (ConClaiming (out_now x)) (w\<lparr>wk_admission := True\<rparr>))
      | ConClaiming now \<Rightarrow> Some (consumer_moves k (ConAnswered now (out_claim x)) (w\<lparr>wk_admission := False\<rparr>))
      | ConAnswered now (Inl e) \<Rightarrow> Some (if context_stopped e w then consumer_exits k w else consumer_moves k (ConFailed e) w)
      | ConAnswered now (Inr None) \<Rightarrow> Some (consumer_moves k ConWaiting w)
      | ConAnswered now (Inr (Some job)) \<Rightarrow> Some (consumer_moves k (ConDiscovering job) (record_claim now w))
      | ConDiscovering job \<Rightarrow>
          (case discovered opts jitter x job w of None \<Rightarrow> Some (consumer_exits k w)
           | Some oc \<Rightarrow> Some (consumer_moves k (ConStoring oc) w))
      | ConStoring oc \<Rightarrow>
          (case out_store x of
             None \<Rightarrow> Some (consumer_moves k ConWaiting (record_outcome oc w))
           | Some e \<Rightarrow> Some (if context_stopped e w then consumer_exits k w else consumer_moves k (ConFailed e) w))
      | ConFailed e \<Rightarrow> Some (consumer_moves k ConWaiting (record_infrastructure_error e w))
      | ConWaiting \<Rightarrow> Some (if admission_closed w then consumer_exits k w else consumer_moves k ConTop w)
      | ConExited \<Rightarrow> None)"

section \<open>Runs\<close>

datatype worker_event =
    StartCall int | DrainCall int | CancelCall int | ParentDone
  | DrainReturns | CancelContext | RunMoves outside | ConsumerMoves nat outside

fun worker_step :: "worker_options \<Rightarrow> (int \<Rightarrow> int) \<Rightarrow> worker_event \<Rightarrow> worker \<Rightarrow> worker option" where
  "worker_step opts jitter (StartCall now) w = (case start_worker now w of Inl e \<Rightarrow> Some w | Inr w' \<Rightarrow> Some w')"
| "worker_step opts jitter (DrainCall now) w = Some (drain_worker now w)"
| "worker_step opts jitter (CancelCall now) w = Some (cancel_worker now w)"
| "worker_step opts jitter ParentDone w = (if wk_started w then Some (w\<lparr>wk_context_done := True\<rparr>) else None)"
| "worker_step opts jitter DrainReturns w =
     (if wk_drain w = DrainMarked \<and> \<not> wk_admission w then Some (w\<lparr>wk_drain := DrainReturned\<rparr>) else None)"
| "worker_step opts jitter CancelContext w =
     (if wk_cancel_due w then Some (w\<lparr>wk_cancel_due := False, wk_context_done := True\<rparr>) else None)"
| "worker_step opts jitter (RunMoves x) w = run_step opts x w"
| "worker_step opts jitter (ConsumerMoves k x) w = consumer_step opts jitter x k w"

fun run_worker :: "worker_options \<Rightarrow> (int \<Rightarrow> int) \<Rightarrow> worker_event list \<Rightarrow> worker \<Rightarrow> worker option" where
  "run_worker opts jitter [] w = Some w"
| "run_worker opts jitter (ev # evs) w =
     (case worker_step opts jitter ev w of None \<Rightarrow> None | Some w' \<Rightarrow> run_worker opts jitter evs w')"

text \<open>The moves of the program, as opposed to the calls from outside.\<close>

fun own_move :: "worker_event \<Rightarrow> bool" where
  "own_move DrainReturns = True"
| "own_move CancelContext = True"
| "own_move (RunMoves x) = True"
| "own_move (ConsumerMoves k x) = True"
| "own_move ev = False"

section \<open>Invariant\<close>

definition claiming :: "consumer_pc \<Rightarrow> bool" where
  "claiming pc \<longleftrightarrow> (case pc of ConClaiming now \<Rightarrow> True | _ \<Rightarrow> False)"

definition scanning :: "run_pc \<Rightarrow> bool" where
  "scanning pc \<longleftrightarrow> (case pc of RunScanning first now \<Rightarrow> True | _ \<Rightarrow> False)"

definition before_spawn :: "run_pc \<Rightarrow> bool" where
  "before_spawn pc \<longleftrightarrow> (case pc of RunNone \<Rightarrow> True | RunScan first \<Rightarrow> first | RunScanning first now \<Rightarrow> first
     | RunAnswered first now r \<Rightarrow> first | RunFailed first e \<Rightarrow> first | _ \<Rightarrow> False)"

definition con_tally :: "(consumer_pc \<Rightarrow> nat) \<Rightarrow> worker \<Rightarrow> nat" where
  "con_tally f w = sum_list (map f (wk_consumers w))"

definition store_calls :: "worker \<Rightarrow> nat" where
  "store_calls w = of_bool (scanning (wk_run w)) + con_tally (\<lambda>pc. of_bool (claiming pc)) w"

definition alive :: "consumer_pc \<Rightarrow> bool" where
  "alive pc \<longleftrightarrow> pc \<noteq> ConExited"

definition flags_ok :: "worker \<Rightarrow> bool" where
  "flags_ok w \<longleftrightarrow>
     \<not> wk_panicked w \<and> wk_draining w = wk_drain_closed w \<and> (wk_canceled w \<longrightarrow> wk_drain_closed w) \<and>
     wk_started w = (wk_run w \<noteq> RunNone) \<and>
     wk_done_closed w = (wk_run w = RunOver \<or> (\<not> wk_started w \<and> wk_canceled w)) \<and>
     (wk_drain w \<noteq> DrainNone \<longrightarrow> wk_drain_closed w) \<and> (wk_cancel_due w \<longrightarrow> wk_run w \<noteq> RunNone) \<and>
     (wk_canceled w \<longrightarrow> wk_state w = StateCanceled) \<and>
     (wk_done_closed w \<longrightarrow> wk_state w = StateCanceled \<or> wk_state w = StateStopped)"

definition calls_counted :: "worker \<Rightarrow> bool" where
  "calls_counted w \<longleftrightarrow>
     store_calls w = of_bool (wk_admission w) \<and> wk_active w = con_tally (\<lambda>pc. of_bool (alive pc)) w \<and>
     (before_spawn (wk_run w) \<longrightarrow> wk_consumers w = []) \<and> (wk_run w = RunOver \<longrightarrow> con_tally (\<lambda>pc. of_bool (alive pc)) w = 0) \<and>
     (wk_drain w = DrainReturned \<longrightarrow> \<not> wk_admission w)"

definition worker_ok :: "worker \<Rightarrow> bool" where
  "worker_ok w \<longleftrightarrow> flags_ok w \<and> calls_counted w"

lemma sum_list_map_update:
  fixes f :: "'a \<Rightarrow> nat"
  shows "k < length xs \<Longrightarrow> sum_list (map f (xs[k := y])) + f (xs ! k) = sum_list (map f xs) + f y"
  by (induction xs arbitrary: k) (auto split: nat.split)

lemma tally_moves:
  "k < length (wk_consumers w) \<Longrightarrow> con_tally f (consumer_moves k pc w) + f (wk_consumers w ! k) = con_tally f w + f pc"
  by (simp add: con_tally_def consumer_moves_def sum_list_map_update)

lemma tally_ge: "k < length (wk_consumers w) \<Longrightarrow> f (wk_consumers w ! k) \<le> con_tally f w"
  by (simp add: con_tally_def elem_le_sum_list [of k "map f (wk_consumers w)", simplified])

lemma consumer_moves_fields [simp]:
  "wk_state (consumer_moves k pc w) = wk_state w" "wk_started (consumer_moves k pc w) = wk_started w"
  "wk_draining (consumer_moves k pc w) = wk_draining w" "wk_canceled (consumer_moves k pc w) = wk_canceled w"
  "wk_drain_closed (consumer_moves k pc w) = wk_drain_closed w" "wk_done_closed (consumer_moves k pc w) = wk_done_closed w"
  "wk_context_done (consumer_moves k pc w) = wk_context_done w" "wk_cancel_due (consumer_moves k pc w) = wk_cancel_due w"
  "wk_admission (consumer_moves k pc w) = wk_admission w" "wk_drain (consumer_moves k pc w) = wk_drain w"
  "wk_run (consumer_moves k pc w) = wk_run w" "wk_active (consumer_moves k pc w) = wk_active w"
  "wk_status (consumer_moves k pc w) = wk_status w" "wk_panicked (consumer_moves k pc w) = wk_panicked w"
  "(wk_consumers (consumer_moves k pc w) = []) = (wk_consumers w = [])"
  by (simp_all add: consumer_moves_def)

text \<open>Nothing of the invariant is in the status.\<close>

lemma status_same [simp]:
  "con_tally f (w\<lparr>wk_status := s\<rparr>) = con_tally f w" "store_calls (w\<lparr>wk_status := s\<rparr>) = store_calls w"
  "con_tally f (w\<lparr>wk_admission := b\<rparr>) = con_tally f w"
  by (simp_all add: con_tally_def store_calls_def)

lemma flags_same [simp]:
  "flags_ok (w\<lparr>wk_status := s\<rparr>) = flags_ok w" "flags_ok (w\<lparr>wk_admission := b\<rparr>) = flags_ok w"
  "flags_ok (w\<lparr>wk_active := n\<rparr>) = flags_ok w" "flags_ok (consumer_moves k pc w) = flags_ok w"
  by (simp_all add: flags_ok_def)

lemma ok_status [simp]: "worker_ok (w\<lparr>wk_status := s\<rparr>) = worker_ok w"
  by (simp add: worker_ok_def calls_counted_def)

lemma record_status:
  "\<exists>s. record_outcome oc w = w\<lparr>wk_status := s\<rparr>" "\<exists>s. record_infrastructure_error e w = w\<lparr>wk_status := s\<rparr>"
  "\<exists>s. record_scan now n w = w\<lparr>wk_status := s\<rparr>" "\<exists>s. record_claim now w = w\<lparr>wk_status := s\<rparr>"
  by (unfold record_outcome_def record_scan_def record_claim_def set_last_error_def Let_def, force)
    (auto simp: record_infrastructure_error_def set_last_error_def Let_def intro: exI [of _ "wk_status w"])

text \<open>The moves of a consumer, by what they do to the calls in progress and the threads alive.\<close>

lemma counts_moved:
  assumes ok: "calls_counted w" and k: "k < length (wk_consumers w)" and al: "alive (wk_consumers w ! k)"
    and v: "v = (consumer_moves k pc w)\<lparr>wk_admission := b, wk_active := wk_active w - of_bool (\<not> alive pc)\<rparr>"
    and b: "of_bool b + of_bool (claiming (wk_consumers w ! k)) = (of_bool (wk_admission w) + of_bool (claiming pc) :: nat)"
    and dr: "wk_drain w = DrainReturned \<Longrightarrow> \<not> b"
  shows "calls_counted v"
proof -
  have t: "con_tally f v = con_tally f (consumer_moves k pc w)" for f by (simp add: v con_tally_def)
  have "store_calls v + of_bool (claiming (wk_consumers w ! k)) = store_calls w + of_bool (claiming pc)"
    using tally_moves [OF k, of "\<lambda>pc. of_bool (claiming pc)" pc] unfolding store_calls_def t by (simp add: v)
  then have c: "store_calls v = of_bool b" using ok b by (simp add: calls_counted_def)
  have al1: "0 < wk_active w" using tally_ge [OF k, of "\<lambda>pc. of_bool (alive pc)"] ok al by (simp add: calls_counted_def)
  have "wk_active v = con_tally (\<lambda>pc. of_bool (alive pc)) v"
    using tally_moves [OF k, of "\<lambda>pc. of_bool (alive pc)" pc] ok al al1 unfolding t by (cases "alive pc") (simp_all add: v calls_counted_def)
  moreover have "wk_run v = wk_run w" "wk_drain v = wk_drain w" "wk_admission v = b" "(wk_consumers v = []) = (wk_consumers w = [])"
    by (simp_all add: v)
  moreover have "wk_run w \<noteq> RunOver" using ok al1 by (auto simp: calls_counted_def)
  ultimately show ?thesis using ok c dr by (simp add: calls_counted_def)
qed

lemma ok_moves:
  assumes "worker_ok w" "k < length (wk_consumers w)" "alive (wk_consumers w ! k)" "alive pc" "\<not> claiming (wk_consumers w ! k)" "\<not> claiming pc"
  shows "worker_ok (consumer_moves k pc w)"
proof -
  have "calls_counted (consumer_moves k pc w)"
    by (rule counts_moved [of w k _ pc "wk_admission w"]) (use assms in \<open>simp_all add: worker_ok_def calls_counted_def\<close>)
  then show ?thesis using assms(1) by (simp add: worker_ok_def)
qed

lemma ok_locks:
  assumes "worker_ok w" "k < length (wk_consumers w)" "alive (wk_consumers w ! k)" "\<not> claiming (wk_consumers w ! k)" "\<not> wk_admission w"
    "\<not> admission_closed w"
  shows "worker_ok (consumer_moves k (ConClaiming now) (w\<lparr>wk_admission := True\<rparr>))"
proof -
  have "wk_drain w \<noteq> DrainReturned" using assms(1,6) by (auto simp: worker_ok_def flags_ok_def admission_closed_def)
  with assms have "calls_counted (consumer_moves k (ConClaiming now) (w\<lparr>wk_admission := True\<rparr>))"
    by - (rule counts_moved [of w k _ "ConClaiming now" True], simp_all add: worker_ok_def alive_def [of "ConClaiming now"] claiming_def [of "ConClaiming now"] consumer_moves_def)
  then show ?thesis using assms(1) by (simp add: worker_ok_def)
qed

lemma claiming_locked:
  assumes "worker_ok w" "k < length (wk_consumers w)" "claiming (wk_consumers w ! k)"
  shows "wk_admission w" "\<not> scanning (wk_run w)"
proof -
  have "1 \<le> con_tally (\<lambda>pc. of_bool (claiming pc)) w" using tally_ge [OF assms(2), of "\<lambda>pc. of_bool (claiming pc)"] assms(3) by simp
  then show "wk_admission w" "\<not> scanning (wk_run w)"
    using assms(1) by (cases "scanning (wk_run w)"; cases "wk_admission w"; simp add: worker_ok_def calls_counted_def store_calls_def)+
qed

lemma ok_unlocks:
  assumes "worker_ok w" "k < length (wk_consumers w)" "claiming (wk_consumers w ! k)" "alive pc" "\<not> claiming pc"
  shows "worker_ok (consumer_moves k pc (w\<lparr>wk_admission := False\<rparr>))"
proof -
  have "alive (wk_consumers w ! k)" using assms(3) by (auto simp: alive_def claiming_def)
  with assms claiming_locked [OF assms(1-3)] have "calls_counted (consumer_moves k pc (w\<lparr>wk_admission := False\<rparr>))"
    by - (rule counts_moved [of w k _ pc False], simp_all add: worker_ok_def consumer_moves_def)
  then show ?thesis using assms(1) by (simp add: worker_ok_def)
qed

lemma exits_fields:
  assumes "worker_ok w" "k < length (wk_consumers w)" "alive (wk_consumers w ! k)"
  shows "consumer_exits k w = (consumer_moves k ConExited w)\<lparr>wk_active := wk_active w - 1\<rparr>" "0 < wk_active w"
proof -
  show "0 < wk_active w" using tally_ge [OF assms(2), of "\<lambda>pc. of_bool (alive pc)"] assms by (simp add: worker_ok_def calls_counted_def)
  then show "consumer_exits k w = (consumer_moves k ConExited w)\<lparr>wk_active := wk_active w - 1\<rparr>" by (simp add: consumer_exits_def Let_def)
qed

lemma ok_exits:
  assumes "worker_ok w" "k < length (wk_consumers w)" "alive (wk_consumers w ! k)" "\<not> claiming (wk_consumers w ! k)"
  shows "worker_ok (consumer_exits k w)"
proof -
  have "calls_counted ((consumer_moves k ConExited w)\<lparr>wk_active := wk_active w - 1\<rparr>)"
    by (rule counts_moved [of w k _ ConExited "wk_admission w"])
      (use assms in \<open>simp_all add: worker_ok_def calls_counted_def alive_def [of ConExited] claiming_def [of ConExited]\<close>)
  then show ?thesis using assms(1) exits_fields [OF assms(1-3)] by (simp add: worker_ok_def)
qed

lemma consumer_step_ok:
  assumes ok: "worker_ok w" and s: "consumer_step opts jitter x k w = Some w'"
  shows "worker_ok w'"
proof -
  have k: "k < length (wk_consumers w)" using s by (simp add: consumer_step_def split: if_splits)
  note m = ok_moves [OF ok k] and e = ok_exits [OF ok k] and l = ok_locks [OF ok k] and u = ok_unlocks [OF ok k]
  have r: "worker_ok (consumer_moves k pc (record_outcome oc w)) = worker_ok (consumer_moves k pc w)"
    "worker_ok (consumer_moves k pc (record_infrastructure_error er w)) = worker_ok (consumer_moves k pc w)"
    "worker_ok (consumer_moves k pc (record_claim now w)) = worker_ok (consumer_moves k pc w)" for pc oc er now
  proof -
    have "consumer_moves k pc (w\<lparr>wk_status := st\<rparr>) = (consumer_moves k pc w)\<lparr>wk_status := st\<rparr>" for st by (simp add: consumer_moves_def)
    then show "worker_ok (consumer_moves k pc (record_outcome oc w)) = worker_ok (consumer_moves k pc w)"
      "worker_ok (consumer_moves k pc (record_infrastructure_error er w)) = worker_ok (consumer_moves k pc w)"
      "worker_ok (consumer_moves k pc (record_claim now w)) = worker_ok (consumer_moves k pc w)"
      by (metis record_status(1) ok_status, metis record_status(2) ok_status, metis record_status(4) ok_status)
  qed
  show ?thesis
    using s k m e l u
    by (cases "wk_consumers w ! k")
       (auto simp: consumer_step_def claiming_def alive_def r split: if_splits sum.splits option.splits)
qed

lemma tally_same [simp]:
  "con_tally f (w\<lparr>wk_run := pc\<rparr>) = con_tally f w" "con_tally f (w\<lparr>wk_active := n\<rparr>) = con_tally f w" "con_tally f (w\<lparr>wk_state := st\<rparr>) = con_tally f w"
  "con_tally f (w\<lparr>wk_drain := dp\<rparr>) = con_tally f w" "con_tally f (w\<lparr>wk_cancel_due := c\<rparr>) = con_tally f w" "con_tally f (w\<lparr>wk_context_done := c\<rparr>) = con_tally f w"
  by (simp_all add: con_tally_def)

lemma after_scan_ok:
  assumes "worker_ok w" "\<not> scanning (wk_run w)" "before_spawn (wk_run w) = first" "wk_run w \<noteq> RunNone" "wk_run w \<noteq> RunOver"
  shows "worker_ok (after_scan opts first w)"
proof -
  have "flags_ok (after_scan opts first w)" using assms by (simp add: worker_ok_def flags_ok_def after_scan_def spawn_consumers_def)
  moreover have "calls_counted (after_scan opts first w)"
    using assms by (cases first; cases "wk_admission w")
      (simp_all add: worker_ok_def calls_counted_def after_scan_def spawn_consumers_def store_calls_def con_tally_def scanning_def [of RunLoop]
        before_spawn_def [of RunLoop] alive_def [of ConTop] claiming_def [of ConTop] sum_list_replicate)
  ultimately show ?thesis by (simp add: worker_ok_def)
qed

text \<open>A move of the scanner between places where it makes no call.\<close>

lemma run_moves_ok:
  assumes "worker_ok w" "\<not> scanning (wk_run w)" "\<not> scanning pc" "wk_run w \<noteq> RunNone" "wk_run w \<noteq> RunOver" "pc \<noteq> RunNone" "pc \<noteq> RunOver"
    "before_spawn pc \<Longrightarrow> before_spawn (wk_run w)"
  shows "worker_ok (w\<lparr>wk_run := pc\<rparr>)"
  using assms by (simp add: worker_ok_def flags_ok_def calls_counted_def store_calls_def)

lemma after_scan_status [simp]: "after_scan opts first (w\<lparr>wk_status := s\<rparr>) = (after_scan opts first w)\<lparr>wk_status := s\<rparr>"
  by (simp add: after_scan_def spawn_consumers_def)

lemma after_scan_recorded:
  "worker_ok (after_scan opts first (record_scan now n w)) = worker_ok (after_scan opts first w)"
  "worker_ok (after_scan opts first (record_infrastructure_error e w)) = worker_ok (after_scan opts first w)"
  by (metis record_status(3) after_scan_status ok_status, metis record_status(2) after_scan_status ok_status)

lemma run_step_ok:
  assumes ok: "worker_ok w" and s: "run_step opts x w = Some w'"
  shows "worker_ok w'"
proof -
  note m = run_moves_ok [OF ok] and sb = scanning_def before_spawn_def
  show ?thesis
  proof (cases "wk_run w")
    case (RunScan first)
    show ?thesis
    proof (cases "admission_closed w")
      case True
      then show ?thesis using s RunScan m [of RunLeaving] by (simp add: run_step_def sb split: if_splits)
    next
      case False
      then have w': "w' = w\<lparr>wk_admission := True, wk_run := RunScanning first (out_now x)\<rparr>" "\<not> wk_admission w"
        using s RunScan by (simp_all add: run_step_def split: if_splits)
      have "wk_drain w \<noteq> DrainReturned" using ok False by (auto simp: worker_ok_def flags_ok_def admission_closed_def)
      then show ?thesis using ok w'(2) RunScan unfolding w'(1) by (simp add: worker_ok_def flags_ok_def calls_counted_def store_calls_def sb)
    qed
  next
    case (RunScanning first now)
    then have w': "w' = w\<lparr>wk_admission := False, wk_run := RunAnswered first now (out_scan x)\<rparr>" using s by (simp add: run_step_def)
    have "wk_admission w" using ok RunScanning by (cases "wk_admission w") (simp_all add: worker_ok_def calls_counted_def store_calls_def sb)
    then show ?thesis using ok RunScanning unfolding w' by (simp add: worker_ok_def flags_ok_def calls_counted_def store_calls_def sb)
  next
    case (RunAnswered first now r)
    have a: "worker_ok (after_scan opts first w)" by (rule after_scan_ok [OF ok]) (simp_all add: RunAnswered sb)
    show ?thesis using s RunAnswered a m [of RunLeaving] m [of "RunFailed first (projl r)"]
      by (cases r) (auto simp: run_step_def after_scan_recorded sb split: if_splits)
  next
    case (RunFailed first e)
    have "worker_ok (after_scan opts first w)" by (rule after_scan_ok [OF ok]) (simp_all add: RunFailed sb)
    then show ?thesis using s RunFailed by (auto simp: run_step_def after_scan_recorded)
  next
    case RunLoop
    then show ?thesis using s m [of RunLeaving] m [of RunWaiting] by (auto simp: run_step_def sb split: if_splits)
  next
    case RunWaiting
    then show ?thesis using s m [of RunLeaving] m [of "RunScan False"] by (auto simp: run_step_def sb split: if_splits)
  next
    case RunLeaving
    then have a: "wk_active w = 0" "w' = finish_run (out_now x) w" using s by (simp_all add: run_step_def split: if_splits)
    have "\<not> wk_done_closed w" "wk_started w" using ok RunLeaving by (simp_all add: worker_ok_def flags_ok_def)
    then show ?thesis using ok RunLeaving a(1) unfolding a(2)
      by (simp add: finish_run_def close_done_def Let_def worker_ok_def flags_ok_def calls_counted_def store_calls_def con_tally_def sb)
  qed (use s in \<open>simp_all add: run_step_def\<close>)
qed

lemma drain_ok:
  assumes "worker_ok w"
  shows "worker_ok (drain_worker now w)"
proof (cases "wk_draining w")
  case False
  then have "\<not> wk_drain_closed w" "\<not> wk_canceled w" using assms by (auto simp: worker_ok_def flags_ok_def)
  then show ?thesis using assms False
    by (cases "wk_state w"; cases "wk_done_closed w") (simp_all add: drain_worker_def close_drain_def Let_def worker_ok_def flags_ok_def calls_counted_def store_calls_def con_tally_def)
qed (use assms in \<open>simp add: drain_worker_def\<close>)

lemma cancel_ok:
  assumes "worker_ok w"
  shows "worker_ok (cancel_worker now w)"
proof (cases "wk_canceled w")
  case False
  then have "wk_draining w = wk_drain_closed w" "wk_started w \<or> \<not> wk_done_closed w" using assms by (auto simp: worker_ok_def flags_ok_def)
  then show ?thesis using assms False
    by (cases "wk_drain_closed w"; cases "wk_started w")
      (simp_all add: cancel_worker_def close_drain_def close_done_def Let_def worker_ok_def flags_ok_def calls_counted_def store_calls_def con_tally_def)
qed (use assms in \<open>simp add: cancel_worker_def\<close>)

lemma start_ok:
  assumes "worker_ok w" "start_worker now w = Inr w'"
  shows "worker_ok w'"
proof -
  have s: "\<not> wk_started w" "\<not> wk_canceled w" "\<not> wk_draining w"
    "w' = w\<lparr>wk_started := True, wk_state := StateRunning, wk_run := RunScan True, wk_status := (wk_status w)\<lparr>ws_started_at := Some now\<rparr>\<rparr>"
    using assms(2) by (simp_all add: start_worker_def split: if_splits)
  then have "wk_run w = RunNone" using assms(1) by (simp add: worker_ok_def flags_ok_def)
  with s assms(1) show ?thesis
    by (cases "wk_drain w"; cases "wk_admission w") (simp_all add: worker_ok_def flags_ok_def calls_counted_def store_calls_def con_tally_def scanning_def before_spawn_def)
qed

lemma context_ok: "worker_ok (w\<lparr>wk_context_done := b\<rparr>) = worker_ok w"
  by (simp add: worker_ok_def flags_ok_def calls_counted_def store_calls_def)

lemma cancel_due_ok: "worker_ok w \<Longrightarrow> worker_ok (w\<lparr>wk_cancel_due := False\<rparr>)"
  by (simp add: worker_ok_def flags_ok_def calls_counted_def store_calls_def)

lemma worker_step_ok:
  assumes "worker_ok w" "worker_step opts jitter ev w = Some w'"
  shows "worker_ok w'"
proof (cases ev)
  case (StartCall now)
  then show ?thesis using assms start_ok [OF assms(1)] by (cases "start_worker now w") auto
next
  case (RunMoves x)
  then show ?thesis using assms run_step_ok by simp
next
  case (ConsumerMoves k x)
  then show ?thesis using assms consumer_step_ok by simp
next
  case ParentDone
  then have "w' = w\<lparr>wk_context_done := True\<rparr>" using assms(2) by (simp split: if_splits)
  then show ?thesis using assms(1) by (simp add: context_ok)
next
  case DrainReturns
  then have d: "wk_drain w = DrainMarked" "\<not> wk_admission w" "w' = w\<lparr>wk_drain := DrainReturned\<rparr>" using assms by (simp_all split: if_splits)
  have "wk_drain_closed w" using d(1) assms(1) by (simp add: worker_ok_def flags_ok_def)
  then show ?thesis using assms(1) d(1,2) unfolding d(3) by (simp add: worker_ok_def flags_ok_def calls_counted_def store_calls_def)
next
  case CancelContext
  then have "w' = w\<lparr>wk_cancel_due := False, wk_context_done := True\<rparr>" using assms(2) by (simp split: if_splits)
  then show ?thesis using assms(1) by (simp add: context_ok cancel_due_ok)
qed (use assms in \<open>auto simp: drain_ok cancel_ok\<close>)

lemma run_worker_ok: "worker_ok w \<Longrightarrow> run_worker opts jitter evs w = Some w' \<Longrightarrow> worker_ok w'"
  by (induction evs arbitrary: w) (auto split: option.splits dest: worker_step_ok)

lemma new_worker_ok: "worker_ok new_worker"
  by (simp add: worker_ok_def flags_ok_def calls_counted_def new_worker_def store_calls_def con_tally_def scanning_def before_spawn_def)

lemmas reachable_ok = run_worker_ok [OF new_worker_ok]

text \<open>What never goes back.\<close>

lemma step_keeps:
  assumes "worker_step opts jitter ev w = Some w'"
  shows "wk_drain w = DrainReturned \<Longrightarrow> wk_drain_closed w = wk_draining w \<Longrightarrow> wk_draining w \<Longrightarrow> wk_drain w' = DrainReturned"
    "admission_closed w \<Longrightarrow> admission_closed w'" "wk_started w \<Longrightarrow> wk_started w'"
proof -
  have r: "wk_drain (after_scan opts f v) = wk_drain v" "wk_drain_closed (after_scan opts f v) = wk_drain_closed v"
    "wk_context_done (after_scan opts f v) = wk_context_done v" "wk_started (after_scan opts f v) = wk_started v" for f v
    by (simp_all add: after_scan_def spawn_consumers_def)
  have t: "wk_drain (record_outcome oc v) = wk_drain v" "wk_drain_closed (record_outcome oc v) = wk_drain_closed v"
    "wk_context_done (record_outcome oc v) = wk_context_done v" "wk_started (record_outcome oc v) = wk_started v"
    "wk_drain (record_infrastructure_error e v) = wk_drain v" "wk_drain_closed (record_infrastructure_error e v) = wk_drain_closed v"
    "wk_context_done (record_infrastructure_error e v) = wk_context_done v" "wk_started (record_infrastructure_error e v) = wk_started v"
    "wk_drain (record_scan now n v) = wk_drain v" "wk_drain_closed (record_scan now n v) = wk_drain_closed v"
    "wk_context_done (record_scan now n v) = wk_context_done v" "wk_started (record_scan now n v) = wk_started v"
    "wk_drain (record_claim now v) = wk_drain v" "wk_drain_closed (record_claim now v) = wk_drain_closed v"
    "wk_context_done (record_claim now v) = wk_context_done v" "wk_started (record_claim now v) = wk_started v" for oc e now n v
    by (simp_all add: record_outcome_def record_infrastructure_error_def record_scan_def record_claim_def set_last_error_def Let_def)
  have x: "wk_drain (consumer_exits k v) = wk_drain v" "wk_drain_closed (consumer_exits k v) = wk_drain_closed v"
    "wk_context_done (consumer_exits k v) = wk_context_done v" "wk_started (consumer_exits k v) = wk_started v" for k v
    by (simp_all add: consumer_exits_def Let_def)
  have "(wk_drain w = DrainReturned \<longrightarrow> wk_draining w \<longrightarrow> wk_drain w' = DrainReturned) \<and>
    (admission_closed w \<longrightarrow> admission_closed w') \<and> (wk_started w \<longrightarrow> wk_started w')"
  proof (cases ev)
    case (RunMoves x)
    then show ?thesis using assms
      by (cases "wk_run w") (auto simp: run_step_def r t finish_run_def close_done_def Let_def admission_closed_def split: if_splits sum.splits)
  next
    case (ConsumerMoves k x)
    then show ?thesis using assms
      by (cases "wk_consumers w ! k") (auto simp: consumer_step_def t x admission_closed_def split: if_splits sum.splits option.splits)
  qed (use assms in \<open>auto simp: start_worker_def drain_worker_def cancel_worker_def close_drain_def close_done_def Let_def admission_closed_def
      split: if_splits sum.splits\<close>)
  then show "wk_drain w = DrainReturned \<Longrightarrow> wk_drain_closed w = wk_draining w \<Longrightarrow> wk_draining w \<Longrightarrow> wk_drain w' = DrainReturned"
    "admission_closed w \<Longrightarrow> admission_closed w'" "wk_started w \<Longrightarrow> wk_started w'" by blast+
qed

lemma drained_stays:
  "worker_ok w \<Longrightarrow> wk_drain w = DrainReturned \<Longrightarrow> run_worker opts jitter evs w = Some w' \<Longrightarrow> wk_drain w' = DrainReturned"
proof (induction evs arbitrary: w)
  case (Cons ev evs)
  then obtain v where v: "worker_step opts jitter ev w = Some v" "run_worker opts jitter evs v = Some w'" by (auto split: option.splits)
  have "wk_drain v = DrainReturned" using step_keeps(1) [OF v(1) Cons.prems(2)] Cons.prems(1,2) by (simp add: worker_ok_def flags_ok_def)
  then show ?case by (rule Cons.IH [OF worker_step_ok [OF Cons.prems(1) v(1)] _ v(2)])
qed simp

section \<open>Draining\<close>

text \<open>
  C14:
  Once the Drain that closed the admission has returned, no scan or claim is being made, and none is
  made ever after, whatever is called and however the threads run.
\<close>

theorem drained_worker_admits_nothing:
  assumes "run_worker opts jitter evs new_worker = Some w" "wk_drain w = DrainReturned" "run_worker opts jitter evs' w = Some w'"
  shows "\<not> wk_admission w' \<and> \<not> scanning (wk_run w') \<and> (\<forall>pc \<in> set (wk_consumers w'). \<not> claiming pc)"
proof -
  have ok: "worker_ok w'" by (rule run_worker_ok [OF reachable_ok [OF assms(1)] assms(3)])
  have "wk_drain w' = DrainReturned" by (rule drained_stays [OF reachable_ok [OF assms(1)] assms(2,3)])
  then have "\<not> wk_admission w'" "store_calls w' = 0" using ok by (simp_all add: worker_ok_def calls_counted_def)
  then show ?thesis by (auto simp: store_calls_def con_tally_def sum_list_eq_0_iff)
qed

section \<open>Stopping\<close>

text \<open>A step of a consumer changes its place and, of the rest, the status, the mutex and the wait group.\<close>

definition con_rank :: "consumer_pc \<Rightarrow> nat" where
  "con_rank pc = (case pc of ConExited \<Rightarrow> 0 | ConTop \<Rightarrow> 1 | ConAdmit \<Rightarrow> 1 | ConWaiting \<Rightarrow> 1 | ConFailed e \<Rightarrow> 2
     | ConStoring oc \<Rightarrow> 3 | ConDiscovering job \<Rightarrow> 4 | ConAnswered now r \<Rightarrow> 5 | ConClaiming now \<Rightarrow> 6)"

definition run_rank :: "worker_options \<Rightarrow> run_pc \<Rightarrow> nat" where
  "run_rank opts pc =
     (let spawn = (\<lambda>first. if first then nat (op_concurrency opts) else 0) in
      case pc of RunNone \<Rightarrow> 0 | RunOver \<Rightarrow> 0 | RunLeaving \<Rightarrow> 1 | RunLoop \<Rightarrow> 2 | RunWaiting \<Rightarrow> 2 | RunScan first \<Rightarrow> 2
      | RunFailed first e \<Rightarrow> 3 + spawn first | RunAnswered first now r \<Rightarrow> 4 + spawn first
      | RunScanning first now \<Rightarrow> 5 + spawn first)"

text \<open>The own moves that are left once admission is closed.\<close>

definition work_left :: "worker_options \<Rightarrow> worker \<Rightarrow> nat" where
  "work_left opts w = run_rank opts (wk_run w) + con_tally con_rank w + of_bool (wk_drain w = DrainMarked) + of_bool (wk_cancel_due w)"

lemma consumer_step_shape:
  assumes "consumer_step opts jitter x k w = Some w'"
  obtains pc where "k < length (wk_consumers w)" "wk_consumers w' = (wk_consumers w)[k := pc]" "wk_consumers w ! k \<noteq> ConExited"
    "wk_run w' = wk_run w" "wk_drain w' = wk_drain w" "wk_cancel_due w' = wk_cancel_due w"
    "admission_closed w \<Longrightarrow> con_rank pc < con_rank (wk_consumers w ! k)"
proof -
  have k: "k < length (wk_consumers w)" using assms by (simp add: consumer_step_def split: if_splits)
  have e: "wk_consumers (consumer_exits k v) = (wk_consumers v)[k := ConExited]" "wk_run (consumer_exits k v) = wk_run v"
    "wk_drain (consumer_exits k v) = wk_drain v" "wk_cancel_due (consumer_exits k v) = wk_cancel_due v" for v
    by (simp_all add: consumer_exits_def consumer_moves_def Let_def)
  note d = consumer_step_def consumer_moves_def e record_outcome_def record_infrastructure_error_def record_claim_def set_last_error_def Let_def
  have "\<exists>pc. wk_consumers w' = (wk_consumers w)[k := pc] \<and> wk_consumers w ! k \<noteq> ConExited \<and> wk_run w' = wk_run w \<and>
    wk_drain w' = wk_drain w \<and> wk_cancel_due w' = wk_cancel_due w \<and> (admission_closed w \<longrightarrow> con_rank pc < con_rank (wk_consumers w ! k))"
  proof (cases "wk_consumers w ! k")
    case (ConAnswered now r)
    show ?thesis
    proof (cases r)
      case (Inl e')
      then show ?thesis using assms k ConAnswered by (cases "context_stopped e' w") (force simp: d con_rank_def)+
    next
      case (Inr j)
      then show ?thesis using assms k ConAnswered by (cases j) (force simp: d con_rank_def)+
    qed
  next
    case (ConStoring oc)
    show ?thesis
    proof (cases "out_store x")
      case (Some e')
      then show ?thesis using assms k ConStoring by (cases "context_stopped e' w") (force simp: d con_rank_def)+
    qed (use assms k ConStoring in \<open>force simp: d con_rank_def\<close>)
  next
    case (ConDiscovering j)
    then show ?thesis using assms k by (cases "discovered opts jitter x j w") (force simp: d con_rank_def)+
  next
    case (ConFailed e')
    obtain st where "record_infrastructure_error e' w = w\<lparr>wk_status := st\<rparr>" using record_status(2) by blast
    then have "w' = consumer_moves k ConWaiting (w\<lparr>wk_status := st\<rparr>)" using assms k ConFailed by (simp add: consumer_step_def)
    then have "wk_consumers w' = (wk_consumers w)[k := ConWaiting]" "wk_run w' = wk_run w" "wk_drain w' = wk_drain w"
      "wk_cancel_due w' = wk_cancel_due w" by (simp_all add: consumer_moves_def)
    then show ?thesis using ConFailed by (intro exI [of _ ConWaiting]) (simp add: con_rank_def)
  next
    case ConAdmit
    then show ?thesis using assms k by (cases "admission_closed w"; cases "wk_admission w") (force simp: d con_rank_def)+
  qed (use assms k in \<open>cases "admission_closed w"; force simp: d con_rank_def\<close>)+
  then show ?thesis using that k by blast
qed

lemma own_move_decreases:
  assumes "worker_ok w" "admission_closed w" "own_move ev" "worker_step opts jitter ev w = Some w'"
  shows "work_left opts w' < work_left opts w"
proof (cases ev)
  case (ConsumerMoves k x)
  then have "consumer_step opts jitter x k w = Some w'" using assms(4) by simp
  then obtain pc where c: "k < length (wk_consumers w)" "wk_consumers w' = (wk_consumers w)[k := pc]"
    "wk_run w' = wk_run w" "wk_drain w' = wk_drain w" "wk_cancel_due w' = wk_cancel_due w" "con_rank pc < con_rank (wk_consumers w ! k)"
    by (rule consumer_step_shape) (use assms(2) in blast)
  show ?thesis using sum_list_map_update [OF c(1), of con_rank pc] c(2-6) by (simp add: work_left_def con_tally_def)
next
  case (RunMoves x)
  then have s: "run_step opts x w = Some w'" using assms(4) by simp
  have a: "wk_run (after_scan opts f v) = RunLoop" "wk_drain (after_scan opts f v) = wk_drain v" "wk_cancel_due (after_scan opts f v) = wk_cancel_due v"
    "con_tally con_rank (after_scan opts f v) = con_tally con_rank v + (if f then nat (op_concurrency opts) else 0)" for f v
    by (simp_all add: after_scan_def spawn_consumers_def con_tally_def con_rank_def sum_list_replicate)
  note d = run_step_def work_left_def run_rank_def Let_def
  have rs: "work_left opts (after_scan opts f (record_scan now n w)) = 2 + con_tally con_rank w + (if f then nat (op_concurrency opts) else 0)
      + of_bool (wk_drain w = DrainMarked) + of_bool (wk_cancel_due w)" for f now n
    using record_status(3) [of now n w] by (auto simp: work_left_def a run_rank_def Let_def simp del: after_scan_status)
  have ri: "work_left opts (after_scan opts f (record_infrastructure_error e w)) = 2 + con_tally con_rank w
      + (if f then nat (op_concurrency opts) else 0) + of_bool (wk_drain w = DrainMarked) + of_bool (wk_cancel_due w)" for f e
    using record_status(2) [of e w] by (auto simp: work_left_def a run_rank_def Let_def simp del: after_scan_status)
  show ?thesis
  proof (cases "wk_run w")
    case (RunAnswered f now r)
    show ?thesis
    proof (cases r)
      case (Inl e)
      then show ?thesis using s RunAnswered by (cases "context_stopped e w") (auto simp: d)
    next
      case (Inr n)
      then have "w' = after_scan opts f (record_scan now n w)" using s RunAnswered by (simp add: run_step_def)
      then show ?thesis using rs [of f now n] RunAnswered by (simp add: work_left_def [of opts w] run_rank_def)
    qed
  next
    case (RunFailed f e)
    then have "w' = after_scan opts f (record_infrastructure_error e w)" using s by (simp add: run_step_def)
    then show ?thesis using ri [of f e] RunFailed by (simp add: work_left_def [of opts w] run_rank_def)
  next
    case RunLeaving
    then have "w' = finish_run (out_now x) w" using s by (simp add: run_step_def split: if_splits)
    then show ?thesis using RunLeaving by (simp add: finish_run_def close_done_def work_left_def run_rank_def Let_def con_tally_def)
  next
    case (RunScanning f now)
    then show ?thesis using s by (auto simp: d)
  qed (use s assms(2) in \<open>simp_all add: d split: if_splits\<close>, auto simp: d)
qed (use assms in \<open>auto simp: work_left_def con_tally_def split: if_splits\<close>)

lemma stopping_progress:
  assumes ok: "worker_ok w" and "admission_closed w" "wk_started w" "\<not> wk_done_closed w"
  shows "\<exists>ev. own_move ev \<and> worker_step opts jitter ev w \<noteq> None"
proof -
  fix x :: outside
  have st: "wk_run w \<noteq> RunNone" "wk_run w \<noteq> RunOver" using assms by (auto simp: worker_ok_def flags_ok_def)
  have con: "consumer_step opts jitter x k w \<noteq> None" if "k < length (wk_consumers w)" "wk_consumers w ! k \<noteq> ConExited"
      "wk_consumers w ! k = ConAdmit \<Longrightarrow> \<not> wk_admission w" for k
    using that by (cases "wk_consumers w ! k") (auto simp: consumer_step_def split: sum.split option.split)
  have run: "run_step opts x w \<noteq> None" if "wk_run w \<noteq> RunLeaving" "\<And>f. wk_run w = RunScan f \<Longrightarrow> \<not> wk_admission w"
    using that st by (cases "wk_run w") (auto simp: run_step_def split: sum.split)
  have "run_step opts x w \<noteq> None \<or> (\<exists>k. consumer_step opts jitter x k w \<noteq> None)"
  proof (cases "wk_admission w")
    case True
    then have c: "store_calls w = 1" using ok by (simp add: worker_ok_def calls_counted_def)
    show ?thesis
    proof (cases "scanning (wk_run w)")
      case True
      then show ?thesis using run by (auto simp: scanning_def split: run_pc.splits)
    next
      case False
      then have "con_tally (\<lambda>pc. of_bool (claiming pc)) w \<noteq> 0" using c by (simp add: store_calls_def)
      then obtain pc where "pc \<in> set (wk_consumers w)" "claiming pc" by (auto simp: con_tally_def sum_list_eq_0_iff)
      then obtain k where "k < length (wk_consumers w)" "claiming (wk_consumers w ! k)" by (metis in_set_conv_nth)
      then show ?thesis using con [of k] by (auto simp: claiming_def split: consumer_pc.splits)
    qed
  next
    case False
    show ?thesis
    proof (cases "wk_run w = RunLeaving \<and> wk_active w \<noteq> 0")
      case True
      then have "con_tally (\<lambda>pc. of_bool (alive pc)) w \<noteq> 0" using ok by (simp add: worker_ok_def calls_counted_def)
      then obtain pc where "pc \<in> set (wk_consumers w)" "alive pc" by (auto simp: con_tally_def sum_list_eq_0_iff)
      then obtain k where "k < length (wk_consumers w)" "wk_consumers w ! k \<noteq> ConExited" by (metis in_set_conv_nth alive_def)
      then show ?thesis using con False by blast
    next
      case f: False
      then show ?thesis using run False by (cases "wk_run w = RunLeaving") (auto simp: run_step_def)
    qed
  qed
  then show ?thesis
  proof
    assume "run_step opts x w \<noteq> None"
    then show ?thesis by (intro exI [of _ "RunMoves x"]) simp
  next
    assume "\<exists>k. consumer_step opts jitter x k w \<noteq> None"
    then obtain k where "consumer_step opts jitter x k w \<noteq> None" ..
    then show ?thesis by (intro exI [of _ "ConsumerMoves k x"]) simp
  qed
qed

text \<open>
  C15:
  After a drain, a cancellation or the end of its context a started worker stops by itself: its
  threads make at most the moves that are left, whatever the store answers and in whatever order they
  run, and they are not stuck before Wait returns.
\<close>

theorem drained_worker_stops:
  assumes "run_worker opts jitter evs new_worker = Some w" "wk_started w" "admission_closed w"
    and "list_all own_move moves" "run_worker opts jitter moves w = Some w'"
  shows "length moves + work_left opts w' \<le> work_left opts w \<and>
    (worker_wait_returns w' \<or> (\<exists>ev. own_move ev \<and> worker_step opts jitter ev w' \<noteq> None))"
proof -
  have "worker_ok w" by (rule reachable_ok [OF assms(1)])
  then have "length moves + work_left opts w' \<le> work_left opts w \<and> worker_ok w' \<and> admission_closed w' \<and> wk_started w'"
    using assms(2-5)
  proof (induction moves arbitrary: w)
    case (Cons ev moves)
    then obtain v where v: "worker_step opts jitter ev w = Some v" "run_worker opts jitter moves v = Some w'" by (auto split: option.splits)
    have "work_left opts v < work_left opts w" using own_move_decreases [OF Cons.prems(1,3) _ v(1)] Cons.prems(4) by simp
    moreover have "length moves + work_left opts w' \<le> work_left opts v \<and> worker_ok w' \<and> admission_closed w' \<and> wk_started w'"
      by (rule Cons.IH [OF worker_step_ok [OF Cons.prems(1) v(1)] step_keeps(3,2) [OF v(1)] _ v(2)]) (use Cons.prems in simp_all)
    ultimately show ?case by simp
  qed simp
  then show ?thesis using stopping_progress [of w' opts jitter] by (auto simp: worker_wait_returns_def)
qed

fun thread_move :: "worker_event \<Rightarrow> bool" where
  "thread_move (RunMoves x) = True"
| "thread_move (ConsumerMoves k x) = True"
| "thread_move ev = False"

lemma over_stays:
  assumes "worker_ok w" "wk_run w = RunOver" "worker_step opts jitter ev w = Some w'"
  shows "wk_run w' = RunOver \<and> \<not> thread_move ev"
proof -
  have n: "consumer_step opts jitter x k w = None" for x k
  proof (rule ccontr)
    assume "consumer_step opts jitter x k w \<noteq> None"
    then obtain v where "consumer_step opts jitter x k w = Some v" by blast
    then have k: "k < length (wk_consumers w)" "wk_consumers w ! k \<noteq> ConExited" by (rule consumer_step_shape, blast)+
    then have "0 < con_tally (\<lambda>pc. of_bool (alive pc)) w" using tally_ge [OF k(1), of "\<lambda>pc. of_bool (alive pc)"] by (simp add: alive_def)
    then show False using assms(1,2) by (simp add: worker_ok_def calls_counted_def)
  qed
  have "wk_started w" using assms(1,2) by (simp add: worker_ok_def flags_ok_def)
  then show ?thesis using assms(2,3) n
    by (cases ev) (auto simp: start_worker_def drain_worker_def cancel_worker_def close_drain_def close_done_def Let_def run_step_def split: if_splits)
qed

text \<open>
  C16:
  No channel is closed twice and no counter of the wait group goes below zero, whatever calls are made
  and however the threads run; and when Wait returns on a worker that was started, its threads are
  gone: nothing moves after it, and no call of the store is in progress.
\<close>

theorem wait_joins_all:
  assumes "run_worker opts jitter evs new_worker = Some w"
  shows "\<not> wk_panicked w \<and>
    (wk_started w \<and> worker_wait_returns w \<longrightarrow>
       (\<forall>pc \<in> set (wk_consumers w). pc = ConExited) \<and> \<not> wk_admission w \<and> wk_state w \<in> {StateCanceled, StateStopped} \<and>
       (\<forall>evs' w'. run_worker opts jitter evs' w = Some w' \<longrightarrow> \<not> list_ex thread_move evs'))"
proof -
  have ok: "worker_ok w" by (rule reachable_ok [OF assms])
  have later: "\<not> list_ex thread_move evs'" if "worker_ok v" "wk_run v = RunOver" "run_worker opts jitter evs' v = Some w'" for evs' v w'
    using that
  proof (induction evs' arbitrary: v)
    case (Cons ev evs')
    then obtain u where u: "worker_step opts jitter ev v = Some u" "run_worker opts jitter evs' u = Some w'" by (auto split: option.splits)
    from over_stays [OF Cons.prems(1,2) u(1)] Cons.IH [OF worker_step_ok [OF Cons.prems(1) u(1)] _ u(2)] show ?case by simp
  qed simp
  have "wk_run w = RunOver" if "wk_started w" "worker_wait_returns w"
    using ok that by (simp add: worker_ok_def flags_ok_def worker_wait_returns_def)
  moreover have "(\<forall>pc \<in> set (wk_consumers w). pc = ConExited) \<and> \<not> wk_admission w" if "wk_run w = RunOver"
  proof -
    have t: "\<forall>pc \<in> set (wk_consumers w). pc = ConExited"
      using ok that by (auto simp: worker_ok_def calls_counted_def con_tally_def sum_list_eq_0_iff alive_def)
    then have "store_calls w = 0" using that by (auto simp: store_calls_def con_tally_def sum_list_eq_0_iff scanning_def claiming_def)
    then show ?thesis using ok t by (simp add: worker_ok_def calls_counted_def)
  qed
  moreover have "wk_state w \<in> {StateCanceled, StateStopped}" if "wk_started w" "worker_wait_returns w"
    using ok that by (auto simp: worker_ok_def flags_ok_def worker_wait_returns_def)
  moreover have "\<not> wk_panicked w" using ok by (simp add: worker_ok_def flags_ok_def)
  ultimately show ?thesis using later [OF ok] by blast
qed

section \<open>Counts\<close>

definition jobs_in_hand :: "consumer_pc \<Rightarrow> nat" where
  "jobs_in_hand pc = (case pc of ConDiscovering job \<Rightarrow> 1 | ConStoring oc \<Rightarrow> 1 | _ \<Rightarrow> 0)"

definition ended :: "worker_status \<Rightarrow> nat" where
  "ended s = ws_completed s + ws_retried s + ws_terminal s"

definition status_ok :: "worker_options \<Rightarrow> worker \<Rightarrow> bool" where
  "status_ok opts w \<longleftrightarrow>
     ended (wk_status w) + con_tally jobs_in_hand w \<le> ws_claimed (wk_status w) \<and> length (ws_outcomes (wk_status w)) \<le> maxStatusOutcomes \<and>
     (wk_consumers w = [] \<or> length (wk_consumers w) = nat (op_concurrency opts))"

text \<open>The code keeps the outcomes of the last 16 jobs.\<close>

lemma keep_outcomes_last: "keep_outcomes os = drop (length os - maxStatusOutcomes) os"
  by (simp add: keep_outcomes_def Let_def)

lemma recorded_status:
  "ended (wk_status (record_outcome oc w)) = ended (wk_status w) + 1" "ws_claimed (wk_status (record_outcome oc w)) = ws_claimed (wk_status w)"
  "length (ws_outcomes (wk_status (record_outcome oc w))) \<le> maxStatusOutcomes"
  "ended (wk_status (record_claim now w)) = ended (wk_status w)" "ws_claimed (wk_status (record_claim now w)) = ws_claimed (wk_status w) + 1"
  "ws_outcomes (wk_status (record_claim now w)) = ws_outcomes (wk_status w)"
  "ended (wk_status (record_infrastructure_error e w)) = ended (wk_status w)"
  "ws_claimed (wk_status (record_infrastructure_error e w)) = ws_claimed (wk_status w)"
  "ws_outcomes (wk_status (record_infrastructure_error e w)) = ws_outcomes (wk_status w)"
  "ended (wk_status (record_scan now n w)) = ended (wk_status w)" "ws_claimed (wk_status (record_scan now n w)) = ws_claimed (wk_status w)"
  "ws_outcomes (wk_status (record_scan now n w)) = ws_outcomes (wk_status w)"
  by (simp_all add: record_outcome_def record_claim_def record_infrastructure_error_def record_scan_def set_last_error_def Let_def ended_def
      keep_outcomes_last count_outcome_def split: disposition.split)

lemma recorded_consumers:
  "wk_consumers (record_outcome oc w) = wk_consumers w" "wk_consumers (record_claim now w) = wk_consumers w"
  "wk_consumers (record_infrastructure_error e w) = wk_consumers w" "wk_consumers (record_scan now n w) = wk_consumers w"
  by (simp_all add: record_outcome_def record_claim_def record_infrastructure_error_def record_scan_def set_last_error_def Let_def)

lemma consumer_step_status:
  assumes so: "status_ok opts w" and s: "consumer_step opts jitter x k w = Some w'"
  shows "status_ok opts w'"
proof -
  have k: "k < length (wk_consumers w)" using s by (rule consumer_step_shape)
  have ml: "length (wk_consumers (consumer_moves k pc v)) = length (wk_consumers v)" "wk_status (consumer_moves k pc v) = wk_status v" for pc v
    by (simp_all add: consumer_moves_def)
  have ex: "wk_status (consumer_exits k w) = wk_status w" "con_tally jobs_in_hand (consumer_exits k w) = con_tally jobs_in_hand (consumer_moves k ConExited w)"
    "length (wk_consumers (consumer_exits k w)) = length (wk_consumers w)"
    by (simp_all add: consumer_exits_def Let_def ml con_tally_def)
  have t: "con_tally jobs_in_hand (consumer_moves k pc v) + jobs_in_hand (wk_consumers w ! k) = con_tally jobs_in_hand w + jobs_in_hand pc"
    if "wk_consumers v = wk_consumers w" for pc v
    using tally_moves [of k v jobs_in_hand pc] k that by (simp add: con_tally_def)
  have m: "status_ok opts (consumer_moves k pc v)"
    if "wk_consumers v = wk_consumers w" "length (ws_outcomes (wk_status v)) \<le> maxStatusOutcomes"
      "ended (wk_status v) + ws_claimed (wk_status w) + jobs_in_hand pc \<le> ended (wk_status w) + ws_claimed (wk_status v) + jobs_in_hand (wk_consumers w ! k)" for pc v
    using so t [OF that(1), of pc] that ml(1) [of pc v] by (auto simp: status_ok_def ml(2))
  have e: "status_ok opts (consumer_exits k w)"
    using so t [of w ConExited] ex by (auto simp: status_ok_def jobs_in_hand_def)
  have o: "length (ws_outcomes (wk_status w)) \<le> maxStatusOutcomes" using so by (simp add: status_ok_def)
  note d = consumer_step_def jobs_in_hand_def recorded_status recorded_consumers o
  show ?thesis
  proof (cases "wk_consumers w ! k")
    case (ConAnswered now r)
    show ?thesis
    proof (cases r)
      case (Inl e')
      then show ?thesis using s k ConAnswered e m [of w "ConFailed e'"] by (cases "context_stopped e' w") (auto simp: d)
    next
      case (Inr j)
      show ?thesis
      proof (cases j)
        case None
        then show ?thesis using s k ConAnswered Inr m [of w ConWaiting] by (auto simp: d)
      next
        case (Some job)
        then show ?thesis using s k ConAnswered Inr m [of "record_claim now w" "ConDiscovering job"] by (auto simp: d)
      qed
    qed
  next
    case (ConStoring oc)
    show ?thesis
    proof (cases "out_store x")
      case None
      then show ?thesis using s k ConStoring m [of "record_outcome oc w" ConWaiting] by (auto simp: d)
    next
      case (Some e')
      then show ?thesis using s k ConStoring e m [of w "ConFailed e'"] by (cases "context_stopped e' w") (auto simp: d)
    qed
  next
    case (ConDiscovering j)
    show ?thesis
    proof (cases "discovered opts jitter x j w")
      case None
      then show ?thesis using s k ConDiscovering e by (simp add: d)
    next
      case (Some oc)
      then show ?thesis using s k ConDiscovering m [of w "ConStoring oc"] by (auto simp: d)
    qed
  next
    case (ConFailed e')
    then show ?thesis using s k m [of "record_infrastructure_error e' w" ConWaiting] by (auto simp: d)
  next
    case (ConClaiming now)
    have "wk_status (w\<lparr>wk_admission := False\<rparr>) = wk_status w" by simp
    with ConClaiming show ?thesis using s k m [of "w\<lparr>wk_admission := False\<rparr>" "ConAnswered now (out_claim x)"] by (auto simp: d)
  next
    case ConAdmit
    then show ?thesis using s k e m [of "w\<lparr>wk_admission := True\<rparr>" "ConClaiming (out_now x)"]
      by (cases "admission_closed w"; cases "wk_admission w") (auto simp: d)
  next
    case ConTop
    then show ?thesis using s k e m [of w ConAdmit] by (cases "admission_closed w") (auto simp: d)
  next
    case ConWaiting
    then show ?thesis using s k e m [of w ConTop] by (cases "admission_closed w") (auto simp: d)
  qed (use s k in \<open>simp add: consumer_step_def\<close>)
qed

lemma after_scan_counts:
  assumes "status_ok opts w" "first \<Longrightarrow> wk_consumers w = []"
  shows "status_ok opts (after_scan opts first w)"
  using assms
  by (cases first) (simp_all add: status_ok_def after_scan_def spawn_consumers_def con_tally_def sum_list_replicate jobs_in_hand_def)

lemma status_ok_recorded:
  "status_ok opts w \<Longrightarrow> status_ok opts (record_scan now n w)" "status_ok opts w \<Longrightarrow> status_ok opts (record_infrastructure_error e w)"
  by (simp_all add: status_ok_def recorded_status recorded_consumers con_tally_def)

lemma worker_step_status:
  assumes "worker_ok w" "status_ok opts w" "worker_step opts jitter ev w = Some w'"
  shows "status_ok opts w'"
proof -
  have same: "status_ok opts v" if "wk_consumers v = wk_consumers w" "ended (wk_status v) = ended (wk_status w)"
      "ws_claimed (wk_status v) = ws_claimed (wk_status w)" "ws_outcomes (wk_status v) = ws_outcomes (wk_status w)" for v
    using assms(2) that by (simp add: status_ok_def con_tally_def)
  have spawn: "wk_consumers w = []" if "before_spawn (wk_run w)" using assms(1) that by (simp add: worker_ok_def calls_counted_def)
  show ?thesis
  proof (cases ev)
    case (RunMoves x)
    then have s: "run_step opts x w = Some w'" using assms(3) by simp
    show ?thesis
    proof (cases "wk_run w")
      case (RunAnswered first now r)
      then have f: "first \<Longrightarrow> wk_consumers w = []" using spawn by (simp add: before_spawn_def)
      show ?thesis
      proof (cases r)
        case (Inl e)
        then show ?thesis using s RunAnswered by (intro same) (auto simp: run_step_def split: if_splits)
      next
        case (Inr n)
        then have "w' = after_scan opts first (record_scan now n w)" using s RunAnswered by (simp add: run_step_def)
        then show ?thesis using after_scan_counts [OF status_ok_recorded(1) [OF assms(2)], of first now n] f by (simp add: recorded_consumers)
      qed
    next
      case (RunFailed first e)
      then have f: "first \<Longrightarrow> wk_consumers w = []" using spawn by (simp add: before_spawn_def)
      have "w' = after_scan opts first (record_infrastructure_error e w)" using s RunFailed by (simp add: run_step_def)
      then show ?thesis using after_scan_counts [OF status_ok_recorded(2) [OF assms(2)], of first e] f by (simp add: recorded_consumers)
    next
      case RunLeaving
      then have "w' = finish_run (out_now x) w" using s by (simp add: run_step_def split: if_splits)
      then show ?thesis by (intro same) (simp_all add: finish_run_def close_done_def Let_def ended_def)
    qed (use s in \<open>auto simp: run_step_def intro!: same split: if_splits\<close>)
  next
    case (ConsumerMoves k x)
    then show ?thesis using assms(3) consumer_step_status [OF assms(2)] by simp
  qed (use assms(3) in \<open>auto simp: start_worker_def drain_worker_def cancel_worker_def close_drain_def close_done_def Let_def ended_def
      intro!: same split: if_splits sum.splits\<close>)
qed

text \<open>
  A worker never has more jobs in hand than its concurrency, reports at most one end for every claim,
  and keeps at most the last 16 outcomes.
\<close>

theorem worker_bounds:
  assumes "run_worker opts jitter evs new_worker = Some w"
  shows "con_tally jobs_in_hand w \<le> nat (op_concurrency opts) \<and> ended (wk_status w) + con_tally jobs_in_hand w \<le> ws_claimed (wk_status w) \<and>
    length (ws_outcomes (wk_status w)) \<le> 16"
proof -
  have "status_ok opts w" if "run_worker opts jitter evs v = Some w" "worker_ok v" "status_ok opts v" for v
    using that
  proof (induction evs arbitrary: v)
    case (Cons ev evs)
    then obtain u where u: "worker_step opts jitter ev v = Some u" "run_worker opts jitter evs u = Some w" by (auto split: option.splits)
    show ?case
      by (rule Cons.IH [OF u(2) worker_step_ok [OF Cons.prems(2) u(1)] worker_step_status [OF Cons.prems(2,3) u(1)]])
  qed simp
  from this [OF assms new_worker_ok] have so: "status_ok opts w"
    by (simp add: status_ok_def new_worker_def new_status_def ended_def con_tally_def)
  have "con_tally jobs_in_hand w \<le> length (wk_consumers w)"
    unfolding con_tally_def by (rule order_trans [OF sum_list_mono [of _ _ "\<lambda>_. 1"]]) (auto simp: jobs_in_hand_def sum_list_triv split: consumer_pc.split)
  then show ?thesis using so by (auto simp: status_ok_def con_tally_def maxStatusOutcomes_def)
qed

section \<open>Examples\<close>

definition demo_outside :: outside where
  "demo_outside = \<lparr>out_now = 5, out_scan = Inr 1,
     out_claim = Inr (Some \<lparr>wj_id = ''1'', wj_token = ''v2'', wj_attempt = 1, wj_music = 1\<rparr>),
     out_discover = None, out_valid = True, out_store = None\<rparr>"

text \<open>A worker that is drained while its first consumer has a job in hand, and the moves that end it.\<close>

definition demo_events :: "worker_event list" where
  "demo_events = StartCall 1 # replicate 3 (RunMoves demo_outside) @ replicate 5 (ConsumerMoves 0 demo_outside) @ [DrainCall 2, DrainReturns]"

definition demo_moves :: "worker_event list" where
  "demo_moves = replicate 2 (ConsumerMoves 0 demo_outside) @ [RunMoves demo_outside, ConsumerMoves 1 demo_outside, RunMoves demo_outside]"

lemma demo_drained:
  obtains w w' where "run_worker demo_options (\<lambda>b. b) demo_events new_worker = Some w" "wk_drain w = DrainReturned" "wk_started w"
    "admission_closed w" "jobs_in_hand (wk_consumers w ! 0) = 1" "run_worker demo_options (\<lambda>b. b) demo_moves w = Some w'" "wk_done_closed w'"
    "wk_state w' = StateStopped" "ws_completed (wk_status w') = 1"
proof -
  have "map_option (\<lambda>w. (wk_drain w, wk_started w, admission_closed w, jobs_in_hand (wk_consumers w ! 0)))
      (run_worker demo_options (\<lambda>b. b) demo_events new_worker) = Some (DrainReturned, True, True, 1)" by code_simp
  moreover have "(case run_worker demo_options (\<lambda>b. b) demo_events new_worker of None \<Rightarrow> None
      | Some w \<Rightarrow> map_option (\<lambda>w. (wk_done_closed w, wk_state w, ws_completed (wk_status w))) (run_worker demo_options (\<lambda>b. b) demo_moves w)) =
      Some (True, StateStopped, 1)" by code_simp
  ultimately show ?thesis using that by (auto split: option.splits)
qed

lemma demo_moves_own: "list_all own_move demo_moves"
  by (simp add: demo_moves_def numeral_2_eq_2)

lemma demo_run: "run_worker opts jitter evs w = Some w1 \<Longrightarrow> run_worker opts jitter evs' w1 = Some w2 \<Longrightarrow> run_worker opts jitter (evs @ evs') w = Some w2"
  by (induction evs arbitrary: w) (auto split: option.splits)

lemma drained_worker_admits_nothing_witness:
  "\<exists>w w'. run_worker demo_options (\<lambda>b. b) demo_events new_worker = Some w \<and> wk_drain w = DrainReturned \<and>
     run_worker demo_options (\<lambda>b. b) demo_moves w = Some w' \<and> \<not> wk_admission w'"
proof -
  obtain w w' where w: "run_worker demo_options (\<lambda>b. b) demo_events new_worker = Some w" "wk_drain w = DrainReturned"
    "run_worker demo_options (\<lambda>b. b) demo_moves w = Some w'" by (rule demo_drained)
  from drained_worker_admits_nothing [OF w] w show ?thesis by blast
qed

lemma drained_worker_stops_witness:
  "\<exists>w w'. run_worker demo_options (\<lambda>b. b) demo_moves w = Some w' \<and> 5 + work_left demo_options w' \<le> work_left demo_options w"
proof -
  obtain w w' where w: "run_worker demo_options (\<lambda>b. b) demo_events new_worker = Some w" "wk_started w" "admission_closed w"
    "run_worker demo_options (\<lambda>b. b) demo_moves w = Some w'" by (rule demo_drained)
  have "length demo_moves = 5" by (simp add: demo_moves_def)
  with drained_worker_stops [OF w(1-3) demo_moves_own w(4)] w(4) show ?thesis by auto
qed

lemma wait_joins_all_witness:
  "\<exists>w. run_worker demo_options (\<lambda>b. b) (demo_events @ demo_moves) new_worker = Some w \<and> \<not> wk_panicked w \<and>
     (\<forall>pc \<in> set (wk_consumers w). pc = ConExited)"
proof -
  obtain w w' where w: "run_worker demo_options (\<lambda>b. b) demo_events new_worker = Some w"
    "run_worker demo_options (\<lambda>b. b) demo_moves w = Some w'" "wk_done_closed w'" "wk_state w' = StateStopped" by (rule demo_drained)
  have r: "run_worker demo_options (\<lambda>b. b) (demo_events @ demo_moves) new_worker = Some w'" by (rule demo_run [OF w(1,2)])
  have "wk_started w'" using reachable_ok [OF r] w(3,4) by (auto simp: worker_ok_def flags_ok_def)
  then show ?thesis using wait_joins_all [OF r] r w(3) by (auto simp: worker_wait_returns_def)
qed

lemma worker_bounds_witness:
  "\<exists>w. run_worker demo_options (\<lambda>b. b) demo_events new_worker = Some w \<and> jobs_in_hand (wk_consumers w ! 0) = 1 \<and>
     con_tally jobs_in_hand w \<le> 2 \<and> length (ws_outcomes (wk_status w)) \<le> 16"
proof -
  obtain w where w: "run_worker demo_options (\<lambda>b. b) demo_events new_worker = Some w" "jobs_in_hand (wk_consumers w ! 0) = 1"
    by (rule demo_drained)
  have "nat (op_concurrency demo_options) = 2" by (simp add: demo_options_def)
  then show ?thesis using worker_bounds [OF w(1)] w by auto
qed

end
