(* ===== verification/EnvConfig.thy ===== *)
theory EnvConfig
  imports LyricsContract Lifecycle
begin

text \<open>
  The settings the process reads from its environment (\<open>src/server/env.go\<close>): durations, bounded
  numbers, the production profile with its fixed paths, the options of the two discovery workers and
  the budget of the shutdown. \<open>env\<close> is \<open>os.LookupEnv\<close>; durations are nanoseconds. The check of the
  console origin is not modelled, it rests on \<open>net/url\<close>.
\<close>

section \<open>Values\<close>

definition Millisecond :: int where "Millisecond = 1000000"
definition Minute :: int where "Minute = 60 * Second"

text \<open>Arithmetic on \<open>int64\<close> wraps.\<close>

definition wrap64 :: "int \<Rightarrow> int" where
  "wrap64 i = (i + 2 ^ 63) mod 2 ^ 64 - 2 ^ 63"

lemma wrap64_id: "- (2 ^ 63) \<le> i \<Longrightarrow> i < 2 ^ 63 \<Longrightarrow> wrap64 i = i"
  by (simp add: wrap64_def)

datatype env_error =
    NotPositiveMs | DurationOverflows | DurationOutOfBounds | NotCanonicalInteger string | NotHours
  | RetryMaxBelowMin | TimeoutNotBelowLease | DrainNotBelowBudget
  | NotProduction | NotBoolean | TimezoneNotUtc | PathNotFixed string | NoAdministrator | CountFailed | WeakMasterKey

definition and_then :: "env_error + 'a \<Rightarrow> ('a \<Rightarrow> env_error + 'b) \<Rightarrow> env_error + 'b" where
  "and_then r f = (case r of Inl e \<Rightarrow> Inl e | Inr v \<Rightarrow> f v)"

lemma and_then_Inr [simp]: "and_then r f = Inr y \<longleftrightarrow> (\<exists>v. r = Inr v \<and> f v = Inr y)"
  by (cases r) (auto simp: and_then_def)

definition getenv :: "(string \<Rightarrow> string option) \<Rightarrow> string \<Rightarrow> string" where
  "getenv env name = (case env name of None \<Rightarrow> [] | Some v \<Rightarrow> v)"

definition env_or :: "(string \<Rightarrow> string option) \<Rightarrow> string \<Rightarrow> string \<Rightarrow> string" where
  "env_or env key fallback = (let v = getenv env key in if v \<noteq> [] then v else fallback)"

definition maxTokenTTLHours :: int where "maxTokenTTLHours = 24 * 30"

definition parse_ttl :: "string \<Rightarrow> env_error + int" where
  "parse_ttl hours =
     (let hours = trim_space hours in
      case parse_int64 hours of None \<Rightarrow> Inl NotHours
      | Some n \<Rightarrow>
          if n \<le> 0 \<or> maxTokenTTLHours < n then Inl NotHours
          else if format_int n \<noteq> hours then Inl NotHours
          else Inr (wrap64 (n * Hour)))"

definition duration_env_ms :: "(string \<Rightarrow> string option) \<Rightarrow> string \<Rightarrow> int \<Rightarrow> int \<Rightarrow> int \<Rightarrow> env_error + int" where
  "duration_env_ms env name fallback minimum maximum =
     (case env name of None \<Rightarrow> Inr fallback
      | Some raw \<Rightarrow>
        if trim_space raw = [] then Inr fallback
        else case parse_int64 (trim_space raw) of None \<Rightarrow> Inl NotPositiveMs
        | Some n \<Rightarrow>
            if n \<le> 0 then Inl NotPositiveMs
            else if n > (2 ^ 63 - 1) div Millisecond then Inl DurationOverflows
            else let duration = wrap64 (n * Millisecond) in
              if duration < minimum \<or> maximum < duration then Inl DurationOutOfBounds else Inr duration)"

definition bounded_int_env :: "(string \<Rightarrow> string option) \<Rightarrow> string \<Rightarrow> int \<Rightarrow> int \<Rightarrow> int \<Rightarrow> env_error + int" where
  "bounded_int_env env name fallback minimum maximum =
     (case env name of None \<Rightarrow> Inr fallback
      | Some raw \<Rightarrow>
        if trim_space raw = [] then Inr fallback
        else let text = trim_space raw in
          case parse_int64 text of None \<Rightarrow> Inl (NotCanonicalInteger name)
          | Some n \<Rightarrow> if format_int n \<noteq> text \<or> n < minimum \<or> maximum < n then Inl (NotCanonicalInteger name) else Inr n)"

lemma duration_env_ms_bounds:
  assumes "duration_env_ms env name fallback minimum maximum = Inr d" "minimum \<le> fallback" "fallback \<le> maximum"
  shows "minimum \<le> d \<and> d \<le> maximum \<and>
    (d = fallback \<or> (\<exists>raw n. env name = Some raw \<and> parse_int64 (trim_space raw) = Some n \<and> d = n * Millisecond))"
proof (cases "env name")
  case (Some raw)
  show ?thesis
  proof (cases "trim_space raw = [] \<or> parse_int64 (trim_space raw) = None")
    case False
    then obtain n where n: "parse_int64 (trim_space raw) = Some n" by blast
    with assms(1) Some False have b: "\<not> n \<le> 0" "\<not> n > (2 ^ 63 - 1) div Millisecond" "\<not> (wrap64 (n * Millisecond) < minimum \<or> maximum < wrap64 (n * Millisecond))"
      "d = wrap64 (n * Millisecond)" by (simp_all add: duration_env_ms_def Let_def split: if_splits)
    have "n * Millisecond < 2 ^ 63" "0 < n * Millisecond" using b(1,2) by (simp_all add: Millisecond_def)
    then have "d = n * Millisecond" using b(4) wrap64_id by simp
    then show ?thesis using b(3,4) n Some by auto
  qed (use assms Some in \<open>auto simp: duration_env_ms_def split: if_splits\<close>)
qed (use assms in \<open>auto simp: duration_env_ms_def\<close>)

lemma bounded_int_env_bounds:
  assumes "bounded_int_env env name fallback minimum maximum = Inr n" "minimum \<le> fallback" "fallback \<le> maximum"
  shows "minimum \<le> n \<and> n \<le> maximum"
  using assms by (auto simp: bounded_int_env_def Let_def split: option.splits if_splits)

section \<open>The production profile\<close>

definition runtimeProfileNextProduction :: string where "runtimeProfileNextProduction = ''next-production''"

text \<open>\<open>strconv.ParseBool\<close>.\<close>

definition parse_bool :: "string \<Rightarrow> bool option" where
  "parse_bool s =
     (if s \<in> set [''1'', ''t'', ''T'', ''TRUE'', ''true'', ''True''] then Some True
      else if s \<in> set [''0'', ''f'', ''F'', ''FALSE'', ''false'', ''False''] then Some False else None)"

definition parse_production_mode :: "string \<Rightarrow> env_error + bool" where
  "parse_production_mode s =
     (if trim_space s = [] then Inr False
      else case parse_bool (trim_space s) of None \<Rightarrow> Inl NotBoolean | Some b \<Rightarrow> Inr b)"

definition resolve_production_mode :: "string \<Rightarrow> string \<Rightarrow> env_error + bool" where
  "resolve_production_mode profile s =
     (if profile = runtimeProfileNextProduction \<and> s \<noteq> ''true'' then Inl NotProduction else parse_production_mode s)"

definition validate_runtime_timezone :: "bool \<Rightarrow> string \<Rightarrow> bool \<Rightarrow> env_error option" where
  "validate_runtime_timezone production s configured =
     (if production \<and> (\<not> configured \<or> s \<noteq> ''UTC'') then Some TimezoneNotUtc else None)"

text \<open>The three paths differ in their names and values only.\<close>

definition resolve_path :: "string \<Rightarrow> string \<Rightarrow> string \<Rightarrow> bool \<Rightarrow> string \<Rightarrow> bool \<Rightarrow> env_error + string" where
  "resolve_path name fixed fallback production s configured =
     (if production then (if \<not> configured \<or> s \<noteq> fixed then Inl (PathNotFixed name) else Inr s)
      else if s = [] then Inr fallback else Inr s)"

definition resolve_web_dir :: "bool \<Rightarrow> string \<Rightarrow> bool \<Rightarrow> env_error + string" where
  "resolve_web_dir = resolve_path ''WEB_DIR'' ''/app/web'' ''./web''"

definition resolve_db_path :: "bool \<Rightarrow> string \<Rightarrow> bool \<Rightarrow> env_error + string" where
  "resolve_db_path = resolve_path ''DB_PATH'' ''/data/moesekai.db'' ''./data/moesekai.db''"

definition resolve_data_dir :: "bool \<Rightarrow> string \<Rightarrow> bool \<Rightarrow> env_error + string" where
  "resolve_data_dir = resolve_path ''DATA_DIR'' ''/data'' ''./data''"

text \<open>\<open>admins\<close> is what \<open>CountAdmins\<close> answers.\<close>

definition validate_production_admin :: "bool \<Rightarrow> nat option \<Rightarrow> env_error option" where
  "validate_production_admin production admins =
     (if \<not> production then None
      else case admins of None \<Rightarrow> Some CountFailed | Some n \<Rightarrow> if n = 0 then Some NoAdministrator else None)"

definition validate_production_master_key :: "bool \<Rightarrow> string \<Rightarrow> env_error option" where
  "validate_production_master_key production key =
     (let key = trim_space key in
      if production \<and> (length key < 32 \<or> key = ''replace-with-at-least-32-random-bytes'') then Some WeakMasterKey else None)"

text \<open>A production binary runs in production mode, on the fixed paths.\<close>

lemma production_binary_fixed:
  assumes "resolve_production_mode runtimeProfileNextProduction s = Inr production"
    "resolve_web_dir production web wc = Inr web_dir" "resolve_db_path production dbp dc = Inr db_path" "resolve_data_dir production dat ac = Inr data_dir"
  shows "production \<and> web_dir = ''/app/web'' \<and> db_path = ''/data/moesekai.db'' \<and> data_dir = ''/data''"
proof -
  have s: "s = ''true''" using assms(1) by (simp add: resolve_production_mode_def split: if_splits)
  have "trim_space ''true'' = ''true''" by (rule trim_code) (simp add: code_char_def is_digit_def)
  then have "production" using assms(1) s by (simp add: resolve_production_mode_def parse_production_mode_def parse_bool_def)
  with assms(2-4) show ?thesis
    by (auto simp: resolve_web_dir_def resolve_db_path_def resolve_data_dir_def resolve_path_def split: if_splits)
qed

section \<open>The discovery workers\<close>

definition lyrics_discovery_options :: "(string \<Rightarrow> string option) \<Rightarrow> env_error + worker_options" where
  "lyrics_discovery_options env =
     and_then (duration_env_ms env ''LYRICS_DISCOVERY_SCAN_MS'' (6 * Hour) Minute (7 * 24 * Hour)) (\<lambda>scan.
     and_then (duration_env_ms env ''LYRICS_DISCOVERY_LEASE_MS'' (2 * Minute) (10 * Second) (24 * Hour)) (\<lambda>lease.
     and_then (duration_env_ms env ''LYRICS_DISCOVERY_IDLE_MS'' (2 * Second) (100 * Millisecond) Minute) (\<lambda>idle.
     and_then (duration_env_ms env ''LYRICS_DISCOVERY_RETRY_MIN_MS'' (30 * Second) Second (24 * Hour)) (\<lambda>rmin.
     and_then (duration_env_ms env ''LYRICS_DISCOVERY_RETRY_MAX_MS'' (30 * Minute) Second (30 * 24 * Hour)) (\<lambda>rmax.
     and_then (duration_env_ms env ''LYRICS_DISCOVERY_JOB_TIMEOUT_MS'' (30 * Second) Second (10 * Minute)) (\<lambda>timeout.
     and_then (bounded_int_env env ''LYRICS_DISCOVERY_CONCURRENCY'' 4 1 16) (\<lambda>concurrency.
       if rmax < rmin then Inl RetryMaxBelowMin
       else if lease \<le> timeout then Inl TimeoutNotBelowLease
       else Inr \<lparr>op_scan = scan, op_lease = lease, op_timeout = timeout, op_idle = idle, op_retry_min = rmin, op_retry_max = rmax,
              op_concurrency = concurrency\<rparr>)))))))"

definition lyrics_fetch_options :: "(string \<Rightarrow> string option) \<Rightarrow> env_error + worker_options" where
  "lyrics_fetch_options env =
     and_then (duration_env_ms env ''LYRICS_FETCH_REVISION_LEASE_MS'' (2 * Minute) (10 * Second) (24 * Hour)) (\<lambda>lease.
     and_then (duration_env_ms env ''LYRICS_FETCH_REVISION_IDLE_MS'' (2 * Second) (100 * Millisecond) Minute) (\<lambda>idle.
     and_then (duration_env_ms env ''LYRICS_FETCH_REVISION_RETRY_MIN_MS'' (30 * Second) Second (24 * Hour)) (\<lambda>rmin.
     and_then (duration_env_ms env ''LYRICS_FETCH_REVISION_RETRY_MAX_MS'' (30 * Minute) Second (30 * 24 * Hour)) (\<lambda>rmax.
     and_then (duration_env_ms env ''LYRICS_FETCH_REVISION_JOB_TIMEOUT_MS'' (30 * Second) Second (10 * Minute)) (\<lambda>timeout.
     and_then (bounded_int_env env ''LYRICS_FETCH_REVISION_CONCURRENCY'' 4 1 16) (\<lambda>concurrency.
       if rmax < rmin then Inl RetryMaxBelowMin
       else if lease \<le> timeout then Inl TimeoutNotBelowLease
       else Inr \<lparr>op_scan = Hour, op_lease = lease, op_timeout = timeout, op_idle = idle, op_retry_min = rmin, op_retry_max = rmax,
              op_concurrency = concurrency\<rparr>))))))"

lemmas duration_defs = Hour_def Minute_def Second_def Millisecond_def maxLeaseDuration_def maxRetryDelay_def

text \<open>What the bounds of the settings come to for the options of a worker.\<close>

lemma options_fit:
  assumes "1 \<le> scan" "10 * Second \<le> lease" "lease \<le> 24 * Hour" "100 * Millisecond \<le> idle" "Second \<le> rmin" "rmax \<le> 30 * 24 * Hour"
    "Second \<le> timeout" "1 \<le> concurrency" "concurrency \<le> 16" "\<not> rmax < rmin" "\<not> lease \<le> timeout"
    "opts = \<lparr>op_scan = scan, op_lease = lease, op_timeout = timeout, op_idle = idle, op_retry_min = rmin, op_retry_max = rmax,
       op_concurrency = concurrency\<rparr>"
  shows "validate_options opts = None \<and> op_lease opts \<le> maxLeaseDuration \<and> 1000000 \<le> op_retry_min opts \<and> op_retry_max opts \<le> maxRetryDelay"
  using assms by (simp add: validate_options_def maxWorkerConcurrency_def duration_defs)

text \<open>
  C19:
  Whatever the environment holds, the options of the two discovery workers are refused with an error
  or accepted by New, with leases and retry delays the queue accepts.
\<close>

theorem env_options_valid:
  assumes "lyrics_discovery_options env = Inr opts \<or> lyrics_fetch_options env = Inr opts"
  shows "validate_options opts = None \<and> op_lease opts \<le> maxLeaseDuration \<and> 1000000 \<le> op_retry_min opts \<and> op_retry_max opts \<le> maxRetryDelay"
  using assms
proof
  assume "lyrics_discovery_options env = Inr opts"
  then obtain scan lease idle rmin rmax timeout n where
    s: "duration_env_ms env ''LYRICS_DISCOVERY_SCAN_MS'' (6 * Hour) Minute (7 * 24 * Hour) = Inr scan"
      "duration_env_ms env ''LYRICS_DISCOVERY_LEASE_MS'' (2 * Minute) (10 * Second) (24 * Hour) = Inr lease"
      "duration_env_ms env ''LYRICS_DISCOVERY_IDLE_MS'' (2 * Second) (100 * Millisecond) Minute = Inr idle"
      "duration_env_ms env ''LYRICS_DISCOVERY_RETRY_MIN_MS'' (30 * Second) Second (24 * Hour) = Inr rmin"
      "duration_env_ms env ''LYRICS_DISCOVERY_RETRY_MAX_MS'' (30 * Minute) Second (30 * 24 * Hour) = Inr rmax"
      "duration_env_ms env ''LYRICS_DISCOVERY_JOB_TIMEOUT_MS'' (30 * Second) Second (10 * Minute) = Inr timeout"
      "bounded_int_env env ''LYRICS_DISCOVERY_CONCURRENCY'' 4 1 16 = Inr n"
    and o: "\<not> rmax < rmin" "\<not> lease \<le> timeout" "opts = \<lparr>op_scan = scan, op_lease = lease, op_timeout = timeout, op_idle = idle,
       op_retry_min = rmin, op_retry_max = rmax, op_concurrency = n\<rparr>"
    by (auto simp: lyrics_discovery_options_def split: if_splits)
  show ?thesis
    by (rule options_fit [OF _ _ _ _ _ _ _ _ _ o])
      (use duration_env_ms_bounds [OF s(1)] duration_env_ms_bounds [OF s(2)] duration_env_ms_bounds [OF s(3)] duration_env_ms_bounds [OF s(4)]
        duration_env_ms_bounds [OF s(5)] duration_env_ms_bounds [OF s(6)] bounded_int_env_bounds [OF s(7)] in \<open>simp_all add: duration_defs\<close>)
next
  assume "lyrics_fetch_options env = Inr opts"
  then obtain lease idle rmin rmax timeout n where
    s: "duration_env_ms env ''LYRICS_FETCH_REVISION_LEASE_MS'' (2 * Minute) (10 * Second) (24 * Hour) = Inr lease"
      "duration_env_ms env ''LYRICS_FETCH_REVISION_IDLE_MS'' (2 * Second) (100 * Millisecond) Minute = Inr idle"
      "duration_env_ms env ''LYRICS_FETCH_REVISION_RETRY_MIN_MS'' (30 * Second) Second (24 * Hour) = Inr rmin"
      "duration_env_ms env ''LYRICS_FETCH_REVISION_RETRY_MAX_MS'' (30 * Minute) Second (30 * 24 * Hour) = Inr rmax"
      "duration_env_ms env ''LYRICS_FETCH_REVISION_JOB_TIMEOUT_MS'' (30 * Second) Second (10 * Minute) = Inr timeout"
      "bounded_int_env env ''LYRICS_FETCH_REVISION_CONCURRENCY'' 4 1 16 = Inr n"
    and o: "\<not> rmax < rmin" "\<not> lease \<le> timeout" "opts = \<lparr>op_scan = Hour, op_lease = lease, op_timeout = timeout, op_idle = idle,
       op_retry_min = rmin, op_retry_max = rmax, op_concurrency = n\<rparr>"
    by (auto simp: lyrics_fetch_options_def split: if_splits)
  show ?thesis
    by (rule options_fit [OF _ _ _ _ _ _ _ _ _ o])
      (use duration_env_ms_bounds [OF s(1)] duration_env_ms_bounds [OF s(2)] duration_env_ms_bounds [OF s(3)] duration_env_ms_bounds [OF s(4)]
        duration_env_ms_bounds [OF s(5)] bounded_int_env_bounds [OF s(6)] in \<open>simp_all add: duration_defs\<close>)
qed

section \<open>The shutdown\<close>

definition shutdown_ms :: "(string \<Rightarrow> string option) \<Rightarrow> string \<Rightarrow> int \<Rightarrow> env_error + int" where
  "shutdown_ms env name fallback =
     (let text = trim_space (getenv env name); text = (if text = [] then format_int fallback else text) in
      case parse_int64 text of None \<Rightarrow> Inl (NotCanonicalInteger name)
      | Some ms \<Rightarrow> if ms \<le> 0 then Inl (NotCanonicalInteger name) else Inr (wrap64 (ms * Millisecond)))"

definition shutdown_config :: "(string \<Rightarrow> string option) \<Rightarrow> env_error + int \<times> int" where
  "shutdown_config env =
     and_then (shutdown_ms env ''SHUTDOWN_BUDGET_MS'' 25000) (\<lambda>budget.
     and_then (shutdown_ms env ''SHUTDOWN_DRAIN_MS'' 2000) (\<lambda>drain_for.
       if budget \<le> drain_for then Inl DrainNotBelowBudget else Inr (budget, drain_for)))"

lemma trim_format_int: "0 \<le> n \<Longrightarrow> trim_space (format_int n) = format_int n"
proof -
  assume "0 \<le> n"
  then have "format_int n = format_uint (nat n)" by (simp add: format_int_def)
  moreover have "list_all code_char (format_uint (nat n))"
    using format_uint_digits [of "nat n"] by (auto simp: list_all_iff code_char_def)
  ultimately show ?thesis by (simp add: trim_code)
qed

lemma format_int_ne [simp]: "format_int n \<noteq> []"
  by (simp add: format_int_def)

lemma shutdown_ms_set: "env name = Some (format_int n) \<Longrightarrow> 0 < n \<Longrightarrow> n < 2 ^ 63 \<Longrightarrow> shutdown_ms env name fallback = Inr (wrap64 (n * Millisecond))"
  using parse_int64_format [of n] trim_format_int [of n] by (simp add: shutdown_ms_def getenv_def Let_def)

lemma shutdown_ms_default: "env name = None \<Longrightarrow> 0 < n \<Longrightarrow> n < 2 ^ 63 \<Longrightarrow> shutdown_ms env name n = Inr (wrap64 (n * Millisecond))"
  using parse_int64_format [of n] by (simp add: shutdown_ms_def getenv_def Let_def)

text \<open>
  C20:
  The settings of the shutdown are checked without the guard against overflow that the other durations
  have: the process starts with a number of milliseconds whose nanoseconds do not fit in 64 bits, the
  time to drain is negative, and the shutdown returns at once, without draining, cancelling or waiting.
\<close>

theorem shutdown_config_wraps:
  "\<exists>env budget drain_for. shutdown_config env = Inr (budget, drain_for) \<and> drain_for < 0 \<and>
     (\<forall>has_exit answers. run_shutdown budget drain_for has_exit answers = (Some DrainNotShorter, []))"
proof -
  let ?env = "\<lambda>name. if name = ''SHUTDOWN_DRAIN_MS'' then Some (format_int 9223372036855) else None"
  have "shutdown_ms ?env ''SHUTDOWN_BUDGET_MS'' 25000 = Inr (wrap64 (25000 * Millisecond))"
    by (rule shutdown_ms_default) simp_all
  moreover have "shutdown_ms ?env ''SHUTDOWN_DRAIN_MS'' 2000 = Inr (wrap64 (9223372036855 * Millisecond))"
    by (rule shutdown_ms_set) simp_all
  ultimately have "shutdown_config ?env = Inr (25000000000, - 9223372036854551616)"
    by (simp add: shutdown_config_def and_then_def wrap64_def Millisecond_def)
  moreover have "run_shutdown 25000000000 (- 9223372036854551616) has_exit answers = (Some DrainNotShorter, [])" for has_exit answers
    by (simp add: run_shutdown_def)
  ultimately show ?thesis by (intro exI [of _ ?env] exI [of _ 25000000000] exI [of _ "- 9223372036854551616"]) simp
qed

text \<open>Below that, an accepted configuration is one the shutdown goes through with.\<close>

lemma shutdown_ms_small:
  assumes "shutdown_ms env name fallback = Inr d" "\<And>n. parse_int64 (trim_space (getenv env name)) = Some n \<Longrightarrow> n < 2 ^ 63 div Millisecond"
    "0 < fallback" "fallback < 2 ^ 63 div Millisecond"
  shows "0 < d"
proof -
  let ?t = "trim_space (getenv env name)"
  obtain n where n: "parse_int64 (if ?t = [] then format_int fallback else ?t) = Some n" "0 < n" "d = wrap64 (n * Millisecond)"
    using assms(1) by (auto simp: shutdown_ms_def Let_def split: option.splits if_splits)
  have "n < 2 ^ 63 div Millisecond"
    using n(1) assms(2-4) parse_int64_format [of fallback] by (auto simp: Millisecond_def split: if_splits)
  then show ?thesis using n(2,3) wrap64_id [of "n * Millisecond"] by (simp add: Millisecond_def)
qed

lemma shutdown_config_fits:
  assumes "shutdown_config env = Inr (budget, drain_for)"
    "\<And>name n. parse_int64 (trim_space (getenv env name)) = Some n \<Longrightarrow> n < 2 ^ 63 div Millisecond"
  shows "0 < drain_for \<and> drain_for < budget"
proof -
  have s: "shutdown_ms env ''SHUTDOWN_DRAIN_MS'' 2000 = Inr drain_for" "\<not> budget \<le> drain_for"
    using assms(1) by (auto simp: shutdown_config_def split: if_splits)
  show ?thesis using shutdown_ms_small [OF s(1) assms(2)] s(2) by (simp add: Millisecond_def)
qed

section \<open>Examples\<close>

lemma env_options_valid_witness:
  "\<exists>opts. lyrics_discovery_options (\<lambda>_. None) = Inr opts \<and> validate_options opts = None \<and> op_retry_max opts \<le> maxRetryDelay"
proof -
  have "\<not> isl (lyrics_discovery_options (\<lambda>_. None))"
    by (simp add: lyrics_discovery_options_def duration_env_ms_def bounded_int_env_def and_then_def duration_defs)
  then obtain opts where o: "lyrics_discovery_options (\<lambda>_. None) = Inr opts" by (auto simp: isl_def split: sum.splits) (metis old.sum.exhaust)
  then show ?thesis using env_options_valid [of "\<lambda>_. None" opts] by blast
qed

end
