(* ===== verification/Spec2Isabelle.thy ===== *)
theory Spec2Isabelle
  imports EditorGateApi Lifecycle AuthLimiter EntryAI CategoryBatch SideStoryEdit SideStoryCatalog JsonStrict SseHub Accounts CollabService EventTranslate LyricsWorker EnvConfig
begin

text \<open>
  NextTrans is the translation and proof-reading system of a game's texts: one Go process
  (src/server) over one SQLite database, with a web console. Editors change entries, event and
  side stories and lyrics through HTTP handlers; producers (the synchronisation with upstream data
  and AI translation) write the same tables; public files are made from them. This development
  models the parts where the program itself decides something, and proves what it promises.
  Paths below are under src/server/internal.

  How the parts interact. A write of an editor passes the token check (auth), then the gate that
  keeps editors and producers apart (editorgate, api/editor_gate.go), then changes rows in one
  transaction (store) and is announced to the consoles (sse). Producers hold the gate alone and
  write the same rows (store/cn_apply.go, side_story_apply.go, side_story_catalog.go). Drafts of
  lyrics are edited together over WebSockets (collab): a ticket is bound to a token, to a state of
  the gate and to the epoch of a room; the rooms are kept in SQLite. A process that ends drains
  requests, producers and connections (lifecycle).

  Base. Prelude: SQL tables as association lists with their primary key, the fate of a database
  call, and the interfaces: keyed_store (instance tbl), and the loops over keyed rows. GoText,
  GoConv, GoJson, GoHeap: what the code uses of the Go library (UTF-8 and white space, ParseUint
  and base64, the JSON of strings, container/heap); a Go string is its list of bytes.

  EditorGate (editorgate/gate.go): the record of the mutex-protected fields, every operation as a
  function on it, and gate_step, the interleavings of any number of editors and producers at the
  granularity of the critical sections, with the condition variable as a set of sleeping
  producers. Lemmas: mutual exclusion, freshness of strict admission, exact counters, no lost
  wake-up, and that every reachable state can run to the end. EditorGateApi (api/editor_gate.go,
  the wrappers of api/server.go): the header with the loaded state, the answers of the refused
  admissions, and that a handler runs exactly when admitted. Lifecycle (lifecycle/state.go,
  shutdown.go): draining and the bounded shutdown.

  AuthLimiter (api/auth_limiter.go): fixed windows and their expiry heap; refinement of the map of
  open windows. Accounts (auth/auth.go, auth/middleware.go): the users table, tokens and guards;
  bcrypt and the JWT library are parameters (bcrypt_checks, jwt_reads_back). Lemmas: token
  versions only grow (evolves), an administrator remains, rows stay well-formed.

  ContentModel (model/model.go), EntryStore, EntryConsole, EntryAI, EntryLocale, CategoryBatch
  (store/store.go, cn_apply.go, localization.go, category_batch.go): the entries table and its
  localized rows. The iteration order of a Go map is the order of an association list, and the
  theorems show where it matters not. Lemmas: what a synchronisation, an import, an AI run and a
  batch write, row by row; revisions identify contents up to a collision of SHA-256, which is a
  parameter.

  SideStoryTypes, SideStoryApply, SideStoryEdit, SideStoryCatalog (store/side_story_types.go,
  side_story_apply.go, side_story_edit.go, side_story_catalog.go, migration v39): card stories and
  area talks, from the catalog and the work queue over fetched scripts to edits. Lemmas: the state
  and retry invariant of an episode, exact counts of lost human translations, edits all or nothing
  against revisions. ParseSideStoryScript is the parameter that script_ok describes.

  JsonStrict (jsonstrict/scanner.go): the scanner with its explicit frames of keys, proved to
  accept exactly a grammar of JSON texts with the options. Fuel: scan is given twice the length
  of the input and one, and scan_terminates shows that this always suffices.

  SseHub (sse/hub.go): clients with bounded queues, sse_step for the hub's critical sections and
  the handlers of the connections. Lemmas: streams are exact until they are cut off, limits, and a
  run in which the announced presence is wrong in the end.

  CollabStore (collab/persistence.go, the first part of collab/document.go, db/migrations_v31_v34.go):
  rooms, the log of updates, checkpoints. CRDT updates are byte strings; merge and encode are
  parameters and merge_joins is what is relied on: a merged update carries the union of the
  contents. draft_step is the specification (per song an epoch and a set of contents), and
  every operation refines it; from it follow the fate of accepted updates and of retired rooms,
  for fewer operations than there are epochs left in an int64. At the largest epoch
  replaceFromAuthoritative starts over at 1, which is why the bound is there; bumpAllEpochs leaves
  the integers of SQLite there, and every later Scan of such an epoch fails (unreadable). ensureRoom
  reads, inserts and reads again with answers of their own, and open_room is also an operation by
  itself, for an INSERT that lands between those of other tickets. CollabService
  (collab/service.go): tickets, admission, registries, retirement; collab_step has the critical
  sections of all of them, with arbitrary answers of accounts, gate, database and WebSocket server.

  EventTables, EventScenario, EventEdit, EventTranslate (store/event_store.go, event_scenario.go,
  event_locale.go, event_translate.go): event stories in their two forms, the older rows and the
  segments with one localization per locale; canonical segments, edits in both forms, the order of
  the lines of an episode, and automatic translation, its targets read by separate queries. SHA-256 (digest),
  the canonical form of a scenario (canonicalize) and its talks (talks) are parameters. Lemmas: an
  edit reads back and changes each table exactly as stated, a reorder is the list first and the rest after it, a
  translation run only fills what nobody protected.

  LyricsQueue, LyricsJobs (store/lyrics_discovery_jobs.go, the lease tokens and the terminal failure of
  store/lyrics_discovery_adapter.go): the queue of lyrics discovery jobs as its SQL table with its
  constraints, and every operation on it, with the readings of the clock as arguments. job_step is
  the life of one job; every operation is steps of jobs (queue_step_moves). Lemmas: a lease ends
  once, attempts are bounded, final states are final, claims take the first job that is due,
  enqueueing is idempotent, and a job whose last attempt is retried is stuck. Jobs are enqueued
  without a fixed candidate; whether the JSON of a stored one decodes is the parameter loadable.
  LyricsContract (lyricsdiscovery/contract.go, retryDelay of worker.go, the adapter of the store):
  error codes, options, delays, and the claims, retries and failures of a worker as operations of
  the queue; a retry within the lease is accepted, a job of a song that changed is dead-lettered.
  LyricsWorker (lyricsdiscovery/worker.go): the worker as a state machine of the scanner, the
  consumers and the calls to start, drain, cancel and wait; worker_step makes one critical section
  or one call of the store, with any answer. Lemmas: nothing is claimed after a drain, the worker
  stops within work_left moves and is never stuck, channels are closed once, Wait joins all threads.
  EnvConfig (src/server/env.go): the settings of the environment; the options read from it are those
  the queue accepts, and an overflow of the shutdown settings is shown.

  Not modelled. Checkpoint of collab/checkpoint.go around its transactions and the translation of
  JSON to CRDT trees: both work on the trees of a library. Of the event stories the import, the
  backfill of scenarios, the parser of talks, the summaries and the snapshot of an episode;
  scenario languages and the catalog tables. The lyrics documents, their
  editions, public projections, and of their discovery everything but the queue and
  its worker: several ten
  thousand lines of parsers of wiki pages and validators of nested documents. Backup and restore, the migrations, the files that
  are served, the HTTP routes, the wiring of the process and the clients of AI services: I/O, SQL text or
  projections of what is modelled. Time is a number passed to the operations; memory limits, the
  scheduler beyond interleaving and the Go garbage collector are not part of the model.
\<close>

end
